(* ===== verification/Ludlc_Prelude.thy ===== *)
theory Ludlc_Prelude
  imports Main "HOL-Library.Word"
begin

text \<open>
  Shared vocabulary of the development: the machine types of a default build
  (\<open>src/src/include/ludlc_types.h\<close> and \<open>ludlc_proto.h\<close>), the wrap-around
  arithmetic of sequence numbers and ring indices, and the generic list and word
  lemmas the component theories rest on. The collections declared here are filled by the
  components: \<open>flag_simps\<close> computes on flag words, \<open>id_simps\<close> carries sequence
  arithmetic to natural numbers.
\<close>

unbundle bit_operations_syntax

named_theorems flag_simps \<open>reading and writing single bits of a flag word\<close>
named_theorems id_simps \<open>sequence arithmetic read as arithmetic modulo 128\<close>

type_synonym octet = "8 word"
type_synonym uint8 = "8 word"
type_synonym uint16 = "16 word"
type_synonym uint32 = "32 word"

text \<open>A NULL pointer is \<^const>\<open>None\<close>; another pointer is the octets it points at.\<close>
type_synonym buffer = "octet list option"

section \<open>Reading words as natural numbers\<close>

lemma unat_take_bit_mod: "unat (take_bit n (x :: 'a::len word)) = unat x mod 2 ^ n"
  by (metis unsigned_take_bit_eq take_bit_eq_mod)

lemma and_127_take_bit: "(x :: 8 word) AND 127 = take_bit 7 x"
  by (simp add: take_bit_eq_mask mask_eq_exp_minus_1)

lemma unat_and_127: "unat ((x :: 8 word) AND 127) = unat x mod 128"
  by (simp only: and_127_take_bit unat_take_bit_mod) simp

lemma ucast_low_octet: "ucast (w AND 0xff) = (ucast (w :: 'a::len word) :: 8 word)"
proof -
  have "(0xff :: 'a word) = mask 8"
    by (simp add: mask_eq_exp_minus_1)
  then have "w AND 0xff = take_bit 8 w"
    by (simp add: take_bit_eq_mask)
  then show ?thesis
    by (intro bit_eqI) (auto simp: bit_simps dest: bit_imp_le_length)
qed

lemma unat_8_less [simp]: "unat (x :: 8 word) < 256"
  using unsigned_less [of x] by simp

lemma unat_minus_8: "unat (a - b :: 8 word) = (unat a + 256 - unat b) mod 256"
proof (cases "unat b \<le> unat a")
  case True
  then have "(unat a + 256 - unat b) mod 256 = (unat a - unat b) mod 256"
    by (metis Nat.add_diff_assoc2 mod_add_self2)
  with True show ?thesis
    using unat_8_less [of a] by (simp add: unat_sub_if')
next
  case False
  with unat_8_less [of a] unat_8_less [of b] show ?thesis
    by (simp add: unat_sub_if')
qed

lemma unat_ucast_8_32 [simp]: "unat (ucast (x :: 8 word) :: 32 word) = unat x"
proof -
  have "unat x < 4294967296"
    using unat_8_less [of x] by linarith
  then show ?thesis
    by (simp add: unsigned_ucast_eq take_bit_eq_mod)
qed

lemma unat_16_less: "unat (x :: 16 word) < 65536"
  using unsigned_less [of x] by simp

lemma unat_ucast_8_16 [simp]: "unat (ucast (x :: 8 word) :: 16 word) = unat x"
proof -
  have "unat x < 65536"
    using unat_8_less [of x] by linarith
  then show ?thesis
    by (simp add: unsigned_ucast_eq take_bit_eq_mod)
qed

lemma unat_suc_16: "unat (x :: 16 word) < unat (y :: 16 word) \<Longrightarrow> unat (x + 1) = Suc (unat x)"
  using unat_16_less [of y] by (simp add: unat_word_ariths)

lemma unat_and_pow2_mask:
  assumes "unat w = 2 ^ k"
  shows "unat ((x :: 32 word) AND (w - 1)) = unat x mod unat w"
proof -
  have "w = of_nat (unat w)"
    by simp
  with assms have "w = 2 ^ k"
    by simp
  with assms show ?thesis
    by (simp only: take_bit_eq_mask [symmetric] mask_eq_exp_minus_1 [symmetric] unat_take_bit_mod)
qed

section \<open>Sequence numbers\<close>

text \<open>
  An identifier has seven bits of sequence number, the eighth being a flag, and the code
  computes on it with C's promotions and masks the result. The distance from one
  identifier to another is the number the code gets by subtracting and masking.
\<close>

type_synonym ludlc_id_t = "8 word"

definition id_dist :: "ludlc_id_t \<Rightarrow> ludlc_id_t \<Rightarrow> nat" where
  "id_dist a b = unat ((b - a) AND 127)"

definition is_seq :: "ludlc_id_t \<Rightarrow> bool" where
  "is_seq a \<longleftrightarrow> unat a < 128"

lemma is_seq_mask [simp, intro]: "is_seq (x AND 127)"
  by (simp add: is_seq_def unat_and_127)

lemma is_seq_0 [simp, intro]: "is_seq 0"
  by (simp add: is_seq_def)

lemma is_seq_and [id_simps]: "is_seq a \<Longrightarrow> a AND 127 = a"
  by (intro word_unat_eq_iff [THEN iffD2]) (simp add: is_seq_def unat_and_127)

lemma id_dist_less [simp]: "id_dist a b < 128"
  by (simp add: id_dist_def unat_and_127)

lemma id_dist_self [simp]: "id_dist a a = 0"
  by (simp add: id_dist_def)

lemma id_dist_if:
  assumes "is_seq a" "is_seq b"
  shows "id_dist a b = (if unat a \<le> unat b then unat b - unat a else unat b + 128 - unat a)"
proof (cases "unat a \<le> unat b")
  case True
  then have "unat b + 256 - unat a = (unat b - unat a) + 256"
    by simp
  then have "(unat b + 256 - unat a) mod 256 mod 128 = (unat b - unat a) mod 256 mod 128"
    by (simp only: mod_add_self2)
  with True assms show ?thesis
    by (simp add: id_dist_def unat_and_127 unat_minus_8 is_seq_def)
next
  case False
  with assms have "unat b + 256 - unat a = (unat b + 128 - unat a) + 128"
    and "unat b + 128 - unat a < 128" and "unat b + 256 - unat a < 256"
    by (simp_all add: is_seq_def)
  then have "(unat b + 256 - unat a) mod 256 mod 128 = unat b + 128 - unat a"
    by (metis mod_add_self2 mod_less)
  with False show ?thesis
    by (simp add: id_dist_def unat_and_127 unat_minus_8)
qed

lemma mod_128_if: "x < 128 \<Longrightarrow> k < 128 \<Longrightarrow> (x + k) mod 128 = (if x + k < 128 then x + k else x + k - (128::nat))"
  by (auto simp: le_mod_geq)

text \<open>Adding \<open>k\<close> to an identifier, as repeated masked increments do.\<close>

definition id_plus :: "ludlc_id_t \<Rightarrow> nat \<Rightarrow> ludlc_id_t" where
  "id_plus a k = (a + of_nat k) AND 127"

lemma unat_id_plus [id_simps]: "unat (id_plus a k) = (unat a + k) mod 128"
  by (simp add: id_plus_def unat_and_127 unat_word_ariths unat_of_nat mod_mod_cancel mod_simps)

lemma is_seq_plus [simp, intro]: "is_seq (id_plus a k)"
  by (simp add: id_plus_def)

lemma id_suc: "(a + 1) AND 127 = id_plus a 1"
  by (simp add: id_plus_def)

lemma seq_eq_iff: "is_seq a \<Longrightarrow> is_seq b \<Longrightarrow> a = b \<longleftrightarrow> unat a = unat b"
  by (simp add: word_unat_eq_iff)

lemma id_plus_0 [simp]: "is_seq a \<Longrightarrow> id_plus a 0 = a"
  by (simp add: id_plus_def is_seq_and)

lemma id_plus_plus [simp]: "id_plus (id_plus a j) k = id_plus a (j + k)"
  by (intro word_unat_eq_iff [THEN iffD2]) (simp add: unat_id_plus mod_simps add.assoc)

lemma id_plus_dist [simp]: "is_seq a \<Longrightarrow> is_seq b \<Longrightarrow> id_plus a (id_dist a b) = b"
  using mod_128_if [of "unat a" "id_dist a b"] unfolding word_unat_eq_iff
  by (auto simp: unat_id_plus id_dist_if is_seq_def)

lemma id_dist_plus: "is_seq a \<Longrightarrow> k < 128 \<Longrightarrow> id_dist a (id_plus a k) = k"
  using mod_128_if [of "unat a" k] by (auto simp: id_dist_if unat_id_plus is_seq_def)

lemma id_dist_0_iff: "is_seq a \<Longrightarrow> is_seq b \<Longrightarrow> id_dist a b = 0 \<longleftrightarrow> a = b"
  by (metis id_dist_self id_plus_0 id_plus_dist)

text \<open>Distances from one origin decide every other distance.\<close>

lemma id_dist_between:
  assumes "is_seq a" "is_seq b" "is_seq c" "id_dist a b \<le> id_dist a c"
  shows "id_dist b c = id_dist a c - id_dist a b"
  using assms unfolding id_dist_if [OF assms(1,2)] id_dist_if [OF assms(1,3)]
    id_dist_if [OF assms(2,3)] is_seq_def
  by (auto split: if_splits)

lemma id_dist_inj: "is_seq a \<Longrightarrow> is_seq b \<Longrightarrow> is_seq c \<Longrightarrow> id_dist a b = id_dist a c \<Longrightarrow> b = c"
  by (metis id_plus_dist)

section \<open>Rings\<close>

text \<open>Consecutive positions of a ring of \<open>W\<close> slots are distinct within one turn.\<close>

lemma ring_index_inj:
  fixes a :: nat
  assumes "i < j" "j - i < W"
  shows "(a + i) mod W \<noteq> (a + j) mod W"
proof
  assume "(a + i) mod W = (a + j) mod W"
  then have "W dvd (a + j) - (a + i)"
    using assms by (metis mod_eq_dvd_iff_nat add_le_mono le_refl less_imp_le)
  then have "W dvd j - i"
    by simp
  with assms show False
    by (simp add: nat_dvd_not_less)
qed

lemma map_nth_update_other:
  "\<forall>k\<in>set ks. f k \<noteq> i \<Longrightarrow> map (\<lambda>k. xs[i := v] ! f k) ks = map (\<lambda>k. xs ! f k) ks"
  by (auto intro!: map_cong nth_list_update_neq)

lemma upt_Suc_split: "[1..<Suc (Suc n)] = [1..<Suc n] @ [Suc n]"
  by simp

lemma map_upt_shift: "map f [Suc m..<Suc n] = map (\<lambda>k. f (Suc k)) [m..<n]"
  by (simp add: map_Suc_upt [symmetric] comp_def del: upt_Suc)

end
