(* ===== verification/Ludlc_Platform.thy ===== *)
theory Ludlc_Platform
  imports Ludlc_Prelude
begin

text \<open>
  The atomic bit operations of the POSIX port
  (\<open>src/src/lib/platform/posix/ludlc_platform.h\<close>) on one flag word, and the bitset
  claim of \<open>src/src/lib/include/ludlc_platform_api.h\<close> built on them. A flag word is the
  32-bit \<open>ludlc_platform_atomic_t\<close>; a bitset is the list of its words. Each operation is
  one atomic step, so a test-and-set returns the previous value with the new word.
\<close>

section \<open>Flag words\<close>

definition LUDLC_BITS_PER_WORD :: nat where
  "LUDLC_BITS_PER_WORD = 32"

definition LUDLC_BITS_TO_WORDS :: "nat \<Rightarrow> nat" where
  "LUDLC_BITS_TO_WORDS n = (n + LUDLC_BITS_PER_WORD - 1) div LUDLC_BITS_PER_WORD"

definition LUDLC_ATOMIC_MASK :: "nat \<Rightarrow> uint32" where
  "LUDLC_ATOMIC_MASK nr = push_bit (nr mod LUDLC_BITS_PER_WORD) 1"

definition ludlc_platform_test_bit :: "nat \<Rightarrow> uint32 \<Rightarrow> bool" where
  "ludlc_platform_test_bit nr w \<longleftrightarrow> w AND LUDLC_ATOMIC_MASK nr \<noteq> 0"

definition ludlc_platform_set_bit :: "nat \<Rightarrow> uint32 \<Rightarrow> uint32" where
  "ludlc_platform_set_bit nr w = w OR LUDLC_ATOMIC_MASK nr"

definition ludlc_platform_clear_bit :: "nat \<Rightarrow> uint32 \<Rightarrow> uint32" where
  "ludlc_platform_clear_bit nr w = w AND NOT (LUDLC_ATOMIC_MASK nr)"

definition ludlc_platform_test_and_clear_bit :: "nat \<Rightarrow> uint32 \<Rightarrow> bool \<times> uint32" where
  "ludlc_platform_test_and_clear_bit nr w =
     (w AND LUDLC_ATOMIC_MASK nr \<noteq> 0, w AND NOT (LUDLC_ATOMIC_MASK nr))"

definition ludlc_platform_test_and_set_bit :: "nat \<Rightarrow> uint32 \<Rightarrow> bool \<times> uint32" where
  "ludlc_platform_test_and_set_bit nr w =
     (w AND LUDLC_ATOMIC_MASK nr \<noteq> 0, w OR LUDLC_ATOMIC_MASK nr)"

definition ludlc_platform_set_mask :: "uint32 \<Rightarrow> uint32 \<Rightarrow> uint32" where
  "ludlc_platform_set_mask m w = w OR m"

definition ludlc_platform_clear_mask :: "uint32 \<Rightarrow> uint32 \<Rightarrow> uint32" where
  "ludlc_platform_clear_mask m w = w AND NOT m"

lemma test_bit_iff [flag_simps]:
  "nr < 32 \<Longrightarrow> ludlc_platform_test_bit nr w \<longleftrightarrow> bit w nr"
  by (simp add: ludlc_platform_test_bit_def LUDLC_ATOMIC_MASK_def LUDLC_BITS_PER_WORD_def
      bit_iff_and_push_bit_not_eq_0)

lemma bit_atomic_mask:
  "nr < 32 \<Longrightarrow> bit (LUDLC_ATOMIC_MASK nr) m \<longleftrightarrow> m = nr"
  by (auto simp: LUDLC_ATOMIC_MASK_def LUDLC_BITS_PER_WORD_def bit_simps)

lemma bit_set_bit [flag_simps]:
  "nr < 32 \<Longrightarrow> bit (ludlc_platform_set_bit nr w) m \<longleftrightarrow> bit w m \<or> m = nr"
  by (simp add: ludlc_platform_set_bit_def bit_or_iff bit_atomic_mask)

lemma bit_clear_bit [flag_simps]:
  "nr < 32 \<Longrightarrow> bit (ludlc_platform_clear_bit nr w) m \<longleftrightarrow> bit w m \<and> m \<noteq> nr"
  by (auto simp: ludlc_platform_clear_bit_def bit_and_iff bit_not_iff bit_atomic_mask
      dest: bit_imp_le_length)

lemma test_and_set_bit_eq [flag_simps]:
  "nr < 32 \<Longrightarrow> ludlc_platform_test_and_set_bit nr w = (bit w nr, ludlc_platform_set_bit nr w)"
  using test_bit_iff [of nr w]
  by (simp add: ludlc_platform_test_and_set_bit_def ludlc_platform_set_bit_def
      ludlc_platform_test_bit_def)

lemma test_and_clear_bit_eq [flag_simps]:
  "nr < 32 \<Longrightarrow> ludlc_platform_test_and_clear_bit nr w = (bit w nr, ludlc_platform_clear_bit nr w)"
  using test_bit_iff [of nr w]
  by (simp add: ludlc_platform_test_and_clear_bit_def ludlc_platform_clear_bit_def
      ludlc_platform_test_bit_def)

lemma bit_set_mask [flag_simps]:
  "bit (ludlc_platform_set_mask k w) m \<longleftrightarrow> bit w m \<or> bit k m"
  by (simp add: ludlc_platform_set_mask_def bit_or_iff)

lemma bit_clear_mask [flag_simps]:
  "bit (ludlc_platform_clear_mask k w) m \<longleftrightarrow> bit w m \<and> \<not> bit k m"
  by (auto simp: ludlc_platform_clear_mask_def bit_and_iff bit_not_iff dest: bit_imp_le_length)

section \<open>Bitsets\<close>

text \<open>The lowest clear bit: \<open>__builtin_ctz\<close> of the complement counts its trailing zeros.\<close>

definition ludlc_platform_ffz :: "uint32 \<Rightarrow> nat" where
  "ludlc_platform_ffz w =
     (let free = NOT w in
      if free = 0 then LUDLC_BITS_PER_WORD
      else length (takeWhile (\<lambda>i. \<not> bit free i) [0..<LUDLC_BITS_PER_WORD]))"

text \<open>
  With no other claimer between the search and the test-and-set, the bit found free is
  the bit taken, so the inner loop runs at most once per word.
\<close>

fun ludlc_bitset_claim_from :: "nat \<Rightarrow> uint32 list \<Rightarrow> nat \<Rightarrow> int \<times> uint32 list" where
  "ludlc_bitset_claim_from w [] nbits = (-1, [])"
| "ludlc_bitset_claim_from w (x # xs) nbits =
     (let i = ludlc_platform_ffz x in
      if i < LUDLC_BITS_PER_WORD then
        let nr = w * LUDLC_BITS_PER_WORD + i in
        if nr \<ge> nbits then (-1, x # xs)
        else (int nr, snd (ludlc_platform_test_and_set_bit nr x) # xs)
      else
        let (r, ys) = ludlc_bitset_claim_from (w + 1) xs nbits in (r, x # ys))"

definition ludlc_bitset_claim :: "uint32 list \<Rightarrow> nat \<Rightarrow> int \<times> uint32 list" where
  "ludlc_bitset_claim bs nbits =
     (let words = LUDLC_BITS_TO_WORDS nbits;
          (r, ys) = ludlc_bitset_claim_from 0 (take words bs) nbits
      in (r, ys @ drop words bs))"

text \<open>Bit \<open>nr\<close> of a bitset, and releasing it.\<close>

definition bitset_bit :: "uint32 list \<Rightarrow> nat \<Rightarrow> bool" where
  "bitset_bit bs nr \<longleftrightarrow>
     nr div LUDLC_BITS_PER_WORD < length bs \<and>
     ludlc_platform_test_bit nr (bs ! (nr div LUDLC_BITS_PER_WORD))"

definition bitset_clear :: "uint32 list \<Rightarrow> nat \<Rightarrow> uint32 list" where
  "bitset_clear bs nr =
     bs[nr div LUDLC_BITS_PER_WORD :=
       ludlc_platform_clear_bit nr (bs ! (nr div LUDLC_BITS_PER_WORD))]"

lemma test_bit_mod: "ludlc_platform_test_bit nr w = bit w (nr mod 32)"
  using test_bit_iff [of "nr mod 32" w]
  by (simp add: ludlc_platform_test_bit_def LUDLC_ATOMIC_MASK_def LUDLC_BITS_PER_WORD_def)

lemma bit_set_bit_mod: "bit (ludlc_platform_set_bit nr w) m \<longleftrightarrow> bit w m \<or> m = nr mod 32"
  using bit_set_bit [of "nr mod 32" w m]
  by (simp add: ludlc_platform_set_bit_def LUDLC_ATOMIC_MASK_def LUDLC_BITS_PER_WORD_def)

lemma bit_clear_bit_mod: "bit (ludlc_platform_clear_bit nr w) m \<longleftrightarrow> bit w m \<and> m \<noteq> nr mod 32"
  using bit_clear_bit [of "nr mod 32" w m]
  by (simp add: ludlc_platform_clear_bit_def LUDLC_ATOMIC_MASK_def LUDLC_BITS_PER_WORD_def)

lemma snd_test_and_set_bit [simp]:
  "snd (ludlc_platform_test_and_set_bit nr w) = ludlc_platform_set_bit nr w"
  by (simp add: ludlc_platform_test_and_set_bit_def ludlc_platform_set_bit_def)

lemma ffz_spec:
  "(\<forall>i<ludlc_platform_ffz w. bit w i) \<and>
   (ludlc_platform_ffz w < 32 \<and> \<not> bit w (ludlc_platform_ffz w) \<or> ludlc_platform_ffz w = 32)"
proof (cases "NOT w = 0")
  case True
  then have "w = NOT 0"
    by (metis bit.double_compl)
  then have "bit w i" if "i < 32" for i
    using that by (simp add: bit_simps)
  with True show ?thesis
    by (simp add: ludlc_platform_ffz_def LUDLC_BITS_PER_WORD_def)
next
  case False
  let ?P = "\<lambda>i. \<not> bit (NOT w) i" and ?xs = "[0..<32::nat]"
  let ?n = "length (takeWhile ?P ?xs)"
  have n: "ludlc_platform_ffz w = ?n"
    using False by (simp add: ludlc_platform_ffz_def LUDLC_BITS_PER_WORD_def Let_def)
  have le: "?n \<le> 32"
    using length_takeWhile_le [of ?P ?xs] by simp
  have all: "bit w i" if "i < ?n" for i
  proof -
    have "takeWhile ?P ?xs ! i = i"
      using that le by (subst takeWhile_nth) auto
    then have "\<not> bit (NOT w) i"
      using that nth_mem [of i "takeWhile ?P ?xs"] by (metis set_takeWhileD)
    with that le show ?thesis
      by (simp add: bit_not_iff)
  qed
  moreover have "\<not> bit w ?n" if "?n < 32"
    using nth_length_takeWhile [of ?P ?xs] that by (simp add: bit_not_iff)
  ultimately show ?thesis
    using le unfolding n by (cases "?n = 32") auto
qed

text \<open>
  What a claim promises: a bit below \<open>nbits\<close> that was clear is set and nothing else
  moves, or every bit below \<open>nbits\<close> is taken and nothing moves at all.
\<close>

lemma claim_from_spec:
  assumes "ludlc_bitset_claim_from w xs nbits = (r, ys)"
  shows "length ys = length xs \<and>
    (r = -1 \<and> ys = xs \<and> (\<forall>nr<length xs * 32. w * 32 + nr < nbits \<longrightarrow> bitset_bit xs nr) \<or>
     (\<exists>nr<length xs * 32. r = int (w * 32 + nr) \<and> w * 32 + nr < nbits \<and> \<not> bitset_bit xs nr \<and>
        (\<forall>m. bitset_bit ys m \<longleftrightarrow> bitset_bit xs m \<or> m = nr)))"
  using assms
proof (induction xs arbitrary: w r ys)
  case Nil
  then show ?case by simp
next
  case (Cons x xs)
  note fz = ffz_spec [of x]
  have bs: "bitset_bit (z # zs) m \<longleftrightarrow> (if m < 32 then bit z m else bitset_bit zs (m - 32))" for z zs m
  proof (cases "m < 32")
    case True
    then show ?thesis by (simp add: bitset_bit_def test_bit_mod LUDLC_BITS_PER_WORD_def)
  next
    case False
    then have "m div 32 = Suc ((m - 32) div 32)" and "m mod 32 = (m - 32) mod 32"
      by (simp_all add: le_div_geq le_mod_geq)
    with False show ?thesis
      by (simp add: bitset_bit_def test_bit_mod LUDLC_BITS_PER_WORD_def)
  qed
  let ?i = "ludlc_platform_ffz x"
  show ?case
  proof (cases "?i < 32")
    case i: True
    show ?thesis
    proof (cases "w * 32 + ?i \<ge> nbits")
      case True
      with i Cons.prems have "r = -1" "ys = x # xs"
        by (simp_all add: Let_def LUDLC_BITS_PER_WORD_def)
      moreover have "bitset_bit (x # xs) nr" if "w * 32 + nr < nbits" for nr
        using that True fz i by (simp add: bs)
      ultimately show ?thesis by simp
    next
      case False
      with i Cons.prems have r: "r = int (w * 32 + ?i)"
        and ys: "ys = ludlc_platform_set_bit (w * 32 + ?i) x # xs"
        by (simp_all add: Let_def LUDLC_BITS_PER_WORD_def)
      moreover have "bitset_bit ys m \<longleftrightarrow> bitset_bit (x # xs) m \<or> m = ?i" for m
        using i by (auto simp: ys bs bit_set_bit_mod)
      moreover have "\<not> bitset_bit (x # xs) ?i"
        using fz i by (simp add: bs)
      ultimately show ?thesis
        using False i by (intro conjI disjI2 exI [of _ ?i]) auto
    qed
  next
    case False
    with fz have full: "bit x m" if "m < 32" for m
      using that by auto
    obtain zs where zs: "ludlc_bitset_claim_from (w + 1) xs nbits = (r, zs)" and ys: "ys = x # zs"
      using Cons.prems False by (auto simp: Let_def LUDLC_BITS_PER_WORD_def split: prod.splits)
    note IH = Cons.IH [OF zs]
    show ?thesis
    proof (cases "r = -1")
      case True
      with IH have "zs = xs"
        and all: "\<And>nr. nr < length xs * 32 \<Longrightarrow> (w + 1) * 32 + nr < nbits \<Longrightarrow> bitset_bit xs nr"
        by auto
      moreover have "bitset_bit (x # xs) nr" if "nr < length (x # xs) * 32" "w * 32 + nr < nbits" for nr
        using that full all [of "nr - 32"] by (auto simp: bs)
      ultimately show ?thesis
        using True ys by auto
    next
      case r: False
      with IH obtain nr where nr: "nr < length xs * 32" "r = int ((w + 1) * 32 + nr)"
        "(w + 1) * 32 + nr < nbits" "\<not> bitset_bit xs nr"
        "\<forall>m. bitset_bit zs m \<longleftrightarrow> bitset_bit xs m \<or> m = nr" and len: "length zs = length xs"
        by auto
      have "bitset_bit ys m \<longleftrightarrow> bitset_bit (x # xs) m \<or> m = 32 + nr" for m
        using nr(5) by (auto simp: ys bs)
      with nr len show ?thesis
        by (intro conjI disjI2 exI [of _ "32 + nr"]) (auto simp: ys bs)
    qed
  qed
qed

end
