(* ===== verification/Ludlc_Config.thy ===== *)
theory Ludlc_Config
  imports Ludlc_Platform
begin

text \<open>
  The protocol parameters (\<open>src/src/include/ludlc_proto.h\<close>), the packet layout
  constants (\<open>src/src/lib/include/ludlc_packet.h\<close>) and the flag numbers and states of
  a connection (\<open>src/src/lib/include/ludlc_private.h\<close>). What a build chooses with
  \<open>CONFIG_*\<close> macros is the record \<open>config\<close>, an argument of every operation that
  reads one; the widths are those of the default build: 8-bit identifiers, channels and
  payload sizes, 16-bit frame sizes.
\<close>

section \<open>Machine types of the default build\<close>

type_synonym ludlc_channel_t = "8 word"
type_synonym ludlc_payload_size_t = "8 word"
type_synonym ludlc_frame_size_t = "16 word"

abbreviation (input) LUDLC_MAX_TX_ID :: ludlc_id_t where
  "LUDLC_MAX_TX_ID \<equiv> 128"

abbreviation (input) LUDLC_ID_MASK :: ludlc_id_t where
  "LUDLC_ID_MASK \<equiv> 127"

abbreviation (input) LUDLC_NAK_FLAG :: ludlc_id_t where
  "LUDLC_NAK_FLAG \<equiv> LUDLC_MAX_TX_ID"

abbreviation (input) LUDLC_PING_FLAG :: ludlc_id_t where
  "LUDLC_PING_FLAG \<equiv> LUDLC_MAX_TX_ID"

text \<open>Sizes of \<open>ludlc_ping_packet_t\<close> and \<open>ludlc_packet_hdr_t\<close>, in octets.\<close>

abbreviation (input) sizeof_ping :: nat where
  "sizeof_ping \<equiv> 2"

abbreviation (input) sizeof_hdr :: nat where
  "sizeof_hdr \<equiv> 3"

definition LUDLC_PACKET_SIZE :: "nat \<Rightarrow> nat" where
  "LUDLC_PACKET_SIZE pay_sz = pay_sz + sizeof_hdr"

definition LUDLC_FRAME_SIZE :: "nat \<Rightarrow> nat \<Rightarrow> nat" where
  "LUDLC_FRAME_SIZE pay_sz csum_octets = LUDLC_PACKET_SIZE pay_sz + csum_octets"

section \<open>The build's choices\<close>

record config =
  CONFIG_LUDLC_MT :: bool
  CONFIG_LUDLC_MULTI_CONN :: bool
  CONFIG_LUDLC_COMMON_CHAN_TAG :: bool
  CONFIG_LUDLC_WINDOW :: uint32
  CONFIG_LUDLC_PING_TIME :: nat
  CONFIG_LUDLC_MAX_PAYLOAD_SIZE :: nat
  CONFIG_LUDLC_CONTROL_CHANNEL :: ludlc_channel_t
  CONFIG_LUDLC_CHAN_TAG_BITS :: nat
  LUDLC_DEFAULT_TTL :: uint8
  CONFIG_LUDLC_CONFIRM_BATCH :: nat

abbreviation (input) LUDLC_MAX_TTL :: uint8 where
  "LUDLC_MAX_TTL \<equiv> 127"

abbreviation (input) LUDLC_CTRL_DISCONNECT :: octet where
  "LUDLC_CTRL_DISCONNECT \<equiv> 1"

definition LUDLC_CHAN_TAG_PER_LINK :: "config \<Rightarrow> bool" where
  "LUDLC_CHAN_TAG_PER_LINK cf \<longleftrightarrow>
     CONFIG_LUDLC_MULTI_CONN cf \<and> \<not> CONFIG_LUDLC_COMMON_CHAN_TAG cf"

text \<open>A window the \<open>#error\<close> lines and the checks of an opened link let through.\<close>

definition window_ok :: "uint32 \<Rightarrow> bool" where
  "window_ok w \<longleftrightarrow> w \<noteq> 0 \<and> w AND (w - 1) = 0 \<and> w \<le> 64"

text \<open>
  What a build that compiles has: the \<open>#error\<close> lines and static assertions, and a payload
  of at least one octet, which the array \<open>tx_payload\<close> of a connection needs.
\<close>

definition config_ok :: "config \<Rightarrow> bool" where
  "config_ok cf \<longleftrightarrow>
     window_ok (CONFIG_LUDLC_WINDOW cf) \<and>
     1 \<le> CONFIG_LUDLC_MAX_PAYLOAD_SIZE cf \<and>
     LUDLC_PACKET_SIZE (CONFIG_LUDLC_MAX_PAYLOAD_SIZE cf) \<le> 255 \<and>
     CONFIG_LUDLC_CHAN_TAG_BITS cf < 8 \<and>
     drop_bit (8 - CONFIG_LUDLC_CHAN_TAG_BITS cf) (CONFIG_LUDLC_CONTROL_CHANNEL cf) = 0 \<and>
     1 \<le> LUDLC_DEFAULT_TTL cf \<and> LUDLC_DEFAULT_TTL cf < LUDLC_MAX_TTL \<and>
     1 \<le> CONFIG_LUDLC_CONFIRM_BATCH cf"

text \<open>The defaults a build gets when it defines nothing.\<close>

definition default_config :: config where
  "default_config =
     \<lparr>CONFIG_LUDLC_MT = False, CONFIG_LUDLC_MULTI_CONN = False,
      CONFIG_LUDLC_COMMON_CHAN_TAG = False, CONFIG_LUDLC_WINDOW = 4,
      CONFIG_LUDLC_PING_TIME = 1000000, CONFIG_LUDLC_MAX_PAYLOAD_SIZE = 32,
      CONFIG_LUDLC_CONTROL_CHANNEL = 0, CONFIG_LUDLC_CHAN_TAG_BITS = 0,
      LUDLC_DEFAULT_TTL = 4, CONFIG_LUDLC_CONFIRM_BATCH = 8\<rparr>"

section \<open>Flags and states of a connection\<close>

abbreviation (input) LUDLC_CONN_NO_NAK_F :: nat where "LUDLC_CONN_NO_NAK_F \<equiv> 0"
abbreviation (input) LUDLC_CONN_INITED_F :: nat where "LUDLC_CONN_INITED_F \<equiv> 1"
abbreviation (input) LUDLC_CONN_DISC_AFTER_TX_F :: nat where "LUDLC_CONN_DISC_AFTER_TX_F \<equiv> 2"
abbreviation (input) LUDLC_CONN_U_IDLE_F :: nat where "LUDLC_CONN_U_IDLE_F \<equiv> 3"
abbreviation (input) LUDLC_CONN_U_DONE_F :: nat where "LUDLC_CONN_U_DONE_F \<equiv> 4"
abbreviation (input) LUDLC_CONN_BUS_OUT_F :: nat where "LUDLC_CONN_BUS_OUT_F \<equiv> 5"
abbreviation (input) LUDLC_CONN_U_CONFIRM_F :: nat where "LUDLC_CONN_U_CONFIRM_F \<equiv> 6"
abbreviation (input) LUDLC_CONN_NAK_OUT_F :: nat where "LUDLC_CONN_NAK_OUT_F \<equiv> 7"
abbreviation (input) LUDLC_CONN_NAK_TRACKED_F :: nat where "LUDLC_CONN_NAK_TRACKED_F \<equiv> 8"
abbreviation (input) LUDLC_CONN_TTL_CHARGED_F :: nat where "LUDLC_CONN_TTL_CHARGED_F \<equiv> 9"
abbreviation (input) LUDLC_CONN_TTL_HOLD_F :: nat where "LUDLC_CONN_TTL_HOLD_F \<equiv> 10"
abbreviation (input) LUDLC_REPORT_BUSY_F :: nat where "LUDLC_REPORT_BUSY_F \<equiv> 0"

abbreviation (input) flag_mask :: "nat \<Rightarrow> uint32" where
  "flag_mask nr \<equiv> LUDLC_ATOMIC_MASK nr"

definition LUDLC_CONN_IDLE_MASK :: uint32 where
  "LUDLC_CONN_IDLE_MASK =
     flag_mask LUDLC_CONN_NO_NAK_F OR flag_mask LUDLC_CONN_U_IDLE_F OR
     flag_mask LUDLC_CONN_U_DONE_F"

definition LUDLC_CONN_SWEEP_KEEP_MASK :: "config \<Rightarrow> uint32" where
  "LUDLC_CONN_SWEEP_KEEP_MASK cf =
     (if CONFIG_LUDLC_MT cf
      then flag_mask LUDLC_CONN_INITED_F OR flag_mask LUDLC_CONN_BUS_OUT_F OR
           flag_mask LUDLC_CONN_U_CONFIRM_F
      else flag_mask LUDLC_CONN_INITED_F OR flag_mask LUDLC_CONN_BUS_OUT_F)"

definition LUDLC_CONN_SWEEP_CLEAR_MASK :: "config \<Rightarrow> uint32" where
  "LUDLC_CONN_SWEEP_CLEAR_MASK cf = NOT (LUDLC_CONN_SWEEP_KEEP_MASK cf OR LUDLC_CONN_IDLE_MASK)"

lemma bit_idle_mask [flag_simps]:
  "bit LUDLC_CONN_IDLE_MASK m \<longleftrightarrow> m = 0 \<or> m = 3 \<or> m = 4"
  by (auto simp: LUDLC_CONN_IDLE_MASK_def bit_or_iff bit_atomic_mask)

lemma bit_sweep_clear_mask [flag_simps]:
  "m < 32 \<Longrightarrow> bit (LUDLC_CONN_SWEEP_CLEAR_MASK cf) m \<longleftrightarrow>
     m \<notin> {0, 1, 3, 4, 5} \<and> (CONFIG_LUDLC_MT cf \<longrightarrow> m \<noteq> 6)"
  by (auto simp: LUDLC_CONN_SWEEP_CLEAR_MASK_def LUDLC_CONN_SWEEP_KEEP_MASK_def bit_or_iff
      bit_and_iff bit_not_iff bit_idle_mask bit_atomic_mask)

text \<open>States of the connection, kept in one octet as in the code.\<close>

abbreviation (input) LUDLC_STATE_DISCONNECTED :: uint8 where "LUDLC_STATE_DISCONNECTED \<equiv> 0"
abbreviation (input) LUDLC_STATE_WAIT_CONN_1 :: uint8 where "LUDLC_STATE_WAIT_CONN_1 \<equiv> 1"
abbreviation (input) LUDLC_STATE_WAIT_CONN_2 :: uint8 where "LUDLC_STATE_WAIT_CONN_2 \<equiv> 2"
abbreviation (input) LUDLC_STATE_LAST_STEP :: uint8 where "LUDLC_STATE_LAST_STEP \<equiv> LUDLC_STATE_WAIT_CONN_2"
abbreviation (input) LUDLC_STATE_CONNECTED :: uint8 where "LUDLC_STATE_CONNECTED \<equiv> 3"
abbreviation (input) LUDLC_STATE_TERMINATE :: uint8 where "LUDLC_STATE_TERMINATE \<equiv> 255"

section \<open>Error numbers\<close>

text \<open>The Linux values, positive as \<open>errno.h\<close> has them.\<close>

abbreviation (input) EAGAIN :: int where "EAGAIN \<equiv> 11"
abbreviation (input) ENOMEM :: int where "ENOMEM \<equiv> 12"
abbreviation (input) EINVAL :: int where "EINVAL \<equiv> 22"
abbreviation (input) EPIPE :: uint8 where "EPIPE \<equiv> 32"
abbreviation (input) ENOTCONN :: int where "ENOTCONN \<equiv> 107"
abbreviation (input) ESHUTDOWN :: int where "ESHUTDOWN \<equiv> 108"
abbreviation (input) ETIMEDOUT :: uint8 where "ETIMEDOUT \<equiv> 110"
abbreviation (input) ECANCELED :: uint8 where "ECANCELED \<equiv> 125"

section \<open>Facts about the constants\<close>

lemma max_tx_id_formula: "drop_bit 1 (- 1 :: ludlc_id_t) + 1 = LUDLC_MAX_TX_ID"
  by (simp add: mask_eq_exp_minus_1)

lemma config_ok_default: "config_ok default_config"
  by (simp add: config_ok_def default_config_def window_ok_def LUDLC_PACKET_SIZE_def)

text \<open>The windows a link can run are the powers of two up to half the sequence numbers.\<close>

lemma window_ok_cases:
  assumes "window_ok w"
  shows "w \<in> {1, 2, 4, 8, 16, 32, 64}"
proof -
  have "unat w \<le> 64"
    using assms by (simp add: window_ok_def word_le_nat_alt)
  then have "of_nat (unat w) \<in> (of_nat ` {0..64} :: uint32 set)"
    by (intro imageI) simp
  then have "w \<in> of_nat ` {0..64}"
    by simp
  also have "of_nat ` {0..64} = set (map of_nat [0..<65] :: uint32 list)"
    by auto
  finally have "w \<in> set (filter window_ok (map of_nat [0..<65]))"
    using assms by auto
  moreover have "filter window_ok (map of_nat [0..<65]) = [1, 2, 4, 8, 16, 32, 64]"
    by code_simp
  ultimately show ?thesis
    by simp
qed

lemma window_ok_pow2:
  assumes "window_ok w"
  shows "\<exists>k\<le>6. unat w = 2 ^ k"
proof -
  have "\<exists>k\<le>6. unat w = 2 ^ k" if "unat w = 2 ^ j" "j \<le> 6" for j
    using that by blast
  note pow = this [of 0] this [of 1] this [of 2] this [of 3] this [of 4] this [of 5] this [of 6]
  show ?thesis
    using window_ok_cases [OF assms] pow by auto
qed

lemma window_ok_range: "window_ok w \<Longrightarrow> 1 \<le> unat w \<and> unat w \<le> 64 \<and> unat w dvd 128"
  using window_ok_cases by force

end
