(* ===== verification/Ludlc_Conn.thy ===== *)
theory Ludlc_Conn
  imports Ludlc_Config
begin

text \<open>
  The state of one connection (\<open>struct ludlc_connection\<close> and the structures inside it,
  \<open>src/src/lib/include/ludlc_private.h\<close>), the settings accessors, and what the core
  does to the outside: an operation returns the list of its effects, in order. Three
  effects are not in the state: a request to the transmitter, the expiry of the watchdog
  handed to the platform, and a callback to the application. A timer is the delay and the period it was last started with, or nothing
  once stopped. The lock is not a field: each operation of the core is the sequence of its
  locked sections, and the application context pointer, which the core only passes on, is
  left out.
\<close>

section \<open>Data\<close>

record packet_queue_item =
  pq_payload :: buffer
  pq_size :: ludlc_payload_size_t
  pq_chan :: ludlc_channel_t
  pq_result :: uint8
  pq_ttl :: uint8

definition item_zero :: packet_queue_item where
  "item_zero = \<lparr>pq_payload = None, pq_size = 0, pq_chan = 0, pq_result = 0, pq_ttl = 0\<rparr>"

record ludlc_packet_hdr =
  hdr_tx_id :: ludlc_id_t
  hdr_ack_id :: ludlc_id_t
  hdr_chan :: ludlc_channel_t

record ludlc_stats =
  rx_packet :: uint32
  tx_packet :: uint32
  bad_csum :: uint32
  jabber :: uint32
  on_conn :: uint32
  on_disconn :: uint32
  dropped :: uint32
  overrun :: uint32

definition stats_zero :: ludlc_stats where
  "stats_zero = \<lparr>rx_packet = 0, tx_packet = 0, bad_csum = 0, jabber = 0, on_conn = 0,
     on_disconn = 0, dropped = 0, overrun = 0\<rparr>"

text \<open>The callbacks an application provides: which of them are set, and what it announces.\<close>

record ludlc_conn_cb =
  on_disconnect :: bool
  on_connect :: bool
  on_recv :: bool
  on_confirm :: bool
  on_caps :: bool
  caps :: buffer
  caps_size :: ludlc_payload_size_t

text \<open>A clock is a function pointer the core keeps and never calls; it is only named here.\<close>

datatype clock = ludlc_default_get_timestamp | User_clock nat

record ludlc_conn_cfg =
  get_timestamp :: "clock option"
  ping_time :: uint32
  max_payload :: ludlc_payload_size_t
  window :: ludlc_id_t
  default_ttl :: uint8
  chan_tag_bits :: uint8

text \<open>Delay and period, in microseconds, of an armed timer.\<close>

type_synonym ludlc_timer = "(uint32 \<times> uint32) option"

record ludlc_connection =
  conn_cb :: "ludlc_conn_cb option"
  ping_timer :: ludlc_timer
  wd_timer :: ludlc_timer
  conn_flags :: uint32
  conn_cfg :: ludlc_conn_cfg
  packets_q :: "packet_queue_item list"
  tx_payload :: "octet list"
  tx_hdr :: ludlc_packet_hdr
  u_packet :: packet_queue_item
  u_confirm :: packet_queue_item
  conn_stats :: ludlc_stats
  last_queued :: ludlc_id_t
  last_sent :: ludlc_id_t
  last_ack :: ludlc_id_t
  last_received :: ludlc_id_t
  last_seen :: ludlc_id_t
  nak_track :: ludlc_id_t
  last_reported :: ludlc_id_t
  report_busy :: uint32
  conn_state :: uint8

section \<open>Effects\<close>

text \<open>
  A confirmation tells in its first argument whether it is about a numbered packet or the
  unnumbered one; the code tells the two apart by the slot it reports from.
\<close>

datatype origin = Numbered | Unnumbered

datatype ludlc_event =
    RequestTx
  | ConnTimeout
  | OnConfirm origin int ludlc_channel_t buffer ludlc_payload_size_t
  | OnConnect
  | OnDisconnect
  | OnRecv ludlc_channel_t "octet list" ludlc_payload_size_t nat
  | OnCaps buffer ludlc_payload_size_t

definition ludlc_call_on_confirm ::
    "ludlc_connection \<Rightarrow> origin \<Rightarrow> packet_queue_item \<Rightarrow> ludlc_event list" where
  "ludlc_call_on_confirm conn org pkt =
     (case conn_cb conn of
        Some cb \<Rightarrow>
          if on_confirm cb then
            [OnConfirm org (- int (unat (pq_result pkt))) (pq_chan pkt) (pq_payload pkt) (pq_size pkt)]
          else []
      | None \<Rightarrow> [])"

definition ludlc_call_on_disconnect :: "ludlc_connection \<Rightarrow> ludlc_event list" where
  "ludlc_call_on_disconnect conn =
     (case conn_cb conn of Some cb \<Rightarrow> if on_disconnect cb then [OnDisconnect] else [] | None \<Rightarrow> [])"

section \<open>Settings of a link\<close>

definition ludlc_conn_payload_lim :: "config \<Rightarrow> ludlc_connection \<Rightarrow> ludlc_payload_size_t" where
  "ludlc_conn_payload_lim cf conn =
     (if CONFIG_LUDLC_MULTI_CONN cf then max_payload (conn_cfg conn)
      else of_nat (CONFIG_LUDLC_MAX_PAYLOAD_SIZE cf))"

definition ludlc_conn_window :: "config \<Rightarrow> ludlc_connection \<Rightarrow> uint32" where
  "ludlc_conn_window cf conn =
     (if CONFIG_LUDLC_MULTI_CONN cf then ucast (window (conn_cfg conn)) else CONFIG_LUDLC_WINDOW cf)"

definition ludlc_conn_window_mask :: "config \<Rightarrow> ludlc_connection \<Rightarrow> uint32" where
  "ludlc_conn_window_mask cf conn = ludlc_conn_window cf conn - 1"

definition ludlc_conn_ping_time :: "config \<Rightarrow> ludlc_connection \<Rightarrow> nat" where
  "ludlc_conn_ping_time cf conn =
     (if CONFIG_LUDLC_MULTI_CONN cf then unat (ping_time (conn_cfg conn)) else CONFIG_LUDLC_PING_TIME cf)"

definition ludlc_conn_wd_time :: "config \<Rightarrow> ludlc_connection \<Rightarrow> nat" where
  "ludlc_conn_wd_time cf conn = 3 * ludlc_conn_ping_time cf conn"

definition ludlc_conn_chan_tag_bits :: "config \<Rightarrow> ludlc_connection \<Rightarrow> nat" where
  "ludlc_conn_chan_tag_bits cf conn =
     (if LUDLC_CHAN_TAG_PER_LINK cf then unat (chan_tag_bits (conn_cfg conn))
      else CONFIG_LUDLC_CHAN_TAG_BITS cf)"

definition LUDLC_CHAN_ID_MASK :: "nat \<Rightarrow> ludlc_channel_t" where
  "LUDLC_CHAN_ID_MASK bits = drop_bit bits (NOT 0)"

definition ludlc_conn_chan_id_mask :: "config \<Rightarrow> ludlc_connection \<Rightarrow> ludlc_channel_t" where
  "ludlc_conn_chan_id_mask cf conn = LUDLC_CHAN_ID_MASK (ludlc_conn_chan_tag_bits cf conn)"

definition ludlc_chan_tag_bits_ok :: "config \<Rightarrow> nat \<Rightarrow> bool" where
  "ludlc_chan_tag_bits_ok cf bits \<longleftrightarrow>
     bits < 8 \<and>
     CONFIG_LUDLC_CONTROL_CHANNEL cf AND LUDLC_CHAN_ID_MASK bits = CONFIG_LUDLC_CONTROL_CHANNEL cf"

definition ludlc_conn_last_reported :: "config \<Rightarrow> ludlc_connection \<Rightarrow> ludlc_id_t" where
  "ludlc_conn_last_reported cf conn =
     (if CONFIG_LUDLC_MT cf then last_reported conn else last_ack conn)"

section \<open>Small state changes\<close>

definition has_flag :: "nat \<Rightarrow> ludlc_connection \<Rightarrow> bool" where
  "has_flag nr conn = ludlc_platform_test_bit nr (conn_flags conn)"

definition set_flag :: "nat \<Rightarrow> ludlc_connection \<Rightarrow> ludlc_connection" where
  "set_flag nr conn = conn\<lparr>conn_flags := ludlc_platform_set_bit nr (conn_flags conn)\<rparr>"

definition clear_flag :: "nat \<Rightarrow> ludlc_connection \<Rightarrow> ludlc_connection" where
  "clear_flag nr conn = conn\<lparr>conn_flags := ludlc_platform_clear_bit nr (conn_flags conn)\<rparr>"

text \<open>The port takes both times as \<open>unsigned int\<close>, so a longer one wraps.\<close>

definition start_ping_timer :: "config \<Rightarrow> ludlc_connection \<Rightarrow> ludlc_connection" where
  "start_ping_timer cf conn =
     conn\<lparr>ping_timer :=
       Some (of_nat (ludlc_conn_ping_time cf conn), of_nat (ludlc_conn_ping_time cf conn))\<rparr>"

definition ludlc_watchdog_restart :: "config \<Rightarrow> ludlc_connection \<Rightarrow> ludlc_connection" where
  "ludlc_watchdog_restart cf conn = conn\<lparr>wd_timer := Some (of_nat (ludlc_conn_wd_time cf conn), 0)\<rparr>"

definition inc_dropped :: "ludlc_connection \<Rightarrow> ludlc_connection" where
  "inc_dropped conn = conn\<lparr>conn_stats := (conn_stats conn)\<lparr>dropped := dropped (conn_stats conn) + 1\<rparr>\<rparr>"

definition inc_on_conn :: "ludlc_connection \<Rightarrow> ludlc_connection" where
  "inc_on_conn conn = conn\<lparr>conn_stats := (conn_stats conn)\<lparr>on_conn := on_conn (conn_stats conn) + 1\<rparr>\<rparr>"

definition inc_on_disconn :: "ludlc_connection \<Rightarrow> ludlc_connection" where
  "inc_on_disconn conn =
     conn\<lparr>conn_stats := (conn_stats conn)\<lparr>on_disconn := on_disconn (conn_stats conn) + 1\<rparr>\<rparr>"

text \<open>The slot of an identifier in the window, read and written.\<close>

definition slot_idx :: "config \<Rightarrow> ludlc_connection \<Rightarrow> ludlc_id_t \<Rightarrow> nat" where
  "slot_idx cf conn i = unat (ucast i AND ludlc_conn_window_mask cf conn)"

definition slot :: "config \<Rightarrow> ludlc_connection \<Rightarrow> ludlc_id_t \<Rightarrow> packet_queue_item" where
  "slot cf conn i = packets_q conn ! slot_idx cf conn i"

definition set_slot ::
    "config \<Rightarrow> ludlc_connection \<Rightarrow> ludlc_id_t \<Rightarrow> packet_queue_item \<Rightarrow> ludlc_connection" where
  "set_slot cf conn i it = conn\<lparr>packets_q := (packets_q conn)[slot_idx cf conn i := it]\<rparr>"

section \<open>Received packets\<close>

text \<open>
  A received packet is the buffer the transport decoded into, of which the first
  \<open>pkt_sz\<close> octets are the packet. An octet past the end of the buffer reads as zero.
\<close>

definition octet_at :: "octet list \<Rightarrow> nat \<Rightarrow> octet" where
  "octet_at p i = (if i < length p then p ! i else 0)"

definition pkt_tx_id :: "octet list \<Rightarrow> ludlc_id_t" where
  "pkt_tx_id p = octet_at p 0"

definition pkt_ack_id :: "octet list \<Rightarrow> ludlc_id_t" where
  "pkt_ack_id p = octet_at p 1"

definition pkt_chan :: "octet list \<Rightarrow> ludlc_channel_t" where
  "pkt_chan p = octet_at p 2"

definition pkt_payload :: "octet list \<Rightarrow> nat \<Rightarrow> octet list" where
  "pkt_payload p pkt_sz = map (octet_at p) [sizeof_hdr..<pkt_sz]"

end
