(* ===== verification/Ludlc_Core.thy ===== *)
theory Ludlc_Core
  imports Ludlc_Conn "HOL-Library.Monad_Syntax"
begin

text \<open>
  The operations of \<open>src/src/lib/ludlc.c\<close>, in the order of the source. An operation
  takes the build and the connection and returns the new connection with the effects it
  had; both builds, the one that reports confirmations inline and the multi-threaded one
  that reports them with the lock released, are modelled, chosen by
  \<^const>\<open>CONFIG_LUDLC_MT\<close>. The loop that reports confirmations outside the lock may in
  principle run forever, so it and the operations that call it return an option.
\<close>

abbreviation (input) HANDLE_RX_CONTINUE_F :: uint32 where "HANDLE_RX_CONTINUE_F \<equiv> LUDLC_ATOMIC_MASK 0"
abbreviation (input) HANDLE_RX_REQUEST_TX_F :: uint32 where "HANDLE_RX_REQUEST_TX_F \<equiv> LUDLC_ATOMIC_MASK 1"
abbreviation (input) HANDLE_RX_ACCEPT_F :: uint32 where "HANDLE_RX_ACCEPT_F \<equiv> LUDLC_ATOMIC_MASK 2"
abbreviation (input) HANDLE_RX_CONNECTED_F :: uint32 where "HANDLE_RX_CONNECTED_F \<equiv> LUDLC_ATOMIC_MASK 3"
abbreviation (input) HANDLE_RX_DISCONNECT_F :: uint32 where "HANDLE_RX_DISCONNECT_F \<equiv> LUDLC_ATOMIC_MASK 4"
abbreviation (input) HANDLE_RX_CAPS_F :: uint32 where "HANDLE_RX_CAPS_F \<equiv> LUDLC_ATOMIC_MASK 5"
abbreviation (input) HANDLE_RX_EXPIRED_F :: uint32 where "HANDLE_RX_EXPIRED_F \<equiv> LUDLC_ATOMIC_MASK 6"

definition is_ping :: "ludlc_id_t \<Rightarrow> bool" where
  "is_ping i \<longleftrightarrow> i AND LUDLC_PING_FLAG \<noteq> 0"

definition is_ctrl_chan :: "config \<Rightarrow> ludlc_connection \<Rightarrow> ludlc_channel_t \<Rightarrow> bool" where
  "is_ctrl_chan cf conn chan \<longleftrightarrow>
     chan AND ludlc_conn_chan_id_mask cf conn = CONFIG_LUDLC_CONTROL_CHANNEL cf"

section \<open>The window's storage\<close>

text \<open>Whether the allocator succeeds is the port's; a fresh allocation is zeroed.\<close>

definition ludlc_conn_queue_alloc ::
    "config \<Rightarrow> bool \<Rightarrow> ludlc_connection \<Rightarrow> int \<times> ludlc_connection" where
  "ludlc_conn_queue_alloc cf alloc_ok conn =
     (if CONFIG_LUDLC_MULTI_CONN cf then
        if \<not> alloc_ok then (- ENOMEM, conn\<lparr>packets_q := []\<rparr>)
        else (0, conn\<lparr>packets_q := replicate (unat (ludlc_conn_window cf conn)) item_zero,
                      tx_payload := replicate (unat (ludlc_conn_payload_lim cf conn)) 0\<rparr>)
      else (0, conn))"

definition ludlc_conn_queue_free :: "config \<Rightarrow> ludlc_connection \<Rightarrow> ludlc_connection" where
  "ludlc_conn_queue_free cf conn =
     (if CONFIG_LUDLC_MULTI_CONN cf then conn\<lparr>packets_q := [], tx_payload := []\<rparr> else conn)"

definition ludlc_tx_queue_empty :: "ludlc_connection \<Rightarrow> bool" where
  "ludlc_tx_queue_empty conn \<longleftrightarrow> (last_queued conn - last_ack conn) AND LUDLC_ID_MASK = 0"

definition ludlc_tx_queue_full :: "config \<Rightarrow> ludlc_connection \<Rightarrow> bool" where
  "ludlc_tx_queue_full cf conn \<longleftrightarrow>
     ucast ((last_queued conn - ludlc_conn_last_reported cf conn) AND LUDLC_ID_MASK)
       \<ge> ludlc_conn_window cf conn"

section \<open>Reporting confirmations\<close>

definition ludlc_seq_reset_if_drained :: "config \<Rightarrow> ludlc_connection \<Rightarrow> ludlc_connection" where
  "ludlc_seq_reset_if_drained cf conn =
     (if \<not> has_flag LUDLC_CONN_BUS_OUT_F conn then conn
      else if CONFIG_LUDLC_MT cf \<and>
              (last_reported conn \<noteq> last_ack conn \<or> has_flag LUDLC_CONN_U_CONFIRM_F conn)
      then conn
      else
        let conn = (if CONFIG_LUDLC_MT cf then conn\<lparr>last_reported := 0\<rparr> else conn);
            conn = conn\<lparr>last_sent := 0, last_queued := 0, last_ack := 0, last_received := 0,
                        last_seen := 0\<rparr>
        in clear_flag LUDLC_CONN_BUS_OUT_F conn)"

definition ludlc_confirm_queued_lock ::
    "config \<Rightarrow> ludlc_connection \<Rightarrow> packet_queue_item \<Rightarrow> ludlc_event list" where
  "ludlc_confirm_queued_lock cf conn pkt =
     (if CONFIG_LUDLC_MT cf then [] else ludlc_call_on_confirm conn Numbered pkt)"

definition ludlc_confirm_u_lock ::
    "config \<Rightarrow> ludlc_connection \<Rightarrow> ludlc_connection \<times> ludlc_event list" where
  "ludlc_confirm_u_lock cf conn =
     (if CONFIG_LUDLC_MT cf
      then (set_flag LUDLC_CONN_U_CONFIRM_F (conn\<lparr>u_confirm := u_packet conn\<rparr>), [])
      else (conn, ludlc_call_on_confirm conn Unnumbered (u_packet conn)))"

text \<open>
  One pass of the reporting loop: the locked section takes the unnumbered confirmation
  and at most a batch of the pending range.
\<close>

fun confirm_batch ::
    "config \<Rightarrow> nat \<Rightarrow> ludlc_connection \<Rightarrow> ludlc_connection \<times> packet_queue_item list" where
  "confirm_batch cf 0 conn = (conn, [])"
| "confirm_batch cf (Suc n) conn =
     (if last_reported conn \<noteq> last_ack conn then
        let conn = conn\<lparr>last_reported := (last_reported conn + 1) AND LUDLC_ID_MASK\<rparr>;
            it = slot cf conn (last_reported conn);
            (conn', its) = confirm_batch cf n conn
        in (conn', it # its)
      else (conn, []))"

definition confirm_pass ::
    "config \<Rightarrow> ludlc_connection \<Rightarrow>
     ludlc_connection \<times> packet_queue_item option \<times> packet_queue_item list" where
  "confirm_pass cf conn =
     (let (u, conn) =
            (if has_flag LUDLC_CONN_U_CONFIRM_F conn
             then (Some (u_confirm conn), clear_flag LUDLC_CONN_U_CONFIRM_F conn)
             else (None, conn));
          (conn, batch) = confirm_batch cf (CONFIG_LUDLC_CONFIRM_BATCH cf) conn;
          conn = ludlc_seq_reset_if_drained cf conn;
          conn = (if batch = [] \<and> u = None
                  then conn\<lparr>report_busy := ludlc_platform_clear_bit LUDLC_REPORT_BUSY_F (report_busy conn)\<rparr>
                  else conn)
      in (conn, u, batch))"

definition pass_events ::
    "ludlc_connection \<Rightarrow> packet_queue_item option \<Rightarrow> packet_queue_item list \<Rightarrow> ludlc_event list" where
  "pass_events conn u batch =
     (case u of Some it \<Rightarrow> ludlc_call_on_confirm conn Unnumbered it | None \<Rightarrow> []) @
     concat (map (ludlc_call_on_confirm conn Numbered) batch)"

partial_function (option) confirm_loop ::
    "config \<Rightarrow> ludlc_connection \<Rightarrow> (ludlc_connection \<times> ludlc_event list) option" where
  "confirm_loop cf conn =
     (case confirm_pass cf conn of
        (conn', u, batch) \<Rightarrow>
          if batch = [] \<and> u = None then Some (conn', [])
          else do {
            (conn'', evs) \<leftarrow> confirm_loop cf conn';
            Some (conn'', pass_events conn' u batch @ evs)
          })"

declare confirm_loop.simps [code]

definition ludlc_confirm_unlocked ::
    "config \<Rightarrow> ludlc_connection \<Rightarrow> (ludlc_connection \<times> ludlc_event list) option" where
  "ludlc_confirm_unlocked cf conn =
     (if \<not> CONFIG_LUDLC_MT cf then Some (conn, [])
      else
        let (busy, w) = ludlc_platform_test_and_set_bit LUDLC_REPORT_BUSY_F (report_busy conn)
        in if busy then Some (conn\<lparr>report_busy := w\<rparr>, [])
           else confirm_loop cf (conn\<lparr>report_busy := w\<rparr>))"

section \<open>Disconnecting\<close>

text \<open>The loop that fails every packet of the window, \<open>cnt\<close> of them after \<open>i\<close>.\<close>

fun sweep_loop ::
    "config \<Rightarrow> nat \<Rightarrow> ludlc_id_t \<Rightarrow> ludlc_connection \<Rightarrow> ludlc_connection \<times> ludlc_event list" where
  "sweep_loop cf 0 i conn = (conn, [])"
| "sweep_loop cf (Suc cnt) i conn =
     (let i = (i + 1) AND LUDLC_ID_MASK;
          it = (slot cf conn i)\<lparr>pq_result := EPIPE\<rparr>;
          conn = set_slot cf conn i it;
          evs = ludlc_confirm_queued_lock cf conn it;
          (conn', evs') = sweep_loop cf cnt i conn
      in (conn', evs @ evs'))"

definition on_disconnect_lock ::
    "config \<Rightarrow> ludlc_connection \<Rightarrow> ludlc_connection \<times> ludlc_event list" where
  "on_disconnect_lock cf conn =
     (let conn = conn\<lparr>wd_timer := None, ping_timer := None\<rparr>;
          conn = conn\<lparr>conn_state := LUDLC_STATE_DISCONNECTED\<rparr>;
          conn = set_flag LUDLC_CONN_BUS_OUT_F conn;
          (conn, evs_u) =
            (if (\<not> has_flag LUDLC_CONN_U_IDLE_F conn \<or> \<not> has_flag LUDLC_CONN_U_DONE_F conn) \<and>
                \<not> has_flag LUDLC_CONN_DISC_AFTER_TX_F conn
             then ludlc_confirm_u_lock cf (conn\<lparr>u_packet := (u_packet conn)\<lparr>pq_result := EPIPE\<rparr>\<rparr>)
             else (conn, []));
          conn = conn\<lparr>conn_flags := ludlc_platform_set_mask LUDLC_CONN_IDLE_MASK (conn_flags conn)\<rparr>;
          conn = conn\<lparr>conn_flags :=
                   ludlc_platform_clear_mask (LUDLC_CONN_SWEEP_CLEAR_MASK cf) (conn_flags conn)\<rparr>;
          cnt = (last_queued conn - last_ack conn) AND LUDLC_ID_MASK;
          (conn, evs_q) = sweep_loop cf (unat cnt) (last_ack conn) conn;
          conn = conn\<lparr>last_ack := last_queued conn\<rparr>;
          conn = ludlc_seq_reset_if_drained cf conn;
          conn = inc_on_disconn conn
      in (conn, evs_u @ evs_q))"

section \<open>Sending\<close>

definition enqueue_lock ::
    "config \<Rightarrow> ludlc_connection \<Rightarrow> ludlc_channel_t \<Rightarrow> buffer \<Rightarrow> ludlc_payload_size_t \<Rightarrow> uint8 \<Rightarrow>
     int \<times> ludlc_connection" where
  "enqueue_lock cf conn dst_chan buf sz ttl =
     (if has_flag LUDLC_CONN_BUS_OUT_F conn then (- EAGAIN, conn)
      else if \<not> ludlc_tx_queue_full cf conn then
        let i = (last_queued conn + 1) AND LUDLC_ID_MASK;
            it = (slot cf conn i)\<lparr>pq_chan := dst_chan, pq_ttl := ttl, pq_payload := buf, pq_size := sz\<rparr>
        in (0, (set_slot cf conn i it)\<lparr>last_queued := i\<rparr>)
      else (- EAGAIN, conn))"

definition ludlc_enqueue_data ::
    "config \<Rightarrow> ludlc_connection \<Rightarrow> ludlc_channel_t \<Rightarrow> buffer \<Rightarrow> ludlc_payload_size_t \<Rightarrow> uint8 \<Rightarrow>
     int \<times> ludlc_connection \<times> ludlc_event list" where
  "ludlc_enqueue_data cf conn dst_chan buf sz ttl =
     (if buf = None \<and> sz \<noteq> 0 then (- EINVAL, conn, [])
      else if is_ctrl_chan cf conn dst_chan then (- EINVAL, conn, [])
      else if sz > ludlc_conn_payload_lim cf conn then (- EINVAL, conn, [])
      else
        let ttl = (if ttl > LUDLC_MAX_TTL then LUDLC_MAX_TTL else if ttl = 0 then 1 else ttl);
            (ret, conn) = enqueue_lock cf conn dst_chan buf sz ttl
        in (ret, conn, if ret = 0 then [RequestTx] else []))"

definition ludlc_send_urgent_data ::
    "config \<Rightarrow> ludlc_connection \<Rightarrow> ludlc_channel_t \<Rightarrow> buffer \<Rightarrow> ludlc_payload_size_t \<Rightarrow>
     int \<times> ludlc_connection \<times> ludlc_event list" where
  "ludlc_send_urgent_data cf conn dst_chan buf sz =
     (if buf = None \<or> sz = 0 \<or> sz > ludlc_conn_payload_lim cf conn then (- EINVAL, conn, [])
      else if is_ctrl_chan cf conn dst_chan then (- EINVAL, conn, [])
      else if conn_state conn \<noteq> LUDLC_STATE_CONNECTED then (- ENOTCONN, conn, [])
      else if \<not> has_flag LUDLC_CONN_U_IDLE_F conn \<or> \<not> has_flag LUDLC_CONN_U_DONE_F conn
      then (- EAGAIN, conn, [])
      else
        (0, clear_flag LUDLC_CONN_U_IDLE_F
              (conn\<lparr>u_packet := (u_packet conn)\<lparr>pq_chan := dst_chan, pq_payload := buf, pq_size := sz\<rparr>\<rparr>),
         [RequestTx]))"

definition send_disconnect_lock ::
    "config \<Rightarrow> ludlc_connection \<Rightarrow> int \<times> ludlc_connection \<times> ludlc_event list" where
  "send_disconnect_lock cf conn =
     (if conn_state conn \<noteq> LUDLC_STATE_CONNECTED then (- ENOTCONN, conn, [])
      else if \<not> has_flag LUDLC_CONN_U_DONE_F conn then (- EAGAIN, conn, [])
      else
        let (conn, evs) =
              (if \<not> has_flag LUDLC_CONN_U_IDLE_F conn \<and> \<not> has_flag LUDLC_CONN_DISC_AFTER_TX_F conn
               then ludlc_confirm_u_lock cf (conn\<lparr>u_packet := (u_packet conn)\<lparr>pq_result := ECANCELED\<rparr>\<rparr>)
               else (conn, []));
            conn = conn\<lparr>u_packet := (u_packet conn)\<lparr>pq_chan := CONFIG_LUDLC_CONTROL_CHANNEL cf,
                        pq_payload := Some [LUDLC_CTRL_DISCONNECT], pq_size := 1\<rparr>\<rparr>;
            conn = set_flag LUDLC_CONN_DISC_AFTER_TX_F conn;
            conn = clear_flag LUDLC_CONN_U_IDLE_F conn
        in (0, conn, evs))"

definition ludlc_send_disconnect ::
    "config \<Rightarrow> ludlc_connection \<Rightarrow> (int \<times> ludlc_connection \<times> ludlc_event list) option" where
  "ludlc_send_disconnect cf conn =
     (let (ret, conn, evs) = send_disconnect_lock cf conn in do {
        (conn, evs') \<leftarrow> ludlc_confirm_unlocked cf conn;
        Some (ret, conn, evs @ evs' @ (if ret = 0 then [RequestTx] else []))
      })"

definition ludlc_connect ::
    "config \<Rightarrow> ludlc_connection \<Rightarrow> (int \<times> ludlc_connection \<times> ludlc_event list) option" where
  "ludlc_connect cf conn =
     (if \<not> has_flag LUDLC_CONN_INITED_F conn then Some (- EINVAL, conn, [])
      else
        let (ret, conn, evs) =
              (if conn_state conn = LUDLC_STATE_TERMINATE then (- ESHUTDOWN, conn, [])
               else let (conn, evs) = on_disconnect_lock cf conn in (0, conn, evs))
        in do {
          (conn, evs') \<leftarrow> ludlc_confirm_unlocked cf conn;
          Some (ret, conn, evs @ evs' @ (if ret = 0 then [RequestTx] else []))
        })"

end
