(* ===== verification/Ludlc_Receive.thy ===== *)
theory Ludlc_Receive
  imports Ludlc_Core
begin

text \<open>
  The receive side of \<open>src/src/lib/ludlc.c\<close>: the handshake, the acknowledgment
  field, the gap logic that decides when to ask the peer again, and the entry point that
  runs the callbacks. A handler returns the connection, the effects it had inside the
  lock, and the bitmask of what is left to do outside it.
\<close>

section \<open>The handshake\<close>

definition rx_handle_handshake ::
    "ludlc_connection \<Rightarrow> octet list \<Rightarrow> bool \<Rightarrow> ludlc_connection \<times> uint32" where
  "rx_handle_handshake conn packet step =
     (let i = pkt_tx_id packet; ret = HANDLE_RX_REQUEST_TX_F in
      if \<not> step then
        if conn_state conn = LUDLC_STATE_WAIT_CONN_2 then
          (conn\<lparr>conn_state := LUDLC_STATE_CONNECTED\<rparr>,
           ret OR HANDLE_RX_CONTINUE_F OR HANDLE_RX_CONNECTED_F)
        else (conn\<lparr>conn_state := LUDLC_STATE_DISCONNECTED\<rparr>, ret)
      else if (ucast i - ucast (conn_state conn) :: uint32) < 2 then
        let ret = (if conn_state conn = LUDLC_STATE_WAIT_CONN_1 then ret OR HANDLE_RX_CAPS_F else ret);
            conn = conn\<lparr>conn_state := conn_state conn + 1\<rparr>
        in (conn, if conn_state conn = LUDLC_STATE_CONNECTED
                  then ret OR HANDLE_RX_CONNECTED_F else ret)
      else if unat i + 1 \<noteq> unat (conn_state conn) then
        (conn\<lparr>conn_state := LUDLC_STATE_DISCONNECTED\<rparr>, ret)
      else (conn, ret AND NOT HANDLE_RX_REQUEST_TX_F))"

section \<open>Asking the peer again\<close>

definition rx_nak_answered :: "ludlc_connection \<Rightarrow> ludlc_connection" where
  "rx_nak_answered conn =
     conn\<lparr>conn_flags :=
       ludlc_platform_clear_mask
         (flag_mask LUDLC_CONN_NAK_OUT_F OR flag_mask LUDLC_CONN_NAK_TRACKED_F) (conn_flags conn)\<rparr>"

definition rx_nak_untracked :: "ludlc_connection \<Rightarrow> bool" where
  "rx_nak_untracked conn \<longleftrightarrow>
     has_flag LUDLC_CONN_NAK_OUT_F conn \<and> \<not> has_flag LUDLC_CONN_NAK_TRACKED_F conn"

definition rx_gap :: "ludlc_connection \<Rightarrow> bool \<Rightarrow> ludlc_connection \<times> uint32" where
  "rx_gap conn new_pass =
     (let conn = (if new_pass then rx_nak_answered conn else conn) in
      if has_flag LUDLC_CONN_NAK_OUT_F conn then (conn, 0)
      else (clear_flag LUDLC_CONN_NO_NAK_F conn, HANDLE_RX_REQUEST_TX_F))"

section \<open>Acknowledgments from the peer\<close>

text \<open>Those behind a packet given up move up one place.\<close>

fun shift_loop :: "config \<Rightarrow> nat \<Rightarrow> ludlc_id_t \<Rightarrow> ludlc_connection \<Rightarrow> ludlc_connection" where
  "shift_loop cf 0 i conn = conn"
| "shift_loop cf (Suc n) i conn =
     shift_loop cf n ((i + 1) AND LUDLC_ID_MASK) (set_slot cf conn i (slot cf conn (i + 1)))"

definition rx_handle_nak ::
    "config \<Rightarrow> ludlc_connection \<Rightarrow> ludlc_connection \<times> packet_queue_item option \<times> uint32" where
  "rx_handle_nak cf conn =
     (let i = (last_ack conn + 1) AND LUDLC_ID_MASK;
          (conn, expired, ret) =
            (if last_sent conn \<noteq> last_ack conn \<and> \<not> has_flag LUDLC_CONN_TTL_CHARGED_F conn then
               let conn = set_flag LUDLC_CONN_TTL_CHARGED_F conn;
                   it = slot cf conn i;
                   it = it\<lparr>pq_ttl := pq_ttl it - 1\<rparr>;
                   conn = set_slot cf conn i it
               in if pq_ttl it = 0 then
                    let n = (last_queued conn - i) AND LUDLC_ID_MASK;
                        it = it\<lparr>pq_result := ETIMEDOUT\<rparr>;
                        conn = set_slot cf conn i it;
                        conn = shift_loop cf (unat n) i conn;
                        conn = conn\<lparr>last_queued := (last_queued conn - 1) AND LUDLC_ID_MASK\<rparr>;
                        conn = (if last_queued conn = last_ack conn
                                then set_flag LUDLC_CONN_TTL_HOLD_F conn else conn)
                    in (conn, Some it, HANDLE_RX_REQUEST_TX_F OR HANDLE_RX_EXPIRED_F)
                  else (conn, None, HANDLE_RX_REQUEST_TX_F)
             else (conn, None, HANDLE_RX_REQUEST_TX_F))
      in (conn\<lparr>last_sent := last_ack conn\<rparr>, expired, ret))"

text \<open>The loop that resolves \<open>n\<close> packets the peer holds.\<close>

fun ack_loop ::
    "config \<Rightarrow> nat \<Rightarrow> ludlc_connection \<Rightarrow> ludlc_connection \<times> ludlc_event list" where
  "ack_loop cf 0 conn = (conn, [])"
| "ack_loop cf (Suc n) conn =
     (let conn = conn\<lparr>last_ack := (last_ack conn + 1) AND LUDLC_ID_MASK\<rparr>;
          it = (slot cf conn (last_ack conn))\<lparr>pq_result := 0\<rparr>;
          conn = set_slot cf conn (last_ack conn) it;
          evs = ludlc_confirm_queued_lock cf conn it;
          conn = (if last_ack conn = nak_track conn \<and> has_flag LUDLC_CONN_NAK_TRACKED_F conn
                  then rx_nak_answered conn else conn);
          (conn', evs') = ack_loop cf n conn
      in (conn', evs @ evs'))"

definition rx_handle_ack ::
    "config \<Rightarrow> ludlc_connection \<Rightarrow> ludlc_id_t \<Rightarrow>
     ludlc_connection \<times> packet_queue_item option \<times> uint32 \<times> ludlc_event list" where
  "rx_handle_ack cf conn ack_id =
     (let num_sent = (last_sent conn - last_ack conn) AND LUDLC_ID_MASK;
          num_acked = (ack_id - last_ack conn) AND LUDLC_ID_MASK
      in if num_acked > ((last_queued conn - last_ack conn) AND LUDLC_ID_MASK)
         then (conn, None, 0, [])
         else
           let (conn, evs) = ack_loop cf (unat num_acked) conn;
               conn =
                 (if num_acked \<noteq> 0 then
                    let conn = clear_flag LUDLC_CONN_TTL_CHARGED_F conn
                    in if num_acked > num_sent then conn\<lparr>last_sent := last_ack conn\<rparr> else conn
                  else conn)
           in if ack_id AND LUDLC_NAK_FLAG \<noteq> 0 then
                let (conn, expired, ret) = rx_handle_nak cf conn in (conn, expired, ret, evs)
              else (conn, None, 0, evs))"

section \<open>A packet\<close>

text \<open>
  What is done with the sequence number of a packet once the acknowledgment field has
  been handled: the second half of \<open>rx_handle_packet\<close>.
\<close>

definition rx_handle_seq ::
    "config \<Rightarrow> ludlc_connection \<Rightarrow> ludlc_id_t \<Rightarrow> bool \<Rightarrow> bool \<Rightarrow> ludlc_connection \<times> uint32" where
  "rx_handle_seq cf conn i ping is_u =
     (let ahead = (i - last_received conn - 1) AND LUDLC_ID_MASK;
          (conn, ret) =
            (if ping then
               let (conn, ret) =
                     (if ahead = 0 \<or> ucast ahead > ludlc_conn_window cf conn
                      then (rx_nak_answered conn, 0) else rx_gap conn False)
               in (conn, if is_u then ret OR HANDLE_RX_ACCEPT_F else ret)
             else if ahead = 0 then
               (rx_nak_answered (set_flag LUDLC_CONN_NO_NAK_F (conn\<lparr>last_received := i\<rparr>)),
                HANDLE_RX_REQUEST_TX_F OR HANDLE_RX_ACCEPT_F)
             else if ucast ahead < ludlc_conn_window cf conn then
               let lst = (last_seen conn - last_received conn - 1) AND LUDLC_ID_MASK
               in rx_gap conn (ucast lst < ludlc_conn_window cf conn \<and> ahead \<le> lst)
             else (rx_nak_answered conn, HANDLE_RX_REQUEST_TX_F))
      in (conn\<lparr>last_seen := (if ping then (i - 1) AND LUDLC_ID_MASK else i)\<rparr>, ret))"

text \<open>
  What is done with a packet once the link is connected: control packets, then the
  acknowledgment field and the sequence number.
\<close>

definition rx_connected ::
    "config \<Rightarrow> ludlc_connection \<Rightarrow> octet list \<Rightarrow> bool \<Rightarrow> bool \<Rightarrow> bool \<Rightarrow> uint32 \<Rightarrow>
     ludlc_connection \<times> packet_queue_item option \<times> uint32 \<times> ludlc_event list" where
  "rx_connected cf conn packet ping is_u is_hshake ret =
     (let i = pkt_tx_id packet AND LUDLC_ID_MASK
      in if is_u \<and> pkt_chan packet = CONFIG_LUDLC_CONTROL_CHANNEL cf \<and>
            octet_at packet sizeof_hdr = LUDLC_CTRL_DISCONNECT
      then
        let (conn, evs) = on_disconnect_lock cf conn
        in (conn, None, ret OR HANDLE_RX_DISCONNECT_F, evs)
      else if is_hshake then
        if i \<noteq> LUDLC_STATE_LAST_STEP then
          let (conn, evs) = on_disconnect_lock cf conn
          in (conn, None, ret OR HANDLE_RX_DISCONNECT_F OR HANDLE_RX_REQUEST_TX_F, evs)
        else (conn, None, ret OR HANDLE_RX_REQUEST_TX_F, [])
      else
        let conn = ludlc_watchdog_restart cf conn;
            (conn, expired, ret', evs) = rx_handle_ack cf conn (pkt_ack_id packet);
            (conn, ret'') = rx_handle_seq cf conn i ping is_u
        in (conn, expired, ret OR ret' OR ret'', evs))"

definition rx_handle_packet ::
    "config \<Rightarrow> ludlc_connection \<Rightarrow> octet list \<Rightarrow> nat \<Rightarrow>
     ludlc_connection \<times> packet_queue_item option \<times> uint32 \<times> ludlc_event list" where
  "rx_handle_packet cf conn packet pkt_sz =
     (let ping = is_ping (pkt_tx_id packet);
          is_u = (ping \<and> pkt_sz > sizeof_hdr)
      in if \<not> ping \<and> pkt_sz < sizeof_hdr then (inc_dropped conn, None, 0, [])
      else if (is_u \<or> \<not> ping) \<and> pkt_chan packet \<noteq> CONFIG_LUDLC_CONTROL_CHANNEL cf \<and>
              is_ctrl_chan cf conn (pkt_chan packet)
      then (inc_dropped conn, None, 0, [])
      else
        let is_hshake = (\<not> ping \<and> pkt_chan packet = CONFIG_LUDLC_CONTROL_CHANNEL cf);
            (conn, ret, stop) =
              (if conn_state conn \<noteq> LUDLC_STATE_CONNECTED then
                 let (conn, ret) = rx_handle_handshake conn packet is_hshake
                 in (if ret AND HANDLE_RX_CONNECTED_F \<noteq> 0 then ludlc_watchdog_restart cf conn else conn,
                     ret, ret AND HANDLE_RX_CONTINUE_F = 0)
               else (conn, 0, False))
        in if stop then (conn, None, ret, [])
           else rx_connected cf conn packet ping is_u is_hshake ret)"

section \<open>The entry point\<close>

text \<open>The callbacks made once the lock is released, each under the bit that asks for it.\<close>

definition rx_payload_size :: "nat \<Rightarrow> ludlc_payload_size_t" where
  "rx_payload_size pkt_sz = of_nat (pkt_sz - sizeof_hdr)"

definition rx_call_caps :: "ludlc_connection \<Rightarrow> uint32 \<Rightarrow> octet list \<Rightarrow> nat \<Rightarrow> ludlc_event list" where
  "rx_call_caps conn ret packet pkt_sz =
     (if ret AND HANDLE_RX_CAPS_F \<noteq> 0 then
        case conn_cb conn of
          Some cb \<Rightarrow>
            if on_caps cb
            then [OnCaps (if rx_payload_size pkt_sz \<noteq> 0 then Some (pkt_payload packet pkt_sz) else None)
                    (rx_payload_size pkt_sz)]
            else []
        | None \<Rightarrow> []
      else [])"

definition rx_call_connect :: "ludlc_connection \<Rightarrow> uint32 \<Rightarrow> ludlc_event list" where
  "rx_call_connect conn ret =
     (if ret AND HANDLE_RX_CONNECTED_F \<noteq> 0 then
        case conn_cb conn of Some cb \<Rightarrow> if on_connect cb then [OnConnect] else [] | None \<Rightarrow> []
      else [])"

definition rx_call_expired ::
    "ludlc_connection \<Rightarrow> uint32 \<Rightarrow> packet_queue_item option \<Rightarrow> ludlc_event list" where
  "rx_call_expired conn ret expired =
     (if ret AND HANDLE_RX_EXPIRED_F \<noteq> 0 then
        case expired of Some it \<Rightarrow> ludlc_call_on_confirm conn Numbered it | None \<Rightarrow> []
      else [])"

definition rx_call_recv ::
    "ludlc_connection \<Rightarrow> uint32 \<Rightarrow> octet list \<Rightarrow> nat \<Rightarrow> nat \<Rightarrow> ludlc_event list" where
  "rx_call_recv conn ret packet pkt_sz tstamp =
     (if ret AND HANDLE_RX_ACCEPT_F \<noteq> 0 then
        case conn_cb conn of
          Some cb \<Rightarrow>
            if on_recv cb
            then [OnRecv (pkt_chan packet) (pkt_payload packet pkt_sz) (rx_payload_size pkt_sz) tstamp]
            else []
        | None \<Rightarrow> []
      else [])"

definition ludlc_receive ::
    "config \<Rightarrow> ludlc_connection \<Rightarrow> octet list \<Rightarrow> nat \<Rightarrow> nat \<Rightarrow>
     (ludlc_connection \<times> ludlc_event list) option" where
  "ludlc_receive cf conn packet pkt_sz tstamp =
     (let (conn, expired, ret, evs_lock) = rx_handle_packet cf conn packet pkt_sz;
          evs_caps = rx_call_caps conn ret packet pkt_sz;
          evs_conn = rx_call_connect conn ret;
          conn = (if ret AND HANDLE_RX_CONNECTED_F \<noteq> 0 then inc_on_conn conn else conn);
          evs_tx = (if ret AND HANDLE_RX_REQUEST_TX_F \<noteq> 0 then [RequestTx] else [])
      in do {
        (conn, evs_conf) \<leftarrow> ludlc_confirm_unlocked cf conn;
        Some (conn, evs_lock @ evs_caps @ evs_conn @ evs_tx @ evs_conf @
                rx_call_expired conn ret expired @
                (if ret AND HANDLE_RX_DISCONNECT_F \<noteq> 0 then ludlc_call_on_disconnect conn else []) @
                rx_call_recv conn ret packet pkt_sz tstamp)
      })"

end
