(* ===== verification/Ludlc_Transmit.thy ===== *)
theory Ludlc_Transmit
  imports Ludlc_Receive
begin

text \<open>
  The transmit side of \<open>src/src/lib/ludlc.c\<close> and the life cycle of a connection:
  what the transport sends next, the disconnect a transport reports, initialisation and
  cleanup, and the channel field helpers. What the platform port answers during
  initialisation is the record \<open>platform_env\<close>.
\<close>

section \<open>Disconnects reported by the transport\<close>

definition disconnect_core_lock ::
    "config \<Rightarrow> ludlc_connection \<Rightarrow> bool \<times> ludlc_connection \<times> ludlc_event list" where
  "disconnect_core_lock cf conn =
     (if conn_state conn \<noteq> LUDLC_STATE_DISCONNECTED \<and> conn_state conn \<noteq> LUDLC_STATE_TERMINATE
      then let (conn, evs) = on_disconnect_lock cf conn in (True, conn, evs)
      else (False, conn, []))"

definition ludlc_disconnect_core ::
    "config \<Rightarrow> ludlc_connection \<Rightarrow> (bool \<times> ludlc_connection \<times> ludlc_event list) option" where
  "ludlc_disconnect_core cf conn =
     (let (notify, conn, evs) = disconnect_core_lock cf conn in do {
        (conn, evs') \<leftarrow> ludlc_confirm_unlocked cf conn;
        Some (notify, conn, evs @ evs')
      })"

definition ludlc_handle_disconnect ::
    "config \<Rightarrow> ludlc_connection \<Rightarrow> (ludlc_connection \<times> ludlc_event list) option" where
  "ludlc_handle_disconnect cf conn =
     do {
       (notify, conn, evs) \<leftarrow> ludlc_disconnect_core cf conn;
       Some (conn, evs @ (if notify then ludlc_call_on_disconnect conn else []))
     }"

section \<open>The next frame\<close>

text \<open>What the transport is handed: the header, how much of it to send, and the payload.\<close>

record tx_frame =
  frame_hdr :: ludlc_packet_hdr
  frame_hdr_sz :: nat
  frame_payload :: buffer
  frame_pay_sz :: ludlc_payload_size_t

text \<open>The header octets as they lie in memory, the first \<open>frame_hdr_sz\<close> of which are sent.\<close>

definition hdr_octets :: "ludlc_packet_hdr \<Rightarrow> octet list" where
  "hdr_octets h = [hdr_tx_id h, hdr_ack_id h, hdr_chan h]"

text \<open>
  The frame carries a copy of the payload, taken into \<open>tx_payload\<close>; the octets of a
  longer earlier frame stay behind it.
\<close>

definition copy_payload :: "ludlc_connection \<Rightarrow> packet_queue_item \<Rightarrow> ludlc_connection" where
  "copy_payload conn it =
     (let n = unat (pq_size it) in
      if n = 0 then conn
      else
        case pq_payload it of
          Some bs \<Rightarrow> conn\<lparr>tx_payload := take n bs @ drop n (tx_payload conn)\<rparr>
        | None \<Rightarrow> conn)"

text \<open>The handshake branch of \<open>ludlc_get_packet_to_send\<close>.\<close>

definition tx_handshake_step ::
    "config \<Rightarrow> ludlc_connection \<Rightarrow> ludlc_connection \<times> tx_frame" where
  "tx_handshake_step cf conn =
     (let conn = conn\<lparr>tx_hdr := \<lparr>hdr_tx_id = conn_state conn, hdr_ack_id = 0,
                                  hdr_chan = CONFIG_LUDLC_CONTROL_CHANNEL cf\<rparr>\<rparr>;
          (pay, sz) =
            (case conn_cb conn of
               Some cb \<Rightarrow>
                 if (conn_state conn = LUDLC_STATE_WAIT_CONN_1 \<or>
                     conn_state conn = LUDLC_STATE_WAIT_CONN_2) \<and> caps_size cb \<noteq> 0
                 then (caps cb, caps_size cb) else (None, 0)
             | None \<Rightarrow> (None, 0))
      in (conn, \<lparr>frame_hdr = tx_hdr conn, frame_hdr_sz = sizeof_hdr, frame_payload = pay,
                 frame_pay_sz = sz\<rparr>))"

text \<open>
  The connected branch: which packet goes out, with the header of everything but the
  acknowledgment field, and what the transport is told about the queue.
\<close>

definition tx_choose ::
    "config \<Rightarrow> ludlc_connection \<Rightarrow> bool \<Rightarrow>
     ludlc_connection \<times> packet_queue_item option \<times> nat \<times> bool \<times> bool \<times> int \<times> ludlc_event list" where
  "tx_choose cf conn u_done =
     (let i = (last_sent conn + 1) AND LUDLC_ID_MASK in
      if \<not> has_flag LUDLC_CONN_U_IDLE_F conn then
        let conn = set_flag LUDLC_CONN_U_IDLE_F conn;
            conn = clear_flag LUDLC_CONN_U_DONE_F conn;
            conn = conn\<lparr>tx_hdr := (tx_hdr conn)\<lparr>hdr_tx_id := i OR LUDLC_PING_FLAG,
                                    hdr_chan := pq_chan (u_packet conn)\<rparr>\<rparr>
        in (conn, Some (u_packet conn), sizeof_hdr, False, False,
            if last_sent conn \<noteq> last_queued conn then 0 else 1, [RequestTx])
      else if last_sent conn = last_queued conn then
        (conn\<lparr>tx_hdr := (tx_hdr conn)\<lparr>hdr_tx_id := i OR LUDLC_PING_FLAG\<rparr>\<rparr>, None, sizeof_ping,
         \<not> u_done, False, 1, [])
      else
        let it = slot cf conn i;
            conn = conn\<lparr>tx_hdr := (tx_hdr conn)\<lparr>hdr_tx_id := i, hdr_chan := pq_chan it\<rparr>\<rparr>;
            conn =
              (if last_sent conn = last_ack conn then
                 if has_flag LUDLC_CONN_TTL_HOLD_F conn then clear_flag LUDLC_CONN_TTL_HOLD_F conn
                 else clear_flag LUDLC_CONN_TTL_CHARGED_F (clear_flag LUDLC_CONN_TTL_HOLD_F conn)
               else conn);
            conn = conn\<lparr>last_sent := i\<rparr>
        in (conn, Some it, sizeof_hdr, False, True, if i \<noteq> last_queued conn then 0 else 1, []))"

text \<open>The acknowledgment field of a frame on a connected link.\<close>

definition tx_ack_field ::
    "ludlc_connection \<Rightarrow> bool \<Rightarrow> bool \<Rightarrow> ludlc_connection" where
  "tx_ack_field conn ping numbered =
     (let nak = (\<not> has_flag LUDLC_CONN_NO_NAK_F conn \<or> ping \<and> has_flag LUDLC_CONN_NAK_OUT_F conn);
          ack = (if nak then last_received conn OR LUDLC_NAK_FLAG else last_received conn);
          conn = set_flag LUDLC_CONN_NO_NAK_F conn;
          conn = (if nak then clear_flag LUDLC_CONN_NAK_TRACKED_F (set_flag LUDLC_CONN_NAK_OUT_F conn)
                  else conn);
          conn = (if numbered \<and> rx_nak_untracked conn
                  then set_flag LUDLC_CONN_NAK_TRACKED_F (conn\<lparr>nak_track := last_sent conn\<rparr>)
                  else conn)
      in conn\<lparr>tx_hdr := (tx_hdr conn)\<lparr>hdr_ack_id := ack\<rparr>\<rparr>)"

definition tx_connected ::
    "config \<Rightarrow> ludlc_connection \<Rightarrow> bool \<Rightarrow>
     int \<times> tx_frame \<times> ludlc_connection \<times> ludlc_event list" where
  "tx_connected cf conn u_done =
     (let (conn, it, hdr_sz, ping, numbered, ret, evs) = tx_choose cf conn u_done;
          conn = tx_ack_field conn ping numbered;
          (conn, pay, sz) =
            (case it of
               Some p \<Rightarrow> let conn = copy_payload conn p in (conn, Some (tx_payload conn), pq_size p)
             | None \<Rightarrow> (conn, None, 0))
      in (ret, \<lparr>frame_hdr = tx_hdr conn, frame_hdr_sz = hdr_sz, frame_payload = pay,
                frame_pay_sz = sz\<rparr>, conn, evs))"

text \<open>
  The locked section, once it is known that no DISCONNECT has just been drained. The
  confirmation of the unnumbered packet is made outside the lock, after it.
\<close>

definition get_packet_lock ::
    "config \<Rightarrow> ludlc_connection \<Rightarrow> bool \<Rightarrow> int \<times> tx_frame \<times> ludlc_connection \<times> ludlc_event list" where
  "get_packet_lock cf conn u_done =
     (let (ret, fr, conn, evs) =
            (if conn_state conn = LUDLC_STATE_CONNECTED then tx_connected cf conn u_done
             else let (conn, fr) = tx_handshake_step cf conn in (1, fr, conn, []))
      in (ret, fr, start_ping_timer cf conn, evs))"

definition ludlc_get_packet_to_send ::
    "config \<Rightarrow> ludlc_connection \<Rightarrow> bool \<Rightarrow>
     (int \<times> tx_frame option \<times> ludlc_connection \<times> ludlc_event list) option" where
  "ludlc_get_packet_to_send cf conn outs_ok =
     (if \<not> outs_ok then Some (- EINVAL, None, conn, [])
      else
        let drained = \<not> has_flag LUDLC_CONN_U_DONE_F conn;
            conn = set_flag LUDLC_CONN_U_DONE_F conn;
            disc_done = (drained \<and> has_flag LUDLC_CONN_DISC_AFTER_TX_F conn);
            u_done = (drained \<and> \<not> disc_done);
            conn = (if u_done then conn\<lparr>u_packet := (u_packet conn)\<lparr>pq_result := 0\<rparr>\<rparr> else conn);
            u_sent = u_packet conn
        in if disc_done then do {
             (conn, evs) \<leftarrow> ludlc_handle_disconnect cf conn;
             Some (- ENOTCONN, None, conn, evs)
           }
           else
             let (ret, fr, conn, evs) = get_packet_lock cf conn u_done
             in Some (ret, Some fr, conn,
                      evs @ (if u_done then ludlc_call_on_confirm conn Unnumbered u_sent else [])))"

section \<open>Timers\<close>

definition ludlc_ping_timer :: "ludlc_connection \<Rightarrow> ludlc_event list" where
  "ludlc_ping_timer conn = [RequestTx]"

text \<open>The watchdog hands its expiry to the platform, which wakes the transport.\<close>

definition ludlc_wd_timer :: "ludlc_connection \<Rightarrow> ludlc_event list" where
  "ludlc_wd_timer conn = [ConnTimeout]"

section \<open>Life cycle\<close>

record platform_env =
  env_alloc_ok :: bool
  env_conn_init :: int
  env_init_ping_timer :: int
  env_init_wd_timer :: int

definition LUDLC_CONN_CFG_DEFAULT :: "config \<Rightarrow> ludlc_conn_cfg" where
  "LUDLC_CONN_CFG_DEFAULT cf =
     (if CONFIG_LUDLC_MULTI_CONN cf then
        \<lparr>get_timestamp = None, ping_time = of_nat (CONFIG_LUDLC_PING_TIME cf), max_payload = 0,
         window = ucast (CONFIG_LUDLC_WINDOW cf), default_ttl = LUDLC_DEFAULT_TTL cf, chan_tag_bits = 0\<rparr>
      else
        \<lparr>get_timestamp = None, ping_time = 0, max_payload = 0, window = 0, default_ttl = 0,
         chan_tag_bits = 0\<rparr>)"

text \<open>\<open>memset(conn, 0, sizeof(*conn))\<close>; a single-connection build has its arrays inside.\<close>

definition conn_zero :: "config \<Rightarrow> ludlc_connection" where
  "conn_zero cf =
     \<lparr>conn_cb = None, ping_timer = None, wd_timer = None, conn_flags = 0,
      conn_cfg = \<lparr>get_timestamp = None, ping_time = 0, max_payload = 0, window = 0,
                  default_ttl = 0, chan_tag_bits = 0\<rparr>,
      packets_q = (if CONFIG_LUDLC_MULTI_CONN cf then []
                   else replicate (unat (CONFIG_LUDLC_WINDOW cf)) item_zero),
      tx_payload = (if CONFIG_LUDLC_MULTI_CONN cf then []
                    else replicate (CONFIG_LUDLC_MAX_PAYLOAD_SIZE cf) 0),
      tx_hdr = \<lparr>hdr_tx_id = 0, hdr_ack_id = 0, hdr_chan = 0\<rparr>,
      u_packet = item_zero, u_confirm = item_zero, conn_stats = stats_zero,
      last_queued = 0, last_sent = 0, last_ack = 0, last_received = 0, last_seen = 0,
      nak_track = 0, last_reported = 0, report_busy = 0, conn_state = 0\<rparr>"

text \<open>The settings a link runs with: the caller's, or the build's for those left at zero.\<close>

definition resolve_cfg :: "config \<Rightarrow> ludlc_conn_cfg \<Rightarrow> ludlc_conn_cfg" where
  "resolve_cfg cf c =
     \<lparr>get_timestamp = (case get_timestamp c of
                         None \<Rightarrow> Some ludlc_default_get_timestamp | Some t \<Rightarrow> Some t),
      ping_time = (if \<not> CONFIG_LUDLC_MULTI_CONN cf then 0
                   else if ping_time c \<noteq> 0 then ping_time c else of_nat (CONFIG_LUDLC_PING_TIME cf)),
      max_payload = (if \<not> CONFIG_LUDLC_MULTI_CONN cf then 0
                     else if max_payload c \<noteq> 0 then max_payload c
                     else of_nat (CONFIG_LUDLC_MAX_PAYLOAD_SIZE cf)),
      window = (if \<not> CONFIG_LUDLC_MULTI_CONN cf then 0
                else if window c \<noteq> 0 then window c else ucast (CONFIG_LUDLC_WINDOW cf)),
      default_ttl = (if \<not> CONFIG_LUDLC_MULTI_CONN cf then 0
                     else if default_ttl c \<noteq> 0 then default_ttl c else LUDLC_DEFAULT_TTL cf),
      chan_tag_bits = (if LUDLC_CHAN_TAG_PER_LINK cf then chan_tag_bits c else 0)\<rparr>"

definition cfg_refused :: "config \<Rightarrow> ludlc_conn_cfg \<Rightarrow> bool" where
  "cfg_refused cf r \<longleftrightarrow>
     CONFIG_LUDLC_MULTI_CONN cf \<and>
     (unat (max_payload r) > CONFIG_LUDLC_MAX_PAYLOAD_SIZE cf \<or>
      unat (window r) > unat LUDLC_MAX_TX_ID div 2 \<or> window r AND (window r - 1) \<noteq> 0 \<or>
      default_ttl r \<ge> LUDLC_MAX_TTL)"

definition caps_refused :: "config \<Rightarrow> ludlc_connection \<Rightarrow> ludlc_conn_cb option \<Rightarrow> bool" where
  "caps_refused cf conn cb \<longleftrightarrow>
     (case cb of
        Some b \<Rightarrow> caps_size b \<noteq> 0 \<and> (caps b = None \<or> caps_size b > ludlc_conn_payload_lim cf conn)
      | None \<Rightarrow> False)"

definition ludlc_connection_init ::
    "config \<Rightarrow> platform_env \<Rightarrow> ludlc_conn_cfg option \<Rightarrow> ludlc_conn_cb option \<Rightarrow>
     int \<times> ludlc_connection" where
  "ludlc_connection_init cf env cfg cb =
     (let c = (case cfg of Some c \<Rightarrow> c | None \<Rightarrow> LUDLC_CONN_CFG_DEFAULT cf);
          conn = conn_zero cf;
          conn = conn\<lparr>conn_cfg := (conn_cfg conn)\<lparr>get_timestamp := get_timestamp (resolve_cfg cf c)\<rparr>\<rparr>
      in if LUDLC_CHAN_TAG_PER_LINK cf \<and> \<not> ludlc_chan_tag_bits_ok cf (unat (chan_tag_bits c))
      then (- EINVAL, conn)
      else
        let conn = conn\<lparr>conn_cfg := resolve_cfg cf c\<rparr>
        in if cfg_refused cf (conn_cfg conn) then (- EINVAL, conn)
        else if caps_refused cf conn cb then (- EINVAL, conn)
        else
          let (ret, conn) = ludlc_conn_queue_alloc cf (env_alloc_ok env) conn
          in if ret \<noteq> 0 then (ret, conn)
          else
            let conn = conn\<lparr>conn_cb := cb,
                            tx_hdr := (tx_hdr conn)\<lparr>hdr_chan := CONFIG_LUDLC_CONTROL_CHANNEL cf\<rparr>,
                            conn_state := LUDLC_STATE_DISCONNECTED,
                            conn_flags := LUDLC_CONN_IDLE_MASK\<rparr>
            in if env_conn_init env \<noteq> 0 then (env_conn_init env, ludlc_conn_queue_free cf conn)
            else if env_init_ping_timer env \<noteq> 0
            then (env_init_ping_timer env, ludlc_conn_queue_free cf conn)
            else if env_init_wd_timer env \<noteq> 0
            then (env_init_wd_timer env, ludlc_conn_queue_free cf conn)
            else (0, set_flag LUDLC_CONN_INITED_F conn))"

definition ludlc_connection_cleanup ::
    "config \<Rightarrow> ludlc_connection \<Rightarrow> (ludlc_connection \<times> ludlc_event list) option" where
  "ludlc_connection_cleanup cf conn =
     (if \<not> has_flag LUDLC_CONN_INITED_F conn then Some (conn, [])
      else do {
        (_, conn, evs) \<leftarrow> ludlc_disconnect_core cf conn;
        Some (ludlc_conn_queue_free cf (conn\<lparr>wd_timer := None, ping_timer := None\<rparr>), evs)
      })"

section \<open>Channel field\<close>

definition ludlc_conn_max_payload :: "config \<Rightarrow> ludlc_connection option \<Rightarrow> ludlc_payload_size_t" where
  "ludlc_conn_max_payload cf conn =
     (case conn of None \<Rightarrow> 0 | Some c \<Rightarrow> ludlc_conn_payload_lim cf c)"

definition link_tag_bits :: "config \<Rightarrow> ludlc_connection option \<Rightarrow> nat" where
  "link_tag_bits cf conn = (case conn of Some c \<Rightarrow> ludlc_conn_chan_tag_bits cf c | None \<Rightarrow> 0)"

definition ludlc_chan_make ::
    "config \<Rightarrow> ludlc_connection option \<Rightarrow> ludlc_channel_t \<Rightarrow> ludlc_channel_t \<Rightarrow> ludlc_channel_t" where
  "ludlc_chan_make cf conn i tag =
     (let bits = link_tag_bits cf conn
      in if bits = 0 then i
         else (i AND LUDLC_CHAN_ID_MASK bits) OR push_bit (8 - bits) tag)"

definition ludlc_chan_id :: "config \<Rightarrow> ludlc_connection option \<Rightarrow> ludlc_channel_t \<Rightarrow> ludlc_channel_t" where
  "ludlc_chan_id cf conn chan = chan AND LUDLC_CHAN_ID_MASK (link_tag_bits cf conn)"

definition ludlc_chan_tag :: "config \<Rightarrow> ludlc_connection option \<Rightarrow> ludlc_channel_t \<Rightarrow> ludlc_channel_t" where
  "ludlc_chan_tag cf conn chan =
     (let bits = link_tag_bits cf conn in if bits = 0 then 0 else drop_bit (8 - bits) chan)"

end
