(* ===== verification/Ludlc_Window.thy ===== *)
theory Ludlc_Window
  imports Ludlc_Transmit
begin

text \<open>
  The sliding window seen as a list. The slots that follow an identifier are read off
  the ring in order; as long as no more than a window of them is looked at, writing one
  slot is updating one element, so the loops of the core become list functions.
\<close>

section \<open>Windows of a well-formed connection\<close>

definition wnd :: "config \<Rightarrow> ludlc_connection \<Rightarrow> nat" where
  "wnd cf conn = unat (ludlc_conn_window cf conn)"

definition ring_ok :: "config \<Rightarrow> ludlc_connection \<Rightarrow> bool" where
  "ring_ok cf conn \<longleftrightarrow>
     window_ok (ludlc_conn_window cf conn) \<and> length (packets_q conn) = wnd cf conn"

lemma wnd_range: "ring_ok cf conn \<Longrightarrow> 1 \<le> wnd cf conn \<and> wnd cf conn \<le> 64 \<and> wnd cf conn dvd 128"
  unfolding ring_ok_def wnd_def by (blast dest: window_ok_range)

lemma slot_idx_mod: "ring_ok cf conn \<Longrightarrow> slot_idx cf conn i = unat i mod wnd cf conn"
  unfolding slot_idx_def ludlc_conn_window_mask_def wnd_def ring_ok_def
  using window_ok_pow2 [of "ludlc_conn_window cf conn"]
    unat_and_pow2_mask [of "ludlc_conn_window cf conn" _ "ucast i"] by auto

lemma slot_idx_less: "ring_ok cf conn \<Longrightarrow> slot_idx cf conn i < length (packets_q conn)"
  using wnd_range [of cf conn] by (simp add: slot_idx_mod ring_ok_def)

lemma slot_idx_plus:
  assumes "ring_ok cf conn"
  shows "slot_idx cf conn (id_plus a k) = (unat a + k) mod wnd cf conn"
  using wnd_range [OF assms]
  by (simp add: slot_idx_mod [OF assms] unat_id_plus mod_mod_cancel)

text \<open>The accessors read the settings only.\<close>

definition same_link :: "ludlc_connection \<Rightarrow> ludlc_connection \<Rightarrow> bool" where
  "same_link c d \<longleftrightarrow> conn_cfg c = conn_cfg d \<and> conn_cb c = conn_cb d"

lemma window_cong: "conn_cfg c = conn_cfg d \<Longrightarrow> ludlc_conn_window cf c = ludlc_conn_window cf d"
  by (simp add: ludlc_conn_window_def)

lemma slot_idx_cong: "conn_cfg c = conn_cfg d \<Longrightarrow> slot_idx cf c i = slot_idx cf d i"
  by (simp add: slot_idx_def ludlc_conn_window_mask_def ludlc_conn_window_def)

lemma wnd_cong: "conn_cfg c = conn_cfg d \<Longrightarrow> wnd cf c = wnd cf d"
  by (simp add: wnd_def ludlc_conn_window_def)

lemma ring_ok_cong:
  "conn_cfg c = conn_cfg d \<Longrightarrow> length (packets_q c) = length (packets_q d) \<Longrightarrow>
   ring_ok cf c = ring_ok cf d"
  by (simp add: ring_ok_def wnd_def ludlc_conn_window_def)

text \<open>The settings of a link, and its slots, do not change with the other fields.\<close>

lemma window_update [simp]:
  "ludlc_conn_window cf (conn_cb_update g0 c) = ludlc_conn_window cf c"
  "ludlc_conn_window cf (ping_timer_update g1 c) = ludlc_conn_window cf c"
  "ludlc_conn_window cf (wd_timer_update g2 c) = ludlc_conn_window cf c"
  "ludlc_conn_window cf (conn_flags_update g3 c) = ludlc_conn_window cf c"
  "ludlc_conn_window cf (packets_q_update g4 c) = ludlc_conn_window cf c"
  "ludlc_conn_window cf (tx_payload_update g5 c) = ludlc_conn_window cf c"
  "ludlc_conn_window cf (tx_hdr_update g6 c) = ludlc_conn_window cf c"
  "ludlc_conn_window cf (u_packet_update g7 c) = ludlc_conn_window cf c"
  "ludlc_conn_window cf (u_confirm_update g8 c) = ludlc_conn_window cf c"
  "ludlc_conn_window cf (conn_stats_update g9 c) = ludlc_conn_window cf c"
  "ludlc_conn_window cf (last_queued_update g10 c) = ludlc_conn_window cf c"
  "ludlc_conn_window cf (last_sent_update g11 c) = ludlc_conn_window cf c"
  "ludlc_conn_window cf (last_ack_update g12 c) = ludlc_conn_window cf c"
  "ludlc_conn_window cf (last_received_update g13 c) = ludlc_conn_window cf c"
  "ludlc_conn_window cf (last_seen_update g14 c) = ludlc_conn_window cf c"
  "ludlc_conn_window cf (nak_track_update g15 c) = ludlc_conn_window cf c"
  "ludlc_conn_window cf (last_reported_update g16 c) = ludlc_conn_window cf c"
  "ludlc_conn_window cf (report_busy_update g17 c) = ludlc_conn_window cf c"
  "ludlc_conn_window cf (conn_state_update g18 c) = ludlc_conn_window cf c"
  by (simp_all add: ludlc_conn_window_def)

lemma payload_lim_update [simp]:
  "ludlc_conn_payload_lim cf (conn_cb_update g0 c) = ludlc_conn_payload_lim cf c"
  "ludlc_conn_payload_lim cf (ping_timer_update g1 c) = ludlc_conn_payload_lim cf c"
  "ludlc_conn_payload_lim cf (wd_timer_update g2 c) = ludlc_conn_payload_lim cf c"
  "ludlc_conn_payload_lim cf (conn_flags_update g3 c) = ludlc_conn_payload_lim cf c"
  "ludlc_conn_payload_lim cf (packets_q_update g4 c) = ludlc_conn_payload_lim cf c"
  "ludlc_conn_payload_lim cf (tx_payload_update g5 c) = ludlc_conn_payload_lim cf c"
  "ludlc_conn_payload_lim cf (tx_hdr_update g6 c) = ludlc_conn_payload_lim cf c"
  "ludlc_conn_payload_lim cf (u_packet_update g7 c) = ludlc_conn_payload_lim cf c"
  "ludlc_conn_payload_lim cf (u_confirm_update g8 c) = ludlc_conn_payload_lim cf c"
  "ludlc_conn_payload_lim cf (conn_stats_update g9 c) = ludlc_conn_payload_lim cf c"
  "ludlc_conn_payload_lim cf (last_queued_update g10 c) = ludlc_conn_payload_lim cf c"
  "ludlc_conn_payload_lim cf (last_sent_update g11 c) = ludlc_conn_payload_lim cf c"
  "ludlc_conn_payload_lim cf (last_ack_update g12 c) = ludlc_conn_payload_lim cf c"
  "ludlc_conn_payload_lim cf (last_received_update g13 c) = ludlc_conn_payload_lim cf c"
  "ludlc_conn_payload_lim cf (last_seen_update g14 c) = ludlc_conn_payload_lim cf c"
  "ludlc_conn_payload_lim cf (nak_track_update g15 c) = ludlc_conn_payload_lim cf c"
  "ludlc_conn_payload_lim cf (last_reported_update g16 c) = ludlc_conn_payload_lim cf c"
  "ludlc_conn_payload_lim cf (report_busy_update g17 c) = ludlc_conn_payload_lim cf c"
  "ludlc_conn_payload_lim cf (conn_state_update g18 c) = ludlc_conn_payload_lim cf c"
  by (simp_all add: ludlc_conn_payload_lim_def)

lemma wnd_update [simp]:
  "wnd cf (conn_cb_update g0 c) = wnd cf c"
  "wnd cf (ping_timer_update g1 c) = wnd cf c"
  "wnd cf (wd_timer_update g2 c) = wnd cf c"
  "wnd cf (conn_flags_update g3 c) = wnd cf c"
  "wnd cf (packets_q_update g4 c) = wnd cf c"
  "wnd cf (tx_payload_update g5 c) = wnd cf c"
  "wnd cf (tx_hdr_update g6 c) = wnd cf c"
  "wnd cf (u_packet_update g7 c) = wnd cf c"
  "wnd cf (u_confirm_update g8 c) = wnd cf c"
  "wnd cf (conn_stats_update g9 c) = wnd cf c"
  "wnd cf (last_queued_update g10 c) = wnd cf c"
  "wnd cf (last_sent_update g11 c) = wnd cf c"
  "wnd cf (last_ack_update g12 c) = wnd cf c"
  "wnd cf (last_received_update g13 c) = wnd cf c"
  "wnd cf (last_seen_update g14 c) = wnd cf c"
  "wnd cf (nak_track_update g15 c) = wnd cf c"
  "wnd cf (last_reported_update g16 c) = wnd cf c"
  "wnd cf (report_busy_update g17 c) = wnd cf c"
  "wnd cf (conn_state_update g18 c) = wnd cf c"
  by (simp_all add: wnd_def)

lemma slot_idx_update [simp]:
  "slot_idx cf (conn_cb_update g0 c) i = slot_idx cf c i"
  "slot_idx cf (ping_timer_update g1 c) i = slot_idx cf c i"
  "slot_idx cf (wd_timer_update g2 c) i = slot_idx cf c i"
  "slot_idx cf (conn_flags_update g3 c) i = slot_idx cf c i"
  "slot_idx cf (packets_q_update g4 c) i = slot_idx cf c i"
  "slot_idx cf (tx_payload_update g5 c) i = slot_idx cf c i"
  "slot_idx cf (tx_hdr_update g6 c) i = slot_idx cf c i"
  "slot_idx cf (u_packet_update g7 c) i = slot_idx cf c i"
  "slot_idx cf (u_confirm_update g8 c) i = slot_idx cf c i"
  "slot_idx cf (conn_stats_update g9 c) i = slot_idx cf c i"
  "slot_idx cf (last_queued_update g10 c) i = slot_idx cf c i"
  "slot_idx cf (last_sent_update g11 c) i = slot_idx cf c i"
  "slot_idx cf (last_ack_update g12 c) i = slot_idx cf c i"
  "slot_idx cf (last_received_update g13 c) i = slot_idx cf c i"
  "slot_idx cf (last_seen_update g14 c) i = slot_idx cf c i"
  "slot_idx cf (nak_track_update g15 c) i = slot_idx cf c i"
  "slot_idx cf (last_reported_update g16 c) i = slot_idx cf c i"
  "slot_idx cf (report_busy_update g17 c) i = slot_idx cf c i"
  "slot_idx cf (conn_state_update g18 c) i = slot_idx cf c i"
  by (simp_all add: slot_idx_def ludlc_conn_window_mask_def)

lemma ring_ok_update [simp]:
  "ring_ok cf (conn_cb_update g0 c) = ring_ok cf c"
  "ring_ok cf (ping_timer_update g1 c) = ring_ok cf c"
  "ring_ok cf (wd_timer_update g2 c) = ring_ok cf c"
  "ring_ok cf (conn_flags_update g3 c) = ring_ok cf c"
  "ring_ok cf (tx_payload_update g4 c) = ring_ok cf c"
  "ring_ok cf (tx_hdr_update g5 c) = ring_ok cf c"
  "ring_ok cf (u_packet_update g6 c) = ring_ok cf c"
  "ring_ok cf (u_confirm_update g7 c) = ring_ok cf c"
  "ring_ok cf (conn_stats_update g8 c) = ring_ok cf c"
  "ring_ok cf (last_queued_update g9 c) = ring_ok cf c"
  "ring_ok cf (last_sent_update g10 c) = ring_ok cf c"
  "ring_ok cf (last_ack_update g11 c) = ring_ok cf c"
  "ring_ok cf (last_received_update g12 c) = ring_ok cf c"
  "ring_ok cf (last_seen_update g13 c) = ring_ok cf c"
  "ring_ok cf (nak_track_update g14 c) = ring_ok cf c"
  "ring_ok cf (last_reported_update g15 c) = ring_ok cf c"
  "ring_ok cf (report_busy_update g16 c) = ring_ok cf c"
  "ring_ok cf (conn_state_update g17 c) = ring_ok cf c"
  by (simp_all add: ring_ok_def)

lemma slot_update [simp]:
  "slot cf (conn_cb_update g0 c) i = slot cf c i"
  "slot cf (ping_timer_update g1 c) i = slot cf c i"
  "slot cf (wd_timer_update g2 c) i = slot cf c i"
  "slot cf (conn_flags_update g3 c) i = slot cf c i"
  "slot cf (tx_payload_update g4 c) i = slot cf c i"
  "slot cf (tx_hdr_update g5 c) i = slot cf c i"
  "slot cf (u_packet_update g6 c) i = slot cf c i"
  "slot cf (u_confirm_update g7 c) i = slot cf c i"
  "slot cf (conn_stats_update g8 c) i = slot cf c i"
  "slot cf (last_queued_update g9 c) i = slot cf c i"
  "slot cf (last_sent_update g10 c) i = slot cf c i"
  "slot cf (last_ack_update g11 c) i = slot cf c i"
  "slot cf (last_received_update g12 c) i = slot cf c i"
  "slot cf (last_seen_update g13 c) i = slot cf c i"
  "slot cf (nak_track_update g14 c) i = slot cf c i"
  "slot cf (last_reported_update g15 c) i = slot cf c i"
  "slot cf (report_busy_update g16 c) i = slot cf c i"
  "slot cf (conn_state_update g17 c) i = slot cf c i"
  by (simp_all add: slot_def)

lemma ctrl_chan_update [simp]:
  "is_ctrl_chan cf (conn_cb_update g0 c) ch = is_ctrl_chan cf c ch"
  "is_ctrl_chan cf (ping_timer_update g1 c) ch = is_ctrl_chan cf c ch"
  "is_ctrl_chan cf (wd_timer_update g2 c) ch = is_ctrl_chan cf c ch"
  "is_ctrl_chan cf (conn_flags_update g3 c) ch = is_ctrl_chan cf c ch"
  "is_ctrl_chan cf (packets_q_update g4 c) ch = is_ctrl_chan cf c ch"
  "is_ctrl_chan cf (tx_payload_update g5 c) ch = is_ctrl_chan cf c ch"
  "is_ctrl_chan cf (tx_hdr_update g6 c) ch = is_ctrl_chan cf c ch"
  "is_ctrl_chan cf (u_packet_update g7 c) ch = is_ctrl_chan cf c ch"
  "is_ctrl_chan cf (u_confirm_update g8 c) ch = is_ctrl_chan cf c ch"
  "is_ctrl_chan cf (conn_stats_update g9 c) ch = is_ctrl_chan cf c ch"
  "is_ctrl_chan cf (last_queued_update g10 c) ch = is_ctrl_chan cf c ch"
  "is_ctrl_chan cf (last_sent_update g11 c) ch = is_ctrl_chan cf c ch"
  "is_ctrl_chan cf (last_ack_update g12 c) ch = is_ctrl_chan cf c ch"
  "is_ctrl_chan cf (last_received_update g13 c) ch = is_ctrl_chan cf c ch"
  "is_ctrl_chan cf (last_seen_update g14 c) ch = is_ctrl_chan cf c ch"
  "is_ctrl_chan cf (nak_track_update g15 c) ch = is_ctrl_chan cf c ch"
  "is_ctrl_chan cf (last_reported_update g16 c) ch = is_ctrl_chan cf c ch"
  "is_ctrl_chan cf (report_busy_update g17 c) ch = is_ctrl_chan cf c ch"
  "is_ctrl_chan cf (conn_state_update g18 c) ch = is_ctrl_chan cf c ch"
  by (simp_all add: is_ctrl_chan_def ludlc_conn_chan_id_mask_def ludlc_conn_chan_tag_bits_def)

section \<open>A run of slots\<close>

definition slots :: "config \<Rightarrow> ludlc_connection \<Rightarrow> ludlc_id_t \<Rightarrow> nat \<Rightarrow> packet_queue_item list" where
  "slots cf conn a n = map (\<lambda>k. slot cf conn (id_plus a (Suc k))) [0..<n]"

lemma length_slots [simp]: "length (slots cf conn a n) = n"
  by (simp add: slots_def)

lemma slots_0 [simp]: "slots cf conn a 0 = []"
  by (simp add: slots_def)

lemma slots_update [simp]:
  "slots cf (conn_cb_update g0 c) a n = slots cf c a n"
  "slots cf (ping_timer_update g1 c) a n = slots cf c a n"
  "slots cf (wd_timer_update g2 c) a n = slots cf c a n"
  "slots cf (conn_flags_update g3 c) a n = slots cf c a n"
  "slots cf (tx_payload_update g4 c) a n = slots cf c a n"
  "slots cf (tx_hdr_update g5 c) a n = slots cf c a n"
  "slots cf (u_packet_update g6 c) a n = slots cf c a n"
  "slots cf (u_confirm_update g7 c) a n = slots cf c a n"
  "slots cf (conn_stats_update g8 c) a n = slots cf c a n"
  "slots cf (last_queued_update g9 c) a n = slots cf c a n"
  "slots cf (last_sent_update g10 c) a n = slots cf c a n"
  "slots cf (last_ack_update g11 c) a n = slots cf c a n"
  "slots cf (last_received_update g12 c) a n = slots cf c a n"
  "slots cf (last_seen_update g13 c) a n = slots cf c a n"
  "slots cf (nak_track_update g14 c) a n = slots cf c a n"
  "slots cf (last_reported_update g15 c) a n = slots cf c a n"
  "slots cf (report_busy_update g16 c) a n = slots cf c a n"
  "slots cf (conn_state_update g17 c) a n = slots cf c a n"
  by (simp_all add: slots_def)

lemma nth_slots: "k < n \<Longrightarrow> slots cf conn a n ! k = slot cf conn (id_plus a (Suc k))"
  by (simp add: slots_def)

lemma slots_Suc: "slots cf conn a (Suc n) = slots cf conn a n @ [slot cf conn (id_plus a (Suc n))]"
  by (simp add: slots_def)

lemma slots_add: "slots cf conn a (m + n) = slots cf conn a m @ slots cf conn (id_plus a m) n"
  by (rule nth_equalityI) (auto simp: nth_append nth_slots)

lemma take_slots: "m \<le> n \<Longrightarrow> take m (slots cf conn a n) = slots cf conn a m"
  using slots_add [of cf conn a m "n - m"] by simp

lemma drop_slots: "m \<le> n \<Longrightarrow> drop m (slots cf conn a n) = slots cf conn (id_plus a m) (n - m)"
  using slots_add [of cf conn a m "n - m"] by simp

lemma slots_Suc_front:
  "slots cf conn a (Suc n) = slot cf conn (id_plus a 1) # slots cf conn (id_plus a 1) n"
  using slots_add [of cf conn a 1 n] by (simp add: slots_def)

lemma slots_cong:
  "conn_cfg c = conn_cfg d \<Longrightarrow> packets_q c = packets_q d \<Longrightarrow> slots cf c a n = slots cf d a n"
  by (simp add: slots_def slot_def slot_idx_cong [of c d])

lemma slot_cong:
  "conn_cfg c = conn_cfg d \<Longrightarrow> packets_q c = packets_q d \<Longrightarrow> slot cf c i = slot cf d i"
  by (simp add: slot_def slot_idx_cong [of c d])

text \<open>Writing one slot of a run no longer than the window.\<close>

lemma slots_set_slot:
  assumes ring: "ring_ok cf conn" and n: "n \<le> wnd cf conn" and j: "j < n"
  shows "slots cf (set_slot cf conn (id_plus a (Suc j)) it) a n = (slots cf conn a n)[j := it]"
proof (rule nth_equalityI)
  fix k
  assume "k < length (slots cf (set_slot cf conn (id_plus a (Suc j)) it) a n)"
  then have k: "k < n"
    by simp
  let ?W = "wnd cf conn"
  have idx: "slot_idx cf (set_slot cf conn i it) = slot_idx cf conn" for i
    by (rule ext) (simp add: set_slot_def)
  have ne: "(unat a + Suc j) mod ?W \<noteq> (unat a + Suc k) mod ?W" if "j \<noteq> k"
    using that n j k ring_index_inj [of "Suc j" "Suc k" ?W "unat a"]
      ring_index_inj [of "Suc k" "Suc j" ?W "unat a"] by (cases "j < k") force+
  show "slots cf (set_slot cf conn (id_plus a (Suc j)) it) a n ! k = (slots cf conn a n)[j := it] ! k"
    using k j ne slot_idx_less [OF ring, of "id_plus a (Suc j)"]
    by (cases "j = k")
      (simp_all add: nth_slots slot_def idx set_slot_def slot_idx_plus [OF ring])
qed simp

lemma slots_set_slot_id:
  assumes "ring_ok cf conn" "n \<le> wnd cf conn" "is_seq a" "is_seq i" "id_dist a i = Suc j" "j < n"
  shows "slots cf (set_slot cf conn i it) a n = (slots cf conn a n)[j := it]"
  using slots_set_slot [OF assms(1,2,6), of a it] assms(3-5) by (metis id_plus_dist)

lemma set_slot_simps [simp]:
  "conn_cfg (set_slot cf c i it) = conn_cfg c" "conn_cb (set_slot cf c i it) = conn_cb c"
  "conn_flags (set_slot cf c i it) = conn_flags c" "length (packets_q (set_slot cf c i it)) = length (packets_q c)"
  by (simp_all add: set_slot_def)

lemma ring_ok_set_slot [simp]: "ring_ok cf (set_slot cf c i it) = ring_ok cf c"
  by (rule ring_ok_cong) simp_all

lemma wnd_set_slot [simp]: "wnd cf (set_slot cf c i it) = wnd cf c"
  by (rule wnd_cong) simp

end
