(* ===== verification/Ludlc_Loops.thy ===== *)
theory Ludlc_Loops
  imports Ludlc_Window
begin

text \<open>
  What the loops of the core do to the window, read as a list. The loops that resolve
  packets (the acknowledgments of a peer, the sweep of a disconnect) rewrite the result of
  a run of slots; the loop that closes the gap of an expired packet drops an element; the
  loop that reports confirmations, which the code leaves only when it finds nothing more
  to report, returns on every well-formed connection.
\<close>

section \<open>Resolving a run of packets\<close>

text \<open>Elements \<open>p\<close> to \<open>p + n\<close> of a list get the result \<open>r\<close>.\<close>

definition resolve_run :: "uint8 \<Rightarrow> nat \<Rightarrow> nat \<Rightarrow> packet_queue_item list \<Rightarrow> packet_queue_item list" where
  "resolve_run r p n xs = take p xs @ map (pq_result_update (\<lambda>_. r)) (take n (drop p xs)) @ drop (p + n) xs"

lemma resolve_run_0 [simp]: "resolve_run r p 0 xs = xs"
  by (simp add: resolve_run_def)

lemma length_resolve_run [simp]: "length (resolve_run r p n xs) = length xs"
  by (auto simp: resolve_run_def)

lemma resolve_run_Suc:
  assumes "p < length xs"
  shows "resolve_run r p (Suc n) xs = resolve_run r (Suc p) n (xs[p := (xs ! p)\<lparr>pq_result := r\<rparr>])"
  using assms
  by (simp add: resolve_run_def Cons_nth_drop_Suc [symmetric] take_Suc_conv_app_nth
      upd_conv_take_nth_drop drop_drop add.commute)

lemma drop_resolve_run: "p + n \<le> k \<Longrightarrow> drop k (resolve_run r p n xs) = drop k xs"
  by (cases "p + n \<le> length xs") (auto simp: resolve_run_def drop_append min_def)

text \<open>The confirmations an application gets, by the callbacks it has set.\<close>

definition confirms :: "ludlc_conn_cb option \<Rightarrow> origin \<Rightarrow> packet_queue_item list \<Rightarrow> ludlc_event list" where
  "confirms cb org its =
     (if (case cb of Some b \<Rightarrow> on_confirm b | None \<Rightarrow> False)
      then map (\<lambda>it. OnConfirm org (- int (unat (pq_result it))) (pq_chan it) (pq_payload it) (pq_size it)) its
      else [])"

lemma confirms_simps [simp]:
  "confirms cb org [] = []"
  "confirms cb org (its @ its') = confirms cb org its @ confirms cb org its'"
  by (simp_all add: confirms_def)

lemma confirms_Cons: "confirms cb org (it # its) = confirms cb org [it] @ confirms cb org its"
  by (simp add: confirms_def)

lemma call_on_confirm_eq [simp]: "ludlc_call_on_confirm c org it = confirms (conn_cb c) org [it]"
  by (simp add: ludlc_call_on_confirm_def confirms_def split: option.split)

lemma call_on_confirm_concat [simp]:
  "concat (map (ludlc_call_on_confirm c org) its) = confirms (conn_cb c) org its"
  by (induction its) (simp_all add: confirms_def)

definition lock_confirms ::
    "config \<Rightarrow> ludlc_conn_cb option \<Rightarrow> packet_queue_item list \<Rightarrow> ludlc_event list" where
  "lock_confirms cf cb its = (if CONFIG_LUDLC_MT cf then [] else confirms cb Numbered its)"

lemma lock_confirms_simps [simp]:
  "lock_confirms cf cb [] = []" "lock_confirms cf cb (its @ its') = lock_confirms cf cb its @ lock_confirms cf cb its'"
  by (simp_all add: lock_confirms_def)

lemma lock_confirms_Cons: "lock_confirms cf cb (it # its) = lock_confirms cf cb [it] @ lock_confirms cf cb its"
  by (simp add: lock_confirms_def confirms_Cons [of cb Numbered it its])

lemma confirm_queued_lock_eq [simp]:
  "ludlc_confirm_queued_lock cf c it = lock_confirms cf (conn_cb c) [it]"
  by (simp add: ludlc_confirm_queued_lock_def lock_confirms_def)

lemma ring_ok_packets_q [simp]:
  "length q = length (packets_q c) \<Longrightarrow> ring_ok cf (c\<lparr>packets_q := q\<rparr>) = ring_ok cf c"
  by (simp add: ring_ok_def)

lemma slots_packets_q:
  "packets_q c = q \<Longrightarrow> conn_cfg c = conn_cfg d \<Longrightarrow> slots cf (d\<lparr>packets_q := q\<rparr>) = slots cf c"
  by (intro ext) (rule slots_cong; simp)

lemma sweep_loop_spec:
  assumes "ring_ok cf c" "N \<le> wnd cf c" "p + n \<le> N" "i = id_plus a p"
  shows "\<exists>q. sweep_loop cf n i c =
           (c\<lparr>packets_q := q\<rparr>,
            lock_confirms cf (conn_cb c) (map (pq_result_update (\<lambda>_. EPIPE)) (take n (drop p (slots cf c a N))))) \<and>
         length q = length (packets_q c) \<and>
         slots cf (c\<lparr>packets_q := q\<rparr>) a N = resolve_run EPIPE p n (slots cf c a N)"
  using assms
proof (induction n arbitrary: p i c)
  case 0
  then show ?case
    by (intro exI [of _ "packets_q c"]) (simp add: lock_confirms_def)
next
  case (Suc n)
  let ?L = "slots cf c a N"
  let ?i = "id_plus a (Suc p)"
  let ?it = "(slot cf c ?i)\<lparr>pq_result := EPIPE\<rparr>"
  let ?d = "set_slot cf c ?i ?it"
  have p: "p < N"
    using Suc.prems by simp
  have i: "(i + 1) AND 127 = ?i"
    using Suc.prems by (simp add: id_suc)
  have it: "slot cf c ?i = ?L ! p"
    using p by (simp add: nth_slots)
  have d: "slots cf ?d a N = ?L[p := ?it]"
    using Suc.prems p by (intro slots_set_slot) auto
  obtain q where q: "sweep_loop cf n ?i ?d =
        (?d\<lparr>packets_q := q\<rparr>,
         lock_confirms cf (conn_cb ?d) (map (pq_result_update (\<lambda>_. EPIPE)) (take n (drop (Suc p) (slots cf ?d a N)))))"
      "length q = length (packets_q ?d)"
      "slots cf (?d\<lparr>packets_q := q\<rparr>) a N = resolve_run EPIPE (Suc p) n (slots cf ?d a N)"
    using Suc.IH [of ?d "Suc p" ?i] Suc.prems by auto
  have dq: "?d\<lparr>packets_q := q\<rparr> = c\<lparr>packets_q := q\<rparr>"
    by (simp add: set_slot_def)
  have tk: "take (Suc n) (drop p ?L) = ?L ! p # take n (drop (Suc p) ?L)"
    using p by (simp add: Cons_nth_drop_Suc [symmetric])
  show ?case
    using q p resolve_run_Suc [of p ?L EPIPE n]
    by (intro exI [of _ q])
      (simp add: Let_def i d dq it [symmetric] tk lock_confirms_Cons [of _ _ _ "map _ _"])
qed

lemma ack_loop_spec:
  assumes "ring_ok cf c" "N \<le> wnd cf c" "p + n \<le> N" "last_ack c = id_plus a p"
  shows "\<exists>q f. ack_loop cf n c =
           (c\<lparr>last_ack := id_plus a (p + n), packets_q := q, conn_flags := f\<rparr>,
            lock_confirms cf (conn_cb c) (map (pq_result_update (\<lambda>_. 0)) (take n (drop p (slots cf c a N))))) \<and>
         length q = length (packets_q c) \<and>
         (\<forall>m. m \<noteq> 7 \<and> m \<noteq> 8 \<longrightarrow> bit f m = bit (conn_flags c) m) \<and>
         slots cf (c\<lparr>packets_q := q\<rparr>) a N = resolve_run 0 p n (slots cf c a N)"
  using assms
proof (induction n arbitrary: p c)
  case 0
  then show ?case
    by (intro exI [of _ "packets_q c"] exI [of _ "conn_flags c"]) (simp add: lock_confirms_def)
next
  case (Suc n)
  let ?L = "slots cf c a N"
  let ?i = "id_plus a (Suc p)"
  let ?it = "(slot cf c ?i)\<lparr>pq_result := 0\<rparr>"
  let ?c1 = "set_slot cf (c\<lparr>last_ack := ?i\<rparr>) ?i ?it"
  let ?d = "if ?i = nak_track c \<and> has_flag LUDLC_CONN_NAK_TRACKED_F c then rx_nak_answered ?c1 else ?c1"
  have p: "p < N"
    using Suc.prems by simp
  have i: "(last_ack c + 1) AND 127 = ?i"
    using Suc.prems by (simp add: id_suc)
  have it: "slot cf c ?i = ?L ! p"
    using p by (simp add: nth_slots)
  have dd: "slots cf ?c1 a N = ?L[p := ?it]"
    using slots_set_slot [of cf "c\<lparr>last_ack := ?i\<rparr>" N p a ?it] Suc.prems p by simp
  obtain f where f: "?d = ?c1\<lparr>conn_flags := f\<rparr>"
      "\<forall>m. m \<noteq> 7 \<and> m \<noteq> 8 \<longrightarrow> bit f m = bit (conn_flags c) m"
    by (rule that [of "conn_flags ?d"])
      (auto simp: rx_nak_answered_def flag_simps bit_or_iff bit_atomic_mask)
  have d: "slots cf ?d a N = ?L[p := ?it]"
    using dd by (simp add: f(1))
  have prems: "ring_ok cf ?d" "N \<le> wnd cf ?d" "Suc p + n \<le> N" "last_ack ?d = id_plus a (Suc p)"
    using Suc.prems unfolding f(1) by (simp_all add: set_slot_def)
  obtain q g where q: "ack_loop cf n ?d =
        (?d\<lparr>last_ack := id_plus a (Suc p + n), packets_q := q, conn_flags := g\<rparr>,
         lock_confirms cf (conn_cb ?d) (map (pq_result_update (\<lambda>_. 0)) (take n (drop (Suc p) (slots cf ?d a N)))))"
      "length q = length (packets_q ?d)"
      "\<forall>m. m \<noteq> 7 \<and> m \<noteq> 8 \<longrightarrow> bit g m = bit (conn_flags ?d) m"
      "slots cf (?d\<lparr>packets_q := q\<rparr>) a N = resolve_run 0 (Suc p) n (slots cf ?d a N)"
    using Suc.IH [OF prems] by blast
  have step: "ack_loop cf (Suc n) c =
      (let (e, evs) = ack_loop cf n ?d in (e, ludlc_confirm_queued_lock cf ?c1 ?it @ evs))"
    by (simp add: i Let_def set_slot_def has_flag_def split_def)
  have dq: "slots cf (?d\<lparr>packets_q := q\<rparr>) = slots cf (c\<lparr>packets_q := q\<rparr>)"
    unfolding f(1) by (intro ext) (rule slots_cong; simp add: set_slot_def)
  have tk: "take (Suc n) (drop p ?L) = ?L ! p # take n (drop (Suc p) ?L)"
    using p by (simp add: Cons_nth_drop_Suc [symmetric])
  have rr: "resolve_run 0 (Suc p) n (?L[p := ?it]) = resolve_run 0 p (Suc n) ?L"
    using resolve_run_Suc [of p ?L 0 n] p it by simp
  have upd: "?d\<lparr>last_ack := id_plus a (Suc p + n), packets_q := q, conn_flags := g\<rparr> =
      c\<lparr>last_ack := id_plus a (p + Suc n), packets_q := q, conn_flags := g\<rparr>"
    unfolding f(1) by (simp add: set_slot_def)
  show ?case
    unfolding step
    apply (rule exI [of _ q], rule exI [of _ g])
    using q f(2) unfolding dq upd tk d rr
    by (simp add: it f(1) set_slot_def lock_confirms_Cons [of _ _ _ "map _ _"])
qed

section \<open>Closing the gap of an expired packet\<close>

lemma slot_plus_1:
  assumes "ring_ok cf c" "is_seq i"
  shows "slot cf c (i + 1) = slot cf c (id_plus i 1)"
proof -
  have "unat (i + 1) = unat i + 1"
    using assms(2) by (simp add: is_seq_def unat_word_ariths)
  then show ?thesis
    using wnd_range [OF assms(1)]
    by (simp add: slot_def slot_idx_mod [OF assms(1)] unat_id_plus mod_mod_cancel)
qed

lemma shift_loop_spec:
  assumes "ring_ok cf c" "N \<le> wnd cf c" "p + n < N" "i = id_plus a (Suc p)"
  shows "\<exists>q. shift_loop cf n i c = c\<lparr>packets_q := q\<rparr> \<and> length q = length (packets_q c) \<and>
         slots cf (c\<lparr>packets_q := q\<rparr>) a N =
           (let L = slots cf c a N in take p L @ take n (drop (Suc p) L) @ drop (p + n) L)"
  using assms
proof (induction n arbitrary: p i c)
  case 0
  then show ?case
    by (intro exI [of _ "packets_q c"]) simp
next
  case (Suc n)
  let ?L = "slots cf c a N"
  let ?it = "slot cf c (id_plus a (Suc (Suc p)))"
  let ?d = "set_slot cf c i ?it"
  have p: "p < N" "Suc p < N"
    using Suc.prems by simp_all
  have it: "slot cf c (i + 1) = ?it" "?it = ?L ! Suc p"
    using Suc.prems p by (simp_all add: slot_plus_1 nth_slots)
  have d: "slots cf ?d a N = ?L[p := ?it]"
    using Suc.prems p by (simp add: slots_set_slot)
  obtain q where q: "shift_loop cf n (id_plus a (Suc (Suc p))) ?d = ?d\<lparr>packets_q := q\<rparr>"
      "length q = length (packets_q ?d)"
      "slots cf (?d\<lparr>packets_q := q\<rparr>) a N =
         (let L = slots cf ?d a N in take (Suc p) L @ take n (drop (Suc (Suc p)) L) @ drop (Suc p + n) L)"
    using Suc.IH [of ?d "Suc p" "id_plus a (Suc (Suc p))"] Suc.prems by auto
  have dq: "?d\<lparr>packets_q := q\<rparr> = c\<lparr>packets_q := q\<rparr>"
    by (simp add: set_slot_def)
  have "take (Suc n) (drop (Suc p) ?L) = ?L ! Suc p # take n (drop (Suc (Suc p)) ?L)"
    using p by (simp add: Cons_nth_drop_Suc [symmetric])
  then have "slots cf (c\<lparr>packets_q := q\<rparr>) a N =
      take p ?L @ take (Suc n) (drop (Suc p) ?L) @ drop (p + Suc n) ?L"
    using q(3) p unfolding dq d by (simp add: Let_def it(2) take_Suc_conv_app_nth)
  moreover have "shift_loop cf (Suc n) i c = c\<lparr>packets_q := q\<rparr>"
    using q(1) unfolding dq by (simp add: it(1) id_suc) (simp add: Suc.prems(4))
  ultimately show ?case
    using q(2) by (intro exI [of _ q]) (simp add: Let_def)
qed

section \<open>Reporting\<close>

lemma confirm_batch_spec:
  fixes b :: nat
  assumes "is_seq (last_reported c)" "is_seq (last_ack c)"
  defines "k \<equiv> min b (id_dist (last_reported c) (last_ack c))"
  shows "confirm_batch cf b c =
    (c\<lparr>last_reported := id_plus (last_reported c) k\<rparr>, slots cf c (last_reported c) k)"
  unfolding k_def using assms(1,2)
proof (induction b arbitrary: c)
  case 0
  then show ?case
    by simp
next
  case (Suc b)
  let ?r = "last_reported c" and ?a = "last_ack c"
  show ?case
  proof (cases "?r = ?a")
    case True
    with Suc.prems show ?thesis
      by simp
  next
    case False
    then obtain m where m: "id_dist ?r ?a = Suc m"
      using Suc.prems by (metis id_dist_0_iff not0_implies_Suc)
    then have "m < 128" "id_dist ?r (id_plus ?r 1) = 1"
      using id_dist_less [of ?r ?a] Suc.prems by (simp_all add: id_dist_plus del: id_dist_less)
    then have m': "id_dist (id_plus ?r 1) ?a = m"
      using id_dist_between [of ?r "id_plus ?r 1" ?a] m Suc.prems by simp
    show ?thesis
      using False Suc.IH [of "c\<lparr>last_reported := id_plus ?r 1\<rparr>"] Suc.prems m m'
      by (simp add: id_suc slots_Suc_front)
  qed
qed

text \<open>Where the reporting loop ends: everything reported, the bus reset if one was due.\<close>

definition all_reported :: "config \<Rightarrow> ludlc_connection \<Rightarrow> ludlc_connection" where
  "all_reported cf c =
     (let d = ludlc_seq_reset_if_drained cf (clear_flag LUDLC_CONN_U_CONFIRM_F (c\<lparr>last_reported := last_ack c\<rparr>))
      in d\<lparr>report_busy := ludlc_platform_clear_bit LUDLC_REPORT_BUSY_F (report_busy d)\<rparr>)"

definition u_pending :: "ludlc_connection \<Rightarrow> packet_queue_item list" where
  "u_pending c = (if has_flag LUDLC_CONN_U_CONFIRM_F c then [u_confirm c] else [])"

text \<open>What was resolved and not yet reported; nothing, in a build that reports inline.\<close>

definition q_pending :: "config \<Rightarrow> ludlc_connection \<Rightarrow> packet_queue_item list" where
  "q_pending cf c =
     slots cf c (ludlc_conn_last_reported cf c) (id_dist (ludlc_conn_last_reported cf c) (last_ack c))"

lemma clear_bit_idem: "\<not> bit w nr \<Longrightarrow> nr < 32 \<Longrightarrow> ludlc_platform_clear_bit nr w = w"
  by (rule bit_eqI) (auto simp: bit_clear_bit)

lemma clear_flag_idem: "\<not> has_flag nr c \<Longrightarrow> nr < 32 \<Longrightarrow> clear_flag nr c = c"
  by (simp add: clear_flag_def has_flag_def test_bit_iff clear_bit_idem)

lemma last_reported_idem: "last_reported c = v \<Longrightarrow> c\<lparr>last_reported := v\<rparr> = c"
  by (cases c) simp

lemma seq_reset_flags:
  "nr < 32 \<Longrightarrow> nr \<noteq> 5 \<Longrightarrow> has_flag nr (ludlc_seq_reset_if_drained cf c) = has_flag nr c"
  by (simp add: ludlc_seq_reset_if_drained_def has_flag_def clear_flag_def flag_simps Let_def)

lemma seq_reset_fields [simp]:
  "conn_cb (ludlc_seq_reset_if_drained cf c) = conn_cb c"
  "conn_cfg (ludlc_seq_reset_if_drained cf c) = conn_cfg c"
  "packets_q (ludlc_seq_reset_if_drained cf c) = packets_q c"
  "report_busy (ludlc_seq_reset_if_drained cf c) = report_busy c"
  by (simp_all add: ludlc_seq_reset_if_drained_def clear_flag_def Let_def)

lemma seq_reset_again:
  assumes "CONFIG_LUDLC_MT cf" "last_reported c = last_ack c" "\<not> has_flag LUDLC_CONN_U_CONFIRM_F c"
  defines "d \<equiv> ludlc_seq_reset_if_drained cf c"
  shows "\<not> has_flag LUDLC_CONN_BUS_OUT_F d" "last_reported d = last_ack d"
  using assms(1-3)
  by (simp_all add: d_def ludlc_seq_reset_if_drained_def has_flag_def clear_flag_def flag_simps Let_def)

lemma seq_reset_none:
  assumes "\<not> has_flag LUDLC_CONN_BUS_OUT_F c \<or>
    CONFIG_LUDLC_MT cf \<and> (last_reported c \<noteq> last_ack c \<or> has_flag LUDLC_CONN_U_CONFIRM_F c)"
  shows "ludlc_seq_reset_if_drained cf c = c"
  using assms by (auto simp: ludlc_seq_reset_if_drained_def)

lemma confirm_pass_spec:
  fixes cf :: config and c :: ludlc_connection
  assumes "is_seq (last_reported c)" "is_seq (last_ack c)"
  defines "k \<equiv> min (CONFIG_LUDLC_CONFIRM_BATCH cf) (id_dist (last_reported c) (last_ack c))"
  defines "d \<equiv> ludlc_seq_reset_if_drained cf
      (clear_flag LUDLC_CONN_U_CONFIRM_F (c\<lparr>last_reported := id_plus (last_reported c) k\<rparr>))"
  shows "confirm_pass cf c =
     (if k = 0 \<and> u_pending c = []
      then d\<lparr>report_busy := ludlc_platform_clear_bit LUDLC_REPORT_BUSY_F (report_busy d)\<rparr> else d,
      if u_pending c = [] then None else Some (u_confirm c), slots cf c (last_reported c) k)"
proof -
  have batch: "confirm_batch cf (CONFIG_LUDLC_CONFIRM_BATCH cf) (clear_flag LUDLC_CONN_U_CONFIRM_F c) =
    (clear_flag LUDLC_CONN_U_CONFIRM_F (c\<lparr>last_reported := id_plus (last_reported c) k\<rparr>),
     slots cf c (last_reported c) k)"
    unfolding k_def using assms(1,2)
    by (subst confirm_batch_spec) (simp_all add: clear_flag_def)
  have nil: "slots cf c (last_reported c) k = [] \<longleftrightarrow> k = 0"
    by (metis length_0_conv length_slots)
  show ?thesis
  proof (cases "has_flag LUDLC_CONN_U_CONFIRM_F c")
    case True
    with batch nil show ?thesis
      by (simp add: confirm_pass_def u_pending_def d_def)
  next
    case False
    then have "clear_flag LUDLC_CONN_U_CONFIRM_F c = c"
      by (simp add: clear_flag_idem)
    with False batch nil show ?thesis
      by (simp add: confirm_pass_def u_pending_def d_def)
  qed
qed

lemma pass_events_eq [simp]:
  "pass_events d u its =
     (case u of Some it \<Rightarrow> confirms (conn_cb d) Unnumbered [it] | None \<Rightarrow> []) @ confirms (conn_cb d) Numbered its"
  by (simp add: pass_events_def split: option.split)

lemma u_confirms_eq:
  "(case if u_pending c = [] then None else Some (u_confirm c) of
      Some it \<Rightarrow> confirms cb Unnumbered [it] | None \<Rightarrow> []) = confirms cb Unnumbered (u_pending c)"
  by (simp add: u_pending_def)

lemma clear_flag_fields [simp]:
  "last_reported (clear_flag nr c) = last_reported c" "last_ack (clear_flag nr c) = last_ack c"
  "conn_cb (clear_flag nr c) = conn_cb c" "conn_cfg (clear_flag nr c) = conn_cfg c"
  "packets_q (clear_flag nr c) = packets_q c"
  by (simp_all add: clear_flag_def)

lemma has_flag_clear [simp]: "nr < 32 \<Longrightarrow> m < 32 \<Longrightarrow> has_flag m (clear_flag nr c) \<longleftrightarrow> has_flag m c \<and> m \<noteq> nr"
  by (simp add: has_flag_def clear_flag_def flag_simps)

lemma has_flag_set [simp]: "nr < 32 \<Longrightarrow> m < 32 \<Longrightarrow> has_flag m (set_flag nr c) \<longleftrightarrow> has_flag m c \<or> m = nr"
  by (simp add: has_flag_def set_flag_def flag_simps)

text \<open>A pass that leaves nothing behind is the last one or the last but one.\<close>

lemma confirm_loop_idle:
  assumes "is_seq (last_ack c)" "last_reported c = last_ack c" "u_pending c = []"
  shows "confirm_loop cf c = Some (all_reported cf c, [])"
  using assms
  by (subst confirm_loop.simps) (simp add: confirm_pass_spec all_reported_def Let_def)

lemma all_reported_reset:
  fixes c :: ludlc_connection
  assumes "CONFIG_LUDLC_MT cf"
  defines "d \<equiv> ludlc_seq_reset_if_drained cf (clear_flag LUDLC_CONN_U_CONFIRM_F (c\<lparr>last_reported := last_ack c\<rparr>))"
  shows "all_reported cf d = all_reported cf c" "u_pending d = []" "last_reported d = last_ack d"
    "is_seq (last_ack c) \<Longrightarrow> is_seq (last_ack d)"
proof -
  let ?e = "clear_flag LUDLC_CONN_U_CONFIRM_F (c\<lparr>last_reported := last_ack c\<rparr>)"
  have e: "last_reported ?e = last_ack ?e" "\<not> has_flag LUDLC_CONN_U_CONFIRM_F ?e"
    by simp_all
  note again = seq_reset_again [OF assms(1) e, folded d_def]
  have u: "\<not> has_flag LUDLC_CONN_U_CONFIRM_F d"
    unfolding d_def by (simp add: seq_reset_flags)
  have "clear_flag LUDLC_CONN_U_CONFIRM_F (d\<lparr>last_reported := last_ack d\<rparr>) = d"
    using u again by (simp add: last_reported_idem clear_flag_idem)
  then show "all_reported cf d = all_reported cf c"
    using again by (simp add: all_reported_def seq_reset_none) (simp add: d_def)
  show "u_pending d = []" "last_reported d = last_ack d"
    using u again by (simp_all add: u_pending_def)
  show "is_seq (last_ack d)" if "is_seq (last_ack c)"
    using that by (simp add: d_def ludlc_seq_reset_if_drained_def Let_def)
qed

lemma confirm_loop_spec:
  assumes "CONFIG_LUDLC_MT cf" "1 \<le> CONFIG_LUDLC_CONFIRM_BATCH cf"
    "is_seq (last_reported c)" "is_seq (last_ack c)"
  shows "confirm_loop cf c =
    Some (all_reported cf c,
      confirms (conn_cb c) Unnumbered (u_pending c) @ confirms (conn_cb c) Numbered (q_pending cf c))"
  using assms(3,4)
  unfolding q_pending_def ludlc_conn_last_reported_def if_P [OF assms(1)]
proof (induction "id_dist (last_reported c) (last_ack c)" arbitrary: c rule: less_induct)
  case less
  let ?b = "CONFIG_LUDLC_CONFIRM_BATCH cf"
  let ?r = "last_reported c" and ?a = "last_ack c"
  let ?k = "min ?b (id_dist ?r ?a)"
  define e where "e = clear_flag LUDLC_CONN_U_CONFIRM_F (c\<lparr>last_reported := id_plus ?r ?k\<rparr>)"
  define d where "d = ludlc_seq_reset_if_drained cf e"
  have e: "last_ack e = ?a" "last_reported e = id_plus ?r ?k" "\<not> has_flag LUDLC_CONN_U_CONFIRM_F e"
    by (simp_all add: e_def)
  have pass: "confirm_pass cf c =
     (if ?k = 0 \<and> u_pending c = []
      then d\<lparr>report_busy := ludlc_platform_clear_bit LUDLC_REPORT_BUSY_F (report_busy d)\<rparr> else d,
      if u_pending c = [] then None else Some (u_confirm c), slots cf c ?r ?k)"
    unfolding d_def e_def by (rule confirm_pass_spec [OF less.prems])
  have nil: "slots cf c ?r ?k = [] \<longleftrightarrow> ?k = 0"
    by (metis length_0_conv length_slots)
  have cb: "conn_cb d = conn_cb c"
    by (simp add: d_def e_def)
  show ?case
  proof (cases "?k = 0 \<and> u_pending c = []")
    case True
    then have "?r = ?a"
      using assms(2) less.prems by (simp add: id_dist_0_iff min_def split: if_splits)
    with True show ?thesis
      using confirm_loop_idle [of c cf] less.prems by simp
  next
    case False
    then have rec: "confirm_loop cf c = do { (c', evs) \<leftarrow> confirm_loop cf d;
        Some (c', confirms (conn_cb c) Unnumbered (u_pending c) @
                  confirms (conn_cb c) Numbered (slots cf c ?r ?k) @ evs) }"
      by (subst confirm_loop.simps) (auto simp: pass nil cb u_confirms_eq)
    show ?thesis
    proof (cases "id_dist ?r ?a \<le> ?b")
      case True
      then have e_eq: "e = clear_flag LUDLC_CONN_U_CONFIRM_F (c\<lparr>last_reported := ?a\<rparr>)"
        using less.prems by (simp add: e_def min_def)
      note idle = all_reported_reset [OF assms(1), of c, folded e_eq d_def]
      show ?thesis
        using True confirm_loop_idle [of d cf] idle less.prems
        by (simp add: rec min_absorb2)
    next
      case False
      then have lt: "?b < id_dist ?r ?a" and k: "?k = ?b"
        by simp_all
      have "id_dist ?r (id_plus ?r ?b) = ?b"
        using lt id_dist_less [of ?r ?a] less.prems by (intro id_dist_plus) (auto simp del: id_dist_less)
      then have dist: "id_dist (id_plus ?r ?b) ?a = id_dist ?r ?a - ?b"
        using id_dist_between [of ?r "id_plus ?r ?b" ?a] lt less.prems by simp
      then have d_eq: "d = e"
        using lt assms(1) unfolding d_def by (intro seq_reset_none) (auto simp: e k)
      have IH: "confirm_loop cf d = Some (all_reported cf d,
          confirms (conn_cb d) Unnumbered (u_pending d) @ confirms (conn_cb d) Numbered (slots cf d (last_reported d) (id_dist (last_reported d) (last_ack d))))"
        using less.hyps [of d] less.prems dist lt assms(2) by (simp add: d_eq e k)
      have split: "slots cf c ?r (id_dist ?r ?a) =
          slots cf c ?r ?k @ slots cf d (last_reported d) (id_dist (last_reported d) (last_ack d))"
        using slots_add [of cf c ?r ?b "id_dist ?r ?a - ?b"] lt dist
        by (simp add: d_eq e k) (simp add: e_def clear_flag_def)
      have "all_reported cf d = all_reported cf c" "u_pending d = []"
        by (simp_all add: d_eq e_def all_reported_def u_pending_def clear_flag_def clear_bit_idem
            has_flag_def flag_simps)
      then show ?thesis
        by (simp add: rec IH split cb)
    qed
  qed
qed

end
