(* ===== verification/Ludlc_Inv.thy ===== *)
theory Ludlc_Inv
  imports Ludlc_Loops
begin

text \<open>
  The invariant of a connection. \<open>base_inv\<close> holds whenever the lock is free, also while
  confirmations wait to be reported; \<open>conn_inv\<close> adds that nothing waits, which is what
  an operation finds and leaves when no other thread is inside one.
\<close>

section \<open>Definitions\<close>

text \<open>Packets taken from the application and not resolved, oldest first.\<close>

definition outstanding :: "config \<Rightarrow> ludlc_connection \<Rightarrow> packet_queue_item list" where
  "outstanding cf c = slots cf c (last_ack c) (id_dist (last_ack c) (last_queued c))"

definition payload_ok :: "config \<Rightarrow> ludlc_connection \<Rightarrow> packet_queue_item \<Rightarrow> bool" where
  "payload_ok cf c it \<longleftrightarrow>
     pq_size it \<le> ludlc_conn_payload_lim cf c \<and>
     (case pq_payload it of None \<Rightarrow> pq_size it = 0 | Some bs \<Rightarrow> unat (pq_size it) \<le> length bs)"

definition item_ok :: "config \<Rightarrow> ludlc_connection \<Rightarrow> packet_queue_item \<Rightarrow> bool" where
  "item_ok cf c it \<longleftrightarrow>
     payload_ok cf c it \<and> \<not> is_ctrl_chan cf c (pq_chan it) \<and> 1 \<le> unat (pq_ttl it) \<and> unat (pq_ttl it) \<le> 127"

definition u_flight :: "ludlc_connection \<Rightarrow> bool" where
  "u_flight c \<longleftrightarrow> \<not> has_flag LUDLC_CONN_U_IDLE_F c \<or> \<not> has_flag LUDLC_CONN_U_DONE_F c"

definition ids_ok :: "ludlc_connection \<Rightarrow> bool" where
  "ids_ok c \<longleftrightarrow> is_seq (last_queued c) \<and> is_seq (last_sent c) \<and> is_seq (last_ack c) \<and>
     is_seq (last_received c) \<and> is_seq (last_seen c) \<and> is_seq (last_reported c)"

text \<open>The order of the identifiers of the window.\<close>

definition window_inv :: "config \<Rightarrow> ludlc_connection \<Rightarrow> bool" where
  "window_inv cf c \<longleftrightarrow>
     (let rep = ludlc_conn_last_reported cf c in
      (\<not> has_flag LUDLC_CONN_BUS_OUT_F c \<longrightarrow>
         id_dist (last_ack c) (last_sent c) \<le> id_dist (last_ack c) (last_queued c)) \<and>
      id_dist rep (last_ack c) \<le> id_dist rep (last_queued c) \<and>
      id_dist rep (last_queued c) \<le> wnd cf c)"

definition state_inv :: "config \<Rightarrow> ludlc_connection \<Rightarrow> bool" where
  "state_inv cf c \<longleftrightarrow>
     conn_state c \<in> {LUDLC_STATE_DISCONNECTED, LUDLC_STATE_WAIT_CONN_1, LUDLC_STATE_WAIT_CONN_2,
                     LUDLC_STATE_CONNECTED, LUDLC_STATE_TERMINATE} \<and>
     (conn_state c \<noteq> LUDLC_STATE_CONNECTED \<longrightarrow>
        \<not> u_flight c \<and> \<not> has_flag LUDLC_CONN_DISC_AFTER_TX_F c \<and>
        (\<not> has_flag LUDLC_CONN_BUS_OUT_F c \<longrightarrow>
           last_sent c = 0 \<and> last_ack c = 0 \<and> last_received c = 0 \<and> last_seen c = 0)) \<and>
     (has_flag LUDLC_CONN_BUS_OUT_F c \<longrightarrow>
        CONFIG_LUDLC_MT cf \<and> last_queued c = last_ack c \<and> conn_state c \<noteq> LUDLC_STATE_CONNECTED) \<and>
     (has_flag LUDLC_CONN_U_CONFIRM_F c \<longrightarrow> CONFIG_LUDLC_MT cf)"

definition buffers_inv :: "config \<Rightarrow> ludlc_connection \<Rightarrow> bool" where
  "buffers_inv cf c \<longleftrightarrow>
     1 \<le> unat (ludlc_conn_payload_lim cf c) \<and>
     length (tx_payload c) = unat (ludlc_conn_payload_lim cf c) \<and>
     (u_flight c \<longrightarrow> payload_ok cf c (u_packet c)) \<and>
     (\<forall>it \<in> set (outstanding cf c). item_ok cf c it)"

definition base_inv :: "config \<Rightarrow> ludlc_connection \<Rightarrow> bool" where
  "base_inv cf c \<longleftrightarrow>
     ring_ok cf c \<and> ids_ok c \<and> window_inv cf c \<and> state_inv cf c \<and> buffers_inv cf c"

text \<open>Nothing waits to be reported and no thread is reporting.\<close>

definition settled :: "config \<Rightarrow> ludlc_connection \<Rightarrow> bool" where
  "settled cf c \<longleftrightarrow>
     \<not> has_flag LUDLC_CONN_BUS_OUT_F c \<and> \<not> has_flag LUDLC_CONN_U_CONFIRM_F c \<and>
     ludlc_conn_last_reported cf c = last_ack c \<and> \<not> bit (report_busy c) LUDLC_REPORT_BUSY_F"

definition conn_inv :: "config \<Rightarrow> ludlc_connection \<Rightarrow> bool" where
  "conn_inv cf c \<longleftrightarrow> base_inv cf c \<and> settled cf c"

lemmas inv_defs = base_inv_def ids_ok_def window_inv_def state_inv_def buffers_inv_def

section \<open>Reporting settles a connection\<close>

definition finish :: "config \<Rightarrow> ludlc_connection \<Rightarrow> ludlc_connection" where
  "finish cf c =
     (if CONFIG_LUDLC_MT cf
      then all_reported cf (c\<lparr>report_busy := ludlc_platform_set_bit LUDLC_REPORT_BUSY_F (report_busy c)\<rparr>)
      else c)"

lemma u_pending_busy [simp]: "u_pending (c\<lparr>report_busy := w\<rparr>) = u_pending c"
  by (simp add: u_pending_def has_flag_def)

lemma q_pending_busy [simp]: "q_pending cf (c\<lparr>report_busy := w\<rparr>) = q_pending cf c"
  by (simp add: q_pending_def ludlc_conn_last_reported_def)

lemma confirm_unlocked_spec:
  assumes "base_inv cf c" "1 \<le> CONFIG_LUDLC_CONFIRM_BATCH cf" "\<not> bit (report_busy c) LUDLC_REPORT_BUSY_F"
  shows "ludlc_confirm_unlocked cf c =
    Some (finish cf c,
      confirms (conn_cb c) Unnumbered (u_pending c) @ confirms (conn_cb c) Numbered (q_pending cf c))"
proof (cases "CONFIG_LUDLC_MT cf")
  case True
  then show ?thesis
    using assms by (simp add: ludlc_confirm_unlocked_def flag_simps confirm_loop_spec finish_def inv_defs)
next
  case False
  then show ?thesis
    using assms
    by (auto simp: ludlc_confirm_unlocked_def finish_def inv_defs u_pending_def q_pending_def
        ludlc_conn_last_reported_def)
qed

text \<open>What the end of reporting leaves as it was, and the bus reset if it was due.\<close>

lemma finish_inline: "\<not> CONFIG_LUDLC_MT cf \<Longrightarrow> finish cf c = c"
  by (simp add: finish_def)

lemma finish_eq:
  assumes "CONFIG_LUDLC_MT cf"
  shows "finish cf c =
    (let d = c\<lparr>last_reported := last_ack c,
               report_busy := ludlc_platform_clear_bit 0 (ludlc_platform_set_bit 0 (report_busy c))\<rparr>;
         d = clear_flag LUDLC_CONN_U_CONFIRM_F d
     in if has_flag LUDLC_CONN_BUS_OUT_F c
        then clear_flag LUDLC_CONN_BUS_OUT_F
               (d\<lparr>last_reported := 0, last_sent := 0, last_queued := 0, last_ack := 0, last_received := 0,
                  last_seen := 0\<rparr>)
        else d)"
  using assms
  by (simp add: finish_def all_reported_def ludlc_seq_reset_if_drained_def Let_def has_flag_def
      clear_flag_def flag_simps)

lemma has_flag_update [simp]:
  "has_flag nr (last_queued_update g1 c) = has_flag nr c"
  "has_flag nr (last_sent_update g2 c) = has_flag nr c"
  "has_flag nr (last_ack_update g3 c) = has_flag nr c"
  "has_flag nr (last_received_update g4 c) = has_flag nr c"
  "has_flag nr (last_seen_update g5 c) = has_flag nr c"
  "has_flag nr (last_reported_update g6 c) = has_flag nr c"
  "has_flag nr (report_busy_update g7 c) = has_flag nr c"
  "has_flag nr (packets_q_update g8 c) = has_flag nr c"
  "has_flag nr (tx_payload_update g9 c) = has_flag nr c"
  "has_flag nr (tx_hdr_update g10 c) = has_flag nr c"
  "has_flag nr (u_packet_update g11 c) = has_flag nr c"
  "has_flag nr (u_confirm_update g12 c) = has_flag nr c"
  "has_flag nr (conn_stats_update g13 c) = has_flag nr c"
  "has_flag nr (nak_track_update g14 c) = has_flag nr c"
  "has_flag nr (conn_state_update g15 c) = has_flag nr c"
  "has_flag nr (ping_timer_update g16 c) = has_flag nr c"
  "has_flag nr (wd_timer_update g17 c) = has_flag nr c"
  by (simp_all add: has_flag_def)

lemma clear_flag_as_update: "clear_flag nr c = c\<lparr>conn_flags := ludlc_platform_clear_bit nr (conn_flags c)\<rparr>"
  by (simp add: clear_flag_def)

lemma finish_outstanding:
  assumes "base_inv cf c"
  shows "outstanding cf (finish cf c) = outstanding cf c"
proof (cases "CONFIG_LUDLC_MT cf")
  case True
  with assms show ?thesis
    by (auto simp: outstanding_def finish_eq Let_def clear_flag_as_update inv_defs)
qed (simp add: finish_def)

lemma finish_fields [simp]:
  "conn_cb (finish cf c) = conn_cb c" "conn_cfg (finish cf c) = conn_cfg c"
  "conn_state (finish cf c) = conn_state c" "packets_q (finish cf c) = packets_q c"
  "tx_payload (finish cf c) = tx_payload c" "u_packet (finish cf c) = u_packet c"
  "conn_stats (finish cf c) = conn_stats c"
  by (cases "CONFIG_LUDLC_MT cf"; simp add: finish_eq finish_inline Let_def clear_flag_as_update)+

lemma finish_flags:
  assumes "nr < 32"
  shows "has_flag nr (finish cf c) \<longleftrightarrow> has_flag nr c \<and> (CONFIG_LUDLC_MT cf \<longrightarrow> nr \<noteq> 5 \<and> nr \<noteq> 6)"
  using assms by (cases "CONFIG_LUDLC_MT cf") (auto simp: finish_eq finish_inline Let_def)

lemma cfg_cong:
  assumes "conn_cfg c = conn_cfg d"
  shows "ludlc_conn_payload_lim cf c = ludlc_conn_payload_lim cf d"
    and "is_ctrl_chan cf c ch = is_ctrl_chan cf d ch"
    and "payload_ok cf c it = payload_ok cf d it" and "item_ok cf c it = item_ok cf d it"
    and "wnd cf c = wnd cf d"
  using assms
  by (simp_all add: payload_ok_def item_ok_def ludlc_conn_payload_lim_def is_ctrl_chan_def
      ludlc_conn_chan_id_mask_def ludlc_conn_chan_tag_bits_def wnd_cong [of c d])

lemma finish_ids:
  assumes "CONFIG_LUDLC_MT cf"
  shows "last_reported (finish cf c) = last_ack (finish cf c)"
    and "\<not> has_flag LUDLC_CONN_BUS_OUT_F c \<Longrightarrow>
      last_ack (finish cf c) = last_ack c \<and> last_queued (finish cf c) = last_queued c \<and>
      last_sent (finish cf c) = last_sent c \<and> last_received (finish cf c) = last_received c \<and>
      last_seen (finish cf c) = last_seen c"
    and "has_flag LUDLC_CONN_BUS_OUT_F c \<Longrightarrow>
      last_ack (finish cf c) = 0 \<and> last_queued (finish cf c) = 0 \<and>
      last_sent (finish cf c) = 0 \<and> last_received (finish cf c) = 0 \<and> last_seen (finish cf c) = 0"
  using assms by (simp_all add: finish_eq Let_def clear_flag_as_update)

lemma finish_inv:
  assumes inv: "base_inv cf c" and busy: "\<not> bit (report_busy c) LUDLC_REPORT_BUSY_F"
  shows "conn_inv cf (finish cf c)"
proof (cases "CONFIG_LUDLC_MT cf")
  case False
  with inv busy have "settled cf c"
    by (auto simp: settled_def inv_defs ludlc_conn_last_reported_def)
  with False inv show ?thesis
    by (simp add: finish_def conn_inv_def)
next
  case True
  let ?d = "finish cf c"
  note cong = cfg_cong [of ?d c]
  have settled: "settled cf ?d"
    using True by (auto simp: settled_def finish_flags finish_ids ludlc_conn_last_reported_def)
      (simp add: finish_eq Let_def clear_flag_as_update flag_simps split: if_splits)
  have ring: "ring_ok cf ?d"
    using inv ring_ok_cong [of ?d c cf] by (simp add: inv_defs)
  have ids: "ids_ok ?d" and win: "window_inv cf ?d"
    using inv True finish_ids [OF True, of c] id_dist_between [of "last_reported c" "last_ack c" "last_queued c"]
    by (cases "has_flag 5 c"; auto simp: inv_defs ludlc_conn_last_reported_def Let_def finish_flags cong)+
  have st: "state_inv cf ?d"
    using inv True finish_ids [OF True, of c]
    by (cases "has_flag 5 c"; auto simp: inv_defs u_flight_def finish_flags)
  have buf: "buffers_inv cf ?d"
    using inv by (auto simp: inv_defs finish_outstanding [OF inv] u_flight_def finish_flags cong)
  show ?thesis
    using settled ring ids win st buf by (simp add: conn_inv_def base_inv_def)
qed

end
