(* ===== verification/Ludlc_Disc.thy ===== *)
theory Ludlc_Disc
  imports Ludlc_Inv
begin

text \<open>
  What a disconnect does: every packet the application handed over and the link has not
  resolved is failed with \<open>EPIPE\<close>, oldest first, the unnumbered one before them, and
  the connection is back to its first state with every sequence number at zero.
\<close>

definition u_failed :: "ludlc_connection \<Rightarrow> packet_queue_item list" where
  "u_failed c =
     (if u_flight c \<and> \<not> has_flag LUDLC_CONN_DISC_AFTER_TX_F c
      then [(u_packet c)\<lparr>pq_result := EPIPE\<rparr>] else [])"

definition q_failed :: "config \<Rightarrow> ludlc_connection \<Rightarrow> packet_queue_item list" where
  "q_failed cf c = map (pq_result_update (\<lambda>_. EPIPE)) (outstanding cf c)"

text \<open>The flags of a link just swept.\<close>

definition swept_flags :: "config \<Rightarrow> bool \<Rightarrow> uint32 \<Rightarrow> uint32" where
  "swept_flags cf u w =
     ludlc_platform_clear_mask (LUDLC_CONN_SWEEP_CLEAR_MASK cf)
       (ludlc_platform_set_mask LUDLC_CONN_IDLE_MASK
         (let w = ludlc_platform_set_bit LUDLC_CONN_BUS_OUT_F w
          in if u \<and> CONFIG_LUDLC_MT cf then ludlc_platform_set_bit LUDLC_CONN_U_CONFIRM_F w else w))"

lemma bit_swept_flags:
  "m < 32 \<Longrightarrow> bit (swept_flags cf u w) m \<longleftrightarrow>
     m \<in> {0, 3, 4, 5} \<or> m = 1 \<and> bit w 1 \<or> m = 6 \<and> CONFIG_LUDLC_MT cf \<and> (u \<or> bit w 6)"
  by (auto simp: swept_flags_def flag_simps Let_def)

text \<open>The connection between the sweep and the reset of the sequence.\<close>

definition u_fail :: "config \<Rightarrow> bool \<Rightarrow> packet_queue_item \<Rightarrow> ludlc_connection \<Rightarrow> ludlc_connection" where
  "u_fail cf u it c =
     (if \<not> u then c
      else if CONFIG_LUDLC_MT cf then c\<lparr>u_packet := it, u_confirm := it\<rparr> else c\<lparr>u_packet := it\<rparr>)"

definition swept ::
    "config \<Rightarrow> ludlc_connection \<Rightarrow> packet_queue_item list \<Rightarrow> ludlc_connection" where
  "swept cf c q =
     u_fail cf (u_failed c \<noteq> []) ((u_packet c)\<lparr>pq_result := EPIPE\<rparr>)
       (c\<lparr>wd_timer := None, ping_timer := None, conn_state := LUDLC_STATE_DISCONNECTED,
          conn_flags := swept_flags cf (u_failed c \<noteq> []) (conn_flags c),
          packets_q := q, last_ack := last_queued c\<rparr>)"

lemma u_fail_fields [simp]:
  "conn_cfg (u_fail cf u it c) = conn_cfg c" "conn_cb (u_fail cf u it c) = conn_cb c"
  "packets_q (u_fail cf u it c) = packets_q c" "conn_flags (u_fail cf u it c) = conn_flags c"
  "last_ack (u_fail cf u it c) = last_ack c" "last_queued (u_fail cf u it c) = last_queued c"
  "last_reported (u_fail cf u it c) = last_reported c" "last_sent (u_fail cf u it c) = last_sent c"
  "last_received (u_fail cf u it c) = last_received c" "last_seen (u_fail cf u it c) = last_seen c"
  "conn_state (u_fail cf u it c) = conn_state c" "tx_payload (u_fail cf u it c) = tx_payload c"
  "report_busy (u_fail cf u it c) = report_busy c" "ring_ok cf' (u_fail cf u it c) = ring_ok cf' c"
  "wnd cf' (u_fail cf u it c) = wnd cf' c" "slots cf' (u_fail cf u it c) a n = slots cf' c a n"
  by (simp_all add: u_fail_def)

lemma flags_u_packet_commute:
  "c\<lparr>u_packet := x, conn_flags := w\<rparr> = c\<lparr>conn_flags := w, u_packet := x\<rparr>"
  "c\<lparr>u_confirm := x, conn_flags := w\<rparr> = c\<lparr>conn_flags := w, u_confirm := x\<rparr>"
  by simp_all

lemma on_disconnect_lock_form:
  assumes "ring_ok cf c" "ids_ok c" "id_dist (last_ack c) (last_queued c) \<le> wnd cf c"
  shows "\<exists>q. on_disconnect_lock cf c =
      (inc_on_disconn (ludlc_seq_reset_if_drained cf (swept cf c q)),
       (if CONFIG_LUDLC_MT cf then [] else confirms (conn_cb c) Unnumbered (u_failed c)) @
       lock_confirms cf (conn_cb c) (q_failed cf c)) \<and>
    length q = length (packets_q c) \<and>
    slots cf (c\<lparr>packets_q := q\<rparr>) (last_ack c) (id_dist (last_ack c) (last_queued c)) = q_failed cf c"
proof -
  let ?u = "u_failed c \<noteq> []"
  let ?N = "id_dist (last_ack c) (last_queued c)"
  have a: "last_ack c = id_plus (last_ack c) 0"
    using assms(2) by (simp add: ids_ok_def)
  define d where "d = u_fail cf ?u ((u_packet c)\<lparr>pq_result := EPIPE\<rparr>)
    (c\<lparr>wd_timer := None, ping_timer := None, conn_state := LUDLC_STATE_DISCONNECTED,
       conn_flags := swept_flags cf ?u (conn_flags c)\<rparr>)"
  have d: "ring_ok cf d" "wnd cf d = wnd cf c" "slots cf d = slots cf c" "conn_cb d = conn_cb c"
    "last_ack d = last_ack c" "last_queued d = last_queued c" "packets_q d = packets_q c"
    using assms(1) by (simp_all add: d_def fun_eq_iff)
  have dq: "d\<lparr>packets_q := q, last_ack := last_queued c\<rparr> = swept cf c q" for q
    by (simp add: d_def swept_def u_fail_def)
  obtain q where q: "sweep_loop cf ?N (last_ack c) d =
      (d\<lparr>packets_q := q\<rparr>,
       lock_confirms cf (conn_cb c) (map (pq_result_update (\<lambda>_. EPIPE)) (take ?N (drop 0 (slots cf c (last_ack c) ?N)))))"
      "length q = length (packets_q c)"
      "slots cf (d\<lparr>packets_q := q\<rparr>) (last_ack c) ?N = resolve_run EPIPE 0 ?N (slots cf c (last_ack c) ?N)"
    using sweep_loop_spec [OF d(1), of ?N 0 ?N "last_ack c" "last_ack c"] a assms(3) d by auto
  have "on_disconnect_lock cf c =
      (let (e, evs) = sweep_loop cf ?N (last_ack c) d
       in (inc_on_disconn (ludlc_seq_reset_if_drained cf (e\<lparr>last_ack := last_queued e\<rparr>)),
           (if CONFIG_LUDLC_MT cf then [] else confirms (conn_cb c) Unnumbered (u_failed c)) @ evs))"
    by (auto simp: on_disconnect_lock_def d_def Let_def u_failed_def u_flight_def set_flag_def has_flag_def
        flag_simps swept_flags_def ludlc_confirm_u_lock_def id_dist_def split_def u_fail_def
        flags_u_packet_commute)
  then have "on_disconnect_lock cf c =
      (inc_on_disconn (ludlc_seq_reset_if_drained cf (swept cf c q)),
       (if CONFIG_LUDLC_MT cf then [] else confirms (conn_cb c) Unnumbered (u_failed c)) @
       lock_confirms cf (conn_cb c) (q_failed cf c))"
    by (simp add: q d dq q_failed_def outstanding_def)
  moreover have "slots cf (c\<lparr>packets_q := q\<rparr>) (last_ack c) ?N = q_failed cf c"
    using q(3) slots_cong [of "c\<lparr>packets_q := q\<rparr>" "d\<lparr>packets_q := q\<rparr>"]
    by (simp add: d_def q_failed_def outstanding_def resolve_run_def)
  ultimately show ?thesis
    using q(2) by blast
qed

text \<open>The reset that a disconnect inside the lock reaches or leaves to the reporting.\<close>

definition drained :: "config \<Rightarrow> ludlc_connection \<Rightarrow> bool" where
  "drained cf c \<longleftrightarrow> CONFIG_LUDLC_MT cf \<longrightarrow> u_failed c = [] \<and> q_failed cf c = []"

lemma swept_fields [simp]:
  "conn_cfg (swept cf c q) = conn_cfg c" "conn_cb (swept cf c q) = conn_cb c"
  "packets_q (swept cf c q) = q" "conn_state (swept cf c q) = 0"
  "last_ack (swept cf c q) = last_queued c" "last_queued (swept cf c q) = last_queued c"
  "last_reported (swept cf c q) = last_reported c" "last_sent (swept cf c q) = last_sent c"
  "last_received (swept cf c q) = last_received c" "last_seen (swept cf c q) = last_seen c"
  "tx_payload (swept cf c q) = tx_payload c" "report_busy (swept cf c q) = report_busy c"
  "u_failed c \<noteq> [] \<Longrightarrow> CONFIG_LUDLC_MT cf \<Longrightarrow> u_confirm (swept cf c q) = hd (u_failed c)"
  by (simp_all add: swept_def u_fail_def u_failed_def split: if_splits)

lemma has_flag_swept:
  "m < 32 \<Longrightarrow> has_flag m (swept cf c q) \<longleftrightarrow>
     m \<in> {0, 3, 4, 5} \<or> m = 1 \<and> has_flag 1 c \<or>
     m = 6 \<and> CONFIG_LUDLC_MT cf \<and> (u_failed c \<noteq> [] \<or> has_flag 6 c)"
  by (simp add: has_flag_def test_bit_iff swept_def bit_swept_flags)

lemma u_failed_hd: "u_failed c \<noteq> [] \<Longrightarrow> [hd (u_failed c)] = u_failed c"
  by (simp add: u_failed_def split: if_splits)

lemma conn_inv_window:
  assumes "conn_inv cf c"
  shows "id_dist (last_ack c) (last_queued c) \<le> wnd cf c" "ring_ok cf c" "ids_ok c"
    "id_dist (last_ack c) (last_sent c) \<le> id_dist (last_ack c) (last_queued c)"
    "\<not> has_flag LUDLC_CONN_BUS_OUT_F c" "\<not> has_flag LUDLC_CONN_U_CONFIRM_F c"
    "CONFIG_LUDLC_MT cf \<Longrightarrow> last_reported c = last_ack c"
    "\<not> bit (report_busy c) LUDLC_REPORT_BUSY_F"
    "ludlc_conn_last_reported cf c = last_ack c"
  using assms by (auto simp: conn_inv_def inv_defs settled_def Let_def ludlc_conn_last_reported_def)

lemma swept_reset:
  fixes q :: "packet_queue_item list"
  assumes inv: "conn_inv cf c"
  defines "d \<equiv> swept cf c q"
  shows "ludlc_seq_reset_if_drained cf d =
    (if drained cf c
     then clear_flag LUDLC_CONN_BUS_OUT_F
            (d\<lparr>last_reported := (if CONFIG_LUDLC_MT cf then 0 else last_reported c), last_sent := 0,
               last_queued := 0, last_ack := 0, last_received := 0, last_seen := 0\<rparr>)
     else d)"
proof -
  note w = conn_inv_window [OF inv]
  have bus: "has_flag LUDLC_CONN_BUS_OUT_F d"
    by (simp add: d_def has_flag_swept)
  have "q_failed cf c = [] \<longleftrightarrow> last_ack c = last_queued c"
    using w(3) by (metis id_dist_0_iff ids_ok_def length_0_conv length_map length_slots outstanding_def
        q_failed_def)
  then have "drained cf c \<longleftrightarrow> (CONFIG_LUDLC_MT cf \<longrightarrow>
      last_reported d = last_ack d \<and> \<not> has_flag LUDLC_CONN_U_CONFIRM_F d)"
    using w(6,7) by (auto simp: drained_def d_def has_flag_swept)
  moreover have "d\<lparr>last_reported := last_reported c\<rparr> = d"
    by (simp add: d_def last_reported_idem)
  ultimately show ?thesis
    using bus by (cases "CONFIG_LUDLC_MT cf") (auto simp: ludlc_seq_reset_if_drained_def Let_def)
qed

lemma inc_on_disconn_eq: "\<exists>st. inc_on_disconn c = c\<lparr>conn_stats := st\<rparr>"
  by (auto simp: inc_on_disconn_def)

lemma disconnected_state:
  fixes st :: ludlc_stats
  assumes inv: "conn_inv cf c" and q: "length q = length (packets_q c)"
    "slots cf (c\<lparr>packets_q := q\<rparr>) (last_ack c) (id_dist (last_ack c) (last_queued c)) = q_failed cf c"
  defines "d \<equiv> (ludlc_seq_reset_if_drained cf (swept cf c q))\<lparr>conn_stats := st\<rparr>"
  shows "base_inv cf d" "u_pending d = (if CONFIG_LUDLC_MT cf then u_failed c else [])"
    "q_pending cf d = (if CONFIG_LUDLC_MT cf then q_failed cf c else [])"
    "outstanding cf d = []" "report_busy d = report_busy c" "conn_cb d = conn_cb c"
    "conn_cfg d = conn_cfg c" "conn_state d = 0" "last_ack d = last_queued d"
    "\<And>m. m < 32 \<Longrightarrow> m \<noteq> 5 \<Longrightarrow> m \<noteq> 6 \<Longrightarrow> has_flag m d \<longleftrightarrow> m = 0 \<or> m = 3 \<or> m = 4 \<or> m = 1 \<and> has_flag 1 c"
proof -
  note w = conn_inv_window [OF inv]
  note form = swept_reset [OF inv, of q]
  show "report_busy d = report_busy c" "conn_cb d = conn_cb c" "conn_cfg d = conn_cfg c" "conn_state d = 0"
    "last_ack d = last_queued d"
    by (simp_all add: d_def form clear_flag_as_update)
  then have out: "outstanding cf d = []"
    by (simp add: outstanding_def)
  then show "outstanding cf d = []" .
  show flags: "has_flag m d \<longleftrightarrow> m = 0 \<or> m = 3 \<or> m = 4 \<or> m = 1 \<and> has_flag 1 c"
    if "m < 32" "m \<noteq> 5" "m \<noteq> 6" for m
    using that by (simp add: d_def form has_flag_swept) 
  have f56: "has_flag 5 d \<longleftrightarrow> \<not> drained cf c" "has_flag 6 d \<longleftrightarrow> CONFIG_LUDLC_MT cf \<and> u_failed c \<noteq> []"
    using w(6) by (auto simp: d_def form has_flag_swept)
  show "u_pending d = (if CONFIG_LUDLC_MT cf then u_failed c else [])"
    using f56(2) u_failed_hd [of c] by (simp add: u_pending_def) (auto simp: d_def form drained_def)
  have rq: "drained cf c \<Longrightarrow> CONFIG_LUDLC_MT cf \<Longrightarrow> q_failed cf c = []"
    by (simp add: drained_def)
  show qp: "q_pending cf d = (if CONFIG_LUDLC_MT cf then q_failed cf c else [])"
    using q(2) w(7) rq slots_cong [of "swept cf c q" "c\<lparr>packets_q := q\<rparr>" cf]
    by (auto simp: q_pending_def ludlc_conn_last_reported_def d_def form clear_flag_as_update)
  have ring: "ring_ok cf d"
    using w(2) q(1) ring_ok_cong [of d c cf] by (simp add: d_def)
  have ids: "ids_ok d"
    using w(3) by (auto simp: ids_ok_def d_def form clear_flag_as_update)
  have win: "window_inv cf d"
    using w(1,7) f56(1) cfg_cong(5) [of d c cf]
    by (auto simp: window_inv_def Let_def ludlc_conn_last_reported_def)
       (auto simp: d_def form clear_flag_as_update drained_def)
  have st: "state_inv cf d"
    using f56 flags by (auto simp: state_inv_def u_flight_def)
      (auto simp: d_def form clear_flag_as_update drained_def)
  have buf: "buffers_inv cf d"
  proof -
    have "ludlc_conn_payload_lim cf d = ludlc_conn_payload_lim cf c" "tx_payload d = tx_payload c"
      by (rule cfg_cong(1)) (simp_all add: d_def form clear_flag_as_update)
    moreover have "\<not> u_flight d"
      using flags [of 3] flags [of 4] by (simp add: u_flight_def)
    ultimately show ?thesis
      using inv out by (simp add: conn_inv_def base_inv_def buffers_inv_def)
  qed
  show "base_inv cf d"
    using ring ids win st buf by (simp add: base_inv_def)
qed

section \<open>The outcome of a locked section\<close>

text \<open>
  \<open>d\<close> is what a locked section makes of \<open>c\<close> when it resolves the packets \<open>its\<close> and
  the unnumbered ones \<open>us\<close>: an inline build has reported them already, the other has
  them pending.
\<close>

definition locked ::
    "config \<Rightarrow> ludlc_connection \<Rightarrow> ludlc_connection \<Rightarrow> packet_queue_item list \<Rightarrow>
     packet_queue_item list \<Rightarrow> bool" where
  "locked cf c d us its \<longleftrightarrow>
     base_inv cf d \<and> \<not> bit (report_busy d) LUDLC_REPORT_BUSY_F \<and> conn_cb d = conn_cb c \<and>
     conn_cfg d = conn_cfg c \<and> has_flag LUDLC_CONN_INITED_F d = has_flag LUDLC_CONN_INITED_F c \<and>
     u_pending d = (if CONFIG_LUDLC_MT cf then us else []) \<and>
     q_pending cf d = (if CONFIG_LUDLC_MT cf then its else [])"

definition lock_events ::
    "config \<Rightarrow> ludlc_conn_cb option \<Rightarrow> packet_queue_item list \<Rightarrow> packet_queue_item list \<Rightarrow>
     ludlc_event list" where
  "lock_events cf cb us its =
     (if CONFIG_LUDLC_MT cf then [] else confirms cb Unnumbered us @ confirms cb Numbered its)"

definition unlock_events ::
    "config \<Rightarrow> ludlc_conn_cb option \<Rightarrow> packet_queue_item list \<Rightarrow> packet_queue_item list \<Rightarrow>
     ludlc_event list" where
  "unlock_events cf cb us its =
     (if CONFIG_LUDLC_MT cf then confirms cb Unnumbered us @ confirms cb Numbered its else [])"

lemma locked_confirm:
  assumes "locked cf c d us its" "1 \<le> CONFIG_LUDLC_CONFIRM_BATCH cf"
  shows "ludlc_confirm_unlocked cf d = Some (finish cf d, unlock_events cf (conn_cb c) us its)"
    and "conn_inv cf (finish cf d)" and "outstanding cf (finish cf d) = outstanding cf d"
  using assms confirm_unlocked_spec [of cf d] finish_inv [of cf d] finish_outstanding [of cf d]
  by (auto simp: locked_def unlock_events_def)

lemma locked_self: "conn_inv cf c \<Longrightarrow> locked cf c c [] []"
  using conn_inv_window [of cf c]
  by (simp add: locked_def conn_inv_def u_pending_def q_pending_def)

lemma locked_stats: "locked cf c (d\<lparr>conn_stats := st\<rparr>) us its = locked cf c d us its"
  by (simp add: locked_def inv_defs u_pending_def q_pending_def u_flight_def outstanding_def
      payload_ok_def item_ok_def ludlc_conn_last_reported_def Let_def)

lemma on_disconnect_lock_spec:
  assumes inv: "conn_inv cf c"
  obtains d where
    "on_disconnect_lock cf c = (d, lock_events cf (conn_cb c) (u_failed c) (q_failed cf c))"
    "locked cf c d (u_failed c) (q_failed cf c)" "outstanding cf d = []" "conn_state d = 0"
    "last_ack d = last_queued d" "has_flag LUDLC_CONN_NO_NAK_F d"
proof -
  note w = conn_inv_window [OF inv]
  obtain q where q: "on_disconnect_lock cf c =
      (inc_on_disconn (ludlc_seq_reset_if_drained cf (swept cf c q)),
       (if CONFIG_LUDLC_MT cf then [] else confirms (conn_cb c) Unnumbered (u_failed c)) @
       lock_confirms cf (conn_cb c) (q_failed cf c))" "length q = length (packets_q c)"
      "slots cf (c\<lparr>packets_q := q\<rparr>) (last_ack c) (id_dist (last_ack c) (last_queued c)) = q_failed cf c"
    using on_disconnect_lock_form [OF w(2,3,1)] by blast
  obtain st where st: "inc_on_disconn (ludlc_seq_reset_if_drained cf (swept cf c q)) =
      (ludlc_seq_reset_if_drained cf (swept cf c q))\<lparr>conn_stats := st\<rparr>"
    using inc_on_disconn_eq by blast
  note ds = disconnected_state [OF inv q(2,3), where st = st, folded st]
  show thesis
    by (rule that) (use q(1) ds(1-9) ds(10) [of 0] ds(10) [of 1] w(8) in \<open>simp_all add: lock_events_def lock_confirms_def locked_def\<close>)
qed

end
