(* ===== verification/Ludlc_Ops.thy ===== *)
theory Ludlc_Ops
  imports Ludlc_Disc
begin

text \<open>
  Each operation of the core on a connection that satisfies the invariant: what it
  returns, what it does to the packets outstanding, what it reports, and that the
  invariant holds again.
\<close>

section \<open>Fields the invariant does not read\<close>

lemmas inv_unfold = conn_inv_def inv_defs settled_def u_flight_def outstanding_def payload_ok_def
  item_ok_def ludlc_conn_last_reported_def Let_def

lemma base_inv_update [simp]:
  "base_inv cf (conn_stats_update g1 c) = base_inv cf c"
  "base_inv cf (wd_timer_update g2 c) = base_inv cf c"
  "base_inv cf (ping_timer_update g3 c) = base_inv cf c"
  "base_inv cf (tx_hdr_update g4 c) = base_inv cf c"
  "base_inv cf (u_confirm_update g5 c) = base_inv cf c"
  "base_inv cf (nak_track_update g6 c) = base_inv cf c"
  by (simp_all add: inv_unfold)

lemma settled_update [simp]:
  "settled cf (conn_stats_update g1 c) = settled cf c"
  "settled cf (wd_timer_update g2 c) = settled cf c"
  "settled cf (ping_timer_update g3 c) = settled cf c"
  "settled cf (tx_hdr_update g4 c) = settled cf c"
  "settled cf (u_confirm_update g5 c) = settled cf c"
  "settled cf (nak_track_update g6 c) = settled cf c"
  "settled cf (u_packet_update g7 c) = settled cf c"
  "settled cf (tx_payload_update g8 c) = settled cf c"
  "settled cf (packets_q_update g9 c) = settled cf c"
  "settled cf (last_queued_update g10 c) = settled cf c"
  "settled cf (last_sent_update g11 c) = settled cf c"
  "settled cf (conn_state_update g12 c) = settled cf c"
  "settled cf (last_received_update g13 c) = settled cf c"
  "settled cf (last_seen_update g14 c) = settled cf c"
  by (simp_all add: settled_def ludlc_conn_last_reported_def)

lemma conn_inv_update [simp]:
  "conn_inv cf (conn_stats_update g1 c) = conn_inv cf c"
  "conn_inv cf (wd_timer_update g2 c) = conn_inv cf c"
  "conn_inv cf (ping_timer_update g3 c) = conn_inv cf c"
  "conn_inv cf (tx_hdr_update g4 c) = conn_inv cf c"
  "conn_inv cf (u_confirm_update g5 c) = conn_inv cf c"
  "conn_inv cf (nak_track_update g6 c) = conn_inv cf c"
  by (simp_all add: conn_inv_def)

lemma outstanding_update [simp]:
  "outstanding cf (conn_stats_update g1 c) = outstanding cf c"
  "outstanding cf (wd_timer_update g2 c) = outstanding cf c"
  "outstanding cf (ping_timer_update g3 c) = outstanding cf c"
  "outstanding cf (tx_hdr_update g4 c) = outstanding cf c"
  "outstanding cf (u_confirm_update g5 c) = outstanding cf c"
  "outstanding cf (nak_track_update g6 c) = outstanding cf c"
  "outstanding cf (u_packet_update g7 c) = outstanding cf c"
  "outstanding cf (tx_payload_update g8 c) = outstanding cf c"
  "outstanding cf (conn_flags_update g9 c) = outstanding cf c"
  "outstanding cf (last_sent_update g11 c) = outstanding cf c"
  "outstanding cf (conn_state_update g12 c) = outstanding cf c"
  "outstanding cf (last_received_update g13 c) = outstanding cf c"
  "outstanding cf (last_seen_update g14 c) = outstanding cf c"
  by (simp_all add: outstanding_def)

text \<open>Of the flags it reads those of the unnumbered packet and of pending reports.\<close>

definition same_flags :: "uint32 \<Rightarrow> uint32 \<Rightarrow> bool" where
  "same_flags v w \<longleftrightarrow> (\<forall>m \<in> {2, 3, 4, 5, 6}. bit v m = bit w m)"

lemma has_flag_flags: "nr < 32 \<Longrightarrow> has_flag nr (c\<lparr>conn_flags := w\<rparr>) = bit w nr"
  by (simp add: has_flag_def test_bit_iff)

lemma has_flag_bit: "nr < 32 \<Longrightarrow> has_flag nr c = bit (conn_flags c) nr"
  by (simp add: has_flag_def test_bit_iff)

lemma base_inv_flags:
  "same_flags w (conn_flags c) \<Longrightarrow> base_inv cf (c\<lparr>conn_flags := w\<rparr>) = base_inv cf c"
  by (simp add: inv_unfold same_flags_def has_flag_flags) (simp add: has_flag_bit)

lemma conn_inv_flags:
  "same_flags w (conn_flags c) \<Longrightarrow> conn_inv cf (c\<lparr>conn_flags := w\<rparr>) = conn_inv cf c"
  by (simp add: conn_inv_def base_inv_flags settled_def)
     (simp add: same_flags_def has_flag_flags has_flag_bit ludlc_conn_last_reported_def)

text \<open>The buffers of a connection whose settings have not changed.\<close>

lemma buffers_invI:
  assumes "buffers_inv cf c" "conn_cfg d = conn_cfg c" "length (tx_payload d) = length (tx_payload c)"
    and "u_flight d \<Longrightarrow> payload_ok cf c (u_packet d)"
    and "\<And>it. it \<in> set (outstanding cf d) \<Longrightarrow> item_ok cf c it"
  shows "buffers_inv cf d"
  using assms(1,3-5) unfolding buffers_inv_def cfg_cong [OF assms(2)] by simp

section \<open>Enqueueing\<close>

definition clamp_ttl :: "uint8 \<Rightarrow> uint8" where
  "clamp_ttl ttl = (if ttl > LUDLC_MAX_TTL then LUDLC_MAX_TTL else if ttl = 0 then 1 else ttl)"

lemma clamp_ttl_range: "1 \<le> unat (clamp_ttl ttl)" "unat (clamp_ttl ttl) \<le> 127"
  using unat_gt_0 [of ttl] by (auto simp: clamp_ttl_def word_less_nat_alt not_less Suc_le_eq)

text \<open>The packet is what the application asked to send, whatever the slot held before.\<close>

definition ident :: "packet_queue_item \<Rightarrow> ludlc_channel_t \<times> buffer \<times> ludlc_payload_size_t" where
  "ident it = (pq_chan it, pq_payload it, pq_size it)"

lemma queue_full_iff:
  assumes "conn_inv cf c"
  shows "ludlc_tx_queue_full cf c \<longleftrightarrow> length (outstanding cf c) = wnd cf c"
  using conn_inv_window [OF assms]
  by (auto simp: ludlc_tx_queue_full_def outstanding_def word_le_nat_alt wnd_def id_dist_def [symmetric])

lemma enqueue_lock_spec:
  assumes inv: "conn_inv cf c" and room: "length (outstanding cf c) < wnd cf c"
    and ok: "payload_ok cf c \<lparr>pq_payload = buf, pq_size = sz, pq_chan = ch, pq_result = 0, pq_ttl = ttl\<rparr>"
      "\<not> is_ctrl_chan cf c ch" "1 \<le> unat ttl" "unat ttl \<le> 127"
  obtains d it where "enqueue_lock cf c ch buf sz ttl = (0, d)" "conn_inv cf d"
    "outstanding cf d = outstanding cf c @ [it]" "ident it = (ch, buf, sz)" "pq_ttl it = ttl"
    "conn_cb d = conn_cb c" "conn_cfg d = conn_cfg c" "conn_flags d = conn_flags c"
    "conn_state d = conn_state c"
proof -
  note w = conn_inv_window [OF inv]
  let ?a = "last_ack c" and ?q = "last_queued c"
  let ?n = "id_dist ?a ?q"
  define i where "i = id_plus ?q 1"
  define it where "it = (slot cf c i)\<lparr>pq_chan := ch, pq_ttl := ttl, pq_payload := buf, pq_size := sz\<rparr>"
  let ?d = "(set_slot cf c i it)\<lparr>last_queued := i\<rparr>"
  have n: "?n < wnd cf c" "wnd cf c \<le> 64"
    using room w wnd_range [of cf c] by (simp_all add: outstanding_def)
  have seq: "is_seq ?a" "is_seq ?q" "id_plus ?a ?n = ?q"
    using w(3) by (auto simp: ids_ok_def)
  have i: "i = id_plus ?a (Suc ?n)"
    using seq(3) unfolding i_def by (metis Suc_eq_plus1 id_plus_plus)
  have dist: "id_dist ?a i = Suc ?n"
    unfolding i using n seq by (intro id_dist_plus) auto
  have out: "outstanding cf ?d = outstanding cf c @ [it]"
  proof -
    have "slots cf (set_slot cf c (id_plus ?a (Suc ?n)) it) ?a (Suc ?n) = (slots cf c ?a (Suc ?n))[?n := it]"
      using w(2) n by (intro slots_set_slot) auto
    then show ?thesis
      using dist by (simp add: outstanding_def i [symmetric] slots_Suc list_update_append set_slot_def)
  qed
  have "enqueue_lock cf c ch buf sz ttl = (0, ?d)"
    using w(5) room queue_full_iff [OF inv] 
    by (simp add: enqueue_lock_def id_suc Let_def i_def it_def)
  moreover have "conn_inv cf ?d"
  proof -
    have ids: "ids_ok ?d" "ring_ok cf ?d" "settled cf ?d"
      using w(2,3) inv by (simp_all add: ids_ok_def set_slot_def conn_inv_def i_def)
    have win: "window_inv cf ?d"
      using w n dist by (auto simp: window_inv_def set_slot_def ludlc_conn_last_reported_def)
    have st: "state_inv cf ?d"
      using inv w(5) by (simp add: inv_unfold set_slot_def)
    have "item_ok cf c it" "conn_cfg ?d = conn_cfg c" "u_flight ?d = u_flight c" "tx_payload ?d = tx_payload c"
      "u_packet ?d = u_packet c"
      using ok by (simp_all add: item_ok_def payload_ok_def it_def set_slot_def u_flight_def
          split: option.splits)
    then have "buffers_inv cf ?d"
      using inv out
      by (intro buffers_invI [of cf c ?d]) (auto simp: conn_inv_def base_inv_def buffers_inv_def)
    with ids win st show ?thesis
      by (simp add: conn_inv_def base_inv_def)
  qed
  ultimately show thesis
    using that [OF _ _ out] by (simp add: ident_def set_slot_def it_def)
qed

end
