(* ===== verification/Ludlc_Nak.thy ===== *)
theory Ludlc_Nak
  imports Ludlc_Ops
begin

text \<open>
  The acknowledgment field of a received packet: which packets it resolves, and what a
  negative one does to the packet at the head of the window.
\<close>

section \<open>The window as one list\<close>

text \<open>Resolved packets that wait to be reported, then the outstanding ones.\<close>

definition view :: "config \<Rightarrow> ludlc_connection \<Rightarrow> packet_queue_item list" where
  "view cf c = slots cf c (ludlc_conn_last_reported cf c)
     (id_dist (ludlc_conn_last_reported cf c) (last_queued c))"

lemma base_ids:
  assumes "base_inv cf c"
  defines "r \<equiv> ludlc_conn_last_reported cf c"
  shows "is_seq r" "is_seq (last_ack c)" "is_seq (last_queued c)" "is_seq (last_sent c)"
    "id_dist r (last_ack c) \<le> id_dist r (last_queued c)" "id_dist r (last_queued c) \<le> wnd cf c"
    "id_dist (last_ack c) (last_queued c) = id_dist r (last_queued c) - id_dist r (last_ack c)"
    "id_plus r (id_dist r (last_ack c)) = last_ack c" "wnd cf c \<le> 64" "ring_ok cf c"
proof -
  show seq: "is_seq r" "is_seq (last_ack c)" "is_seq (last_queued c)" "is_seq (last_sent c)"
    and le: "id_dist r (last_ack c) \<le> id_dist r (last_queued c)" "id_dist r (last_queued c) \<le> wnd cf c"
    and ring: "ring_ok cf c"
    using assms by (auto simp: inv_defs Let_def ludlc_conn_last_reported_def)
  show "id_dist (last_ack c) (last_queued c) = id_dist r (last_queued c) - id_dist r (last_ack c)"
    using seq le by (intro id_dist_between) auto
  show "id_plus r (id_dist r (last_ack c)) = last_ack c"
    using seq by simp
  show "wnd cf c \<le> 64"
    using wnd_range [OF ring] by simp
qed

lemma view_split:
  assumes "base_inv cf c"
  defines "p \<equiv> id_dist (ludlc_conn_last_reported cf c) (last_ack c)"
  shows "q_pending cf c = take p (view cf c)" "outstanding cf c = drop p (view cf c)"
  using base_ids [OF assms(1)] unfolding p_def q_pending_def outstanding_def view_def
  by (simp_all add: take_slots drop_slots)

section \<open>Giving up a packet\<close>

lemma same_flags_refl [simp]: "same_flags w w"
  by (simp add: same_flags_def)

lemma base_inv_repack:
  assumes inv: "base_inv cf c" and bus: "\<not> has_flag LUDLC_CONN_BUS_OUT_F c"
    and q: "length q = length (packets_q c)" and f: "same_flags f (conn_flags c)"
    and x: "is_seq x" "id_dist (ludlc_conn_last_reported cf c) (last_ack c) \<le> id_dist (ludlc_conn_last_reported cf c) x"
      "id_dist (ludlc_conn_last_reported cf c) x \<le> wnd cf c"
  defines "d \<equiv> c\<lparr>packets_q := q, conn_flags := f, last_queued := x, last_sent := last_ack c\<rparr>"
  assumes items: "\<And>it. it \<in> set (outstanding cf d) \<Longrightarrow> item_ok cf c it"
  shows "base_inv cf d"
proof -
  have flags: "has_flag m d = has_flag m c" if "m \<in> {2, 3, 4, 5, 6}" for m
    using f that by (auto simp: same_flags_def d_def has_flag_flags has_flag_bit)
  have rep: "ludlc_conn_last_reported cf d = ludlc_conn_last_reported cf c"
    by (simp add: d_def ludlc_conn_last_reported_def)
  have "ring_ok cf d" "ids_ok d"
    using inv q x(1) by (simp_all add: d_def inv_defs)
  moreover have "window_inv cf d"
    unfolding window_inv_def rep Let_def using x by (simp add: d_def)
  moreover have "state_inv cf d"
    using inv bus flags by (simp add: state_inv_def base_inv_def u_flight_def) (auto simp: d_def)
  moreover have "buffers_inv cf d"
    using inv items flags
    by (intro buffers_invI [of cf c d]) (auto simp: base_inv_def buffers_inv_def u_flight_def d_def)
  ultimately show ?thesis
    by (simp add: base_inv_def)
qed

lemma base_inv_resend:
  assumes inv: "base_inv cf c" and bus: "\<not> has_flag LUDLC_CONN_BUS_OUT_F c"
  shows "base_inv cf (c\<lparr>last_sent := last_ack c\<rparr>)"
proof -
  have "c\<lparr>last_sent := last_ack c\<rparr> =
      c\<lparr>packets_q := packets_q c, conn_flags := conn_flags c, last_queued := last_queued c,
        last_sent := last_ack c\<rparr>"
    by simp
  then show ?thesis
    using base_inv_repack [OF inv bus refl same_flags_refl, of "last_queued c"] base_ids [OF inv] inv
    by (simp add: outstanding_def) (simp add: inv_defs outstanding_def)
qed

text \<open>Writing the slot of the oldest outstanding packet.\<close>

lemma head_slot:
  assumes inv: "base_inv cf c" and ne: "last_queued c \<noteq> last_ack c"
  defines "p \<equiv> id_dist (ludlc_conn_last_reported cf c) (last_ack c)"
  defines "i \<equiv> id_plus (last_ack c) 1"
  shows "p < length (view cf c)" "slot cf c i = view cf c ! p" "outstanding cf c \<noteq> []"
    "hd (outstanding cf c) = view cf c ! p"
    "slots cf (set_slot cf c i it) (ludlc_conn_last_reported cf c) (length (view cf c)) = (view cf c)[p := it]"
    "i = id_plus (ludlc_conn_last_reported cf c) (Suc p)" "length (view cf c) \<le> wnd cf c"
proof -
  note b = base_ids [OF inv]
  let ?r = "ludlc_conn_last_reported cf c"
  have len: "length (view cf c) = id_dist ?r (last_queued c)"
    by (simp add: view_def)
  have "p \<noteq> length (view cf c)"
    using b(1-3) ne id_dist_inj [of ?r "last_ack c" "last_queued c"] unfolding len p_def by auto
  then show p: "p < length (view cf c)"
    using b(5) unfolding len p_def by simp
  show i: "i = id_plus ?r (Suc p)"
    using b(8) unfolding i_def p_def by (metis Suc_eq_plus1 id_plus_plus)
  show "slot cf c i = view cf c ! p"
    using p by (simp add: i view_def nth_slots)
  show "outstanding cf c \<noteq> []" "hd (outstanding cf c) = view cf c ! p"
    using p view_split(2) [OF inv] by (simp_all add: p_def hd_drop_conv_nth)
  show len_w: "length (view cf c) \<le> wnd cf c"
    using b(6) len by simp
  show "slots cf (set_slot cf c i it) ?r (length (view cf c)) = (view cf c)[p := it]"
    using slots_set_slot [OF b(10) len_w p, of ?r it] by (simp add: i) (simp add: view_def)
qed

lemma id_pred:
  assumes "1 \<le> N"
  shows "(id_plus r N - 1) AND 127 = id_plus r (N - 1)"
proof -
  obtain m where N: "N = Suc m"
    using assms by (cases N) auto
  have "unat ((id_plus r N - 1) AND 127) = ((unat r + N) mod 128 + 255) mod 256 mod 128"
    by (simp add: unat_and_127 unat_minus_8 unat_id_plus add.commute)
  also have "\<dots> = ((unat r + N) mod 128 + 255) mod 128"
    by (simp add: mod_mod_cancel)
  also have "\<dots> = (unat r + m + 2 * 128) mod 128"
    by (simp only: N mod_add_left_eq) (simp add: algebra_simps)
  also have "\<dots> = (unat r + m) mod 128"
    by (rule mod_mult_self1)
  finally show ?thesis
    by (simp add: word_unat_eq_iff unat_id_plus N)
qed

lemma ttl_pred: "1 \<le> unat (t :: uint8) \<Longrightarrow> unat (t - 1) = unat t - 1"
  by (simp add: unat_sub_if')

lemma ttl_gt_1: "1 \<le> unat (t :: uint8) \<Longrightarrow> t \<noteq> 1 \<Longrightarrow> 1 < unat t"
  using word_unat_eq_iff [of t 1] by simp

lemma item_ok_charged:
  assumes "item_ok cf c it" "pq_ttl it - 1 \<noteq> 0"
  shows "item_ok cf c (it\<lparr>pq_ttl := pq_ttl it - 1\<rparr>)"
proof -
  have "1 \<le> unat (pq_ttl it)" "unat (pq_ttl it) \<le> 127"
    using assms(1) by (auto simp: item_ok_def)
  moreover from this(1) have "unat (pq_ttl it - 1) = unat (pq_ttl it) - 1"
    by (rule ttl_pred)
  moreover have "unat (pq_ttl it - 1) \<noteq> 0"
    using assms(2) by (metis unat_eq_zero)
  ultimately have "1 \<le> unat (pq_ttl it - 1) \<and> unat (pq_ttl it - 1) \<le> 127"
    by linarith
  then show ?thesis
    using assms(1) by (simp add: item_ok_def payload_ok_def split: option.splits)
qed

lemma take_prefix_eq: "zs = xs @ ys \<Longrightarrow> length xs = n \<Longrightarrow> take n zs = xs"
  by simp

lemma nak_charge:
  assumes inv: "base_inv cf c" and bus: "\<not> has_flag LUDLC_CONN_BUS_OUT_F c"
    and ne: "last_queued c \<noteq> last_ack c"
  defines "i \<equiv> id_plus (last_ack c) 1"
  defines "it \<equiv> (slot cf c i)\<lparr>pq_ttl := pq_ttl (slot cf c i) - 1\<rparr>"
  defines "d \<equiv> (set_slot cf c i it)\<lparr>last_sent := last_ack c\<rparr>"
  assumes ttl: "pq_ttl it \<noteq> 0"
  shows "base_inv cf d" "q_pending cf d = q_pending cf c" "outstanding cf d = it # tl (outstanding cf c)"
proof -
  note b = base_ids [OF inv] and h = head_slot [OF inv ne, folded i_def] and v = view_split [OF inv]
  let ?r = "ludlc_conn_last_reported cf c"
  let ?p = "id_dist ?r (last_ack c)"
  have rep: "ludlc_conn_last_reported cf d = ?r"
    by (simp add: d_def ludlc_conn_last_reported_def set_slot_def)
  have view: "slots cf d ?r (id_dist ?r (last_queued c)) = (view cf c)[?p := it]"
    using h(5) [of it] by (simp add: d_def view_def)
  have "outstanding cf d = drop ?p ((view cf c)[?p := it])"
    using view b(5,7,8) drop_slots [of ?p "id_dist ?r (last_queued c)" cf d ?r]
    by (simp add: outstanding_def d_def set_slot_def)
  then show out: "outstanding cf d = it # tl (outstanding cf c)"
    using h(1) v(2) Cons_nth_drop_Suc [OF h(1), symmetric]
      Cons_nth_drop_Suc [of ?p "(view cf c)[?p := it]", symmetric] by simp
  have "q_pending cf d = take ?p ((view cf c)[?p := it])"
    using view b(5) take_slots [of ?p "id_dist ?r (last_queued c)" cf d ?r]
    by (simp add: q_pending_def rep) (simp add: d_def set_slot_def)
  then show "q_pending cf d = q_pending cf c"
    using v(1) by simp
  have "item_ok cf c (hd (outstanding cf c))"
    using inv h(3) by (auto simp: inv_defs)
  then have "item_ok cf c it"
    using ttl h(2,4) item_ok_charged [of cf c "slot cf c i"] by (simp add: it_def)
  then have items: "item_ok cf c x" if "x \<in> set (outstanding cf d)" for x
    using that inv h(3) unfolding out by (auto simp: inv_defs dest: list.set_sel(2))
  have d_eq: "d = c\<lparr>packets_q := (packets_q c)[slot_idx cf c i := it], conn_flags := conn_flags c,
      last_queued := last_queued c, last_sent := last_ack c\<rparr>"
    by (simp add: d_def set_slot_def)
  show "base_inv cf d"
    unfolding d_eq
    by (rule base_inv_repack [OF inv bus]) (use b items d_eq in simp_all)
qed

lemma nak_expire:
  assumes inv: "base_inv cf c" and bus: "\<not> has_flag LUDLC_CONN_BUS_OUT_F c"
    and ne: "last_queued c \<noteq> last_ack c"
  defines "i \<equiv> id_plus (last_ack c) 1"
  defines "x \<equiv> (last_queued c - 1) AND LUDLC_ID_MASK"
  shows "\<exists>q. shift_loop cf (unat ((last_queued c - i) AND LUDLC_ID_MASK)) i (set_slot cf c i it) =
           c\<lparr>packets_q := q\<rparr> \<and>
         (\<forall>f. same_flags f (conn_flags c) \<longrightarrow>
            (let d = c\<lparr>packets_q := q, conn_flags := f, last_queued := x, last_sent := last_ack c\<rparr>
             in base_inv cf d \<and> q_pending cf d = q_pending cf c \<and> outstanding cf d = tl (outstanding cf c)))"
proof -
  note b = base_ids [OF inv] and h = head_slot [OF inv ne, folded i_def] and v = view_split [OF inv]
  let ?r = "ludlc_conn_last_reported cf c"
  let ?p = "id_dist ?r (last_ack c)" and ?N = "id_dist ?r (last_queued c)"
  let ?e = "set_slot cf c i it" and ?V = "view cf c"
  have N: "?N = length ?V" "?p < ?N" "?N < 128"
    using h(1) by (simp_all add: view_def)
  have "id_dist ?r i = Suc ?p"
    unfolding h(6) using b(1) N by (intro id_dist_plus) auto
  then have n: "unat ((last_queued c - i) AND LUDLC_ID_MASK) = ?N - Suc ?p"
    using id_dist_between [of ?r i "last_queued c"] b(1-3) N(2) unfolding id_dist_def [of i, symmetric]
    by (simp add: i_def)
  obtain q where q: "shift_loop cf (?N - Suc ?p) i ?e = ?e\<lparr>packets_q := q\<rparr>"
      "length q = length (packets_q ?e)"
      "slots cf (?e\<lparr>packets_q := q\<rparr>) ?r ?N =
        (let L = slots cf ?e ?r ?N in take ?p L @ take (?N - Suc ?p) (drop (Suc ?p) L) @ drop (?p + (?N - Suc ?p)) L)"
    using shift_loop_spec [of cf ?e ?N ?p "?N - Suc ?p" i ?r] b(6,10) N(2) h(6) by auto
  have e_q: "?e\<lparr>packets_q := q\<rparr> = c\<lparr>packets_q := q\<rparr>"
    by (simp add: set_slot_def)
  have tail: "take (?N - Suc ?p) (drop (Suc ?p) (?V[?p := it])) = drop (Suc ?p) ?V"
    using N by simp
  have L: "slots cf ?e ?r ?N = ?V[?p := it]"
    using h(5) by (simp add: N(1))
  have "slots cf (c\<lparr>packets_q := q\<rparr>) ?r ?N =
      (take ?p ?V @ drop (Suc ?p) ?V) @ drop (?N - 1) (?V[?p := it])"
    using q(3) tail N(2) unfolding e_q L Let_def by simp
  then have V': "slots cf (c\<lparr>packets_q := q\<rparr>) ?r (?N - 1) = take ?p ?V @ drop (Suc ?p) ?V"
    unfolding take_slots [OF diff_le_self, of ?N 1 cf _ ?r, symmetric]
    by (rule take_prefix_eq) (use N in auto)
  have x: "x = id_plus ?r (?N - 1)"
    using id_pred [of ?N ?r] b(1,3) N(2) by (simp add: x_def)
  then have x: "x = id_plus ?r (?N - 1)" "is_seq x" "id_dist ?r x = ?N - 1"
    using id_dist_plus [OF b(1) less_imp_diff_less [OF N(3), of 1]] by simp_all
  have main: "base_inv cf d \<and> q_pending cf d = q_pending cf c \<and> outstanding cf d = tl (outstanding cf c)"
    if f: "same_flags f (conn_flags c)" and
      d: "d = c\<lparr>packets_q := q, conn_flags := f, last_queued := x, last_sent := last_ack c\<rparr>" for d f
  proof -
    have rep: "ludlc_conn_last_reported cf d = ?r" and sl: "slots cf d ?r (?N - 1) = take ?p ?V @ drop (Suc ?p) ?V"
      using V' by (simp_all add: d ludlc_conn_last_reported_def)
    have dist: "id_dist (last_ack c) x = ?N - 1 - ?p"
      using id_dist_between [of ?r "last_ack c" x] b(1,2) x N by simp
    have le: "?p \<le> ?N - 1" "?p \<le> length ?V" and ids: "last_ack d = last_ack c" "last_queued d = x"
      using N by (simp_all add: d)
    have "q_pending cf d = take ?p (take ?p ?V @ drop (Suc ?p) ?V)"
      unfolding q_pending_def rep ids sl [symmetric] take_slots [OF le(1)] ..
    then have qp: "q_pending cf d = q_pending cf c"
      using le(2) v(1) by simp
    have "outstanding cf d = drop ?p (take ?p ?V @ drop (Suc ?p) ?V)"
      unfolding outstanding_def ids sl [symmetric] drop_slots [OF le(1)] b(8) dist ..
    then have out: "outstanding cf d = tl (outstanding cf c)"
      using le(2) v(2) by (simp add: drop_Suc tl_drop)
    have "base_inv cf d"
      unfolding d
    proof (rule base_inv_repack [OF inv bus _ f x(2)])
      fix y
      assume "y \<in> set (outstanding cf (c\<lparr>packets_q := q, conn_flags := f, last_queued := x, last_sent := last_ack c\<rparr>))"
      then have "y \<in> set (outstanding cf c)"
        using out h(3) by (simp add: d list.set_sel(2))
      with inv show "item_ok cf c y"
        by (simp add: inv_defs)
    qed (use q(2) b N x(3) in simp_all)
    with qp out show ?thesis
      by simp
  qed
  show ?thesis
    using q(1) main unfolding e_q n Let_def by blast
qed

section \<open>What an acknowledgment leaves alone\<close>

definition same_env :: "ludlc_connection \<Rightarrow> ludlc_connection \<Rightarrow> bool" where
  "same_env c d \<longleftrightarrow>
     conn_cb d = conn_cb c \<and> conn_cfg d = conn_cfg c \<and> report_busy d = report_busy c \<and>
     conn_state d = conn_state c \<and> u_packet d = u_packet c \<and> u_confirm d = u_confirm c \<and>
     last_received d = last_received c \<and> last_seen d = last_seen c \<and>
     same_flags (conn_flags d) (conn_flags c) \<and> (\<forall>m \<in> {0, 1}. bit (conn_flags d) m = bit (conn_flags c) m)"

lemma same_env_trans [trans]: "same_env c d \<Longrightarrow> same_env d e \<Longrightarrow> same_env c e"
  by (simp add: same_env_def same_flags_def)

lemma same_env_flags:
  "same_env c d \<Longrightarrow> m \<in> {0, 1, 2, 3, 4, 5, 6} \<Longrightarrow> has_flag m d = has_flag m c"
  by (elim insertE emptyE) (simp_all add: same_env_def same_flags_def has_flag_bit)

lemma same_env_u_pending: "same_env c d \<Longrightarrow> u_pending d = u_pending c"
  using same_env_flags [of c d 6] by (simp add: u_pending_def) (simp add: same_env_def)

lemma rx_bit: "k < 32 \<Longrightarrow> (w AND LUDLC_ATOMIC_MASK k = 0) = (\<not> bit w k)"
  using test_bit_iff [of k w] by (auto simp: ludlc_platform_test_bit_def)

lemma set_slot_twice: "set_slot cf (set_slot cf c i it) i it' = set_slot cf c i it'"
  by (simp add: set_slot_def)

definition expiry ::
    "packet_queue_item option \<Rightarrow> packet_queue_item list \<Rightarrow> packet_queue_item list \<Rightarrow> bool" where
  "expiry ex before after \<longleftrightarrow>
     (case ex of
        None \<Rightarrow> after = before \<or>
          (\<exists>it its. before = it # its \<and> after = it\<lparr>pq_ttl := pq_ttl it - 1\<rparr> # its \<and> unat (pq_ttl it) > 1)
      | Some it \<Rightarrow>
          (\<exists>h. before = h # after \<and> pq_ttl h = 1 \<and>
               it = h\<lparr>pq_ttl := 0, pq_result := ETIMEDOUT\<rparr>))"

lemma set_flag_base:
  assumes "base_inv cf c" "m < 32" "m \<notin> {2, 3, 4, 5, 6}"
  shows "base_inv cf (set_flag m c)" "same_flags (conn_flags (set_flag m c)) (conn_flags c)"
  using assms base_inv_flags [of "ludlc_platform_set_bit m (conn_flags c)" c cf]
  by (auto simp: set_flag_def same_flags_def flag_simps)

lemma rx_handle_nak_spec:
  assumes inv: "base_inv cf c" and bus: "\<not> has_flag LUDLC_CONN_BUS_OUT_F c"
  obtains d ex ret where "rx_handle_nak cf c = (d, ex, ret)" "base_inv cf d" "same_env c d"
    "q_pending cf d = q_pending cf c" "expiry ex (outstanding cf c) (outstanding cf d)"
    "\<And>m. bit ret m \<longleftrightarrow> m = 1 \<or> m = 6 \<and> ex \<noteq> None" "last_sent d = last_ack d" "last_ack d = last_ack c"
proof -
  define i where "i = (last_ack c + 1) AND LUDLC_ID_MASK"
  have i: "id_plus (last_ack c) 1 = i"
    by (simp add: i_def id_suc)
  define e where "e = set_flag LUDLC_CONN_TTL_CHARGED_F c"
  define it where "it = (slot cf e i)\<lparr>pq_ttl := pq_ttl (slot cf e i) - 1\<rparr>"
  define it' where "it' = it\<lparr>pq_result := ETIMEDOUT\<rparr>"
  let ?charge = "last_sent c \<noteq> last_ack c \<and> \<not> has_flag LUDLC_CONN_TTL_CHARGED_F c"
  note b = base_ids [OF inv]
  have e: "base_inv cf e" "\<not> has_flag LUDLC_CONN_BUS_OUT_F e" "last_ack e = last_ack c"
    "last_queued e = last_queued c" "same_env c e" "q_pending cf e = q_pending cf c"
    "outstanding cf e = outstanding cf c"
    using set_flag_base [OF inv, of 9] bus
    by (auto simp: e_def same_env_def set_flag_def flag_simps q_pending_def outstanding_def
        ludlc_conn_last_reported_def has_flag_flags has_flag_bit same_flags_def)
  have it: "it = (hd (outstanding cf c))\<lparr>pq_ttl := pq_ttl (hd (outstanding cf c)) - 1\<rparr>"
      "outstanding cf c \<noteq> []" "last_queued e \<noteq> last_ack e" "item_ok cf c (hd (outstanding cf c))" if ?charge
  proof -
    show ne: "last_queued e \<noteq> last_ack e"
      using that inv bus b(2-4) by (auto simp: e inv_defs id_dist_0_iff)
    note h = head_slot [OF e(1) ne, unfolded e(3,7) i]
    show "it = (hd (outstanding cf c))\<lparr>pq_ttl := pq_ttl (hd (outstanding cf c)) - 1\<rparr>" "outstanding cf c \<noteq> []"
      using h by (simp_all add: it_def)
    then show "item_ok cf c (hd (outstanding cf c))"
      using inv by (auto simp: inv_defs)
  qed
  have tx: "bit HANDLE_RX_REQUEST_TX_F m \<longleftrightarrow> m = 1"
    "bit (HANDLE_RX_REQUEST_TX_F OR HANDLE_RX_EXPIRED_F) m \<longleftrightarrow> m = 1 \<or> m = 6" for m
    by (simp_all add: bit_atomic_mask bit_or_iff)
  have step: "rx_handle_nak cf c =
     (let (d, ex, ret) =
        (if ?charge then
           if pq_ttl it = 0 then
             let d = shift_loop cf (unat ((last_queued e - i) AND LUDLC_ID_MASK)) i (set_slot cf e i it');
                 d = d\<lparr>last_queued := (last_queued d - 1) AND LUDLC_ID_MASK\<rparr>
             in (if last_queued d = last_ack d then set_flag LUDLC_CONN_TTL_HOLD_F d else d,
                 Some it', HANDLE_RX_REQUEST_TX_F OR HANDLE_RX_EXPIRED_F)
           else (set_slot cf e i it, None, HANDLE_RX_REQUEST_TX_F)
         else (c, None, HANDLE_RX_REQUEST_TX_F))
      in (d\<lparr>last_sent := last_ack d\<rparr>, ex, ret))"
    unfolding rx_handle_nak_def i_def it'_def it_def e_def Let_def
    by (simp add: set_slot_twice) (simp add: set_slot_def set_flag_def)
  consider (no) "\<not> ?charge" | (charge) ?charge "pq_ttl it \<noteq> 0" | (expire) ?charge "pq_ttl it = 0"
    by blast
  then show thesis
  proof cases
    case no
    let ?d = "c\<lparr>last_sent := last_ack c\<rparr>"
    have "rx_handle_nak cf c = (?d, None, HANDLE_RX_REQUEST_TX_F)"
      using no by (auto simp: step)
    moreover have "base_inv cf ?d"
      using inv bus by (rule base_inv_resend)
    ultimately show thesis
      using tx(1) by (rule_tac that [of ?d None HANDLE_RX_REQUEST_TX_F])
        (simp_all add: same_env_def expiry_def q_pending_def ludlc_conn_last_reported_def)
  next
    case charge
    let ?d = "(set_slot cf e i it)\<lparr>last_sent := last_ack c\<rparr>"
    have "rx_handle_nak cf c = (?d, None, HANDLE_RX_REQUEST_TX_F)"
      using charge e(3) by (simp add: step) (simp add: set_slot_def)
    note d = this nak_charge [OF e(1,2) it(3), unfolded e(3,6,7) i, folded it_def, OF charge(1,2)]
    have "same_env c ?d"
      using e(5) by (simp add: same_env_def set_slot_def)
    moreover have "expiry None (outstanding cf c) (outstanding cf ?d)"
      using it [OF charge(1)] charge(2) d(4) ttl_gt_1 [of "pq_ttl (hd (outstanding cf c))"]
      unfolding expiry_def by (cases "outstanding cf c") (auto simp: item_ok_def)
    ultimately show thesis
      using that [OF d(1,2)] d(3) tx(1) e(3) by (simp add: set_slot_def)
  next
    case expire
    note it = it [OF expire(1)]
    obtain q where q: "shift_loop cf (unat ((last_queued e - i) AND LUDLC_ID_MASK)) i (set_slot cf e i it') =
           e\<lparr>packets_q := q\<rparr>"
       "\<And>f. same_flags f (conn_flags e) \<Longrightarrow>
            (let d = e\<lparr>packets_q := q, conn_flags := f, last_queued := (last_queued e - 1) AND LUDLC_ID_MASK,
                       last_sent := last_ack e\<rparr>
             in base_inv cf d \<and> q_pending cf d = q_pending cf e \<and> outstanding cf d = tl (outstanding cf e))"
      using nak_expire [OF e(1,2) it(3), of it', unfolded e(3) i] e(3) by auto
    define x where "x = (last_queued e - 1) AND LUDLC_ID_MASK"
    define f where "f = (if x = last_ack e then ludlc_platform_set_bit LUDLC_CONN_TTL_HOLD_F (conn_flags e)
                         else conn_flags e)"
    define d where "d = e\<lparr>packets_q := q, conn_flags := f, last_queued := x, last_sent := last_ack e\<rparr>"
    have f: "same_flags f (conn_flags e)" "\<forall>m \<in> {0, 1}. bit f m = bit (conn_flags e) m"
      by (auto simp: f_def same_flags_def flag_simps)
    have d: "base_inv cf d" "q_pending cf d = q_pending cf c" "outstanding cf d = tl (outstanding cf c)"
      using q(2) [OF f(1)] e(6,7) by (simp_all add: d_def x_def Let_def)
    have "rx_handle_nak cf c = (d, Some it', HANDLE_RX_REQUEST_TX_F OR HANDLE_RX_EXPIRED_F)"
      using expire by (simp add: step q(1) d_def f_def x_def set_flag_def)
    moreover have "same_env c d"
      using e(5) f by (simp add: same_env_def d_def same_flags_def)
    moreover have "expiry (Some it') (outstanding cf c) (outstanding cf d)"
      using it expire(2) d(3) unfolding expiry_def it'_def by (cases "outstanding cf c") auto
    ultimately show thesis
      using d(1,2) tx(2) e(3) by (intro that [of d]) (auto simp: d_def)
  qed
qed

section \<open>Acknowledged packets\<close>

definition acked :: "nat \<Rightarrow> packet_queue_item list \<Rightarrow> packet_queue_item list" where
  "acked n its = map (pq_result_update (\<lambda>_. 0)) (take n its)"

lemma ack_advance:
  assumes inv: "conn_inv cf c" and st: "conn_state c = LUDLC_STATE_CONNECTED"
    and n: "n \<le> length (outstanding cf c)"
    and q: "length q = length (packets_q c)"
      "slots cf (c\<lparr>packets_q := q\<rparr>) (last_ack c) (length (outstanding cf c)) =
         resolve_run 0 0 n (outstanding cf c)"
    and g: "same_flags g (conn_flags c)" "\<forall>m \<in> {0, 1}. bit g m = bit (conn_flags c) m"
    and s: "is_seq s" "id_dist (id_plus (last_ack c) n) s \<le> length (outstanding cf c) - n"
  defines "d \<equiv> c\<lparr>packets_q := q, last_ack := id_plus (last_ack c) n, conn_flags := g, last_sent := s\<rparr>"
  shows "base_inv cf d" "outstanding cf d = drop n (outstanding cf c)"
    "q_pending cf d = (if CONFIG_LUDLC_MT cf then acked n (outstanding cf c) else [])" "same_env c d"
proof -
  note w = conn_inv_window [OF inv]
  let ?a = "last_ack c" and ?N = "length (outstanding cf c)"
  have N: "?N = id_dist ?a (last_queued c)" "?N < 128"
    by (simp_all add: outstanding_def)
  have seq: "is_seq ?a" "is_seq (last_queued c)"
    using w(3) by (simp_all add: ids_ok_def)
  have an: "id_dist ?a (id_plus ?a n) = n" "id_dist (id_plus ?a n) (last_queued c) = ?N - n"
    using id_dist_plus [of ?a n] id_dist_between [of ?a "id_plus ?a n" "last_queued c"] seq n N by auto
  have sl: "slots cf d ?a ?N = resolve_run 0 0 n (outstanding cf c)"
    using q(2) by (simp add: d_def)
  have "outstanding cf d = slots cf d (id_plus ?a n) (?N - n)"
    using an(2) by (simp add: outstanding_def d_def)
  also have "\<dots> = drop n (resolve_run 0 0 n (outstanding cf c))"
    using drop_slots [OF n, of cf d ?a] sl by simp
  finally show out: "outstanding cf d = drop n (outstanding cf c)"
    by (simp add: drop_resolve_run)
  have "slots cf d ?a n = acked n (outstanding cf c)"
    using take_slots [OF n, of cf d ?a] sl n by (simp add: resolve_run_def acked_def)
  then show "q_pending cf d = (if CONFIG_LUDLC_MT cf then acked n (outstanding cf c) else [])"
    using w(7) an(1) by (simp add: q_pending_def ludlc_conn_last_reported_def) (simp add: d_def)
  show env: "same_env c d"
    using g by (simp add: same_env_def d_def)
  have "ring_ok cf d" "ids_ok d"
    using w(2,3) q(1) s(1) by (simp_all add: d_def ids_ok_def)
  moreover have "window_inv cf d"
    using w(1,7) an s(2) n N(1)
    by (auto simp: window_inv_def Let_def ludlc_conn_last_reported_def d_def)
  moreover have "state_inv cf d"
    using inv st w(5,6) same_env_flags [OF env, of 2] same_env_flags [OF env, of 3]
      same_env_flags [OF env, of 4] same_env_flags [OF env, of 5] same_env_flags [OF env, of 6]
    by (simp add: state_inv_def conn_inv_def base_inv_def u_flight_def) (simp add: d_def)
  moreover have "buffers_inv cf d"
    using inv out same_env_flags [OF env, of 3] same_env_flags [OF env, of 4]
    by (intro buffers_invI [of cf c d])
      (auto simp: conn_inv_def base_inv_def buffers_inv_def u_flight_def d_def dest: in_set_dropD)
  ultimately show "base_inv cf d"
    by (simp add: base_inv_def)
qed

text \<open>How many packets the field says the peer holds, counted from the last it acknowledged.\<close>

definition num_acked :: "ludlc_connection \<Rightarrow> ludlc_id_t \<Rightarrow> nat" where
  "num_acked c ack_id = id_dist (last_ack c) ack_id"

lemma rx_handle_ack_stale:
  assumes "num_acked c ack_id > id_dist (last_ack c) (last_queued c)"
  shows "rx_handle_ack cf c ack_id = (c, None, 0, [])"
  using assms by (simp add: rx_handle_ack_def num_acked_def id_dist_def word_less_nat_alt)

lemma rx_handle_ack_spec:
  assumes inv: "conn_inv cf c" and st: "conn_state c = LUDLC_STATE_CONNECTED"
    and n: "num_acked c ack_id \<le> length (outstanding cf c)"
  obtains d ex ret where
    "rx_handle_ack cf c ack_id =
       (d, ex, ret, lock_confirms cf (conn_cb c) (acked (num_acked c ack_id) (outstanding cf c)))"
    "locked cf c d [] (acked (num_acked c ack_id) (outstanding cf c))" "same_env c d"
    "expiry ex (drop (num_acked c ack_id) (outstanding cf c)) (outstanding cf d)"
    "\<And>m. bit ret m \<longleftrightarrow> ack_id AND LUDLC_NAK_FLAG \<noteq> 0 \<and> (m = 1 \<or> m = 6 \<and> ex \<noteq> None)"
    "ex \<noteq> None \<Longrightarrow> ack_id AND LUDLC_NAK_FLAG \<noteq> 0"
    "last_ack d = id_plus (last_ack c) (num_acked c ack_id)"
    "ack_id AND LUDLC_NAK_FLAG = 0 \<Longrightarrow> outstanding cf d = drop (num_acked c ack_id) (outstanding cf c)"
proof -
  note w = conn_inv_window [OF inv]
  define n where "n = num_acked c ack_id"
  let ?a = "last_ack c" and ?O = "outstanding cf c"
  let ?N = "length ?O" and ?S = "id_dist (last_ack c) (last_sent c)"
  let ?acked = "acked n ?O"
  have n: "n \<le> ?N" "?N \<le> wnd cf c" "?N = id_dist ?a (last_queued c)" "?a = id_plus ?a 0"
    using n w(1,3) by (simp_all add: n_def outstanding_def ids_ok_def)
  obtain q f where loop: "ack_loop cf n c =
        (c\<lparr>last_ack := id_plus ?a n, packets_q := q, conn_flags := f\<rparr>, lock_confirms cf (conn_cb c) ?acked)"
      "length q = length (packets_q c)" "\<forall>m. m \<noteq> 7 \<and> m \<noteq> 8 \<longrightarrow> bit f m = bit (conn_flags c) m"
      "slots cf (c\<lparr>packets_q := q\<rparr>) ?a ?N = resolve_run 0 0 n ?O"
    using ack_loop_spec [OF w(2) n(2), of 0 n ?a] n(1,3,4) by (auto simp: acked_def outstanding_def)
  define g where "g = (if n \<noteq> 0 then ludlc_platform_clear_bit LUDLC_CONN_TTL_CHARGED_F f else f)"
  define s where "s = (if n > ?S then id_plus ?a n else last_sent c)"
  define e where "e = c\<lparr>packets_q := q, last_ack := id_plus ?a n, conn_flags := g, last_sent := s\<rparr>"
  have g: "same_flags g (conn_flags c)" "\<forall>m \<in> {0, 1}. bit g m = bit (conn_flags c) m"
    using loop(3) by (auto simp: g_def same_flags_def flag_simps)
  have s: "is_seq s" "id_dist (id_plus ?a n) s \<le> ?N - n"
  proof -
    show "is_seq s"
      using w(3) by (simp add: s_def ids_ok_def)
    show "id_dist (id_plus ?a n) s \<le> ?N - n"
    proof (cases "n > ?S")
      case False
      moreover have "id_dist ?a (id_plus ?a n) = n"
        using w(3) n wnd_range [OF w(2)] by (intro id_dist_plus) (auto simp: ids_ok_def)
      ultimately show ?thesis
        using id_dist_between [of ?a "id_plus ?a n" "last_sent c"] w(3,4) n(3)
        by (auto simp: s_def ids_ok_def)
    qed (simp add: s_def)
  qed
  note e = ack_advance [OF inv st n(1) loop(2,4) g s, folded e_def]
  have fin: "locked cf c d [] ?acked" if "base_inv cf d" "same_env c d" "q_pending cf d = q_pending cf e" for d
    using that e(3) w(6,8) same_env_u_pending [of c d] same_env_flags [of c d 1]
    by (simp add: locked_def u_pending_def) (simp add: same_env_def)
  have word: "unat ((ack_id - ?a) AND LUDLC_ID_MASK) = n" "unat ((last_sent c - ?a) AND LUDLC_ID_MASK) = ?S"
    "unat ((last_queued c - ?a) AND LUDLC_ID_MASK) = id_dist ?a (last_queued c)"
    by (simp_all add: n_def num_acked_def id_dist_def)
  have step: "rx_handle_ack cf c ack_id =
      (if ack_id AND LUDLC_NAK_FLAG \<noteq> 0
       then let (d, ex, ret) = rx_handle_nak cf e in (d, ex, ret, lock_confirms cf (conn_cb c) ?acked)
       else (e, None, 0, lock_confirms cf (conn_cb c) ?acked))"
  proof -
    have nz: "(ack_id - ?a) AND LUDLC_ID_MASK = 0 \<longleftrightarrow> n = 0"
      using word(1) by (metis unat_0 word_unat_eq_iff)
    have "e = (if n \<noteq> 0 then
                 let d = clear_flag LUDLC_CONN_TTL_CHARGED_F
                           (c\<lparr>last_ack := id_plus ?a n, packets_q := q, conn_flags := f\<rparr>)
                 in if n > ?S then d\<lparr>last_sent := last_ack d\<rparr> else d
               else c\<lparr>last_ack := id_plus ?a n, packets_q := q, conn_flags := f\<rparr>)"
      by (simp add: e_def g_def s_def clear_flag_def Let_def)
    then show ?thesis
      using n(1,3) unfolding rx_handle_ack_def Let_def word_less_nat_alt word nz
      by (simp add: loop(1))
  qed
  show thesis
  proof (cases "ack_id AND LUDLC_NAK_FLAG \<noteq> 0")
    case True
    have bus: "\<not> has_flag LUDLC_CONN_BUS_OUT_F e"
      using w(5) same_env_flags [OF e(4), of 5] by simp
    obtain d ex ret where d: "rx_handle_nak cf e = (d, ex, ret)" "base_inv cf d" "same_env e d"
        "q_pending cf d = q_pending cf e" "expiry ex (outstanding cf e) (outstanding cf d)"
        "\<And>m. bit ret m \<longleftrightarrow> m = 1 \<or> m = 6 \<and> ex \<noteq> None" "last_ack d = last_ack e"
      using rx_handle_nak_spec [OF e(1) bus] by metis
    have env: "same_env c d"
      using e(4) d(3) by (rule same_env_trans)
    show thesis
    proof (rule that)
      show "rx_handle_ack cf c ack_id = (d, ex, ret, lock_confirms cf (conn_cb c) (acked (num_acked c ack_id) ?O))"
        using True d(1) by (simp add: step n_def)
    qed (use True d(5-7) fin [OF d(2) env d(4)] e(2) env in \<open>simp_all add: n_def [symmetric]\<close>, simp add: e_def)
  next
    case False
    show thesis
    proof (rule that)
      show "rx_handle_ack cf c ack_id = (e, None, 0, lock_confirms cf (conn_cb c) (acked (num_acked c ack_id) ?O))"
        using False by (simp add: step n_def)
    qed (use False fin [OF e(1,4)] e(2,4) in \<open>simp_all add: n_def [symmetric] expiry_def\<close>, simp add: e_def)
  qed
qed

end
