(* ===== verification/Ludlc_Rx.thy ===== *)
theory Ludlc_Rx
  imports Ludlc_Nak
begin

text \<open>
  A received packet from its first octet to the callbacks it causes: the handshake, the
  sequence check, and the whole of \<open>ludlc_receive\<close> on a connection that satisfies the
  invariant.
\<close>

section \<open>The sequence number of a packet\<close>

text \<open>Whether the payload goes to the application: the next numbered packet, or an unnumbered one.\<close>

definition rx_accepts :: "ludlc_connection \<Rightarrow> ludlc_id_t \<Rightarrow> bool \<Rightarrow> bool \<Rightarrow> bool" where
  "rx_accepts c i ping is_u \<longleftrightarrow> (if ping then is_u else i = id_plus (last_received c) 1)"

lemma id_dist_mask: "id_dist (a AND 127) b = id_dist a b"
proof (cases "unat a < 128")
  case True
  then show ?thesis
    by (simp add: is_seq_and is_seq_def)
next
  case False
  have "unat a - 128 < 128"
    using unat_8_less [of a] by linarith
  with False have "unat (a AND 127) = unat a - 128"
    by (simp add: unat_and_127 le_mod_geq)
  moreover have "unat b + 256 - (unat a - 128) = (unat b + 256 - unat a) + 128"
    using False unat_8_less [of a] by linarith
  ultimately have "(unat b + 256 - unat (a AND 127)) mod 128 = (unat b + 256 - unat a) mod 128"
    by (metis mod_add_self2)
  then show ?thesis
    by (simp add: id_dist_def unat_and_127 [of "b - _"] unat_minus_8 mod_mod_cancel)
qed

lemma ahead_0_iff:
  assumes "is_seq r" "is_seq i"
  shows "(i - r - 1) AND 127 = 0 \<longleftrightarrow> i = id_plus r 1"
proof -
  have "id_dist (r + 1) i = unat ((i - r - 1) AND 127)"
    by (simp add: id_dist_def algebra_simps)
  moreover have "id_dist (r + 1) i = id_dist (id_plus r 1) i"
    by (simp add: id_plus_def id_dist_mask)
  ultimately have "(i - r - 1) AND 127 = 0 \<longleftrightarrow> id_dist (id_plus r 1) i = 0"
    by (metis unat_0 word_unat_eq_iff)
  then show ?thesis
    using assms(2) by (auto simp: id_dist_0_iff)
qed

lemma rx_nak_answered_flags:
  "rx_nak_answered c = c\<lparr>conn_flags := conn_flags (rx_nak_answered c)\<rparr>"
  "m \<noteq> 7 \<Longrightarrow> m \<noteq> 8 \<Longrightarrow> bit (conn_flags (rx_nak_answered c)) m = bit (conn_flags c) m"
  by (simp_all add: rx_nak_answered_def flag_simps bit_or_iff bit_atomic_mask)

lemma rx_gap_form:
  "\<exists>f. fst (rx_gap c np) = c\<lparr>conn_flags := f\<rparr> \<and>
       (\<forall>m. m \<noteq> 0 \<and> m \<noteq> 7 \<and> m \<noteq> 8 \<longrightarrow> bit f m = bit (conn_flags c) m)"
  "bit (snd (rx_gap c np)) m \<Longrightarrow> m = 1"
  by (auto simp: rx_gap_def Let_def rx_nak_answered_def clear_flag_def flag_simps bit_or_iff bit_atomic_mask
      intro!: exI split: if_splits)

lemma rx_handle_seq_spec:
  assumes "is_seq i" "is_seq (last_received c)"
  obtains f ret where
    "rx_handle_seq cf c i ping is_u =
       ((if \<not> ping \<and> rx_accepts c i ping is_u then c\<lparr>last_received := i\<rparr> else c)
         \<lparr>last_seen := (if ping then (i - 1) AND LUDLC_ID_MASK else i), conn_flags := f\<rparr>, ret)"
    "\<And>m. m \<noteq> 0 \<Longrightarrow> m \<noteq> 7 \<Longrightarrow> m \<noteq> 8 \<Longrightarrow> bit f m = bit (conn_flags c) m"
    "bit ret 2 \<longleftrightarrow> rx_accepts c i ping is_u" "\<And>m. bit ret m \<Longrightarrow> m = 1 \<or> m = 2"
proof -
  let ?ahead = "(i - last_received c - 1) AND LUDLC_ID_MASK"
  have acc: "?ahead = 0 \<longleftrightarrow> i = id_plus (last_received c) 1"
    using assms by (simp add: ahead_0_iff)
  let ?r = "rx_handle_seq cf c i ping is_u"
  obtain f g where fg: "fst (rx_gap c False) = c\<lparr>conn_flags := f\<rparr>"
      "fst (rx_gap c True) = c\<lparr>conn_flags := g\<rparr>"
      "\<forall>m. m \<noteq> 0 \<and> m \<noteq> 7 \<and> m \<noteq> 8 \<longrightarrow> bit f m = bit (conn_flags c) m"
      "\<forall>m. m \<noteq> 0 \<and> m \<noteq> 7 \<and> m \<noteq> 8 \<longrightarrow> bit g m = bit (conn_flags c) m"
    using rx_gap_form(1) by metis
  have gap: "fst (rx_gap c b) = c\<lparr>conn_flags := if b then g else f\<rparr>" for b
    using fg by (cases b) simp_all
  have "\<exists>f. fst ?r = (if \<not> ping \<and> rx_accepts c i ping is_u then c\<lparr>last_received := i\<rparr> else c)
         \<lparr>last_seen := (if ping then (i - 1) AND LUDLC_ID_MASK else i), conn_flags := f\<rparr> \<and>
      (\<forall>m. m \<noteq> 0 \<and> m \<noteq> 7 \<and> m \<noteq> 8 \<longrightarrow> bit f m = bit (conn_flags c) m)"
    unfolding rx_handle_seq_def rx_accepts_def acc [symmetric] Let_def split_def
    by (rule exI [of _ "conn_flags (fst ?r)"])
      (use fg in \<open>simp add: rx_handle_seq_def Let_def split_def gap rx_nak_answered_def set_flag_def
         flag_simps bit_or_iff bit_atomic_mask\<close>)
  moreover have "bit (snd ?r) 2 \<longleftrightarrow> rx_accepts c i ping is_u" "bit (snd ?r) m \<Longrightarrow> m = 1 \<or> m = 2" for m
    unfolding rx_handle_seq_def rx_accepts_def acc [symmetric] Let_def split_def
    by (auto simp: bit_or_iff bit_atomic_mask dest: rx_gap_form(2) split: if_splits)
  ultimately show thesis
    using that by (metis prod.collapse)
qed

section \<open>The handshake\<close>

text \<open>The unsigned difference of the code: a step matches its own number and the next one.\<close>

lemma hs_match:
  "(ucast (i :: 8 word) - ucast (s :: 8 word) :: uint32) < 2 \<longleftrightarrow> unat i = unat s \<or> unat i = unat s + 1"
proof -
  have "unat (ucast i - ucast s :: uint32) =
      (if unat s \<le> unat i then unat i - unat s else unat i + 4294967296 - unat s)"
    by (simp add: unat_sub_if')
  then show ?thesis
    using unat_8_less [of i] unat_8_less [of s] unfolding word_less_nat_alt unat_numeral
    by (cases "unat s \<le> unat i") (simp_all del: unat_8_less, linarith+)
qed

lemma rx_handshake_form:
  assumes "conn_state c \<in> {0, 1, 2, 255}" "step \<longrightarrow> unat (pkt_tx_id p) < 128"
  obtains s ret where "rx_handle_handshake c p step = (c\<lparr>conn_state := s\<rparr>, ret)"
    "s \<in> {0, 1, 2, 3, 255}" "bit ret 0 \<longleftrightarrow> \<not> step \<and> conn_state c = 2"
    "bit ret 3 \<longleftrightarrow> s = 3" "\<And>m. bit ret m \<Longrightarrow> m \<in> {0, 1, 3, 5}"
proof -
  let ?r = "rx_handle_handshake c p step"
  have form: "fst ?r = c\<lparr>conn_state := conn_state (fst ?r)\<rparr>"
    by (simp add: rx_handle_handshake_def Let_def)
  from assms(1) consider "conn_state c = 0" | "conn_state c = 1" | "conn_state c = 2" | "conn_state c = 255"
    by blast
  then have "conn_state (fst ?r) \<in> {0, 1, 2, 3, 255} \<and> (bit (snd ?r) 0 \<longleftrightarrow> \<not> step \<and> conn_state c = 2) \<and>
      (bit (snd ?r) 3 \<longleftrightarrow> conn_state (fst ?r) = 3) \<and> (\<forall>m. bit (snd ?r) m \<longrightarrow> m \<in> {0, 1, 3, 5})"
    by cases (use assms(2) in \<open>simp_all add: rx_handle_handshake_def hs_match Let_def bit_or_iff
        bit_and_iff bit_not_iff bit_atomic_mask\<close>)
  with form that show thesis
    by (metis prod.collapse)
qed

section \<open>A whole packet\<close>

definition ex_list :: "packet_queue_item option \<Rightarrow> packet_queue_item list" where
  "ex_list ex = (case ex of None \<Rightarrow> [] | Some it \<Rightarrow> [it])"

lemma expiry_ident:
  "expiry ex before after \<Longrightarrow> map ident before = map ident (ex_list ex) @ map ident after"
  by (auto simp: expiry_def ex_list_def ident_def split: option.splits)

lemma acked_ident: "map ident its = map ident (acked n its) @ map ident (drop n its)"
proof -
  have "map ident (acked n its) = map ident (take n its)"
    by (simp add: acked_def ident_def)
  then show ?thesis
    by (metis append_take_drop_id map_append)
qed

lemma locked_seq:
  assumes l: "locked cf c d us its" and bus: "\<not> has_flag LUDLC_CONN_BUS_OUT_F d"
    and st: "conn_state d = LUDLC_STATE_CONNECTED" and r: "is_seq r" "is_seq s"
    and f: "\<And>m. m \<noteq> 0 \<Longrightarrow> m \<noteq> 7 \<Longrightarrow> m \<noteq> 8 \<Longrightarrow> bit f m = bit (conn_flags d) m"
  shows "locked cf c (d\<lparr>last_received := r, last_seen := s, conn_flags := f\<rparr>) us its"
proof -
  let ?d = "d\<lparr>last_received := r, last_seen := s\<rparr>"
  have "base_inv cf ?d"
    using l bus st r by (simp add: locked_def inv_unfold split: if_splits)
  moreover have "same_flags f (conn_flags ?d)"
    using f by (simp add: same_flags_def)
  ultimately have "base_inv cf (?d\<lparr>conn_flags := f\<rparr>)"
    by (simp add: base_inv_flags)
  with l f show ?thesis
    by (simp add: locked_def u_pending_def q_pending_def ludlc_conn_last_reported_def has_flag_flags)
       (simp add: has_flag_bit split: if_splits)
qed

lemma lock_events_numbered: "lock_events cf cb [] its = lock_confirms cf cb its"
  by (simp add: lock_events_def lock_confirms_def)

lemma rx_numbered:
  assumes inv: "conn_inv cf c" and st: "conn_state c = LUDLC_STATE_CONNECTED" and i: "is_seq i"
  obtains d ex ret its where
    "(let (d, ex, ret', evs) = rx_handle_ack cf c ack_id; (d, ret'') = rx_handle_seq cf d i ping is_u
      in (d, ex, ret0 OR ret' OR ret'', evs)) = (d, ex, ret, lock_events cf (conn_cb c) [] its)"
    "locked cf c d [] its"
    "map ident (outstanding cf c) = map ident its @ map ident (ex_list ex) @ map ident (outstanding cf d)"
    "bit ret 6 \<longleftrightarrow> bit ret0 6 \<or> ex \<noteq> None"
proof -
  note w = conn_inv_window [OF inv]
  obtain e ex ret' its where e: "rx_handle_ack cf c ack_id = (e, ex, ret', lock_events cf (conn_cb c) [] its)"
      "locked cf c e [] its" "same_env c e" "bit ret' 6 \<longleftrightarrow> ex \<noteq> None"
      "map ident (outstanding cf c) = map ident its @ map ident (ex_list ex) @ map ident (outstanding cf e)"
  proof (cases "num_acked c ack_id \<le> length (outstanding cf c)")
    case True
    obtain d ex ret where d: "rx_handle_ack cf c ack_id =
          (d, ex, ret, lock_confirms cf (conn_cb c) (acked (num_acked c ack_id) (outstanding cf c)))"
        "locked cf c d [] (acked (num_acked c ack_id) (outstanding cf c))" "same_env c d"
        "expiry ex (drop (num_acked c ack_id) (outstanding cf c)) (outstanding cf d)"
        "\<And>m. bit ret m \<longleftrightarrow> ack_id AND LUDLC_NAK_FLAG \<noteq> 0 \<and> (m = 1 \<or> m = 6 \<and> ex \<noteq> None)"
        "ex \<noteq> None \<Longrightarrow> ack_id AND LUDLC_NAK_FLAG \<noteq> 0"
      using rx_handle_ack_spec [OF inv st True] by metis
    show thesis
      using that [of d ex ret "acked (num_acked c ack_id) (outstanding cf c)"] d
        expiry_ident [OF d(4)] acked_ident [of "outstanding cf c" "num_acked c ack_id"]
      by (auto simp: lock_events_numbered)
  next
    case False
    then have "rx_handle_ack cf c ack_id = (c, None, 0, [])"
      by (intro rx_handle_ack_stale) (simp add: outstanding_def)
    then show thesis
      using locked_self [OF inv] by (intro that [of c None 0 "[]"])
        (simp_all add: lock_events_def same_env_def ex_list_def)
  qed
  have ec: "conn_state e = LUDLC_STATE_CONNECTED" "\<not> has_flag LUDLC_CONN_BUS_OUT_F e"
      "last_received e = last_received c" "last_seen e = last_seen c"
    using e(3) st w(5) same_env_flags [OF e(3), of 5] by (simp_all add: same_env_def)
  have seq: "is_seq (last_received e)" "is_seq (last_seen e)"
    using w(3) ec by (simp_all add: ids_ok_def)
  obtain f ret'' where r: "rx_handle_seq cf e i ping is_u =
       ((if \<not> ping \<and> rx_accepts e i ping is_u then e\<lparr>last_received := i\<rparr> else e)
         \<lparr>last_seen := (if ping then (i - 1) AND LUDLC_ID_MASK else i), conn_flags := f\<rparr>, ret'')"
    "\<And>m. m \<noteq> 0 \<Longrightarrow> m \<noteq> 7 \<Longrightarrow> m \<noteq> 8 \<Longrightarrow> bit f m = bit (conn_flags e) m" "\<And>m. bit ret'' m \<Longrightarrow> m = 1 \<or> m = 2"
    using rx_handle_seq_spec [OF i seq(1)] by metis
  let ?r = "if \<not> ping \<and> rx_accepts e i ping is_u then i else last_received e"
  let ?s = "if ping then (i - 1) AND LUDLC_ID_MASK else i"
  let ?d = "e\<lparr>last_received := ?r, last_seen := ?s, conn_flags := f\<rparr>"
  have d: "rx_handle_seq cf e i ping is_u = (?d, ret'')"
    using r(1) by (cases ping; cases "rx_accepts e i ping is_u") simp_all
  have "locked cf c ?d [] its"
    using e(2) ec(2,1) seq i r(2) by (intro locked_seq) simp_all
  then show thesis
    using r(3) [of 6] e(1,4,5) d
    by (intro that [of ?d ex "ret0 OR ret' OR ret''" its]) (auto simp: bit_or_iff)
qed

end
