(* ===== verification/Ludlc_Api.thy ===== *)
theory Ludlc_Api
  imports Ludlc_Rx
begin

text \<open>
  The operations an application, a transport and the timers call, each as one step of a
  connection: the step always returns, keeps the invariant, and accounts for every packet
  it was handed or that it resolves.
\<close>

section \<open>Received packets\<close>

lemma conn_inv_state:
  assumes "conn_inv cf c" "conn_state c \<noteq> LUDLC_STATE_CONNECTED" "s \<in> {0, 1, 2, 3, 255}"
  shows "conn_inv cf (c\<lparr>conn_state := s\<rparr>)"
proof -
  have "state_inv cf (c\<lparr>conn_state := s\<rparr>)"
    using assms by (auto simp: conn_inv_def base_inv_def settled_def state_inv_def u_flight_def)
  then show ?thesis
    using assms(1)
    by (simp add: conn_inv_def base_inv_def ids_ok_def window_inv_def buffers_inv_def u_flight_def
        ludlc_conn_last_reported_def payload_ok_def item_ok_def split: if_splits)
qed

lemma handshake_inv:
  assumes inv: "conn_inv cf c" and st: "conn_state c \<noteq> LUDLC_STATE_CONNECTED"
    and step: "step \<longrightarrow> unat (pkt_tx_id p) < 128"
  obtains s ret where "rx_handle_handshake c p step = (c\<lparr>conn_state := s\<rparr>, ret)"
    "conn_inv cf (c\<lparr>conn_state := s\<rparr>)" "bit ret 0 \<longleftrightarrow> \<not> step \<and> conn_state c = 2"
    "bit ret 3 \<longleftrightarrow> s = 3" "\<And>m. bit ret m \<Longrightarrow> m \<in> {0, 1, 3, 5}"
proof -
  have "conn_state c \<in> {0, 1, 2, 255}"
    using inv st by (auto simp: conn_inv_def inv_defs)
  from rx_handshake_form [OF this step] obtain s ret where
    h: "rx_handle_handshake c p step = (c\<lparr>conn_state := s\<rparr>, ret)" "s \<in> {0, 1, 2, 3, 255}"
      "bit ret 0 \<longleftrightarrow> \<not> step \<and> conn_state c = 2" "bit ret 3 \<longleftrightarrow> s = 3" "\<And>m. bit ret m \<Longrightarrow> m \<in> {0, 1, 3, 5}"
    by metis
  show thesis
    using that h conn_inv_state [OF inv st h(2)] by blast
qed

lemma not_ping_seq: "\<not> is_ping i \<Longrightarrow> unat i < 128"
proof -
  assume "\<not> is_ping i"
  then have "i AND 128 = 0"
    by (simp add: is_ping_def)
  then have "\<not> bit i 7"
    by (simp add: bit_iff_and_push_bit_not_eq_0)
  then have "n < 7" if "bit i n" for n
    using that bit_imp_le_length [of i n] by (cases "n = 7") auto
  then have "i = i AND 127"
    by (intro bit_eqI) (auto simp: and_127_take_bit bit_take_bit_iff)
  then show ?thesis
    by (metis is_seq_def is_seq_mask)
qed

text \<open>What a received packet does to the packets in flight.\<close>

definition rx_outcome ::
    "config \<Rightarrow> ludlc_connection \<Rightarrow>
     ludlc_connection \<times> packet_queue_item option \<times> uint32 \<times> ludlc_event list \<Rightarrow> bool" where
  "rx_outcome cf c r \<longleftrightarrow>
     (\<exists>d ex ret us its.
        r = (d, ex, ret, lock_events cf (conn_cb c) us its) \<and> locked cf c d us its \<and>
        map ident (outstanding cf c) =
          map ident its @ map ident (ex_list ex) @ map ident (outstanding cf d) \<and>
        (bit ret 6 \<longleftrightarrow> ex \<noteq> None))"

lemma rx_outcomeI:
  "r = (d, ex, ret, lock_events cf (conn_cb c) us its) \<Longrightarrow> locked cf c d us its \<Longrightarrow>
   map ident (outstanding cf c) = map ident its @ map ident (ex_list ex) @ map ident (outstanding cf d) \<Longrightarrow>
   (bit ret 6 \<longleftrightarrow> ex \<noteq> None) \<Longrightarrow> rx_outcome cf c r"
  unfolding rx_outcome_def by blast

lemma rx_outcome_plain:
  "locked cf c d [] [] \<Longrightarrow> map ident (outstanding cf d) = map ident (outstanding cf c) \<Longrightarrow> \<not> bit ret 6 \<Longrightarrow>
   rx_outcome cf c (d, None, ret, [])"
  unfolding rx_outcome_def
  by (intro exI [of _ d] exI [of _ None] exI [of _ ret] exI [of _ "[]"])
    (simp add: lock_events_def ex_list_def)

lemma q_failed_ident: "map ident (q_failed cf c) = map ident (outstanding cf c)"
  by (simp add: q_failed_def ident_def)

lemma rx_outcome_disc:
  assumes "conn_inv cf c" "\<not> bit ret 6"
  shows "rx_outcome cf c (let (d, evs) = on_disconnect_lock cf c in (d, None, ret, evs))"
proof -
  obtain d where d: "on_disconnect_lock cf c = (d, lock_events cf (conn_cb c) (u_failed c) (q_failed cf c))"
      "locked cf c d (u_failed c) (q_failed cf c)" "outstanding cf d = []"
    using on_disconnect_lock_spec [OF assms(1)] by metis
  then show ?thesis
    unfolding rx_outcome_def using assms(2)
    by (intro exI [of _ d] exI [of _ None] exI [of _ ret] exI [of _ "u_failed c"] exI [of _ "q_failed cf c"])
      (simp add: ex_list_def q_failed_ident)
qed

lemma rx_outcome_data:
  assumes "conn_inv cf c" "conn_state c = LUDLC_STATE_CONNECTED" "is_seq i" "\<not> bit ret0 6"
  shows "rx_outcome cf c
    (let (d, ex, ret', evs) = rx_handle_ack cf c ack_id; (d, ret'') = rx_handle_seq cf d i ping is_u
     in (d, ex, ret0 OR ret' OR ret'', evs))"
proof (rule rx_numbered [OF assms(1-3), of ack_id ping is_u ret0])
  fix d ex ret its
  assume r: "(let (d, ex, ret', evs) = rx_handle_ack cf c ack_id; (d, ret'') = rx_handle_seq cf d i ping is_u
      in (d, ex, ret0 OR ret' OR ret'', evs)) = (d, ex, ret, lock_events cf (conn_cb c) [] its)"
    "locked cf c d [] its"
    "map ident (outstanding cf c) = map ident its @ map ident (ex_list ex) @ map ident (outstanding cf d)"
    "bit ret 6 \<longleftrightarrow> bit ret0 6 \<or> ex \<noteq> None"
  show ?thesis
    by (rule rx_outcomeI [OF r(1-3)]) (use r(4) assms(4) in simp)
qed

text \<open>The outcome is that of the connection the handshake leaves.\<close>

lemma rx_outcome_state:
  assumes "rx_outcome cf c' r" "map ident (outstanding cf c') = map ident (outstanding cf c)"
    "conn_cb c' = conn_cb c" "conn_cfg c' = conn_cfg c"
    "has_flag LUDLC_CONN_INITED_F c' = has_flag LUDLC_CONN_INITED_F c"
  shows "rx_outcome cf c r"
  using assms unfolding rx_outcome_def locked_def by auto

lemma inc_dropped_eq: "\<exists>st. inc_dropped c = c\<lparr>conn_stats := st\<rparr>"
  by (auto simp: inc_dropped_def)

lemma rx_outcome_connected:
  assumes inv: "conn_inv cf c" and st: "conn_state c = LUDLC_STATE_CONNECTED" and ret: "\<not> bit ret 6"
  shows "rx_outcome cf c (rx_connected cf c packet ping is_u is_hshake ret)"
proof -
  have wd: "rx_outcome cf c r" if "rx_outcome cf (ludlc_watchdog_restart cf c) r" for r
    using that by (rule rx_outcome_state) (simp_all add: ludlc_watchdog_restart_def)
  have b: "\<not> bit (ret OR LUDLC_ATOMIC_MASK 4) 6" "\<not> bit (ret OR LUDLC_ATOMIC_MASK 4 OR LUDLC_ATOMIC_MASK 1) 6"
    "\<not> bit (ret OR LUDLC_ATOMIC_MASK 1) 6"
    using ret by (simp_all add: bit_or_iff bit_atomic_mask)
  have data: "rx_outcome cf (ludlc_watchdog_restart cf c)
     (let (d, ex, ret', evs) = rx_handle_ack cf (ludlc_watchdog_restart cf c) (pkt_ack_id packet);
          (d, ret'') = rx_handle_seq cf d (pkt_tx_id packet AND LUDLC_ID_MASK) ping is_u
      in (d, ex, ret OR ret' OR ret'', evs))"
    by (rule rx_outcome_data) (use inv st ret in \<open>simp_all add: ludlc_watchdog_restart_def\<close>)
  show ?thesis
    using rx_outcome_disc [OF inv b(1)] rx_outcome_disc [OF inv b(2)] wd [OF data]
      rx_outcome_plain [OF locked_self [OF inv] refl b(3)]
    by (simp add: rx_connected_def Let_def)
qed

lemma rx_handle_packet_outcome:
  assumes inv: "conn_inv cf c"
  shows "rx_outcome cf c (rx_handle_packet cf c packet pkt_sz)"
proof -
  define ping where "ping = is_ping (pkt_tx_id packet)"
  define is_u where "is_u = (ping \<and> pkt_sz > sizeof_hdr)"
  define is_hs where "is_hs = (\<not> ping \<and> pkt_chan packet = CONFIG_LUDLC_CONTROL_CHANNEL cf)"
  note fold_defs = ping_def [symmetric] is_u_def [symmetric] is_hs_def [symmetric]
  have drop: "rx_outcome cf c (inc_dropped c, None, 0, [])"
  proof -
    obtain st where "inc_dropped c = c\<lparr>conn_stats := st\<rparr>"
      using inc_dropped_eq by blast
    then show ?thesis
      using locked_self [OF inv] by (intro rx_outcome_plain) (simp_all add: locked_stats)
  qed
  show ?thesis
  proof (cases "conn_state c = LUDLC_STATE_CONNECTED")
    case True
    have "rx_outcome cf c (rx_connected cf c packet ping is_u is_hs 0)"
      by (rule rx_outcome_connected [OF inv True]) simp
    with drop True show ?thesis
      unfolding rx_handle_packet_def Let_def fold_defs by auto
  next
    case False
    have step: "is_hs \<longrightarrow> unat (pkt_tx_id packet) < 128"
      by (simp add: is_hs_def ping_def not_ping_seq)
    obtain s ret where h: "rx_handle_handshake c packet is_hs = (c\<lparr>conn_state := s\<rparr>, ret)"
        "conn_inv cf (c\<lparr>conn_state := s\<rparr>)" "bit ret 0 \<longleftrightarrow> \<not> is_hs \<and> conn_state c = 2"
        "bit ret 3 \<longleftrightarrow> s = 3" "\<And>m. bit ret m \<Longrightarrow> m \<in> {0, 1, 3, 5}"
      using handshake_inv [OF inv False step] by metis
    define e where "e = (if ret AND HANDLE_RX_CONNECTED_F \<noteq> 0
      then ludlc_watchdog_restart cf (c\<lparr>conn_state := s\<rparr>) else c\<lparr>conn_state := s\<rparr>)"
    have e: "conn_inv cf e" "conn_state e = s" "outstanding cf e = outstanding cf c" "conn_cb e = conn_cb c"
        "conn_cfg e = conn_cfg c" "has_flag LUDLC_CONN_INITED_F e = has_flag LUDLC_CONN_INITED_F c"
      using h(2) by (simp_all add: e_def ludlc_watchdog_restart_def)
    have r6: "\<not> bit ret 6"
      using h(5) [of 6] by auto
    have plain: "rx_outcome cf c (e, None, ret, [])"
      using rx_outcome_state [OF rx_outcome_plain [OF locked_self [OF e(1)] refl r6]] e by simp
    have con: "rx_outcome cf c (rx_connected cf e packet ping is_u is_hs ret)" if "bit ret 0"
    proof -
      have "bit (snd (rx_handle_handshake c packet is_hs)) 3"
        using h(3) that by (simp add: rx_handle_handshake_def Let_def bit_or_iff bit_atomic_mask)
      then have "bit ret 3"
        by (simp add: h(1))
      then have "conn_state e = LUDLC_STATE_CONNECTED"
        using e(2) h(4) by simp
      from rx_outcome_connected [OF e(1) this r6] show ?thesis
        using rx_outcome_state e by metis
    qed
    show ?thesis
      using drop plain con False h(1) unfolding rx_handle_packet_def Let_def fold_defs
      by (auto simp: e_def rx_bit)
  qed
qed

section \<open>Accounting\<close>

text \<open>The numbered packets whose confirmation the application got, in order.\<close>

fun reported :: "ludlc_event list \<Rightarrow> (ludlc_channel_t \<times> buffer \<times> ludlc_payload_size_t) list" where
  "reported [] = []"
| "reported (OnConfirm Numbered r ch b n # es) = (ch, b, n) # reported es"
| "reported (e # es) = reported es"

definition listens :: "ludlc_conn_cb option \<Rightarrow> bool" where
  "listens cb \<longleftrightarrow> (case cb of Some b \<Rightarrow> on_confirm b | None \<Rightarrow> False)"

lemma reported_append [simp]: "reported (es @ fs) = reported es @ reported fs"
  by (induction es rule: reported.induct) simp_all

lemma reported_map [simp]:
  "reported (map (\<lambda>it. OnConfirm Numbered (f it) (pq_chan it) (pq_payload it) (pq_size it)) its) = map ident its"
  "reported (map (\<lambda>it. OnConfirm Unnumbered (f it) (pq_chan it) (pq_payload it) (pq_size it)) its) = []"
  by (induction its) (simp_all add: ident_def)

lemma reported_confirms [simp]:
  "reported (confirms cb Numbered its) = (if listens cb then map ident its else [])"
  "reported (confirms cb Unnumbered us) = []"
  by (simp_all only: confirms_def listens_def reported_map if_distrib [of reported] reported.simps if_cancel)

lemma reported_events:
  "reported (lock_events cf cb us its) @ reported (unlock_events cf cb us its) =
     (if listens cb then map ident its else [])"
  by (simp add: lock_events_def unlock_events_def)

text \<open>
  What every operation does: with \<open>acc\<close> the packets it accepts, the packets outstanding
  before it and those are the ones it reports followed by those outstanding after it.
\<close>

definition op_effect ::
    "config \<Rightarrow> ludlc_connection \<Rightarrow> (ludlc_channel_t \<times> buffer \<times> ludlc_payload_size_t) list \<Rightarrow>
     ludlc_event list \<Rightarrow> ludlc_connection \<Rightarrow> bool" where
  "op_effect cf c acc evs d \<longleftrightarrow>
     conn_inv cf d \<and> conn_cb d = conn_cb c \<and> conn_cfg d = conn_cfg c \<and>
     has_flag LUDLC_CONN_INITED_F d = has_flag LUDLC_CONN_INITED_F c \<and>
     (\<exists>res. map ident (outstanding cf c) @ acc = res @ map ident (outstanding cf d) \<and>
            reported evs = (if listens (conn_cb c) then res else []))"

lemma op_effectI:
  "conn_inv cf d \<Longrightarrow> conn_cb d = conn_cb c \<Longrightarrow> conn_cfg d = conn_cfg c \<Longrightarrow>
   has_flag LUDLC_CONN_INITED_F d = has_flag LUDLC_CONN_INITED_F c \<Longrightarrow>
   map ident (outstanding cf c) @ acc = res @ map ident (outstanding cf d) \<Longrightarrow>
   reported evs = (if listens (conn_cb c) then res else []) \<Longrightarrow> op_effect cf c acc evs d"
  unfolding op_effect_def by blast

lemma op_effect_none: "conn_inv cf c \<Longrightarrow> reported evs = [] \<Longrightarrow> op_effect cf c [] evs c"
  by (rule op_effectI [where res = "[]"]) simp_all

text \<open>A locked section followed by the reporting, with events of other kinds around it.\<close>

lemma locked_effect:
  assumes l: "locked cf c d us its" "1 \<le> CONFIG_LUDLC_CONFIRM_BATCH cf"
    and o: "map ident (outstanding cf c) = map ident its @ rest @ map ident (outstanding cf d)"
    and r: "reported evs = (if listens (conn_cb c) then map ident its @ rest else [])"
  shows "op_effect cf c [] evs (finish cf d)"
proof (rule op_effectI [where res = "map ident its @ rest"])
  show "conn_inv cf (finish cf d)"
    using locked_confirm [OF l] by simp
  show "map ident (outstanding cf c) @ [] = (map ident its @ rest) @ map ident (outstanding cf (finish cf d))"
    using locked_confirm [OF l] o by simp
  show "has_flag LUDLC_CONN_INITED_F (finish cf d) = has_flag LUDLC_CONN_INITED_F c"
    using l(1) by (simp add: finish_flags locked_def)
qed (use l(1) r in \<open>simp_all add: locked_def\<close>)

lemma reported_other [simp]:
  "reported (rx_call_caps c ret p n) = []" "reported (rx_call_connect c ret) = []"
  "reported (rx_call_recv c ret p n t) = []" "reported (ludlc_call_on_disconnect c) = []"
  "reported (if b then ludlc_call_on_disconnect c else []) = []"
  "reported (if b then [RequestTx] else []) = []"
  by (auto simp: rx_call_caps_def rx_call_connect_def rx_call_recv_def ludlc_call_on_disconnect_def
      split: option.split)

lemma receive_effect:
  assumes inv: "conn_inv cf c" and batch: "1 \<le> CONFIG_LUDLC_CONFIRM_BATCH cf"
  obtains d evs where "ludlc_receive cf c packet pkt_sz tstamp = Some (d, evs)" "op_effect cf c [] evs d"
proof -
  obtain d ex ret us its where r: "rx_handle_packet cf c packet pkt_sz =
        (d, ex, ret, lock_events cf (conn_cb c) us its)" "locked cf c d us its"
      "map ident (outstanding cf c) = map ident its @ map ident (ex_list ex) @ map ident (outstanding cf d)"
      "bit ret 6 \<longleftrightarrow> ex \<noteq> None"
    using rx_handle_packet_outcome [OF inv, of packet pkt_sz] unfolding rx_outcome_def by blast
  define e where "e = (if ret AND HANDLE_RX_CONNECTED_F \<noteq> 0 then inc_on_conn d else d)"
  have e: "locked cf c e us its" "outstanding cf e = outstanding cf d"
    using r(2) by (simp_all add: e_def inc_on_conn_def locked_stats)
  note conf = locked_confirm [OF e(1) batch]
  have cb: "conn_cb d = conn_cb c"
    using r(2) by (simp add: locked_def)
  obtain evs where evs: "ludlc_receive cf c packet pkt_sz tstamp = Some (finish cf e, evs)"
      "reported evs = (if listens (conn_cb c) then map ident its @ map ident (ex_list ex) else [])"
  proof
    show "ludlc_receive cf c packet pkt_sz tstamp = Some (finish cf e,
        lock_events cf (conn_cb c) us its @ rx_call_caps d ret packet pkt_sz @ rx_call_connect d ret @
        (if ret AND HANDLE_RX_REQUEST_TX_F \<noteq> 0 then [RequestTx] else []) @
        unlock_events cf (conn_cb c) us its @ rx_call_expired (finish cf e) ret ex @
        (if ret AND HANDLE_RX_DISCONNECT_F \<noteq> 0 then ludlc_call_on_disconnect (finish cf e) else []) @
        rx_call_recv (finish cf e) ret packet pkt_sz tstamp)" (is "_ = Some (_, ?evs)")
      by (simp add: ludlc_receive_def r(1) Let_def e_def [symmetric] conf(1))
    have "reported (rx_call_expired (finish cf e) ret ex) = (if listens (conn_cb c) then map ident (ex_list ex) else [])"
      using e(1) r(4) by (auto simp: rx_call_expired_def rx_bit ex_list_def locked_def split: option.split)
    then show "reported ?evs = (if listens (conn_cb c) then map ident its @ map ident (ex_list ex) else [])"
      using reported_events [of cf "conn_cb c" us its] by simp
  qed
  show thesis
    using that [OF evs(1)] locked_effect [OF e(1) batch _ evs(2)] r(3) e(2) by simp
qed

end
