(* ===== verification/Ludlc_Steps.thy ===== *)
theory Ludlc_Steps
  imports Ludlc_Api
begin

text \<open>
  The remaining operations of the core in the form \<^const>\<open>op_effect\<close> gives them, the
  steps a connection can take, and the invariant along every run of them.
\<close>

section \<open>Disconnecting and connecting\<close>

lemma locked_op:
  assumes "locked cf c d us its" "1 \<le> CONFIG_LUDLC_CONFIRM_BATCH cf" "outstanding cf d = []"
    "map ident its = map ident (outstanding cf c)"
    "reported evs = []"
  shows "op_effect cf c [] (lock_events cf (conn_cb c) us its @ unlock_events cf (conn_cb c) us its @ evs)
    (finish cf d)"
  using assms reported_events [of cf "conn_cb c" us its]
  by (intro locked_effect [OF assms(1,2), where rest = "[]"]) simp_all

lemma disconnect_core_effect:
  assumes inv: "conn_inv cf c" and batch: "1 \<le> CONFIG_LUDLC_CONFIRM_BATCH cf"
  obtains n d evs where "ludlc_disconnect_core cf c = Some (n, d, evs)" "op_effect cf c [] evs d"
    "n \<longleftrightarrow> conn_state c \<noteq> LUDLC_STATE_DISCONNECTED \<and> conn_state c \<noteq> LUDLC_STATE_TERMINATE"
    "n \<Longrightarrow> conn_state d = LUDLC_STATE_DISCONNECTED \<and> outstanding cf d = []" "\<not> n \<Longrightarrow> evs = []"
proof (cases "conn_state c \<noteq> LUDLC_STATE_DISCONNECTED \<and> conn_state c \<noteq> LUDLC_STATE_TERMINATE")
  case True
  obtain d where d: "on_disconnect_lock cf c = (d, lock_events cf (conn_cb c) (u_failed c) (q_failed cf c))"
      "locked cf c d (u_failed c) (q_failed cf c)" "outstanding cf d = []" "conn_state d = 0"
    using on_disconnect_lock_spec [OF inv] by metis
  show thesis
  proof (rule that)
    show "ludlc_disconnect_core cf c = Some (True, finish cf d,
        lock_events cf (conn_cb c) (u_failed c) (q_failed cf c) @
        unlock_events cf (conn_cb c) (u_failed c) (q_failed cf c))"
      using True d(1) locked_confirm(1) [OF d(2) batch]
      by (simp add: ludlc_disconnect_core_def disconnect_core_lock_def)
  qed (use True d locked_op [OF d(2) batch d(3) q_failed_ident, of "[]"] locked_confirm(3) [OF d(2) batch]
      in simp_all)
next
  case False
  note l = locked_self [OF inv]
  have "ludlc_disconnect_core cf c = Some (False, finish cf c, [])"
    using False locked_confirm(1) [OF l batch]
    by (auto simp: ludlc_disconnect_core_def disconnect_core_lock_def unlock_events_def)
  moreover have "op_effect cf c [] [] (finish cf c)"
    using locked_effect [OF l batch, of "[]" "[]"] by simp
  ultimately show thesis
    using False by (intro that [of False "finish cf c" "[]"]) auto
qed

lemma handle_disconnect_effect:
  assumes inv: "conn_inv cf c" and batch: "1 \<le> CONFIG_LUDLC_CONFIRM_BATCH cf"
  obtains d evs where "ludlc_handle_disconnect cf c = Some (d, evs)" "op_effect cf c [] evs d"
proof -
  obtain n d evs where d: "ludlc_disconnect_core cf c = Some (n, d, evs)" "op_effect cf c [] evs d"
    using disconnect_core_effect [OF inv batch] by metis
  let ?e = "if n then ludlc_call_on_disconnect d else []"
  have "op_effect cf c [] (evs @ ?e) d"
    using d(2) by (simp add: op_effect_def)
  with d(1) show thesis
    by (intro that [of d "evs @ ?e"]) (simp_all add: ludlc_handle_disconnect_def)
qed

lemma connect_effect:
  assumes inv: "conn_inv cf c" and batch: "1 \<le> CONFIG_LUDLC_CONFIRM_BATCH cf"
  obtains ret d evs where "ludlc_connect cf c = Some (ret, d, evs)" "op_effect cf c [] evs d"
    "ret = (if \<not> has_flag LUDLC_CONN_INITED_F c then - EINVAL
            else if conn_state c = LUDLC_STATE_TERMINATE then - ESHUTDOWN else 0)"
    "ret = 0 \<Longrightarrow> conn_state d = LUDLC_STATE_DISCONNECTED \<and> outstanding cf d = []"
proof -
  consider (no) "\<not> has_flag LUDLC_CONN_INITED_F c"
    | (down) "has_flag LUDLC_CONN_INITED_F c" "conn_state c = LUDLC_STATE_TERMINATE"
    | (ok) "has_flag LUDLC_CONN_INITED_F c" "conn_state c \<noteq> LUDLC_STATE_TERMINATE"
    by blast
  then show thesis
  proof cases
    case no
    then show thesis
      using op_effect_none [OF inv] by (intro that [of "- EINVAL" c "[]"]) (simp_all add: ludlc_connect_def)
  next
    case down
    note l = locked_self [OF inv]
    have "op_effect cf c [] [] (finish cf c)"
      using locked_effect [OF l batch, of "[]" "[]"] by simp
    then show thesis
      using down locked_confirm(1) [OF l batch]
      by (intro that [of "- ESHUTDOWN" "finish cf c" "[]"])
        (simp_all add: ludlc_connect_def unlock_events_def)
  next
    case ok
    obtain d where d: "on_disconnect_lock cf c = (d, lock_events cf (conn_cb c) (u_failed c) (q_failed cf c))"
        "locked cf c d (u_failed c) (q_failed cf c)" "outstanding cf d = []" "conn_state d = 0"
      using on_disconnect_lock_spec [OF inv] by metis
    have "ludlc_connect cf c = Some (0, finish cf d,
        lock_events cf (conn_cb c) (u_failed c) (q_failed cf c) @
        unlock_events cf (conn_cb c) (u_failed c) (q_failed cf c) @ [RequestTx])"
      using ok d(1) locked_confirm(1) [OF d(2) batch] by (simp add: ludlc_connect_def)
    from that [OF this] show thesis
      using ok d(3,4) locked_op [OF d(2) batch d(3) q_failed_ident, of "[RequestTx]"]
        locked_confirm(3) [OF d(2) batch] by simp
  qed
qed

section \<open>Sending\<close>

text \<open>A caller passes as many octets as it says.\<close>

definition buf_ok :: "buffer \<Rightarrow> ludlc_payload_size_t \<Rightarrow> bool" where
  "buf_ok buf sz \<longleftrightarrow> (case buf of None \<Rightarrow> True | Some bs \<Rightarrow> unat sz \<le> length bs)"

definition enqueue_refused ::
    "config \<Rightarrow> ludlc_connection \<Rightarrow> ludlc_channel_t \<Rightarrow> buffer \<Rightarrow> ludlc_payload_size_t \<Rightarrow> bool" where
  "enqueue_refused cf c ch buf sz \<longleftrightarrow>
     buf = None \<and> sz \<noteq> 0 \<or> is_ctrl_chan cf c ch \<or> sz > ludlc_conn_payload_lim cf c"

lemma enqueue_cases:
  assumes inv: "conn_inv cf c" and buf: "buf_ok buf sz"
  obtains
    (refused) "enqueue_refused cf c ch buf sz" "ludlc_enqueue_data cf c ch buf sz ttl = (- EINVAL, c, [])"
  | (full) "\<not> enqueue_refused cf c ch buf sz" "length (outstanding cf c) = wnd cf c"
      "ludlc_enqueue_data cf c ch buf sz ttl = (- EAGAIN, c, [])"
  | (queued) d it where "\<not> enqueue_refused cf c ch buf sz" "length (outstanding cf c) < wnd cf c"
      "ludlc_enqueue_data cf c ch buf sz ttl = (0, d, [RequestTx])" "conn_inv cf d"
      "outstanding cf d = outstanding cf c @ [it]" "ident it = (ch, buf, sz)" "pq_ttl it = clamp_ttl ttl"
      "conn_cb d = conn_cb c" "conn_cfg d = conn_cfg c" "conn_flags d = conn_flags c"
      "conn_state d = conn_state c"
proof -
  note w = conn_inv_window [OF inv]
  have le: "length (outstanding cf c) \<le> wnd cf c"
    using w(1) by (simp add: outstanding_def)
  consider (r) "enqueue_refused cf c ch buf sz"
    | (f) "\<not> enqueue_refused cf c ch buf sz" "length (outstanding cf c) = wnd cf c"
    | (q) "\<not> enqueue_refused cf c ch buf sz" "length (outstanding cf c) < wnd cf c"
    using le by linarith
  then show thesis
  proof cases
    case r
    then show thesis
      by (intro refused) (auto simp: enqueue_refused_def ludlc_enqueue_data_def)
  next
    case f
    then show thesis
      using w(5) queue_full_iff [OF inv]
      by (intro full) (auto simp: enqueue_refused_def ludlc_enqueue_data_def enqueue_lock_def Let_def)
  next
    case q
    have ok: "payload_ok cf c \<lparr>pq_payload = buf, pq_size = sz, pq_chan = ch, pq_result = 0, pq_ttl = clamp_ttl ttl\<rparr>"
        "\<not> is_ctrl_chan cf c ch"
      using q(1) buf by (auto simp: enqueue_refused_def payload_ok_def buf_ok_def split: option.splits)
    obtain d it where d: "enqueue_lock cf c ch buf sz (clamp_ttl ttl) = (0, d)" "conn_inv cf d"
      "outstanding cf d = outstanding cf c @ [it]" "ident it = (ch, buf, sz)" "pq_ttl it = clamp_ttl ttl"
      "conn_cb d = conn_cb c" "conn_cfg d = conn_cfg c" "conn_flags d = conn_flags c"
      "conn_state d = conn_state c"
      using enqueue_lock_spec [OF inv q(2) ok clamp_ttl_range] by metis
    have "ludlc_enqueue_data cf c ch buf sz ttl = (0, d, [RequestTx])"
      using q(1) d(1) by (simp add: enqueue_refused_def ludlc_enqueue_data_def clamp_ttl_def Let_def)
    then show thesis
      by (rule queued [OF q]) (rule d)+
  qed
qed

lemma enqueue_effect:
  assumes inv: "conn_inv cf c" and buf: "buf_ok buf sz"
  obtains ret d evs where "ludlc_enqueue_data cf c ch buf sz ttl = (ret, d, evs)"
    "op_effect cf c (if ret = 0 then [(ch, buf, sz)] else []) evs d"
proof -
  have none: "op_effect cf c [] [] c"
    using op_effect_none [OF inv] by simp
  show thesis
  proof (rule enqueue_cases [OF inv buf, of ch ttl])
    fix d it
    assume q: "ludlc_enqueue_data cf c ch buf sz ttl = (0, d, [RequestTx])" "conn_inv cf d"
      "outstanding cf d = outstanding cf c @ [it]" "ident it = (ch, buf, sz)"
      "conn_cb d = conn_cb c" "conn_cfg d = conn_cfg c" "conn_flags d = conn_flags c"
    have "op_effect cf c [(ch, buf, sz)] [RequestTx] d"
      by (rule op_effectI [where res = "[]"]) (use q in \<open>simp_all add: has_flag_def\<close>)
    with q(1) show thesis
      by (intro that [of 0 d "[RequestTx]"]) simp_all
  qed (use that [of _ c "[]"] none in simp_all)
qed

text \<open>The unnumbered packet is not in the window.\<close>

lemma conn_inv_buffers:
  assumes "conn_inv cf c"
  shows "buffers_inv cf c" "it \<in> set (outstanding cf c) \<Longrightarrow> item_ok cf c it"
    "u_flight c \<Longrightarrow> payload_ok cf c (u_packet c)"
    "length (tx_payload c) = unat (ludlc_conn_payload_lim cf c)" "1 \<le> unat (ludlc_conn_payload_lim cf c)"
  using assms by (simp_all add: conn_inv_def base_inv_def buffers_inv_def)

lemma base_inv_u_packet:
  assumes inv: "base_inv cf c" and st: "conn_state c = LUDLC_STATE_CONNECTED" and it: "payload_ok cf c it"
    and w: "bit w 5 = bit (conn_flags c) 5" "bit w 6 \<Longrightarrow> CONFIG_LUDLC_MT cf"
  shows "base_inv cf (c\<lparr>u_packet := it, conn_flags := w\<rparr>)" (is "base_inv cf ?d")
proof -
  have fl: "has_flag 5 ?d = has_flag 5 c" "has_flag 6 ?d \<Longrightarrow> CONFIG_LUDLC_MT cf"
    using w by (simp_all add: has_flag_flags has_flag_bit)
  have "window_inv cf ?d" "ids_ok ?d" "ring_ok cf ?d"
    using inv fl by (simp_all add: base_inv_def window_inv_def ids_ok_def ludlc_conn_last_reported_def split: if_splits)
  moreover have "state_inv cf ?d"
    using inv fl st by (simp add: base_inv_def state_inv_def)
  moreover have "buffers_inv cf ?d"
    using inv it
    by (rule_tac buffers_invI [of cf c]) (simp_all add: base_inv_def, simp_all add: buffers_inv_def)
  ultimately show ?thesis
    by (simp add: base_inv_def)
qed

lemma conn_inv_u_packet:
  assumes inv: "conn_inv cf c" and st: "conn_state c = LUDLC_STATE_CONNECTED" and it: "payload_ok cf c it"
    and w: "\<forall>m \<in> {5, 6}. bit w m = bit (conn_flags c) m"
  shows "conn_inv cf (c\<lparr>u_packet := it, conn_flags := w\<rparr>)"
  using base_inv_u_packet [of cf c it w] assms conn_inv_window(6) [OF inv]
  by (simp add: conn_inv_def settled_def has_flag_flags) (simp add: has_flag_bit ludlc_conn_last_reported_def split: if_splits)

lemma urgent_effect:
  assumes inv: "conn_inv cf c" and buf: "buf_ok buf sz"
  obtains ret d evs where "ludlc_send_urgent_data cf c ch buf sz = (ret, d, evs)" "op_effect cf c [] evs d"
proof -
  let ?it = "(u_packet c)\<lparr>pq_chan := ch, pq_payload := buf, pq_size := sz\<rparr>"
  let ?w = "ludlc_platform_clear_bit LUDLC_CONN_U_IDLE_F (conn_flags c)"
  let ?d = "c\<lparr>u_packet := ?it, conn_flags := ?w\<rparr>"
  show thesis
  proof (cases "fst (ludlc_send_urgent_data cf c ch buf sz) = 0")
    case True
    then have g: "ludlc_send_urgent_data cf c ch buf sz = (0, ?d, [RequestTx])" "buf \<noteq> None"
        "\<not> sz > ludlc_conn_payload_lim cf c" "conn_state c = LUDLC_STATE_CONNECTED"
      by (auto simp: ludlc_send_urgent_data_def clear_flag_def split: if_splits)
    have "conn_inv cf ?d"
      using g(2,3) buf
      by (intro conn_inv_u_packet [OF inv g(4)])
        (auto simp: payload_ok_def buf_ok_def flag_simps split: option.splits)
    then have "op_effect cf c [] [RequestTx] ?d"
      by (intro op_effectI [where res = "[]"]) (simp_all add: has_flag_flags flag_simps, simp_all add: has_flag_bit)
    then show thesis
      by (rule that [OF g(1)])
  next
    case False
    then have "snd (ludlc_send_urgent_data cf c ch buf sz) = (c, [])"
      by (simp add: ludlc_send_urgent_data_def split: if_splits)
    then show thesis
      using that [of _ c "[]"] op_effect_none [OF inv, of "[]"] by (metis prod.collapse reported.simps(1))
  qed
qed

text \<open>The packet a DISCONNECT replaces, if one is waiting that belongs to the application.\<close>

definition u_cancelled :: "ludlc_connection \<Rightarrow> packet_queue_item list" where
  "u_cancelled c =
     (if \<not> has_flag LUDLC_CONN_U_IDLE_F c \<and> \<not> has_flag LUDLC_CONN_DISC_AFTER_TX_F c
      then [(u_packet c)\<lparr>pq_result := ECANCELED\<rparr>] else [])"

definition disconnect_packet :: "config \<Rightarrow> packet_queue_item \<Rightarrow> packet_queue_item" where
  "disconnect_packet cf it =
     it\<lparr>pq_chan := CONFIG_LUDLC_CONTROL_CHANNEL cf, pq_payload := Some [LUDLC_CTRL_DISCONNECT], pq_size := 1\<rparr>"

lemma send_disconnect_lock_spec:
  assumes inv: "conn_inv cf c" and st: "conn_state c = LUDLC_STATE_CONNECTED"
    and fr: "has_flag LUDLC_CONN_U_DONE_F c"
  obtains d where "send_disconnect_lock cf c = (0, d, lock_events cf (conn_cb c) (u_cancelled c) [])"
    "locked cf c d (u_cancelled c) []" "outstanding cf d = outstanding cf c"
    "has_flag LUDLC_CONN_DISC_AFTER_TX_F d" "\<not> has_flag LUDLC_CONN_U_IDLE_F d" "conn_state d = conn_state c"
    "pq_chan (u_packet d) = CONFIG_LUDLC_CONTROL_CHANNEL cf"
    "pq_payload (u_packet d) = Some [LUDLC_CTRL_DISCONNECT]" "pq_size (u_packet d) = 1"
proof -
  note i = conn_inv_window [OF inv]
  let ?u = "u_cancelled c \<noteq> []"
  define w0 where "w0 = (if ?u \<and> CONFIG_LUDLC_MT cf
    then ludlc_platform_set_bit LUDLC_CONN_U_CONFIRM_F (conn_flags c) else conn_flags c)"
  define w where "w = ludlc_platform_clear_bit LUDLC_CONN_U_IDLE_F (ludlc_platform_set_bit LUDLC_CONN_DISC_AFTER_TX_F w0)"
  define it where "it = disconnect_packet cf (if ?u then (u_packet c)\<lparr>pq_result := ECANCELED\<rparr> else u_packet c)"
  define e where "e = c\<lparr>u_packet := it, conn_flags := w\<rparr>"
  define d where "d = (if ?u \<and> CONFIG_LUDLC_MT cf
    then e\<lparr>u_confirm := (u_packet c)\<lparr>pq_result := ECANCELED\<rparr>\<rparr> else e)"
  have w: "bit w m \<longleftrightarrow> m = 2 \<or> m \<noteq> 3 \<and> bit (conn_flags c) m \<or> m = 6 \<and> ?u \<and> CONFIG_LUDLC_MT cf" for m
    by (auto simp: w_def w0_def flag_simps)
  have f6: "\<not> bit (conn_flags c) 6"
    using i(6) by (simp add: has_flag_bit)
  have eq: "send_disconnect_lock cf c = (0, d, lock_events cf (conn_cb c) (u_cancelled c) [])"
  proof (cases ?u)
    case True
    then have "\<not> has_flag LUDLC_CONN_U_IDLE_F c" "\<not> has_flag LUDLC_CONN_DISC_AFTER_TX_F c"
      by (auto simp: u_cancelled_def split: if_splits)
    then show ?thesis
      using st fr by (cases "CONFIG_LUDLC_MT cf")
        (simp_all add: send_disconnect_lock_def u_cancelled_def ludlc_confirm_u_lock_def d_def e_def w_def w0_def
          it_def disconnect_packet_def set_flag_def clear_flag_def lock_events_def)
  next
    case False
    then have "\<not> (\<not> has_flag LUDLC_CONN_U_IDLE_F c \<and> \<not> has_flag LUDLC_CONN_DISC_AFTER_TX_F c)"
      by (auto simp: u_cancelled_def split: if_splits)
    with False show ?thesis
      using st fr by (auto simp: send_disconnect_lock_def d_def e_def w_def w0_def
          it_def disconnect_packet_def set_flag_def clear_flag_def lock_events_def)
  qed
  have "payload_ok cf c it"
    using conn_inv_buffers(5) [OF inv] by (simp add: it_def disconnect_packet_def payload_ok_def word_le_nat_alt)
  then have "base_inv cf e"
    unfolding e_def using inv st w f6 by (intro base_inv_u_packet) (auto simp: conn_inv_def)
  then have base: "base_inv cf d"
    by (simp add: d_def)
  have "locked cf c d (u_cancelled c) []"
    using base i(7-9) w f6
    by (auto simp: locked_def d_def e_def u_pending_def q_pending_def ludlc_conn_last_reported_def has_flag_flags)
      (auto simp: has_flag_bit u_cancelled_def split: if_splits)
  then show thesis
    using that [OF eq] w
    by (simp add: d_def e_def it_def disconnect_packet_def has_flag_flags split: if_splits)
qed

lemma send_disconnect_effect:
  assumes inv: "conn_inv cf c" and batch: "1 \<le> CONFIG_LUDLC_CONFIRM_BATCH cf"
  obtains ret d evs where "ludlc_send_disconnect cf c = Some (ret, d, evs)" "op_effect cf c [] evs d"
proof (cases "conn_state c = LUDLC_STATE_CONNECTED \<and> has_flag LUDLC_CONN_U_DONE_F c")
  case True
  obtain d where d: "send_disconnect_lock cf c = (0, d, lock_events cf (conn_cb c) (u_cancelled c) [])"
    "locked cf c d (u_cancelled c) []" "outstanding cf d = outstanding cf c"
    using send_disconnect_lock_spec [OF inv conjunct1 [OF True] conjunct2 [OF True]] by metis
  let ?evs = "lock_events cf (conn_cb c) (u_cancelled c) [] @ unlock_events cf (conn_cb c) (u_cancelled c) [] @ [RequestTx]"
  have "ludlc_send_disconnect cf c = Some (0, finish cf d, ?evs)"
    using d(1) locked_confirm(1) [OF d(2) batch] by (simp add: ludlc_send_disconnect_def)
  moreover have "op_effect cf c [] ?evs (finish cf d)"
    using locked_effect [OF d(2) batch, of "[]" ?evs] d(3) reported_events [of cf "conn_cb c" "u_cancelled c" "[]"]
    by simp
  ultimately show thesis
    by (rule that)
next
  case False
  note l = locked_self [OF inv]
  have "send_disconnect_lock cf c = (if conn_state c \<noteq> LUDLC_STATE_CONNECTED then - ENOTCONN else - EAGAIN, c, [])"
    using False by (auto simp: send_disconnect_lock_def)
  then have "\<exists>ret. ludlc_send_disconnect cf c = Some (ret, finish cf c, [])"
    using locked_confirm(1) [OF l batch] by (simp add: ludlc_send_disconnect_def unlock_events_def)
  moreover have "op_effect cf c [] [] (finish cf c)"
    using locked_effect [OF l batch, of "[]" "[]"] by simp
  ultimately show thesis
    using that by blast
qed

section \<open>The next frame\<close>

text \<open>The payload copied into a frame fits the buffer it is copied to, which keeps its length.\<close>

lemma copy_payload_length:
  assumes "payload_ok cf c it" "length (tx_payload c) = unat (ludlc_conn_payload_lim cf c)"
  shows "length (tx_payload (copy_payload c it)) = length (tx_payload c)"
    "take (unat (pq_size it)) (tx_payload (copy_payload c it)) =
       (case pq_payload it of Some bs \<Rightarrow> take (unat (pq_size it)) bs | None \<Rightarrow> [])"
  using assms
  by (auto simp: copy_payload_def payload_ok_def Let_def word_le_nat_alt split: option.splits)

lemma copy_payload_eq: "copy_payload c it = c\<lparr>tx_payload := tx_payload (copy_payload c it)\<rparr>"
  by (simp add: copy_payload_def Let_def split: option.split)

lemma conn_inv_tx_payload:
  assumes "conn_inv cf c" "length p = length (tx_payload c)"
  shows "conn_inv cf (c\<lparr>tx_payload := p\<rparr>)"
proof -
  have "buffers_inv cf (c\<lparr>tx_payload := p\<rparr>)"
    using conn_inv_buffers [OF assms(1)] assms(2)
    by (rule_tac buffers_invI [of cf c]) (simp_all add: u_flight_def)
  then show ?thesis
    using assms(1)
    by (simp add: conn_inv_def base_inv_def ids_ok_def window_inv_def state_inv_def u_flight_def
        ludlc_conn_last_reported_def Let_def split: if_splits)
qed

lemma conn_inv_sent:
  assumes "conn_inv cf c" "conn_state c = LUDLC_STATE_CONNECTED" "is_seq s"
    "id_dist (last_ack c) s \<le> id_dist (last_ack c) (last_queued c)"
  shows "conn_inv cf (c\<lparr>last_sent := s\<rparr>)"
proof -
  have "buffers_inv cf (c\<lparr>last_sent := s\<rparr>)"
    using conn_inv_buffers [OF assms(1)] by (rule_tac buffers_invI [of cf c]) (simp_all add: u_flight_def)
  then show ?thesis
    using assms
    by (simp add: conn_inv_def base_inv_def ids_ok_def window_inv_def state_inv_def u_flight_def
        ludlc_conn_last_reported_def Let_def split: if_splits)
qed

lemma next_sent:
  assumes inv: "conn_inv cf c" and ne: "last_sent c \<noteq> last_queued c"
  shows "id_dist (last_ack c) (id_plus (last_sent c) 1) = id_dist (last_ack c) (last_sent c) + 1"
    "id_dist (last_ack c) (id_plus (last_sent c) 1) \<le> id_dist (last_ack c) (last_queued c)"
    "slot cf c (id_plus (last_sent c) 1) = outstanding cf c ! id_dist (last_ack c) (last_sent c)"
    "id_dist (last_ack c) (last_sent c) < length (outstanding cf c)"
proof -
  note w = conn_inv_window [OF inv]
  let ?a = "last_ack c" and ?s = "last_sent c" and ?q = "last_queued c"
  have seq: "is_seq ?a" "is_seq ?s" "is_seq ?q"
    using w(3) by (simp_all add: ids_ok_def)
  have "id_dist ?a ?s \<noteq> id_dist ?a ?q"
    using seq ne id_dist_inj [of ?a ?s ?q] by blast
  then have lt: "id_dist ?a ?s < id_dist ?a ?q"
    using w(4) by simp
  have s: "id_plus ?s 1 = id_plus ?a (Suc (id_dist ?a ?s))"
    using seq by (metis Suc_eq_plus1 id_plus_dist id_plus_plus)
  have "Suc (id_dist ?a ?s) < 128"
    using lt id_dist_less [of ?a ?q] by linarith
  then show d: "id_dist ?a (id_plus ?s 1) = id_dist ?a ?s + 1"
    unfolding s using seq by (subst id_dist_plus) auto
  show "id_dist ?a (id_plus ?s 1) \<le> id_dist ?a ?q"
    unfolding d using lt by simp
  show "slot cf c (id_plus ?s 1) = outstanding cf c ! id_dist ?a ?s" "id_dist ?a ?s < length (outstanding cf c)"
    unfolding s outstanding_def using lt by (simp_all add: nth_slots)
qed

text \<open>What a frame on a connected link is made of, and what asking for it changes.\<close>

lemma same_flags_clear: "same_flags (ludlc_platform_clear_bit m w) w" if "m \<in> {0, 7, 8, 9, 10}"
  using that by (auto simp: same_flags_def flag_simps)

lemma same_flags_set: "same_flags (ludlc_platform_set_bit m w) w" if "m \<in> {0, 7, 8, 9, 10}"
  using that by (auto simp: same_flags_def flag_simps)

lemma conn_inv_clear_flag: "m \<in> {0, 7, 8, 9, 10} \<Longrightarrow> conn_inv cf (clear_flag m c) = conn_inv cf c"
  unfolding clear_flag_def by (rule conn_inv_flags [OF same_flags_clear])

lemma conn_inv_set_flag: "m \<in> {0, 7, 8, 9, 10} \<Longrightarrow> conn_inv cf (set_flag m c) = conn_inv cf c"
  unfolding set_flag_def by (rule conn_inv_flags [OF same_flags_set])

lemma outstanding_flag [simp]:
  "outstanding cf (set_flag m c) = outstanding cf c" "outstanding cf (clear_flag m c) = outstanding cf c"
  by (simp_all add: set_flag_def clear_flag_def)

lemma tx_ack_field_inv:
  "conn_inv cf (tx_ack_field c ping numbered) = conn_inv cf c"
  "outstanding cf (tx_ack_field c ping numbered) = outstanding cf c"
  by (simp_all add: tx_ack_field_def Let_def conn_inv_clear_flag conn_inv_set_flag)

lemma set_flag_fields [simp]:
  "last_reported (set_flag nr c) = last_reported c" "last_ack (set_flag nr c) = last_ack c"
  "last_queued (set_flag nr c) = last_queued c" "last_sent (set_flag nr c) = last_sent c"
  "conn_cb (set_flag nr c) = conn_cb c" "conn_cfg (set_flag nr c) = conn_cfg c"
  "packets_q (set_flag nr c) = packets_q c" "conn_state (set_flag nr c) = conn_state c"
  "u_packet (set_flag nr c) = u_packet c" "tx_payload (set_flag nr c) = tx_payload c"
  "last_received (set_flag nr c) = last_received c" "tx_hdr (set_flag nr c) = tx_hdr c"
  by (simp_all add: set_flag_def)

lemma clear_flag_fields2 [simp]:
  "last_queued (clear_flag nr c) = last_queued c" "last_sent (clear_flag nr c) = last_sent c"
  "conn_state (clear_flag nr c) = conn_state c" "u_packet (clear_flag nr c) = u_packet c"
  "tx_payload (clear_flag nr c) = tx_payload c" "last_received (clear_flag nr c) = last_received c"
  "tx_hdr (clear_flag nr c) = tx_hdr c"
  by (simp_all add: clear_flag_def)

lemma tx_ack_field_fields [simp]:
  "conn_cb (tx_ack_field c p n) = conn_cb c" "conn_cfg (tx_ack_field c p n) = conn_cfg c"
  "tx_payload (tx_ack_field c p n) = tx_payload c" 
  "has_flag (Suc 0) (tx_ack_field c p n) = has_flag (Suc 0) c"
  by (simp_all add: tx_ack_field_def Let_def)

definition tx_choice_ok ::
    "config \<Rightarrow> ludlc_connection \<Rightarrow>
     ludlc_connection \<times> packet_queue_item option \<times> nat \<times> bool \<times> bool \<times> int \<times> ludlc_event list \<Rightarrow> bool" where
  "tx_choice_ok cf c r \<longleftrightarrow>
     (case r of (d, it, hs, ping, num, ret, evs) \<Rightarrow>
        conn_inv cf d \<and> outstanding cf d = outstanding cf c \<and> conn_cb d = conn_cb c \<and> conn_cfg d = conn_cfg c \<and>
        has_flag LUDLC_CONN_INITED_F d = has_flag LUDLC_CONN_INITED_F c \<and> reported evs = [] \<and>
        tx_payload d = tx_payload c \<and> (case it of None \<Rightarrow> True | Some p \<Rightarrow> payload_ok cf c p))"

lemma tx_choose_inv:
  assumes inv: "conn_inv cf c" and st: "conn_state c = LUDLC_STATE_CONNECTED"
  shows "tx_choice_ok cf c (tx_choose cf c u_done)"
proof -
  note w = conn_inv_window [OF inv]
  let ?i = "(last_sent c + 1) AND LUDLC_ID_MASK"
  consider (u) "\<not> has_flag LUDLC_CONN_U_IDLE_F c"
    | (ping) "has_flag LUDLC_CONN_U_IDLE_F c" "last_sent c = last_queued c"
    | (num) "has_flag LUDLC_CONN_U_IDLE_F c" "last_sent c \<noteq> last_queued c"
    by blast
  then show ?thesis
  proof cases
    case u
    have pok: "payload_ok cf c (u_packet c)"
      using conn_inv_buffers(3) [OF inv] u by (simp add: u_flight_def)
    let ?d = "clear_flag LUDLC_CONN_U_DONE_F (set_flag LUDLC_CONN_U_IDLE_F c)"
    have "?d = c\<lparr>u_packet := u_packet c, conn_flags := conn_flags ?d\<rparr>"
      by (simp add: clear_flag_def set_flag_def)
    also have "conn_inv cf \<dots>"
      by (rule conn_inv_u_packet [OF inv st pok]) (simp add: clear_flag_def set_flag_def flag_simps)
    finally have "conn_inv cf ?d" .
    with u pok show ?thesis
      by (simp add: tx_choice_ok_def tx_choose_def Let_def)
  next
    case ping
    then show ?thesis
      using inv by (simp add: tx_choice_ok_def tx_choose_def Let_def)
  next
    case num
    note n = next_sent [OF inv num(2)]
    have pok: "payload_ok cf c (slot cf c ?i)"
      unfolding id_suc n(3) using conn_inv_buffers(2) [OF inv nth_mem [OF n(4)]] by (simp add: item_ok_def)
    define h where "h = (tx_hdr c)\<lparr>hdr_tx_id := ?i, hdr_chan := pq_chan (slot cf c ?i)\<rparr>"
    define f where "f = c\<lparr>tx_hdr := h\<rparr>"
    define e where "e = (if last_sent f = last_ack f then
        if has_flag LUDLC_CONN_TTL_HOLD_F f then clear_flag LUDLC_CONN_TTL_HOLD_F f
        else clear_flag LUDLC_CONN_TTL_CHARGED_F (clear_flag LUDLC_CONN_TTL_HOLD_F f) else f)"
    have f: "conn_inv cf f" "conn_state f = LUDLC_STATE_CONNECTED" "last_ack f = last_ack c"
        "last_queued f = last_queued c" "outstanding cf f = outstanding cf c"
      using inv st by (simp_all add: f_def)
    have e: "conn_inv cf e" "conn_state e = LUDLC_STATE_CONNECTED" "last_ack e = last_ack c"
        "last_queued e = last_queued c" "outstanding cf e = outstanding cf c" "conn_cb e = conn_cb c"
        "conn_cfg e = conn_cfg c" "has_flag LUDLC_CONN_INITED_F e = has_flag LUDLC_CONN_INITED_F c"
        "tx_payload e = tx_payload c"
      using f by (simp_all add: e_def conn_inv_clear_flag) (simp_all add: f_def)
    have inv': "conn_inv cf (e\<lparr>last_sent := ?i\<rparr>)"
      by (rule conn_inv_sent [OF e(1,2)]) (use n(2) e in \<open>simp_all add: id_suc\<close>)
    have "tx_choose cf c u_done =
        (e\<lparr>last_sent := ?i\<rparr>, Some (slot cf c ?i), sizeof_hdr, False, True,
         if ?i \<noteq> last_queued c then 0 else 1, [])"
      using num e(4) unfolding tx_choose_def Let_def f_def [symmetric] h_def [symmetric] e_def [symmetric] by simp
    with pok inv' e show ?thesis
      by (simp add: tx_choice_ok_def)
  qed
qed

lemma tx_connected_inv:
  assumes inv: "conn_inv cf c" and st: "conn_state c = LUDLC_STATE_CONNECTED"
  obtains ret fr d evs where "tx_connected cf c u_done = (ret, fr, d, evs)" "conn_inv cf d"
    "outstanding cf d = outstanding cf c" "conn_cb d = conn_cb c" "conn_cfg d = conn_cfg c"
    "has_flag LUDLC_CONN_INITED_F d = has_flag LUDLC_CONN_INITED_F c" "reported evs = []"
proof -
  obtain d it hs ping num ret evs where r: "tx_choose cf c u_done = (d, it, hs, ping, num, ret, evs)"
    by (metis surj_pair)
  with tx_choose_inv [OF inv st, of u_done] have ch: "conn_inv cf d" "outstanding cf d = outstanding cf c"
      "conn_cb d = conn_cb c" "conn_cfg d = conn_cfg c"
      "has_flag LUDLC_CONN_INITED_F d = has_flag LUDLC_CONN_INITED_F c" "reported evs = []"
      "tx_payload d = tx_payload c" "case it of None \<Rightarrow> True | Some p \<Rightarrow> payload_ok cf c p"
    by (simp_all add: tx_choice_ok_def)
  let ?e = "tx_ack_field d ping num"
  note e = tx_ack_field_inv [of cf d ping num]
  show thesis
  proof (cases it)
    case None
    then show thesis
      using ch e by (intro that [of ret _ ?e evs]) (simp_all add: tx_connected_def r Let_def)
  next
    case (Some p)
    let ?f = "copy_payload ?e p"
    have "payload_ok cf ?e p"
      using ch(4,8) Some cfg_cong(3) [of ?e c] by simp
    then have len: "length (tx_payload ?f) = length (tx_payload ?e)"
      using conn_inv_buffers(4) [of cf ?e] e ch(1) by (intro copy_payload_length) simp_all
    have "conn_inv cf ?f"
      by (subst copy_payload_eq) (use ch(1) e len in \<open>simp add: conn_inv_tx_payload\<close>)
    moreover have "outstanding cf ?f = outstanding cf c" "conn_cb ?f = conn_cb c" "conn_cfg ?f = conn_cfg c"
        "has_flag LUDLC_CONN_INITED_F ?f = has_flag LUDLC_CONN_INITED_F c"
      by (subst copy_payload_eq, use ch e in simp)+
    ultimately show thesis
      using Some ch(6) by (intro that [of ret _ ?f evs]) (simp_all add: tx_connected_def r Let_def)
  qed
qed

lemma op_effect_via:
  assumes "op_effect cf e acc evs d" "outstanding cf e = outstanding cf c" "conn_cb e = conn_cb c"
    "conn_cfg e = conn_cfg c" "has_flag (Suc 0) e = has_flag (Suc 0) c"
  shows "op_effect cf c acc evs d"
  using assms by (simp add: op_effect_def)

text \<open>The unnumbered packet is taken as sent by the next call.\<close>

definition u_sent_mark :: "ludlc_connection \<Rightarrow> bool \<Rightarrow> ludlc_connection" where
  "u_sent_mark c u_done =
     (let d = set_flag LUDLC_CONN_U_DONE_F c
      in if u_done then d\<lparr>u_packet := (u_packet d)\<lparr>pq_result := 0\<rparr>\<rparr> else d)"

lemma payload_ok_result [simp]: "payload_ok cf c (it\<lparr>pq_result := r\<rparr>) = payload_ok cf c it"
  by (simp add: payload_ok_def split: option.split)

lemma set_bit_idem: "bit w nr \<Longrightarrow> nr < 32 \<Longrightarrow> ludlc_platform_set_bit nr w = w"
  by (rule bit_eqI) (auto simp: bit_set_bit)

lemma set_flag_idem: "has_flag nr c \<Longrightarrow> nr < 32 \<Longrightarrow> set_flag nr c = c"
  by (simp add: set_flag_def has_flag_def test_bit_iff set_bit_idem)

lemma u_sent_mark_inv:
  assumes inv: "conn_inv cf c" and u: "u \<Longrightarrow> \<not> has_flag LUDLC_CONN_U_DONE_F c"
  shows "conn_inv cf (u_sent_mark c u)"
proof (cases "has_flag LUDLC_CONN_U_DONE_F c")
  case True
  then have "set_flag LUDLC_CONN_U_DONE_F c = c"
    by (simp add: set_flag_idem)
  with True u inv show ?thesis
    by (auto simp: u_sent_mark_def)
next
  case False
  then have fl: "u_flight c"
    by (simp add: u_flight_def)
  have st: "conn_state c = LUDLC_STATE_CONNECTED"
    using inv fl by (auto simp: conn_inv_def base_inv_def state_inv_def)
  have eq: "u_sent_mark c u = c\<lparr>u_packet := (if u then (u_packet c)\<lparr>pq_result := 0\<rparr> else u_packet c),
      conn_flags := ludlc_platform_set_bit LUDLC_CONN_U_DONE_F (conn_flags c)\<rparr>"
    by (simp add: u_sent_mark_def set_flag_def Let_def)
  show ?thesis
    unfolding eq using conn_inv_buffers(3) [OF inv fl]
    by (intro conn_inv_u_packet [OF inv st]) (simp_all add: flag_simps)
qed

lemma u_sent_mark_fields [simp]:
  "outstanding cf (u_sent_mark c u) = outstanding cf c" "conn_cb (u_sent_mark c u) = conn_cb c"
  "conn_cfg (u_sent_mark c u) = conn_cfg c" "conn_state (u_sent_mark c u) = conn_state c"
  "m < 32 \<Longrightarrow> has_flag m (u_sent_mark c u) = (has_flag m c \<or> m = 4)"
  by (simp_all add: u_sent_mark_def Let_def)

lemma get_packet_lock_inv:
  assumes inv: "conn_inv cf c"
  obtains ret fr d evs where "get_packet_lock cf c u_done = (ret, fr, d, evs)" "conn_inv cf d"
    "outstanding cf d = outstanding cf c" "conn_cb d = conn_cb c" "conn_cfg d = conn_cfg c"
    "has_flag LUDLC_CONN_INITED_F d = has_flag LUDLC_CONN_INITED_F c" "reported evs = []"
proof (cases "conn_state c = LUDLC_STATE_CONNECTED")
  case True
  obtain ret fr d evs where d: "tx_connected cf c u_done = (ret, fr, d, evs)" "conn_inv cf d"
    "outstanding cf d = outstanding cf c" "conn_cb d = conn_cb c" "conn_cfg d = conn_cfg c"
    "has_flag LUDLC_CONN_INITED_F d = has_flag LUDLC_CONN_INITED_F c" "reported evs = []"
    using tx_connected_inv [OF inv True] by metis
  then show thesis
    using True by (intro that [of ret fr "start_ping_timer cf d" evs])
      (simp_all add: get_packet_lock_def start_ping_timer_def)
next
  case False
  obtain fr where "tx_handshake_step cf c = (fst (tx_handshake_step cf c), fr)"
    by (metis prod.collapse)
  moreover have "fst (tx_handshake_step cf c) = c\<lparr>tx_hdr := tx_hdr (fst (tx_handshake_step cf c))\<rparr>"
    by (simp add: tx_handshake_step_def Let_def split_def)
  ultimately obtain h where "tx_handshake_step cf c = (c\<lparr>tx_hdr := h\<rparr>, fr)"
    by metis
  then show thesis
    using False inv by (intro that [of 1 fr "start_ping_timer cf (c\<lparr>tx_hdr := h\<rparr>)" "[]"])
      (simp_all add: get_packet_lock_def start_ping_timer_def)
qed

lemma get_packet_effect:
  assumes inv: "conn_inv cf c" and batch: "1 \<le> CONFIG_LUDLC_CONFIRM_BATCH cf"
  obtains ret fr d evs where "ludlc_get_packet_to_send cf c outs_ok = Some (ret, fr, d, evs)"
    "op_effect cf c [] evs d"
proof (cases outs_ok)
  case False
  then show thesis
    using that [of "- EINVAL" None c "[]"] op_effect_none [OF inv, of "[]"]
    by (simp add: ludlc_get_packet_to_send_def)
next
  case True
  define drained where "drained = (\<not> has_flag LUDLC_CONN_U_DONE_F c)"
  define disc where "disc = (drained \<and> has_flag LUDLC_CONN_DISC_AFTER_TX_F c)"
  define u_done where "u_done = (drained \<and> \<not> disc)"
  define e where "e = u_sent_mark c u_done"
  have e: "conn_inv cf e" "outstanding cf e = outstanding cf c" "conn_cb e = conn_cb c" "conn_cfg e = conn_cfg c"
      "has_flag (Suc 0) e = has_flag (Suc 0) c"
    using u_sent_mark_inv [OF inv, of u_done] by (simp_all add: e_def u_done_def drained_def)
  have eq: "ludlc_get_packet_to_send cf c outs_ok =
     (if disc then do {
        (conn, evs) \<leftarrow> ludlc_handle_disconnect cf e; Some (- ENOTCONN, None, conn, evs)
      }
      else
        let (ret, fr, conn, evs) = get_packet_lock cf e u_done
        in Some (ret, Some fr, conn, evs @ (if u_done then ludlc_call_on_confirm conn Unnumbered (u_packet e) else [])))"
    using True unfolding ludlc_get_packet_to_send_def Let_def e_def u_sent_mark_def u_done_def disc_def drained_def
    by simp
  show thesis
  proof (cases disc)
    case d: True
    obtain d evs where "ludlc_handle_disconnect cf e = Some (d, evs)" "op_effect cf e [] evs d"
      using handle_disconnect_effect [OF e(1) batch] by metis
    then show thesis
      using op_effect_via [OF _ e(2-5)] d by (intro that [of "- ENOTCONN" None d evs]) (simp_all add: eq)
  next
    case n: False
    obtain ret fr d evs where d: "get_packet_lock cf e u_done = (ret, fr, d, evs)" "conn_inv cf d"
        "outstanding cf d = outstanding cf e" "conn_cb d = conn_cb e" "conn_cfg d = conn_cfg e"
        "has_flag LUDLC_CONN_INITED_F d = has_flag LUDLC_CONN_INITED_F e" "reported evs = []"
      using get_packet_lock_inv [OF e(1)] by metis
    let ?evs = "evs @ (if u_done then ludlc_call_on_confirm d Unnumbered (u_packet e) else [])"
    have "op_effect cf c [] ?evs d"
      by (rule op_effectI [where res = "[]"]) (use d e in simp_all)
    with n d(1) show thesis
      by (intro that [of ret "Some fr" d ?evs]) (simp_all add: eq)
  qed
qed

end
