(* ===== verification/Ludlc_Ledger.thy ===== *)
theory Ludlc_Ledger
  imports Ludlc_Steps
begin

text \<open>
  The contract of a link towards its application, stated as an interface: whatever is
  accepted is, in order and exactly once, reported or still outstanding. The interface is
  a locale over any machine with steps; the calls into the core are such a machine.
\<close>

section \<open>The interface\<close>

text \<open>Running a list of operations, collecting what was accepted and the effects.\<close>

fun run_steps ::
    "('o \<Rightarrow> 's \<Rightarrow> ('r \<times> 's \<times> 'e list) option) \<Rightarrow> ('o \<Rightarrow> 'r \<Rightarrow> 'p list) \<Rightarrow> 'o list \<Rightarrow> 's \<Rightarrow>
     ('p list \<times> 'e list \<times> 's) option" where
  "run_steps step accepted [] s = Some ([], [], s)"
| "run_steps step accepted (p # ps) s =
     do {
       (r, s', es) \<leftarrow> step p s;
       (acc, fs, s'') \<leftarrow> run_steps step accepted ps s';
       Some (accepted p r @ acc, es @ fs, s'')
     }"

locale ledger =
  fixes step :: "'o \<Rightarrow> 's \<Rightarrow> ('r \<times> 's \<times> 'e list) option"
    and inv :: "'s \<Rightarrow> bool"
    and allowed :: "'o \<Rightarrow> bool"
    and pending :: "'s \<Rightarrow> 'p list"
    and accepted :: "'o \<Rightarrow> 'r \<Rightarrow> 'p list"
    and told :: "'e list \<Rightarrow> 'p list"
  assumes step_total: "inv s \<Longrightarrow> allowed p \<Longrightarrow> \<exists>r s' es. step p s = Some (r, s', es)"
    and step_inv: "inv s \<Longrightarrow> allowed p \<Longrightarrow> step p s = Some (r, s', es) \<Longrightarrow> inv s'"
    and step_books: "inv s \<Longrightarrow> allowed p \<Longrightarrow> step p s = Some (r, s', es) \<Longrightarrow>
      pending s @ accepted p r = told es @ pending s'"
    and told_append: "told (es @ fs) = told es @ told fs"
    and told_Nil: "told [] = []"
begin

lemma run_total:
  "inv s \<Longrightarrow> list_all allowed ps \<Longrightarrow>
   \<exists>acc es s'. run_steps step accepted ps s = Some (acc, es, s') \<and> inv s'"
proof (induction ps arbitrary: s)
  case (Cons p ps)
  obtain r s' es where st: "step p s = Some (r, s', es)"
    using Cons.prems step_total [of s p] by auto
  then have "inv s'"
    using Cons.prems step_inv [of s p] by auto
  with Cons.IH [of s'] Cons.prems st show ?case
    by auto
qed simp

lemma run_books:
  "inv s \<Longrightarrow> list_all allowed ps \<Longrightarrow> run_steps step accepted ps s = Some (acc, es, s') \<Longrightarrow>
   pending s @ acc = told es @ pending s'"
proof (induction ps arbitrary: s acc es)
  case (Cons p ps)
  from Cons.prems(3) obtain r s1 es1 acc2 es2 where st: "step p s = Some (r, s1, es1)"
      "run_steps step accepted ps s1 = Some (acc2, es2, s')" "acc = accepted p r @ acc2" "es = es1 @ es2"
    by (auto simp: bind_eq_Some_conv)
  have "inv s1" "pending s @ accepted p r = told es1 @ pending s1"
    using Cons.prems st(1) step_inv [of s p] step_books [of s p] by auto
  moreover from this(1) have "pending s1 @ acc2 = told es2 @ pending s'"
    using Cons.IH [of s1] Cons.prems st(2) by simp
  ultimately show ?case
    using st(3,4) told_append by (metis append.assoc)
qed (simp add: told_Nil)

end

section \<open>The calls into the core\<close>

datatype api_op =
    Enqueue ludlc_channel_t buffer ludlc_payload_size_t uint8
  | Urgent ludlc_channel_t buffer ludlc_payload_size_t
  | SendDisconnect
  | Connect
  | Receive "octet list" nat nat
  | GetPacket bool
  | HandleDisconnect
  | PingTimer
  | WdTimer

definition api_step ::
    "config \<Rightarrow> api_op \<Rightarrow> ludlc_connection \<Rightarrow> (int \<times> ludlc_connection \<times> ludlc_event list) option" where
  "api_step cf p c =
     (case p of
        Enqueue ch buf sz ttl \<Rightarrow> Some (ludlc_enqueue_data cf c ch buf sz ttl)
      | Urgent ch buf sz \<Rightarrow> Some (ludlc_send_urgent_data cf c ch buf sz)
      | SendDisconnect \<Rightarrow> ludlc_send_disconnect cf c
      | Connect \<Rightarrow> ludlc_connect cf c
      | Receive packet sz ts \<Rightarrow> do { (d, evs) \<leftarrow> ludlc_receive cf c packet sz ts; Some (0, d, evs) }
      | GetPacket ok \<Rightarrow>
          do { (ret, fr, d, evs) \<leftarrow> ludlc_get_packet_to_send cf c ok; Some (ret, d, evs) }
      | HandleDisconnect \<Rightarrow> do { (d, evs) \<leftarrow> ludlc_handle_disconnect cf c; Some (0, d, evs) }
      | PingTimer \<Rightarrow> Some (0, c, ludlc_ping_timer c)
      | WdTimer \<Rightarrow> Some (0, c, ludlc_wd_timer c))"

fun op_ok :: "api_op \<Rightarrow> bool" where
  "op_ok (Enqueue ch buf sz ttl) = buf_ok buf sz"
| "op_ok (Urgent ch buf sz) = buf_ok buf sz"
| "op_ok _ = True"

fun op_accepted :: "api_op \<Rightarrow> int \<Rightarrow> (ludlc_channel_t \<times> buffer \<times> ludlc_payload_size_t) list" where
  "op_accepted (Enqueue ch buf sz ttl) ret = (if ret = 0 then [(ch, buf, sz)] else [])"
| "op_accepted _ ret = []"

lemma api_step_effect:
  assumes inv: "conn_inv cf c" and batch: "1 \<le> CONFIG_LUDLC_CONFIRM_BATCH cf" and ok: "op_ok p"
  shows "\<exists>ret d evs. api_step cf p c = Some (ret, d, evs) \<and> op_effect cf c (op_accepted p ret) evs d"
proof (cases p)
  case (Enqueue ch buf sz ttl)
  with ok have "buf_ok buf sz"
    by simp
  from enqueue_effect [OF inv this, of ch ttl] obtain ret d evs
    where "ludlc_enqueue_data cf c ch buf sz ttl = (ret, d, evs)"
      "op_effect cf c (if ret = 0 then [(ch, buf, sz)] else []) evs d"
    by blast
  with Enqueue show ?thesis
    by (auto simp: api_step_def)
next
  case (Urgent ch buf sz)
  with ok have "buf_ok buf sz"
    by simp
  from urgent_effect [OF inv this, of ch] obtain ret d evs
    where "ludlc_send_urgent_data cf c ch buf sz = (ret, d, evs)" "op_effect cf c [] evs d"
    by blast
  with Urgent show ?thesis
    by (auto simp: api_step_def)
next
  case SendDisconnect
  then show ?thesis
    using send_disconnect_effect [OF inv batch] by (simp add: api_step_def) metis
next
  case Connect
  then show ?thesis
    using connect_effect [OF inv batch] by (simp add: api_step_def) metis
next
  case (Receive packet sz ts)
  obtain d evs where "ludlc_receive cf c packet sz ts = Some (d, evs)" "op_effect cf c [] evs d"
    using receive_effect [OF inv batch] by metis
  then show ?thesis
    by (simp add: Receive api_step_def)
next
  case (GetPacket b)
  obtain ret fr d evs where "ludlc_get_packet_to_send cf c b = Some (ret, fr, d, evs)" "op_effect cf c [] evs d"
    using get_packet_effect [OF inv batch] by metis
  then show ?thesis
    by (simp add: GetPacket api_step_def)
next
  case HandleDisconnect
  obtain d evs where "ludlc_handle_disconnect cf c = Some (d, evs)" "op_effect cf c [] evs d"
    using handle_disconnect_effect [OF inv batch] by metis
  then show ?thesis
    by (simp add: HandleDisconnect api_step_def)
qed (use op_effect_none [OF inv] in \<open>simp_all add: api_step_def ludlc_ping_timer_def ludlc_wd_timer_def\<close>)

text \<open>A connection an application listens on.\<close>

definition live :: "config \<Rightarrow> ludlc_connection \<Rightarrow> bool" where
  "live cf c \<longleftrightarrow> conn_inv cf c \<and> 1 \<le> CONFIG_LUDLC_CONFIRM_BATCH cf \<and> listens (conn_cb c)"

interpretation api: ledger "api_step cf" "live cf" op_ok "\<lambda>c. map ident (outstanding cf c)" op_accepted reported
  for cf
proof
  fix s p
  assume "live cf s" "op_ok p"
  then show "\<exists>r s' es. api_step cf p s = Some (r, s', es)"
    using api_step_effect [of cf s p] by (auto simp: live_def)
next
  fix s p r s' es
  assume a: "live cf s" "op_ok p" "api_step cf p s = Some (r, s', es)"
  then have e: "op_effect cf s (op_accepted p r) es s'"
    using api_step_effect [of cf s p] by (auto simp: live_def)
  with a(1) show "live cf s'"
    by (simp add: live_def op_effect_def)
  show "map ident (outstanding cf s) @ op_accepted p r = reported es @ map ident (outstanding cf s')"
    using e a(1) by (auto simp: op_effect_def live_def)
qed simp_all

end
