(* ===== verification/Ludlc_Session.thy ===== *)
theory Ludlc_Session
  imports Ludlc_Ledger
begin

text \<open>
  The life of a connection: initialisation establishes the invariant, every call keeps
  it, and over any sequence of calls every accepted packet is accounted for.
\<close>

section \<open>Initialisation\<close>

lemma link_window_ok:
  assumes w: "w \<noteq> 0" "unat w \<le> 64" "w AND (w - 1) = (0 :: ludlc_id_t)"
  shows "window_ok (ucast w)"
proof -
  let ?ok = "\<lambda>w :: ludlc_id_t. w \<noteq> 0 \<and> w AND (w - 1) = 0"
  have "of_nat (unat w) \<in> (of_nat ` set [0..<65] :: ludlc_id_t set)"
    by (rule imageI) (use w(2) in simp)
  then have "w \<in> set (map of_nat [0..<65])"
    by (simp only: set_map of_nat_unat ucast_id)
  with w(1,3) have "w \<in> set (filter ?ok (map of_nat [0..<65]))"
    by simp
  moreover have "list_all (\<lambda>w. window_ok (ucast w)) (filter ?ok (map of_nat [0..<65]))"
    by code_simp
  ultimately show ?thesis
    by (auto simp: list_all_iff)
qed

lemma window_ucast:
  assumes "window_ok w"
  shows "(ucast w :: ludlc_id_t) \<noteq> 0 \<and> (ucast (ucast w :: ludlc_id_t) :: uint32) = w"
  using window_ok_cases [OF assms] by auto

text \<open>What a link resolves its settings to, when it is not refused.\<close>

lemma resolved_window:
  assumes ok: "config_ok cf" and nr: "\<not> cfg_refused cf (resolve_cfg cf r)" and c: "conn_cfg c = resolve_cfg cf r"
  shows "window_ok (ludlc_conn_window cf c)"
proof (cases "CONFIG_LUDLC_MULTI_CONN cf")
  case True
  have def: "window_ok (CONFIG_LUDLC_WINDOW cf)"
    using ok by (simp add: config_ok_def)
  have "window (resolve_cfg cf r) \<noteq> 0"
    using True window_ucast [OF def] by (simp add: resolve_cfg_def)
  then have "window_ok (ucast (window (resolve_cfg cf r)))"
    using True nr by (intro link_window_ok) (auto simp: cfg_refused_def)
  with True c show ?thesis
    by (simp add: ludlc_conn_window_def)
next
  case False
  with ok show ?thesis
    by (simp add: config_ok_def ludlc_conn_window_def)
qed

lemma payload_size_fits: "config_ok cf \<Longrightarrow> unat (of_nat (CONFIG_LUDLC_MAX_PAYLOAD_SIZE cf) :: uint8) = CONFIG_LUDLC_MAX_PAYLOAD_SIZE cf"
  by (simp add: config_ok_def LUDLC_PACKET_SIZE_def unat_of_nat)

lemma resolved_payload:
  assumes ok: "config_ok cf" and nr: "\<not> cfg_refused cf (resolve_cfg cf r)" and c: "conn_cfg c = resolve_cfg cf r"
  shows "1 \<le> unat (ludlc_conn_payload_lim cf c)" "unat (ludlc_conn_payload_lim cf c) \<le> CONFIG_LUDLC_MAX_PAYLOAD_SIZE cf"
    "\<not> CONFIG_LUDLC_MULTI_CONN cf \<Longrightarrow> unat (ludlc_conn_payload_lim cf c) = CONFIG_LUDLC_MAX_PAYLOAD_SIZE cf"
proof -
  have "max_payload (resolve_cfg cf r) \<noteq> 0" if "CONFIG_LUDLC_MULTI_CONN cf"
    using that payload_size_fits [OF ok] ok by (auto simp: resolve_cfg_def config_ok_def)
  then show "1 \<le> unat (ludlc_conn_payload_lim cf c)"
    "unat (ludlc_conn_payload_lim cf c) \<le> CONFIG_LUDLC_MAX_PAYLOAD_SIZE cf"
    "\<not> CONFIG_LUDLC_MULTI_CONN cf \<Longrightarrow> unat (ludlc_conn_payload_lim cf c) = CONFIG_LUDLC_MAX_PAYLOAD_SIZE cf"
    using c nr payload_size_fits [OF ok] ok
    by (auto simp: ludlc_conn_payload_lim_def cfg_refused_def config_ok_def Suc_le_eq unat_gt_0)
qed

lemma init_form:
  assumes "ludlc_connection_init cf env cfg cb = (0, c)"
  defines "r \<equiv> (case cfg of Some r \<Rightarrow> r | None \<Rightarrow> LUDLC_CONN_CFG_DEFAULT cf)"
  shows "\<not> cfg_refused cf (resolve_cfg cf r)" "conn_cfg c = resolve_cfg cf r" "conn_cb c = cb"
    "conn_state c = 0" "last_queued c = 0" "last_sent c = 0" "last_ack c = 0" "last_received c = 0"
    "last_seen c = 0" "last_reported c = 0" "report_busy c = 0"
    "conn_flags c = ludlc_platform_set_bit LUDLC_CONN_INITED_F LUDLC_CONN_IDLE_MASK"
    "length (packets_q c) = (if CONFIG_LUDLC_MULTI_CONN cf then wnd cf c else unat (CONFIG_LUDLC_WINDOW cf))"
    "length (tx_payload c) = (if CONFIG_LUDLC_MULTI_CONN cf then unat (ludlc_conn_payload_lim cf c)
       else CONFIG_LUDLC_MAX_PAYLOAD_SIZE cf)"
    "LUDLC_CHAN_TAG_PER_LINK cf \<Longrightarrow> ludlc_chan_tag_bits_ok cf (unat (chan_tag_bits r))"
    "\<not> caps_refused cf c cb"
proof -
  define c0 where "c0 = (conn_zero cf)\<lparr>conn_cfg := resolve_cfg cf r\<rparr>"
  define c1 where "c1 = snd (ludlc_conn_queue_alloc cf True c0)"
  have c: "c = set_flag LUDLC_CONN_INITED_F (c1\<lparr>conn_cb := cb,
      tx_hdr := (tx_hdr c1)\<lparr>hdr_chan := CONFIG_LUDLC_CONTROL_CHANNEL cf\<rparr>,
      conn_state := LUDLC_STATE_DISCONNECTED, conn_flags := LUDLC_CONN_IDLE_MASK\<rparr>)"
    and g: "\<not> cfg_refused cf (resolve_cfg cf r)" "\<not> caps_refused cf c0 cb"
      "LUDLC_CHAN_TAG_PER_LINK cf \<Longrightarrow> ludlc_chan_tag_bits_ok cf (unat (chan_tag_bits r))"
    using assms(1)
    by (auto simp: ludlc_connection_init_def r_def [symmetric] c0_def c1_def ludlc_conn_queue_alloc_def
        split_def Let_def split: if_splits)
  have cz: "conn_state c0 = 0" "last_queued c0 = 0" "last_sent c0 = 0" "last_ack c0 = 0" "last_received c0 = 0"
      "last_seen c0 = 0" "last_reported c0 = 0" "report_busy c0 = 0" "conn_cfg c0 = resolve_cfg cf r"
      "\<not> CONFIG_LUDLC_MULTI_CONN cf \<Longrightarrow> length (packets_q c0) = unat (CONFIG_LUDLC_WINDOW cf)"
      "\<not> CONFIG_LUDLC_MULTI_CONN cf \<Longrightarrow> length (tx_payload c0) = CONFIG_LUDLC_MAX_PAYLOAD_SIZE cf"
    by (simp_all add: c0_def conn_zero_def)
  have w: "wnd cf c = wnd cf c0" "ludlc_conn_payload_lim cf c = ludlc_conn_payload_lim cf c0"
    by (simp_all add: c c1_def ludlc_conn_queue_alloc_def set_flag_def)
  show "\<not> cfg_refused cf (resolve_cfg cf r)" by (rule g(1))
  show "LUDLC_CHAN_TAG_PER_LINK cf \<Longrightarrow> ludlc_chan_tag_bits_ok cf (unat (chan_tag_bits r))" by (rule g(3))
  show "\<not> caps_refused cf c cb"
    using g(2) w(2) by (simp add: caps_refused_def split: option.splits)
  show "length (packets_q c) = (if CONFIG_LUDLC_MULTI_CONN cf then wnd cf c else unat (CONFIG_LUDLC_WINDOW cf))"
    "length (tx_payload c) = (if CONFIG_LUDLC_MULTI_CONN cf then unat (ludlc_conn_payload_lim cf c)
       else CONFIG_LUDLC_MAX_PAYLOAD_SIZE cf)"
    unfolding w by (simp_all add: c c1_def ludlc_conn_queue_alloc_def set_flag_def cz wnd_def)
  show "conn_cfg c = resolve_cfg cf r" "conn_cb c = cb"
    "conn_state c = 0" "last_queued c = 0" "last_sent c = 0" "last_ack c = 0" "last_received c = 0"
    "last_seen c = 0" "last_reported c = 0" "report_busy c = 0"
    "conn_flags c = ludlc_platform_set_bit LUDLC_CONN_INITED_F LUDLC_CONN_IDLE_MASK"
    by (simp_all add: c c1_def ludlc_conn_queue_alloc_def set_flag_def cz)
qed

lemma init_inv:
  assumes ok: "config_ok cf" and init: "ludlc_connection_init cf env cfg cb = (0, c)"
  shows "conn_inv cf c" "outstanding cf c = []" "has_flag LUDLC_CONN_INITED_F c"
proof -
  note f = init_form [OF init]
  note lim = resolved_payload [OF ok f(1,2)]
  have flags: "has_flag m c \<longleftrightarrow> m = 0 \<or> m = 1 \<or> m = 3 \<or> m = 4" if "m < 32" for m
    using that f(12) by (simp add: has_flag_bit flag_simps) blast
  show out: "outstanding cf c = []" and "has_flag LUDLC_CONN_INITED_F c"
    using f(5,7) flags by (simp_all add: outstanding_def)
  have "ring_ok cf c"
    using resolved_window [OF ok f(1,2)] f(13) by (simp add: ring_ok_def wnd_def ludlc_conn_window_def)
  moreover have "ids_ok c" "window_inv cf c" "state_inv cf c" "settled cf c"
    using f(4-11) flags by (simp_all add: ids_ok_def window_inv_def state_inv_def settled_def u_flight_def
        ludlc_conn_last_reported_def Let_def)
  moreover have "buffers_inv cf c"
    using out flags lim f(14) by (simp add: buffers_inv_def u_flight_def)
  ultimately show "conn_inv cf c"
    by (simp add: conn_inv_def base_inv_def)
qed

section \<open>Runs\<close>

text \<open>The connections a program can have: initialised, then used one call at a time.\<close>

inductive reachable :: "config \<Rightarrow> ludlc_connection \<Rightarrow> bool" for cf where
  reach_init: "ludlc_connection_init cf env cfg cb = (0, c) \<Longrightarrow> reachable cf c"
| reach_step: "reachable cf c \<Longrightarrow> op_ok p \<Longrightarrow> api_step cf p c = Some (ret, d, evs) \<Longrightarrow> reachable cf d"

lemma config_batch: "config_ok cf \<Longrightarrow> 1 \<le> CONFIG_LUDLC_CONFIRM_BATCH cf"
  by (simp add: config_ok_def)

lemma reachable_inv: "reachable cf c \<Longrightarrow> config_ok cf \<Longrightarrow> conn_inv cf c"
proof (induction rule: reachable.induct)
  case (reach_init env cfg cb c)
  then show ?case
    by (simp add: init_inv)
next
  case (reach_step c p ret d evs)
  then show ?case
    using api_step_effect [of cf c p] config_batch [of cf] by (auto simp: op_effect_def)
qed

definition all_callbacks :: ludlc_conn_cb where
  "all_callbacks = \<lparr>on_disconnect = True, on_connect = True, on_recv = True, on_confirm = True,
     on_caps = True, caps = Some [7, 8], caps_size = 2\<rparr>"

definition good_env :: platform_env where
  "good_env = \<lparr>env_alloc_ok = True, env_conn_init = 0, env_init_ping_timer = 0, env_init_wd_timer = 0\<rparr>"

definition fresh :: "config \<Rightarrow> ludlc_connection" where
  "fresh cf = snd (ludlc_connection_init cf good_env None (Some all_callbacks))"

lemma init_fresh:
  "fst (ludlc_connection_init cf good_env None (Some all_callbacks)) = 0 \<Longrightarrow>
   ludlc_connection_init cf good_env None (Some all_callbacks) = (0, fresh cf)"
  unfolding fresh_def by (metis prod.collapse)

lemmas init_eval = ludlc_connection_init_def good_env_def all_callbacks_def LUDLC_CHAN_TAG_PER_LINK_def
  ludlc_chan_tag_bits_ok_def LUDLC_CONN_CFG_DEFAULT_def resolve_cfg_def cfg_refused_def caps_refused_def
  ludlc_conn_payload_lim_def ludlc_conn_queue_alloc_def LUDLC_CHAN_ID_MASK_def split_def Let_def

lemma fresh_init: "ludlc_connection_init default_config good_env None (Some all_callbacks) = (0, fresh default_config)"
  by (rule init_fresh) (simp add: init_eval default_config_def)

definition mt_config :: config where
  "mt_config = default_config\<lparr>CONFIG_LUDLC_MT := True, CONFIG_LUDLC_MULTI_CONN := True\<rparr>"

lemma config_ok_mt: "config_ok mt_config"
  using config_ok_default by (simp add: config_ok_def mt_config_def)

lemma fresh_init_mt: "ludlc_connection_init mt_config good_env None (Some all_callbacks) = (0, fresh mt_config)"
  by (rule init_fresh) (simp add: init_eval mt_config_def default_config_def LUDLC_PACKET_SIZE_def)

text \<open>C2: over any sequence of calls on a link an application listens to, every call returns,
  and the packets the calls accepted are, in order and exactly once, those whose
  confirmation the application got followed by those still in the window, of which there
  are never more than the window holds. Both the inline and the multi-threaded build.\<close>

theorem packets_accounted:
  assumes "config_ok cf" "ludlc_connection_init cf env cfg cb = (0, c)" "listens cb" "list_all op_ok ps"
  shows "\<exists>acc evs d. run_steps (api_step cf) op_accepted ps c = Some (acc, evs, d) \<and>
    acc = reported evs @ map ident (outstanding cf d) \<and> length (outstanding cf d) \<le> wnd cf d"
proof -
  have l: "live cf c"
    using assms init_inv [OF assms(1,2)] init_form(3) [OF assms(2)] config_batch [of cf] by (simp add: live_def)
  obtain acc evs d where r: "run_steps (api_step cf) op_accepted ps c = Some (acc, evs, d)" "live cf d"
    using api.run_total [OF l assms(4)] by blast
  have "acc = reported evs @ map ident (outstanding cf d)"
    using api.run_books [OF l assms(4) r(1)] init_inv(2) [OF assms(1,2)] by simp
  moreover have "length (outstanding cf d) \<le> wnd cf d"
    using r(2) conn_inv_window(1) [of cf d] by (simp add: live_def outstanding_def)
  ultimately show ?thesis
    using r(1) by blast
qed

theorem packets_accounted_witness:
  "\<exists>acc evs d. run_steps (api_step mt_config) op_accepted
       [Enqueue 5 (Some [1, 2]) 2 3, Enqueue 5 None 0 0, Connect, Enqueue 6 (Some [9]) 1 200] (fresh mt_config) =
       Some (acc, evs, d) \<and>
     acc = reported evs @ map ident (outstanding mt_config d) \<and> length (outstanding mt_config d) \<le> wnd mt_config d"
  by (rule packets_accounted [OF config_ok_mt fresh_init_mt])
    (simp_all add: listens_def all_callbacks_def buf_ok_def)

end
