(* ===== verification/Ludlc_Guarantees.thy ===== *)
theory Ludlc_Guarantees
  imports Ludlc_Session
begin

text \<open>
  What the core promises of its single operations, each stated on the operation itself:
  the branches of a call, the order of confirmations, which packets are delivered, and
  what a frame carries.
\<close>

lemma report_busy_idem: "report_busy c = w \<Longrightarrow> c\<lparr>report_busy := w\<rparr> = c"
  by (cases c) simp

lemma busy_clear_set: "\<not> bit w 0 \<Longrightarrow> ludlc_platform_clear_bit 0 (ludlc_platform_set_bit 0 w) = w"
  by (rule bit_eqI) (auto simp: flag_simps, metis gr0I)

text \<open>Reporting does nothing to a connection with nothing to report.\<close>

lemma finish_settled:
  assumes "conn_inv cf c"
  shows "finish cf c = c"
proof (cases "CONFIG_LUDLC_MT cf")
  case True
  note w = conn_inv_window [OF assms]
  have "clear_flag LUDLC_CONN_U_CONFIRM_F (c\<lparr>last_reported := last_ack c, report_busy := report_busy c\<rparr>) = c"
    using w(6) w(7) [OF True] by (simp add: last_reported_idem report_busy_idem clear_flag_idem)
  then show ?thesis
    using w(5,8) True by (simp add: finish_eq Let_def busy_clear_set)
qed (simp add: finish_inline)

text \<open>C3: every connection a program can reach satisfies the invariant: sequence numbers
  ordered within the window, only well-formed packets in it, nothing left unreported, and a
  link that is not connected has every counter at zero and no unnumbered packet in flight.\<close>

theorem calls_keep_invariant:
  assumes "config_ok cf" "reachable cf c"
  shows "conn_inv cf c"
  using assms by (simp add: reachable_inv)

theorem calls_keep_invariant_witness: "conn_inv default_config (fresh default_config)"
  by (rule calls_keep_invariant [OF config_ok_default reach_init [OF fresh_init]])

text \<open>C8: enqueueing refuses a missing buffer, the control channel and a payload too long for
  the link with EINVAL, reports a full window with EAGAIN, and changes nothing in either
  case; otherwise the packet is appended to the window with its time to live clamped to
  one to 127, and the transmitter is asked for a turn.\<close>

theorem enqueue_branches:
  assumes "conn_inv cf c" "buf_ok buf sz"
  shows "ludlc_enqueue_data cf c ch buf sz ttl =
      (if enqueue_refused cf c ch buf sz then (- EINVAL, c, [])
       else if length (outstanding cf c) = wnd cf c then (- EAGAIN, c, [])
       else (0, fst (snd (ludlc_enqueue_data cf c ch buf sz ttl)), [RequestTx])) \<and>
    (\<not> enqueue_refused cf c ch buf sz \<and> length (outstanding cf c) < wnd cf c \<longrightarrow>
       (let d = fst (snd (ludlc_enqueue_data cf c ch buf sz ttl)) in
        conn_inv cf d \<and>
        (\<exists>it. outstanding cf d = outstanding cf c @ [it] \<and> ident it = (ch, buf, sz) \<and>
              pq_ttl it = clamp_ttl ttl)))"
  using assms by (rule enqueue_cases [of cf c buf sz ch ttl]) auto

theorem enqueue_branches_witness:
  "ludlc_enqueue_data default_config (fresh default_config) 0 (Some [1]) 1 3 =
     (- EINVAL, fresh default_config, [])"
proof -
  have c: "conn_inv default_config (fresh default_config)"
    using init_inv [OF config_ok_default fresh_init] by simp
  have "is_ctrl_chan default_config (fresh default_config) 0"
    by (simp add: is_ctrl_chan_def default_config_def)
  then show ?thesis
    using enqueue_branches [OF c, of "Some [1]" 1 0 3] by (simp add: buf_ok_def enqueue_refused_def)
qed

text \<open>C7: reporting always ends: whatever waits to be reported when the lock is released, the
  loop returns after telling the application of the unnumbered packet and then of every
  resolved packet, oldest first, with nothing left to report and no thread marked busy.\<close>

theorem reporting_returns:
  assumes "base_inv cf c" "1 \<le> CONFIG_LUDLC_CONFIRM_BATCH cf" "\<not> bit (report_busy c) LUDLC_REPORT_BUSY_F"
  shows "\<exists>d. ludlc_confirm_unlocked cf c =
      Some (d, confirms (conn_cb c) Unnumbered (u_pending c) @ confirms (conn_cb c) Numbered (q_pending cf c)) \<and>
    conn_inv cf d \<and> outstanding cf d = outstanding cf c"
  using confirm_unlocked_spec [OF assms] finish_inv [OF assms(1,3)] finish_outstanding [OF assms(1)] by blast

theorem reporting_returns_witness:
  "\<exists>d. ludlc_confirm_unlocked mt_config (fresh mt_config) =
      Some (d, confirms (Some all_callbacks) Unnumbered (u_pending (fresh mt_config)) @
               confirms (Some all_callbacks) Numbered (q_pending mt_config (fresh mt_config))) \<and>
    conn_inv mt_config d \<and> outstanding mt_config d = outstanding mt_config (fresh mt_config)"
proof -
  have "conn_inv mt_config (fresh mt_config)"
    using init_inv [OF config_ok_mt fresh_init_mt] by simp
  then show ?thesis
    using reporting_returns [of mt_config "fresh mt_config"] conn_inv_window(8) [of mt_config "fresh mt_config"]
      config_batch [OF config_ok_mt] init_form(3) [OF fresh_init_mt] by (simp add: conn_inv_def)
qed

text \<open>C6: a disconnect the transport reports on a session fails the unnumbered packet and every
  packet of the window with EPIPE, oldest first, and then tells the application once; the
  link is back in its first state with an empty window, and a second report does nothing.
  The build that reports inline and the one that reports outside the lock agree.\<close>

theorem disconnect_fails_everything:
  assumes inv: "conn_inv cf c" and batch: "1 \<le> CONFIG_LUDLC_CONFIRM_BATCH cf"
    and st: "conn_state c \<noteq> LUDLC_STATE_DISCONNECTED" "conn_state c \<noteq> LUDLC_STATE_TERMINATE"
  shows "\<exists>d. ludlc_handle_disconnect cf c =
      Some (d, confirms (conn_cb c) Unnumbered (u_failed c) @ confirms (conn_cb c) Numbered (q_failed cf c) @
               ludlc_call_on_disconnect c) \<and>
    conn_state d = LUDLC_STATE_DISCONNECTED \<and> outstanding cf d = [] \<and> conn_inv cf d \<and>
    last_queued d = 0 \<and> last_sent d = 0 \<and> last_received d = 0 \<and>
    ludlc_handle_disconnect cf d = Some (d, [])"
proof -
  obtain d where d: "on_disconnect_lock cf c = (d, lock_events cf (conn_cb c) (u_failed c) (q_failed cf c))"
      "locked cf c d (u_failed c) (q_failed cf c)" "outstanding cf d = []" "conn_state d = 0"
      "last_ack d = last_queued d"
    using on_disconnect_lock_spec [OF inv] by metis
  note lc = locked_confirm [OF d(2) batch]
  have cb: "conn_cb d = conn_cb c"
    using d(2) by (simp add: locked_def)
  have e: "ludlc_handle_disconnect cf c = Some (finish cf d,
      confirms (conn_cb c) Unnumbered (u_failed c) @ confirms (conn_cb c) Numbered (q_failed cf c) @
      ludlc_call_on_disconnect c)"
    using st d(1) lc(1) cb
    by (simp add: ludlc_handle_disconnect_def ludlc_disconnect_core_def disconnect_core_lock_def
        lock_events_def unlock_events_def ludlc_call_on_disconnect_def)
  have z: "last_sent (finish cf d) = 0" "last_ack (finish cf d) = 0" "last_received (finish cf d) = 0"
    using lc(2) d(4) conn_inv_window(5) [OF lc(2)]
    by (auto simp: conn_inv_def base_inv_def state_inv_def)
  have "last_queued (finish cf d) = last_ack (finish cf d)"
    using lc(3) d(3) conn_inv_window(3) [OF lc(2)]
    by (metis id_dist_0_iff ids_ok_def length_slots list.size(3) outstanding_def)
  moreover have "ludlc_handle_disconnect cf (finish cf d) = Some (finish cf d, [])"
    using finish_settled [OF lc(2)] locked_confirm(1) [OF locked_self [OF lc(2)] batch] d(4)
    by (simp add: ludlc_handle_disconnect_def ludlc_disconnect_core_def disconnect_core_lock_def unlock_events_def)
  ultimately show ?thesis
    using e z d(3,4) lc(2,3) by auto
qed

theorem disconnect_fails_everything_witness:
  "\<exists>d. ludlc_handle_disconnect default_config ((fresh default_config)\<lparr>conn_state := LUDLC_STATE_WAIT_CONN_1\<rparr>) =
      Some (d, [OnDisconnect]) \<and> conn_state d = LUDLC_STATE_DISCONNECTED"
proof -
  let ?c = "(fresh default_config)\<lparr>conn_state := LUDLC_STATE_WAIT_CONN_1\<rparr>"
  note f = init_form [OF fresh_init] and i = init_inv [OF config_ok_default fresh_init]
  have inv: "conn_inv default_config ?c"
    using i(1) f(4) by (intro conn_inv_state) simp_all
  have u: "u_failed ?c = []" "q_failed default_config ?c = []"
    using inv i(2) by (simp_all add: u_failed_def conn_inv_def base_inv_def state_inv_def q_failed_def)
  have cb: "ludlc_call_on_disconnect ?c = [OnDisconnect]"
    using f(3) by (simp add: ludlc_call_on_disconnect_def all_callbacks_def)
  show ?thesis
    using disconnect_fails_everything [OF inv config_batch [OF config_ok_default]] u cb by simp blast
qed

lemma rx_handle_ack_full:
  assumes inv: "conn_inv cf c" and st: "conn_state c = LUDLC_STATE_CONNECTED"
    and n: "num_acked c ack_id \<le> length (outstanding cf c)"
  shows "\<exists>d ex ret. rx_handle_ack cf c ack_id =
        (d, ex, ret, lock_confirms cf (conn_cb c) (acked (num_acked c ack_id) (outstanding cf c))) \<and>
      q_pending cf d = (if CONFIG_LUDLC_MT cf then acked (num_acked c ack_id) (outstanding cf c) else []) \<and>
      last_ack d = id_plus (last_ack c) (num_acked c ack_id) \<and>
      expiry ex (drop (num_acked c ack_id) (outstanding cf c)) (outstanding cf d) \<and>
      (ack_id AND LUDLC_NAK_FLAG = 0 \<longrightarrow>
         outstanding cf d = drop (num_acked c ack_id) (outstanding cf c) \<and> ex = None)"
proof (rule rx_handle_ack_spec [OF inv st n])
  fix d ex ret
  assume "rx_handle_ack cf c ack_id =
       (d, ex, ret, lock_confirms cf (conn_cb c) (acked (num_acked c ack_id) (outstanding cf c)))"
    "locked cf c d [] (acked (num_acked c ack_id) (outstanding cf c))"
    "expiry ex (drop (num_acked c ack_id) (outstanding cf c)) (outstanding cf d)"
    "last_ack d = id_plus (last_ack c) (num_acked c ack_id)"
    "ack_id AND LUDLC_NAK_FLAG = 0 \<Longrightarrow> outstanding cf d = drop (num_acked c ack_id) (outstanding cf c)"
    "ex \<noteq> None \<Longrightarrow> ack_id AND LUDLC_NAK_FLAG \<noteq> 0"
  then show ?thesis
    by (cases ex) (auto simp: locked_def)
qed

text \<open>C5: the acknowledgment field of a packet resolves exactly the oldest packets it covers: they
  leave the window with result zero, in order, and the window starts after them. A field
  beyond what was queued is ignored. A negative one, besides, either leaves the packet now
  first as it is, takes one from its time to live, or gives it up with ETIMEDOUT.\<close>

theorem ack_resolves_prefix:
  fixes ack_id :: ludlc_id_t
  assumes "conn_inv cf c" "conn_state c = LUDLC_STATE_CONNECTED"
  defines "n \<equiv> num_acked c ack_id"
  shows "if n > length (outstanding cf c) then rx_handle_ack cf c ack_id = (c, None, 0, [])
    else \<exists>d ex ret. rx_handle_ack cf c ack_id =
        (d, ex, ret, lock_confirms cf (conn_cb c) (acked n (outstanding cf c))) \<and>
      q_pending cf d = (if CONFIG_LUDLC_MT cf then acked n (outstanding cf c) else []) \<and>
      last_ack d = id_plus (last_ack c) n \<and>
      expiry ex (drop n (outstanding cf c)) (outstanding cf d) \<and>
      (ack_id AND LUDLC_NAK_FLAG = 0 \<longrightarrow> outstanding cf d = drop n (outstanding cf c) \<and> ex = None)"
proof (cases "n > length (outstanding cf c)")
  case True
  then show ?thesis
    using rx_handle_ack_stale [of c ack_id cf] by (simp add: n_def outstanding_def)
next
  case False
  then have "n \<le> length (outstanding cf c)"
    by simp
  from rx_handle_ack_full [OF assms(1,2) this [unfolded n_def]] False show ?thesis
    unfolding n_def by simp
qed

text \<open>A connected link with two packets in its window, of which one was sent.\<close>

definition sample_items :: "packet_queue_item list" where
  "sample_items =
     [\<lparr>pq_payload = Some [1, 2], pq_size = 2, pq_chan = 5, pq_result = 0, pq_ttl = 3\<rparr>,
      \<lparr>pq_payload = Some [9], pq_size = 1, pq_chan = 6, pq_result = 0, pq_ttl = 1\<rparr>]"

definition sample_link :: ludlc_connection where
  "sample_link =
     (fresh default_config)\<lparr>conn_state := LUDLC_STATE_CONNECTED,
       packets_q := [item_zero] @ sample_items @ [item_zero], last_queued := 2, last_sent := 1\<rparr>"

lemma sample_link_basic:
  "conn_state sample_link = LUDLC_STATE_CONNECTED" "last_ack sample_link = 0" "last_sent sample_link = 1"
  "last_queued sample_link = 2" "last_received sample_link = 0" "last_reported sample_link = 0"
  "conn_flags sample_link = conn_flags (fresh default_config)" "conn_cb sample_link = Some all_callbacks"
  "ring_ok default_config sample_link" "wnd default_config sample_link = 4"
  "ludlc_conn_payload_lim default_config sample_link = 32" "report_busy sample_link = 0" "last_seen sample_link = 0"
  using init_form [OF fresh_init]
  by (simp_all add: sample_link_def sample_items_def ring_ok_def wnd_def ludlc_conn_window_def window_ok_def
      ludlc_conn_payload_lim_def default_config_def)

lemma sample_link_outstanding: "outstanding default_config sample_link = sample_items"
proof -
  have dist: "id_dist 0 2 = 2"
    by (simp add: id_dist_def)
  have "slot default_config sample_link (id_plus 0 (Suc k)) = sample_items ! k" if "k < 2" for k
    using that sample_link_basic(9,10)
    by (simp add: slot_def slot_idx_plus) (auto simp: sample_link_def sample_items_def less_2_cases_iff)
  then show ?thesis
    by (intro nth_equalityI) (simp_all add: outstanding_def sample_link_basic dist nth_slots, simp add: sample_items_def)
qed

lemma sample_link_inv: "conn_inv default_config sample_link"
proof -
  note b = sample_link_basic and f = init_form(12) [OF fresh_init]
  have flags: "has_flag m sample_link \<longleftrightarrow> m = 0 \<or> m = 1 \<or> m = 3 \<or> m = 4" if "m < 32" for m
    using that f b(7) by (simp add: has_flag_bit flag_simps) blast
  have "window_inv default_config sample_link" "ids_ok sample_link" "settled default_config sample_link"
    using flags b by (simp_all add: window_inv_def ids_ok_def settled_def ludlc_conn_last_reported_def Let_def
        id_dist_def is_seq_def)
  moreover have "state_inv default_config sample_link"
    using flags b by (simp add: state_inv_def u_flight_def)
  moreover have "buffers_inv default_config sample_link"
    using flags b sample_link_outstanding init_form(14) [OF fresh_init]
    by (simp add: buffers_inv_def u_flight_def sample_items_def item_ok_def payload_ok_def word_le_nat_alt)
       (simp add: sample_link_def is_ctrl_chan_def default_config_def ludlc_conn_chan_id_mask_def
          ludlc_conn_chan_tag_bits_def LUDLC_CHAN_TAG_PER_LINK_def LUDLC_CHAN_ID_MASK_def mask_eq_exp_minus_1)
  ultimately show ?thesis
    using b(9) by (simp add: conn_inv_def base_inv_def)
qed

lemma default_inline: "\<not> CONFIG_LUDLC_MT default_config"
  by (simp add: default_config_def)

theorem ack_resolves_prefix_witness:
  "\<exists>d ex ret. rx_handle_ack default_config sample_link 1 =
      (d, ex, ret, [OnConfirm Numbered 0 5 (Some [1, 2]) 2]) \<and> last_ack d = 1 \<and> ex = None"
proof -
  have "num_acked sample_link 1 = 1"
    by (simp add: num_acked_def sample_link_basic id_dist_def)
  then show ?thesis
    using ack_resolves_prefix [OF sample_link_inv sample_link_basic(1), of 1]
    by (auto simp: sample_link_outstanding sample_link_basic sample_items_def lock_confirms_def acked_def
        confirms_def all_callbacks_def default_inline id_plus_def)
qed

end
