(* ===== verification/Ludlc_Delivery.thy ===== *)
theory Ludlc_Delivery
  imports Ludlc_Guarantees
begin

text \<open>
  What reaches the application of the receiving end: a numbered packet only when it is the
  next one, an unnumbered one always, and nothing else.
\<close>

fun delivered :: "ludlc_event list \<Rightarrow> (ludlc_channel_t \<times> octet list \<times> ludlc_payload_size_t) list" where
  "delivered [] = []"
| "delivered (OnRecv ch p n ts # es) = (ch, p, n) # delivered es"
| "delivered (e # es) = delivered es"

lemma delivered_append [simp]: "delivered (es @ fs) = delivered es @ delivered fs"
  by (induction es rule: delivered.induct) simp_all

lemma delivered_map: "delivered (map (\<lambda>it. OnConfirm org (f it) (g it) (h it) (k it)) its) = []"
  by (induction its) simp_all

lemma delivered_confirms [simp]: "delivered (confirms cb org its) = []"
  by (simp add: confirms_def delivered_map)

lemma delivered_other [simp]:
  "delivered (lock_events cf cb us its) = []" "delivered (unlock_events cf cb us its) = []"
  "delivered (rx_call_caps c ret p n) = []" "delivered (rx_call_connect c ret) = []"
  "delivered (rx_call_expired c ret ex) = []"
  "delivered (if b then ludlc_call_on_disconnect c else []) = []"
  "delivered (if b then [RequestTx] else []) = []"
  by (auto simp: rx_call_caps_def rx_call_connect_def rx_call_expired_def ludlc_call_on_disconnect_def
      lock_events_def unlock_events_def split: option.split)

definition takes_data :: "ludlc_conn_cb option \<Rightarrow> bool" where
  "takes_data cb \<longleftrightarrow> (case cb of Some b \<Rightarrow> on_recv b | None \<Rightarrow> False)"

lemma delivered_recv:
  "delivered (rx_call_recv c ret p n ts) =
     (if bit ret 2 \<and> takes_data (conn_cb c) then [(pkt_chan p, pkt_payload p n, rx_payload_size n)] else [])"
  by (auto simp: rx_call_recv_def rx_bit takes_data_def split: option.split)

lemma ack_exact:
  fixes a :: ludlc_id_t
  assumes inv: "conn_inv cf c" and st: "conn_state c = LUDLC_STATE_CONNECTED"
  defines "n \<equiv> (if num_acked c a \<le> length (outstanding cf c) then num_acked c a else 0)"
  obtains d ex ret where
    "rx_handle_ack cf c a = (d, ex, ret, lock_events cf (conn_cb c) [] (acked n (outstanding cf c)))"
    "locked cf c d [] (acked n (outstanding cf c))" "same_env c d" "last_ack d = id_plus (last_ack c) n"
    "map ident (drop n (outstanding cf c)) = map ident (ex_list ex) @ map ident (outstanding cf d)"
    "\<And>m. bit ret m \<Longrightarrow> m = 1 \<or> m = 6" "bit ret 6 \<longleftrightarrow> ex \<noteq> None"
    "\<And>it. ex = Some it \<Longrightarrow> pq_result it = ETIMEDOUT"
proof (cases "num_acked c a \<le> length (outstanding cf c)")
  case True
  then have n: "n = num_acked c a"
    by (simp add: n_def)
  show thesis
  proof (rule rx_handle_ack_spec [OF inv st True])
    fix d ex ret
    assume d: "rx_handle_ack cf c a = (d, ex, ret, lock_confirms cf (conn_cb c) (acked (num_acked c a) (outstanding cf c)))"
      "locked cf c d [] (acked (num_acked c a) (outstanding cf c))" "same_env c d"
      "expiry ex (drop (num_acked c a) (outstanding cf c)) (outstanding cf d)"
      "\<And>m. bit ret m \<longleftrightarrow> a AND LUDLC_NAK_FLAG \<noteq> 0 \<and> (m = 1 \<or> m = 6 \<and> ex \<noteq> None)"
      "ex \<noteq> None \<Longrightarrow> a AND LUDLC_NAK_FLAG \<noteq> 0" "last_ack d = id_plus (last_ack c) (num_acked c a)"
    have "pq_result it = ETIMEDOUT" if "ex = Some it" for it
      using d(4) that by (auto simp: expiry_def)
    then show thesis
      using d expiry_ident [OF d(4)] by (intro that [of d ex ret]) (auto simp: n lock_events_numbered)
  qed
next
  case False
  then have n: "n = 0" and "rx_handle_ack cf c a = (c, None, 0, [])"
    using rx_handle_ack_stale [of c a cf] by (simp_all add: n_def outstanding_def)
  moreover have "is_seq (last_ack c)"
    using conn_inv_window(3) [OF inv] by (simp add: ids_ok_def)
  ultimately show thesis
    using locked_self [OF inv] by (intro that [of c None 0]) (simp_all add: lock_events_def same_env_def acked_def ex_list_def)
qed

text \<open>How many of the oldest packets a received one resolves: a field beyond what was queued resolves none.\<close>

definition acks :: "config \<Rightarrow> ludlc_connection \<Rightarrow> octet list \<Rightarrow> nat" where
  "acks cf c p = (if num_acked c (pkt_ack_id p) \<le> length (outstanding cf c) then num_acked c (pkt_ack_id p) else 0)"

lemma rx_data_full:
  assumes inv: "conn_inv cf c" and st: "conn_state c = LUDLC_STATE_CONNECTED"
    and data: "\<not> (is_u \<and> pkt_chan p = CONFIG_LUDLC_CONTROL_CHANNEL cf \<and> octet_at p sizeof_hdr = LUDLC_CTRL_DISCONNECT)"
  defines "i \<equiv> pkt_tx_id p AND LUDLC_ID_MASK"
  defines "n \<equiv> acks cf c p"
  obtains d ex ret where
    "rx_connected cf c p ping is_u False ret0 = (d, ex, ret0 OR ret, lock_events cf (conn_cb c) [] (acked n (outstanding cf c)))"
    "locked cf c d [] (acked n (outstanding cf c))" "conn_state d = LUDLC_STATE_CONNECTED" "\<not> has_flag LUDLC_CONN_BUS_OUT_F d"
    "last_received d = (if \<not> ping \<and> rx_accepts c i ping is_u then i else last_received c)"
    "bit ret 2 \<longleftrightarrow> rx_accepts c i ping is_u" "\<And>m. bit ret m \<Longrightarrow> m = 1 \<or> m = 2 \<or> m = 6"
    "last_ack d = id_plus (last_ack c) n"
    "map ident (drop n (outstanding cf c)) = map ident (ex_list ex) @ map ident (outstanding cf d)"
    "bit ret 6 \<longleftrightarrow> ex \<noteq> None" "\<And>it. ex = Some it \<Longrightarrow> pq_result it = ETIMEDOUT"
proof -
  let ?c = "ludlc_watchdog_restart cf c"
  have c: "conn_inv cf ?c" "conn_state ?c = LUDLC_STATE_CONNECTED" "conn_cb ?c = conn_cb c"
      "last_received ?c = last_received c" "outstanding cf ?c = outstanding cf c" "last_ack ?c = last_ack c"
      "num_acked ?c = num_acked c"
    using inv st by (simp_all add: ludlc_watchdog_restart_def num_acked_def fun_eq_iff)
  show thesis
  proof (rule ack_exact [OF c(1,2), of "pkt_ack_id p", unfolded c(5,6,7), folded acks_def n_def])
    fix d ex ret
    assume d: "rx_handle_ack cf ?c (pkt_ack_id p) = (d, ex, ret, lock_events cf (conn_cb ?c) [] (acked n (outstanding cf c)))"
      "locked cf ?c d [] (acked n (outstanding cf c))" "same_env ?c d" "last_ack d = id_plus (last_ack c) n"
      "map ident (drop n (outstanding cf c)) = map ident (ex_list ex) @ map ident (outstanding cf d)"
      "\<And>m. bit ret m \<Longrightarrow> m = 1 \<or> m = 6" "bit ret 6 \<longleftrightarrow> ex \<noteq> None"
      "\<And>it. ex = Some it \<Longrightarrow> pq_result it = ETIMEDOUT"
    have i: "is_seq i" "is_seq (last_received d)"
      using conn_inv_window(3) [OF inv] d(3) c(4) by (simp_all add: i_def ids_ok_def same_env_def)
    have env: "conn_state d = LUDLC_STATE_CONNECTED" "last_received d = last_received c"
        "\<not> has_flag LUDLC_CONN_BUS_OUT_F d"
      using d(3) c st conn_inv_window(5) [OF c(1)] same_env_flags [OF d(3), of 5] by (simp_all add: same_env_def)
    have acc: "rx_accepts d i ping is_u = rx_accepts c i ping is_u"
      using env(2) by (simp add: rx_accepts_def)
    obtain f ret'' where r: "rx_handle_seq cf d i ping is_u =
         ((if \<not> ping \<and> rx_accepts c i ping is_u then d\<lparr>last_received := i\<rparr> else d)
           \<lparr>last_seen := (if ping then (i - 1) AND LUDLC_ID_MASK else i), conn_flags := f\<rparr>, ret'')"
      "\<And>m. m \<noteq> 0 \<Longrightarrow> m \<noteq> 7 \<Longrightarrow> m \<noteq> 8 \<Longrightarrow> bit f m = bit (conn_flags d) m"
      "bit ret'' 2 \<longleftrightarrow> rx_accepts c i ping is_u" "\<And>m. bit ret'' m \<Longrightarrow> m = 1 \<or> m = 2"
      using rx_handle_seq_spec [OF i, of cf ping is_u] unfolding acc by metis
    let ?r = "if \<not> ping \<and> rx_accepts c i ping is_u then i else last_received d"
    let ?s = "if ping then (i - 1) AND LUDLC_ID_MASK else i"
    let ?e = "d\<lparr>last_received := ?r, last_seen := ?s, conn_flags := f\<rparr>"
    have e: "rx_handle_seq cf d i ping is_u = (?e, ret'')"
      using r(1) by (cases ping; cases "rx_accepts c i ping is_u") simp_all
    have "locked cf ?c ?e [] (acked n (outstanding cf c))"
      using d(2) env i r(2) by (intro locked_seq) simp_all
    then have l: "locked cf c ?e [] (acked n (outstanding cf c))"
      by (simp add: locked_def ludlc_watchdog_restart_def)
    show thesis
    proof (rule that)
      show "rx_connected cf c p ping is_u False ret0 =
          (?e, ex, ret0 OR (ret OR ret''), lock_events cf (conn_cb c) [] (acked n (outstanding cf c)))"
        using data d(1) e c(3) by (auto simp: rx_connected_def Let_def i_def [symmetric] or.assoc)
      show "bit (ret OR ret'') 2 \<longleftrightarrow> rx_accepts c i ping is_u"
        using d(6) [of 2] r(3) by (auto simp: bit_or_iff)
      show "m = 1 \<or> m = 2 \<or> m = 6" if "bit (ret OR ret'') m" for m
        using that d(6) [of m] r(4) [of m] by (auto simp: bit_or_iff)
      show "last_received ?e = (if \<not> ping \<and> rx_accepts c i ping is_u then i else last_received c)"
        using env(2) by auto
      show "\<not> has_flag LUDLC_CONN_BUS_OUT_F ?e"
        using env(3) r(2) [of 5] by (simp add: has_flag_flags has_flag_bit)
      show "bit (ret OR ret'') 6 \<longleftrightarrow> ex \<noteq> None"
        using d(7) r(4) [of 6] by (auto simp: bit_or_iff)
      show "pq_result it = ETIMEDOUT" if "ex = Some it" for it
        using that by (rule d(8))
    qed (use l env d in simp_all)
  qed
qed

text \<open>The packets of a session that are data: numbered, or unnumbered and long enough to have a payload.\<close>

definition data_packet :: "config \<Rightarrow> ludlc_connection \<Rightarrow> octet list \<Rightarrow> nat \<Rightarrow> bool" where
  "data_packet cf c p n \<longleftrightarrow>
     sizeof_hdr \<le> n \<and> \<not> is_ping (pkt_tx_id p) \<and> \<not> is_ctrl_chan cf c (pkt_chan p) \<and>
     pkt_chan p \<noteq> CONFIG_LUDLC_CONTROL_CHANNEL cf"

lemma finish_received:
  "\<not> has_flag LUDLC_CONN_BUS_OUT_F d \<Longrightarrow> last_received (finish cf d) = last_received d"
  by (cases "CONFIG_LUDLC_MT cf") (simp_all add: finish_ids finish_inline)

lemma not_ping_mask: "\<not> is_ping i \<Longrightarrow> i AND LUDLC_ID_MASK = i"
  using not_ping_seq [of i] by (simp add: is_seq_and is_seq_def)

text \<open>C4: on a connected link a numbered packet is delivered exactly when it carries the next
  sequence number: then the application gets its channel and payload once and the number
  becomes the last received; any other one delivers nothing and leaves it unchanged.
  Either way the call returns and the link stays connected.\<close>

theorem delivery_in_order:
  assumes inv: "conn_inv cf c" and batch: "1 \<le> CONFIG_LUDLC_CONFIRM_BATCH cf"
    and st: "conn_state c = LUDLC_STATE_CONNECTED" and p: "data_packet cf c p n" and cb: "takes_data (conn_cb c)"
  shows "\<exists>d evs. ludlc_receive cf c p n ts = Some (d, evs) \<and> conn_state d = LUDLC_STATE_CONNECTED \<and>
    (if pkt_tx_id p = id_plus (last_received c) 1
     then delivered evs = [(pkt_chan p, pkt_payload p n, rx_payload_size n)] \<and> last_received d = pkt_tx_id p
     else delivered evs = [] \<and> last_received d = last_received c)"
proof -
  have p': "\<not> is_ping (pkt_tx_id p)" "\<not> n < sizeof_hdr" "\<not> is_ctrl_chan cf c (pkt_chan p)"
      "pkt_chan p \<noteq> CONFIG_LUDLC_CONTROL_CHANNEL cf"
    using p by (simp_all add: data_packet_def)
  note i = not_ping_mask [OF p'(1)]
  let ?acc = "pkt_tx_id p = id_plus (last_received c) 1"
  obtain d ex ret its where d:
      "rx_connected cf c p False False False 0 = (d, ex, ret, lock_events cf (conn_cb c) [] its)"
      "locked cf c d [] its" "conn_state d = LUDLC_STATE_CONNECTED" "\<not> has_flag LUDLC_CONN_BUS_OUT_F d"
      "last_received d = (if ?acc then pkt_tx_id p else last_received c)" "bit ret 2 \<longleftrightarrow> ?acc"
      "\<And>m. bit ret m \<Longrightarrow> m = 1 \<or> m = 2 \<or> m = 6"
    by (rule rx_data_full [OF inv st, of False p False 0]) (simp_all only: i rx_accepts_def simp_thms if_False or.left_neutral)
  have h: "rx_handle_packet cf c p n = (d, ex, ret, lock_events cf (conn_cb c) [] its)"
    using p' st d(1) by (simp add: rx_handle_packet_def Let_def)
  have r3: "ret AND HANDLE_RX_CONNECTED_F = 0"
    using d(7) [of 3] by (auto simp: rx_bit)
  note conf = locked_confirm(1) [OF d(2) batch]
  let ?evs = "lock_events cf (conn_cb c) [] its @ rx_call_caps d ret p n @ rx_call_connect d ret @
        (if ret AND HANDLE_RX_REQUEST_TX_F \<noteq> 0 then [RequestTx] else []) @
        unlock_events cf (conn_cb c) [] its @ rx_call_expired (finish cf d) ret ex @
        (if ret AND HANDLE_RX_DISCONNECT_F \<noteq> 0 then ludlc_call_on_disconnect (finish cf d) else []) @
        rx_call_recv (finish cf d) ret p n ts"
  have "ludlc_receive cf c p n ts = Some (finish cf d, ?evs)"
    using r3 by (simp add: ludlc_receive_def h Let_def conf)
  moreover have "conn_cb d = conn_cb c"
    using d(2) by (simp add: locked_def)
  then have "delivered ?evs = (if ?acc then [(pkt_chan p, pkt_payload p n, rx_payload_size n)] else [])"
    using d(6) cb by (simp add: delivered_recv)
  ultimately show ?thesis
    using d(3,5) finish_received [OF d(4), of cf] by (intro exI [of _ "finish cf d"] exI [of _ ?evs]) simp
qed

theorem delivery_in_order_witness:
  "\<exists>d evs. ludlc_receive default_config sample_link [1, 0, 9, 42, 43] 5 0 = Some (d, evs) \<and>
     delivered evs = [(9, [42, 43], 2)] \<and> last_received d = 1"
proof -
  have "data_packet default_config sample_link [1, 0, 9, 42, 43] 5"
    by (simp add: data_packet_def pkt_tx_id_def octet_at_def is_ping_def pkt_chan_def is_ctrl_chan_def
       default_config_def ludlc_conn_chan_id_mask_def ludlc_conn_chan_tag_bits_def LUDLC_CHAN_TAG_PER_LINK_def
       LUDLC_CHAN_ID_MASK_def mask_eq_exp_minus_1)
  from delivery_in_order [OF sample_link_inv config_batch [OF config_ok_default] sample_link_basic(1) this, of 0]
  show ?thesis
    by (simp add: takes_data_def sample_link_basic all_callbacks_def pkt_tx_id_def pkt_chan_def octet_at_def
      id_plus_def pkt_payload_def rx_payload_size_def upt_rec) blast
qed

text \<open>
  The time of the watchdog is three times that of the ping, passed as 32 bits: a ping every 24
  minutes gives the peer two microseconds to answer.
\<close>

lemma watchdog_wraps:
  "CONFIG_LUDLC_MULTI_CONN cf \<Longrightarrow> ping_time (conn_cfg c) = 0x55555556 \<Longrightarrow>
     wd_timer (ludlc_watchdog_restart cf c) = Some (2, 0)"
  by (simp add: ludlc_watchdog_restart_def ludlc_conn_wd_time_def ludlc_conn_ping_time_def)

end
