(* ===== verification/Ludlc_Peer.thy ===== *)
theory Ludlc_Peer
  imports Ludlc_Delivery
begin

text \<open>
  One end of a session that lasts: what a received packet, a transmission and the calls of
  the application do to the numbers the protocol rests on. A session lasts while the link
  stays connected; the statements also exclude the step that gives a packet up.
\<close>

section \<open>Receiving\<close>

text \<open>The confirmations that say delivered, and those that say given up.\<close>

fun confirmed :: "ludlc_event list \<Rightarrow> (ludlc_channel_t \<times> buffer \<times> ludlc_payload_size_t) list" where
  "confirmed [] = []"
| "confirmed (OnConfirm Numbered r ch b n # es) = (if r = 0 then [(ch, b, n)] else []) @ confirmed es"
| "confirmed (e # es) = confirmed es"

fun gave_up :: "ludlc_event list \<Rightarrow> bool" where
  "gave_up [] = False"
| "gave_up (OnConfirm Numbered r ch b n # es) = (r \<noteq> 0 \<or> gave_up es)"
| "gave_up (e # es) = gave_up es"

lemma confirmed_append [simp]: "confirmed (es @ fs) = confirmed es @ confirmed fs"
  by (induction es rule: confirmed.induct) simp_all

lemma gave_up_append [simp]: "gave_up (es @ fs) \<longleftrightarrow> gave_up es \<or> gave_up fs"
  by (induction es rule: gave_up.induct) simp_all

lemma confirmed_map:
  "confirmed (map (\<lambda>it. OnConfirm Unnumbered (f it) (g it) (h it) (k it)) its) = []"
  "confirmed (map (\<lambda>it. OnConfirm Numbered (- uint (pq_result it)) (pq_chan it) (pq_payload it) (pq_size it)) (acked n its)) =
     map ident (take n its)"
  by (induction its arbitrary: n) (simp_all add: acked_def ident_def take_Cons' split: nat.split)

lemma confirmed_events [simp]:
  "confirmed (lock_events cf cb us (acked n its)) = (if listens cb \<and> \<not> CONFIG_LUDLC_MT cf then map ident (take n its) else [])"
  "confirmed (unlock_events cf cb us (acked n its)) = (if listens cb \<and> CONFIG_LUDLC_MT cf then map ident (take n its) else [])"
  by (auto simp: lock_events_def unlock_events_def confirms_def confirmed_map listens_def split: option.split)

lemma confirmed_other [simp]:
  "confirmed (rx_call_caps c ret p n) = []" "confirmed (rx_call_connect c ret) = []"
  "confirmed (rx_call_recv c ret p n ts) = []" "confirmed (if b then ludlc_call_on_disconnect c else []) = []"
  "confirmed (if b then [RequestTx] else []) = []"
  by (auto simp: rx_call_caps_def rx_call_connect_def rx_call_recv_def ludlc_call_on_disconnect_def split: option.split)

text \<open>
  What a packet does to a session that goes on, without a packet being given up: it is
  either dropped whole, or its acknowledgment field resolves a run of the oldest packets
  and its number decides whether it is delivered.
\<close>

definition rx_dropped :: "config \<Rightarrow> ludlc_connection \<Rightarrow> octet list \<Rightarrow> ludlc_connection \<Rightarrow> ludlc_event list \<Rightarrow> bool" where
  "rx_dropped cf c p d evs \<longleftrightarrow> last_ack d = last_ack c \<and> outstanding cf d = outstanding cf c \<and>
     last_received d = last_received c \<and> confirmed evs = [] \<and> delivered evs = []"

definition rx_taken :: "config \<Rightarrow> ludlc_connection \<Rightarrow> octet list \<Rightarrow> nat \<Rightarrow> ludlc_connection \<Rightarrow> ludlc_event list \<Rightarrow> bool" where
  "rx_taken cf c p n d evs \<longleftrightarrow>
     last_ack d = id_plus (last_ack c) (acks cf c p) \<and>
     map ident (outstanding cf d) = map ident (drop (acks cf c p) (outstanding cf c)) \<and>
     confirmed evs = map ident (take (acks cf c p) (outstanding cf c)) \<and>
     (if is_ping (pkt_tx_id p) then last_received d = last_received c
      else if pkt_tx_id p = id_plus (last_received c) 1
      then last_received d = pkt_tx_id p \<and> delivered evs = [(pkt_chan p, pkt_payload p n, rx_payload_size n)]
      else last_received d = last_received c \<and> delivered evs = [])"

lemma disconnected_again:
  assumes "conn_inv cf c" "on_disconnect_lock cf c = (d, evs)"
  shows "conn_state d = LUDLC_STATE_DISCONNECTED"
  using on_disconnect_lock_spec [OF assms(1)] assms(2) by (metis fst_conv)

lemma session_receive:
  assumes inv: "conn_inv cf c" and batch: "1 \<le> CONFIG_LUDLC_CONFIRM_BATCH cf" and st: "conn_state c = LUDLC_STATE_CONNECTED"
    and cb: "listens (conn_cb c)" "takes_data (conn_cb c)"
    and r: "ludlc_receive cf c p n ts = Some (d, evs)" and live: "conn_state d = LUDLC_STATE_CONNECTED" "\<not> gave_up evs"
  shows "rx_dropped cf c p d evs \<or> rx_taken cf c p n d evs"
proof -
  define ping where "ping = is_ping (pkt_tx_id p)"
  define is_u where "is_u = (ping \<and> n > sizeof_hdr)"
  define hs where "hs = (\<not> ping \<and> pkt_chan p = CONFIG_LUDLC_CONTROL_CHANNEL cf)"
  note folds = ping_def [symmetric] is_u_def [symmetric] hs_def [symmetric]
  define lost where "lost \<longleftrightarrow> \<not> ping \<and> n < sizeof_hdr \<or> (is_u \<or> \<not> ping) \<and>
     pkt_chan p \<noteq> CONFIG_LUDLC_CONTROL_CHANNEL cf \<and> is_ctrl_chan cf c (pkt_chan p)"
  have h: "rx_handle_packet cf c p n = (if lost then (inc_dropped c, None, 0, []) else rx_connected cf c p ping is_u hs 0)"
    unfolding rx_handle_packet_def Let_def folds lost_def using st by simp
  note f = finish_settled
  let ?disc = "is_u \<and> pkt_chan p = CONFIG_LUDLC_CONTROL_CHANNEL cf \<and> octet_at p sizeof_hdr = LUDLC_CTRL_DISCONNECT"
  have quiet: "rx_dropped cf c p d evs" if "rx_handle_packet cf c p n = (e, None, ret, [])" "conn_inv cf e"
      "last_ack e = last_ack c" "outstanding cf e = outstanding cf c" "last_received e = last_received c"
      "ret = 0 \<or> ret = HANDLE_RX_REQUEST_TX_F" for e ret
  proof -
    have "ludlc_confirm_unlocked cf e = Some (e, unlock_events cf (conn_cb e) [] [])"
      using locked_confirm(1) [OF locked_self [OF that(2)] batch] f [OF that(2)] by simp
    then have "d = e \<and> evs = (if ret AND HANDLE_RX_REQUEST_TX_F \<noteq> 0 then [RequestTx] else []) @ unlock_events cf (conn_cb e) [] []"
      using r that(1,6) by (auto simp: ludlc_receive_def rx_call_caps_def rx_call_connect_def rx_call_expired_def
          rx_call_recv_def rx_bit bit_atomic_mask Let_def)
    with that(3-5) show ?thesis
      by (auto simp: rx_dropped_def unlock_events_def confirms_def)
  qed
  have gone: False if "rx_handle_packet cf c p n = (let (d, evs) = on_disconnect_lock cf c in (d, None, ret, evs))"
      "ret AND HANDLE_RX_CONNECTED_F = 0" for ret
  proof -
    obtain e where e: "on_disconnect_lock cf c = (e, lock_events cf (conn_cb c) (u_failed c) (q_failed cf c))"
      "locked cf c e (u_failed c) (q_failed cf c)" "conn_state e = 0"
      using on_disconnect_lock_spec [OF inv] by metis
    then have "d = finish cf e"
      using r that locked_confirm(1) [OF e(2) batch] by (auto simp: ludlc_receive_def Let_def)
    with e(3) live(1) show False
      by simp
  qed
  consider (lost) lost | (disc) "\<not> lost" ?disc | (hs) "\<not> lost" "\<not> ?disc" hs | (data) "\<not> lost" "\<not> ?disc" "\<not> hs"
    by blast
  then show ?thesis
  proof cases
    case lost
    obtain s where s: "inc_dropped c = c\<lparr>conn_stats := s\<rparr>"
      using inc_dropped_eq by blast
    have "rx_dropped cf c p d evs"
      by (rule quiet [of "inc_dropped c" 0]) (use lost h inv s in simp_all)
    then show ?thesis ..
  next
    case disc
    with h gone [of HANDLE_RX_DISCONNECT_F] show ?thesis
      by (simp add: rx_connected_def rx_bit bit_atomic_mask Let_def)
  next
    case hs
    show ?thesis
    proof (cases "pkt_tx_id p AND LUDLC_ID_MASK = LUDLC_STATE_LAST_STEP")
      case True
      have "rx_dropped cf c p d evs"
        by (rule quiet [of c HANDLE_RX_REQUEST_TX_F]) (use hs h inv True in \<open>auto simp: rx_connected_def Let_def\<close>)
      then show ?thesis ..
    next
      case False
      with hs h gone [of "HANDLE_RX_DISCONNECT_F OR HANDLE_RX_REQUEST_TX_F"] show ?thesis
        by (auto simp: rx_connected_def rx_bit bit_atomic_mask bit_or_iff Let_def)
    qed
  next
    case data
    define k where "k = acks cf c p"
    let ?i = "pkt_tx_id p AND LUDLC_ID_MASK"
    let ?own = "\<not> ping \<and> rx_accepts c ?i ping is_u"
    obtain e ex ret where e: "rx_connected cf c p ping is_u False 0 =
          (e, ex, ret, lock_events cf (conn_cb c) [] (acked k (outstanding cf c)))"
        "locked cf c e [] (acked k (outstanding cf c))" "conn_state e = LUDLC_STATE_CONNECTED" "\<not> has_flag LUDLC_CONN_BUS_OUT_F e"
        "last_received e = (if ?own then ?i else last_received c)"
        "bit ret 2 \<longleftrightarrow> rx_accepts c ?i ping is_u" "\<And>m. bit ret m \<Longrightarrow> m = 1 \<or> m = 2 \<or> m = 6"
        "last_ack e = id_plus (last_ack c) k"
        "map ident (drop k (outstanding cf c)) = map ident (ex_list ex) @ map ident (outstanding cf e)"
        "bit ret 6 \<longleftrightarrow> ex \<noteq> None" "\<And>it. ex = Some it \<Longrightarrow> pq_result it = ETIMEDOUT"
      by (rule rx_data_full [OF inv st data(2), of ping 0, folded k_def]) simp
    note conf = locked_confirm [OF e(2) batch]
    have r3: "ret AND HANDLE_RX_CONNECTED_F = 0"
      using e(7) [of 3] by (auto simp: rx_bit)
    let ?evs = "lock_events cf (conn_cb c) [] (acked k (outstanding cf c)) @ rx_call_caps e ret p n @ rx_call_connect e ret @
        (if ret AND HANDLE_RX_REQUEST_TX_F \<noteq> 0 then [RequestTx] else []) @
        unlock_events cf (conn_cb c) [] (acked k (outstanding cf c)) @ rx_call_expired (finish cf e) ret ex @
        (if ret AND HANDLE_RX_DISCONNECT_F \<noteq> 0 then ludlc_call_on_disconnect (finish cf e) else []) @
        rx_call_recv (finish cf e) ret p n ts"
    have h': "rx_handle_packet cf c p n = (e, ex, ret, lock_events cf (conn_cb c) [] (acked k (outstanding cf c)))"
      using h data e(1) by simp
    have "ludlc_receive cf c p n ts = Some (finish cf e, ?evs)"
      using r3 by (simp add: ludlc_receive_def h' Let_def conf)
    then have de: "d = finish cf e" "evs = ?evs"
      using r by simp_all
    have cb': "conn_cb e = conn_cb c"
      using e(2) by (simp add: locked_def)
    have ex: "ex = None"
    proof (rule ccontr)
      assume "ex \<noteq> None"
      then obtain it where it: "ex = Some it" "bit ret 6"
        using e(10) by blast
      then have "gave_up (rx_call_expired (finish cf e) ret ex)"
        using cb(1) cb' e(11) [OF it(1)] by (auto simp: rx_call_expired_def rx_bit confirms_def listens_def split: option.splits)
      then show False
        using live(2) de(2) by simp
    qed
    have i: "?i = pkt_tx_id p" if "\<not> ping"
      using not_ping_mask that by (simp add: ping_def)
    have dl: "delivered evs = (if rx_accepts c ?i ping is_u then [(pkt_chan p, pkt_payload p n, rx_payload_size n)] else [])"
      using de(2) e(6) cb(2) cb' by (simp add: delivered_recv)
    have cf: "confirmed evs = map ident (take k (outstanding cf c))"
      using de(2) cb(1) ex by (simp add: rx_call_expired_def)
    have ids: "last_ack (finish cf e) = last_ack e"
      using e(4) by (cases "CONFIG_LUDLC_MT cf") (simp_all add: finish_ids finish_inline)
    have "map ident (outstanding cf d) = map ident (drop k (outstanding cf c))"
      using e(9) ex conf(3) de(1) by (simp add: ex_list_def)
    moreover have "last_received d = (if ?own then ?i else last_received c)"
      using de(1) e(4,5) by (simp add: finish_received)
    ultimately have "rx_taken cf c p n d evs"
      unfolding rx_taken_def k_def [symmetric] using dl cf de(1) ids e(8) i
      by (cases ping) (simp_all add: ping_def rx_accepts_def is_seq_and)
    then show ?thesis ..
  qed
qed


section \<open>Sending\<close>

text \<open>The octets of a frame the core hands out.\<close>

definition frame_octets :: "tx_frame \<Rightarrow> octet list" where
  "frame_octets fr = take (frame_hdr_sz fr) (hdr_octets (frame_hdr fr)) @
     (case frame_payload fr of Some bs \<Rightarrow> take (unat (frame_pay_sz fr)) bs | None \<Rightarrow> [])"

definition numbered_octets :: "ludlc_id_t \<Rightarrow> ludlc_id_t \<Rightarrow> ludlc_channel_t \<times> buffer \<times> ludlc_payload_size_t \<Rightarrow> octet list" where
  "numbered_octets i a = (\<lambda>(ch, buf, sz). [i, a, ch] @ take (unat sz) (case buf of Some bs \<Rightarrow> bs | None \<Rightarrow> []))"

text \<open>A frame of a session: it acknowledges what was received, and carries at most one packet of the window.\<close>

definition tx_sent :: "config \<Rightarrow> ludlc_connection \<Rightarrow> octet list \<Rightarrow> ludlc_connection \<Rightarrow> ludlc_event list \<Rightarrow> bool" where
  "tx_sent cf c f d evs \<longleftrightarrow>
     last_ack d = last_ack c \<and> outstanding cf d = outstanding cf c \<and> last_received d = last_received c \<and>
     confirmed evs = [] \<and> delivered evs = [] \<and>
     (pkt_ack_id f = last_received c \<or> pkt_ack_id f = last_received c OR LUDLC_NAK_FLAG) \<and>
     (is_ping (pkt_tx_id f) \<or>
      (\<exists>k < length (outstanding cf c). f = numbered_octets (id_plus (last_ack c) (Suc k)) (pkt_ack_id f) (ident (outstanding cf c ! k))))"

lemma tx_choose_frame:
  assumes inv: "conn_inv cf c" and r: "tx_choose cf c u_done = (d, it, hs, ping, num, ret, evs)"
  shows "last_ack d = last_ack c \<and> last_received d = last_received c \<and> conn_state d = conn_state c \<and> confirmed evs = [] \<and> delivered evs = [] \<and>
    (is_ping (hdr_tx_id (tx_hdr d)) \<and> (hs = 2 \<or> hs = 3) \<or>
     (\<exists>k < length (outstanding cf c). hs = 3 \<and> it = Some (outstanding cf c ! k) \<and>
        hdr_tx_id (tx_hdr d) = id_plus (last_ack c) (Suc k) \<and> hdr_chan (tx_hdr d) = pq_chan (outstanding cf c ! k)))"
proof -
  have flag: "is_ping (x OR LUDLC_PING_FLAG)" for x
  proof -
    have "(x OR LUDLC_PING_FLAG) AND LUDLC_PING_FLAG = LUDLC_PING_FLAG"
      by (rule bit_eqI) (auto simp: bit_simps)
    then show ?thesis
      by (simp add: is_ping_def)
  qed
  consider (u) "\<not> has_flag LUDLC_CONN_U_IDLE_F c" | (ping) "has_flag LUDLC_CONN_U_IDLE_F c" "last_sent c = last_queued c"
    | (num) "has_flag LUDLC_CONN_U_IDLE_F c" "last_sent c \<noteq> last_queued c"
    by blast
  then show ?thesis
  proof cases
    case num
    note n = next_sent [OF inv num(2)]
    have seq: "is_seq (last_ack c)" "is_seq (last_sent c)"
      using conn_inv_window(3) [OF inv] by (simp_all add: ids_ok_def)
    let ?k = "id_dist (last_ack c) (last_sent c)"
    have "id_plus (last_ack c) (Suc ?k) = id_plus (last_sent c) 1"
      using seq by (metis Suc_eq_plus1 id_plus_dist id_plus_plus)
    then show ?thesis
      using num r n by (auto simp: tx_choose_def Let_def id_suc intro!: exI [of _ ?k])
  qed (use r flag in \<open>auto simp: tx_choose_def Let_def\<close>)
qed


lemma tx_ack_field_frame:
  "hdr_tx_id (tx_hdr (tx_ack_field c p n)) = hdr_tx_id (tx_hdr c)" "hdr_chan (tx_hdr (tx_ack_field c p n)) = hdr_chan (tx_hdr c)"
  "hdr_ack_id (tx_hdr (tx_ack_field c p n)) = last_received c \<or>
   hdr_ack_id (tx_hdr (tx_ack_field c p n)) = last_received c OR LUDLC_NAK_FLAG"
  "last_ack (tx_ack_field c p n) = last_ack c" "last_received (tx_ack_field c p n) = last_received c"
  "conn_state (tx_ack_field c p n) = conn_state c"
  by (simp_all add: tx_ack_field_def Let_def)

lemma tx_connected_frame:
  assumes inv: "conn_inv cf c" and st: "conn_state c = LUDLC_STATE_CONNECTED" and r: "tx_connected cf c u_done = (ret, fr, d, evs)"
  shows "tx_sent cf c (frame_octets fr) d evs \<and> conn_state d = LUDLC_STATE_CONNECTED"
proof -
  obtain e it hs ping num ret' evs' where ch: "tx_choose cf c u_done = (e, it, hs, ping, num, ret', evs')"
    by (metis surj_pair)
  note t = tx_choose_frame [OF inv ch]
  have ok: "conn_inv cf e" "outstanding cf e = outstanding cf c" "conn_cfg e = conn_cfg c"
      "tx_payload e = tx_payload c" "case it of None \<Rightarrow> True | Some p \<Rightarrow> payload_ok cf c p"
    using tx_choose_inv [OF inv st, of u_done] ch by (simp_all add: tx_choice_ok_def)
  let ?f = "tx_ack_field e ping num"
  define g where "g = (case it of Some p \<Rightarrow> copy_payload ?f p | None \<Rightarrow> ?f)"
  have g: "g = ?f\<lparr>tx_payload := tx_payload g\<rparr>"
    unfolding g_def by (cases it) (simp_all, rule copy_payload_eq)
  have d: "d = g" "evs = evs'" "fr = \<lparr>frame_hdr = tx_hdr g, frame_hdr_sz = hs,
      frame_payload = (case it of Some p \<Rightarrow> Some (tx_payload g) | None \<Rightarrow> None), frame_pay_sz = (case it of Some p \<Rightarrow> pq_size p | None \<Rightarrow> 0)\<rparr>"
    using r ch by (auto simp: tx_connected_def Let_def g_def split: option.splits)
  have gf: "tx_hdr g = tx_hdr ?f" "last_ack g = last_ack c" "last_received g = last_received c" "conn_state g = LUDLC_STATE_CONNECTED"
      "outstanding cf g = outstanding cf c"
    by (subst g, use t ok st tx_ack_field_inv in \<open>simp add: tx_ack_field_frame\<close>)+
  have pay: "take (unat (pq_size p)) (tx_payload g) = take (unat (pq_size p)) (case pq_payload p of Some bs \<Rightarrow> bs | None \<Rightarrow> [])"
    if "it = Some p" for p
  proof -
    have "payload_ok cf ?f p"
      using ok(3,5) that cfg_cong(3) [of ?f c] by simp
    then show ?thesis
      using copy_payload_length(2) [of cf ?f p] conn_inv_buffers(4) [of cf ?f] ok(1) that
      by (simp add: g_def tx_ack_field_inv split: option.splits)
  qed
  have hdr: "octet_at (frame_octets fr) 0 = hdr_tx_id (tx_hdr e)" "octet_at (frame_octets fr) 1 = hdr_ack_id (tx_hdr ?f)"
    using t by (auto simp: frame_octets_def d(3) gf(1) hdr_octets_def octet_at_def nth_append tx_ack_field_frame numeral_2_eq_2 numeral_3_eq_3)
  have num: "frame_octets fr = numbered_octets (id_plus (last_ack c) (Suc k)) (hdr_ack_id (tx_hdr ?f)) (ident (outstanding cf c ! k))"
    if "hs = 3" "it = Some (outstanding cf c ! k)" "hdr_tx_id (tx_hdr e) = id_plus (last_ack c) (Suc k)"
      "hdr_chan (tx_hdr e) = pq_chan (outstanding cf c ! k)" for k
    using that pay [OF that(2)] by (simp add: frame_octets_def d(3) gf(1) hdr_octets_def numbered_octets_def ident_def tx_ack_field_frame)
  show ?thesis
    unfolding tx_sent_def pkt_tx_id_def pkt_ack_id_def hdr d(1,2)
    using t num gf tx_ack_field_frame(3) [of e ping num] by auto
qed

lemma session_send:
  assumes inv: "conn_inv cf c" and batch: "1 \<le> CONFIG_LUDLC_CONFIRM_BATCH cf" and st: "conn_state c = LUDLC_STATE_CONNECTED"
    and r: "ludlc_get_packet_to_send cf c True = Some (ret, fro, d, evs)" and live: "conn_state d = LUDLC_STATE_CONNECTED"
  obtains fr where "fro = Some fr" "tx_sent cf c (frame_octets fr) d evs"
proof -
  define drained where "drained = (\<not> has_flag LUDLC_CONN_U_DONE_F c)"
  define disc where "disc = (drained \<and> has_flag LUDLC_CONN_DISC_AFTER_TX_F c)"
  define u_done where "u_done = (drained \<and> \<not> disc)"
  define e where "e = u_sent_mark c u_done"
  have e: "conn_inv cf e" "outstanding cf e = outstanding cf c" "conn_state e = LUDLC_STATE_CONNECTED"
      "last_ack e = last_ack c" "last_received e = last_received c"
    using u_sent_mark_inv [OF inv, of u_done] st by (simp_all add: e_def u_done_def drained_def) (simp_all add: u_sent_mark_def Let_def)
  have eq: "ludlc_get_packet_to_send cf c True =
     (if disc then do {
        (conn, evs) \<leftarrow> ludlc_handle_disconnect cf e; Some (- ENOTCONN, None, conn, evs)
      }
      else
        let (ret, fr, conn, evs) = get_packet_lock cf e u_done
        in Some (ret, Some fr, conn, evs @ (if u_done then ludlc_call_on_confirm conn Unnumbered (u_packet e) else [])))"
    unfolding ludlc_get_packet_to_send_def Let_def e_def u_sent_mark_def u_done_def disc_def drained_def by simp
  show thesis
  proof (cases disc)
    case True
    obtain d' where d': "on_disconnect_lock cf e = (d', lock_events cf (conn_cb e) (u_failed e) (q_failed cf e))"
        "locked cf e d' (u_failed e) (q_failed cf e)" "conn_state d' = 0"
      using on_disconnect_lock_spec [OF e(1)] by metis
    have "d = finish cf d'"
      using r True e(3) d'(1) locked_confirm(1) [OF d'(2) batch]
      by (auto simp: eq ludlc_handle_disconnect_def ludlc_disconnect_core_def disconnect_core_lock_def)
    with live d'(3) show thesis
      by simp
  next
    case False
    obtain ret' fr d' evs' where t: "tx_connected cf e u_done = (ret', fr, d', evs')"
      by (metis surj_pair)
    note f = tx_connected_frame [OF e(1,3) t]
    have d: "fro = Some fr" "d = start_ping_timer cf d'"
        "evs = evs' @ (if u_done then ludlc_call_on_confirm d Unnumbered (u_packet e) else [])"
      using r False t e(3) by (auto simp: eq get_packet_lock_def Let_def)
    have "confirmed (ludlc_call_on_confirm d Unnumbered x) = []" "delivered (ludlc_call_on_confirm d Unnumbered x) = []" for x
      by (auto simp: confirms_def)
    then have "tx_sent cf c (frame_octets fr) d evs"
      using f e d by (simp add: tx_sent_def start_ping_timer_def)
    with d(1) show thesis
      by (rule that)
  qed
qed

end
