(* ===== verification/Ludlc_Peers.thy ===== *)
theory Ludlc_Peers
  imports Ludlc_Peer "HOL-Library.Sublist"
begin

text \<open>
  Two connections joined by two wires that keep the order of frames and may lose any of
  them. The state of an end holds, besides its connection, the frames on the wire towards
  it and the history the properties are about: the packets its application submitted, those
  confirmed to it, and the numbered packets handed to it.
\<close>

section \<open>Two ends and the wires between them\<close>

record node =
  nd_build :: config
  nd_conn :: ludlc_connection
  nd_inbox :: "octet list list"
  nd_took :: "(ludlc_channel_t \<times> buffer \<times> ludlc_payload_size_t) list"
  nd_conf :: "(ludlc_channel_t \<times> buffer \<times> ludlc_payload_size_t) list"
  nd_got :: "(ludlc_channel_t \<times> octet list \<times> ludlc_payload_size_t) list"

datatype net_op =
    Submit ludlc_channel_t buffer ludlc_payload_size_t uint8
  | Submit_urgent ludlc_channel_t buffer ludlc_payload_size_t
  | Close
  | Transmit
  | Arrive nat
  | Lose nat

definition heard :: "node \<Rightarrow> ludlc_connection \<Rightarrow> ludlc_event list \<Rightarrow> node option" where
  "heard me d evs =
     (if conn_state d = LUDLC_STATE_CONNECTED \<and> \<not> gave_up evs
      then Some (me\<lparr>nd_conn := d, nd_conf := nd_conf me @ confirmed evs\<rparr>) else None)"

fun node_step :: "net_op \<Rightarrow> node \<Rightarrow> node \<Rightarrow> (node \<times> node) option" where
  "node_step (Submit ch buf sz ttl) me peer =
     (if \<not> buf_ok buf sz then None
      else
        let (ret, d, evs) = ludlc_enqueue_data (nd_build me) (nd_conn me) ch buf sz ttl
        in do {
          me \<leftarrow> heard me d evs;
          Some (me\<lparr>nd_took := nd_took me @ (if ret = 0 then [(ch, buf, sz)] else [])\<rparr>, peer)
        })"
| "node_step (Submit_urgent ch buf sz) me peer =
     (if \<not> buf_ok buf sz then None
      else
        let (ret, d, evs) = ludlc_send_urgent_data (nd_build me) (nd_conn me) ch buf sz
        in do { me \<leftarrow> heard me d evs; Some (me, peer) })"
| "node_step Close me peer =
     do {
       (ret, d, evs) \<leftarrow> ludlc_send_disconnect (nd_build me) (nd_conn me);
       me \<leftarrow> heard me d evs;
       Some (me, peer)
     }"
| "node_step Transmit me peer =
     do {
       (ret, fr, d, evs) \<leftarrow> ludlc_get_packet_to_send (nd_build me) (nd_conn me) True;
       me \<leftarrow> heard me d evs;
       fr \<leftarrow> fr;
       Some (me, peer\<lparr>nd_inbox := nd_inbox peer @ [frame_octets fr]\<rparr>)
     }"
| "node_step (Arrive ts) me peer =
     (case nd_inbox me of
        [] \<Rightarrow> None
      | p # ps \<Rightarrow> do {
          (d, evs) \<leftarrow> ludlc_receive (nd_build me) (nd_conn me) p (length p) ts;
          me \<leftarrow> heard me d evs;
          Some (me\<lparr>nd_inbox := ps, nd_got := nd_got me @ (if is_ping (pkt_tx_id p) then [] else delivered evs)\<rparr>, peer)
        })"
| "node_step (Lose k) me peer =
     (if k < length (nd_inbox me)
      then Some (me\<lparr>nd_inbox := take k (nd_inbox me) @ drop (Suc k) (nd_inbox me)\<rparr>, peer) else None)"

definition net_step :: "bool \<times> net_op \<Rightarrow> node \<times> node \<Rightarrow> (node \<times> node) option" where
  "net_step st s =
     (case st of (True, p) \<Rightarrow> node_step p (fst s) (snd s)
      | (False, p) \<Rightarrow> map_option prod.swap (node_step p (snd s) (fst s)))"

fun net_run :: "(bool \<times> net_op) list \<Rightarrow> node \<times> node \<Rightarrow> (node \<times> node) option" where
  "net_run [] s = Some s"
| "net_run (p # ps) s = Option.bind (net_step p s) (net_run ps)"

definition node_start :: "config \<Rightarrow> ludlc_connection \<Rightarrow> node" where
  "node_start cf c = \<lparr>nd_build = cf, nd_conn = c, nd_inbox = [], nd_took = [], nd_conf = [], nd_got = []\<rparr>"

text \<open>An end of a session that has just begun, with an application that listens.\<close>

definition established :: "config \<Rightarrow> ludlc_connection \<Rightarrow> bool" where
  "established cf c \<longleftrightarrow>
     conn_inv cf c \<and> 1 \<le> CONFIG_LUDLC_CONFIRM_BATCH cf \<and> conn_state c = LUDLC_STATE_CONNECTED \<and>
     listens (conn_cb c) \<and> takes_data (conn_cb c) \<and> outstanding cf c = [] \<and> last_ack c = 0 \<and> last_received c = 0"

section \<open>The invariant\<close>

definition content :: "ludlc_channel_t \<times> buffer \<times> ludlc_payload_size_t \<Rightarrow> ludlc_channel_t \<times> octet list \<times> ludlc_payload_size_t" where
  "content = (\<lambda>(ch, buf, sz). (ch, take (unat sz) (case buf of Some bs \<Rightarrow> bs | None \<Rightarrow> []), sz))"

definition books :: "node \<Rightarrow> bool" where
  "books n \<longleftrightarrow> nd_took n = nd_conf n @ map ident (outstanding (nd_build n) (nd_conn n))"

definition node_ok :: "node \<Rightarrow> bool" where
  "node_ok n \<longleftrightarrow>
     conn_inv (nd_build n) (nd_conn n) \<and> 1 \<le> CONFIG_LUDLC_CONFIRM_BATCH (nd_build n) \<and>
     conn_state (nd_conn n) = LUDLC_STATE_CONNECTED \<and> listens (conn_cb (nd_conn n)) \<and> takes_data (conn_cb (nd_conn n)) \<and>
     last_ack (nd_conn n) = id_plus 0 (length (nd_conf n)) \<and>
     last_received (nd_conn n) = id_plus 0 (length (nd_got n)) \<and>
     books n \<and> (\<forall>(ch, buf, sz) \<in> set (nd_took n). buf_ok buf sz \<and> (buf = None \<longrightarrow> sz = 0))"

text \<open>Number \<open>k\<close> is that of the frame, counted from one without wrapping.\<close>

definition has_number :: "(ludlc_channel_t \<times> buffer \<times> ludlc_payload_size_t) list \<Rightarrow> octet list \<Rightarrow> nat \<Rightarrow> bool" where
  "has_number T f k \<longleftrightarrow> k \<le> length T \<and>
     (is_ping (pkt_tx_id f) \<or> (\<exists>j a. k = Suc j \<and> f = numbered_octets (id_plus 0 k) a (T ! j)))"

text \<open>A queue whose frames have tags in order, each within a bound.\<close>

definition tagged :: "('f \<Rightarrow> nat \<Rightarrow> bool) \<Rightarrow> (nat \<Rightarrow> nat \<Rightarrow> bool) \<Rightarrow> (nat \<Rightarrow> bool) \<Rightarrow> 'f list \<Rightarrow> bool" where
  "tagged P R B fs \<longleftrightarrow> (\<exists>ks. list_all2 P fs ks \<and> sorted_wrt R ks \<and> (\<forall>k \<in> set ks. B k))"

definition numbers_ok :: "(ludlc_channel_t \<times> buffer \<times> ludlc_payload_size_t) list \<Rightarrow> nat \<Rightarrow> octet list list \<Rightarrow> bool" where
  "numbers_ok T r = tagged (has_number T) (\<lambda>j k. j \<le> k + 63) (\<lambda>k. r \<le> k + 63)"

definition has_ack :: "octet list \<Rightarrow> nat \<Rightarrow> bool" where
  "has_ack f n \<longleftrightarrow> pkt_ack_id f = id_plus 0 n \<or> pkt_ack_id f = id_plus 0 n OR LUDLC_NAK_FLAG"

definition acks_ok :: "nat \<Rightarrow> nat \<Rightarrow> octet list list \<Rightarrow> bool" where
  "acks_ok a r = tagged has_ack (\<le>) (\<lambda>n. a \<le> n \<and> n \<le> r)"

definition half :: "node \<Rightarrow> node \<Rightarrow> bool" where
  "half me peer \<longleftrightarrow>
     length (nd_conf me) \<le> length (nd_got peer) \<and>
     prefix (nd_got peer) (map content (nd_took me)) \<and>
     numbers_ok (nd_took me) (length (nd_got peer)) (nd_inbox peer) \<and>
     acks_ok (length (nd_conf me)) (length (nd_got peer)) (nd_inbox me)"

definition net_inv :: "node \<times> node \<Rightarrow> bool" where
  "net_inv s \<longleftrightarrow> node_ok (fst s) \<and> node_ok (snd s) \<and> half (fst s) (snd s) \<and> half (snd s) (fst s)"


section \<open>Queues of frames\<close>

lemma tagged_nil [simp]: "tagged P R B []"
  by (simp add: tagged_def)

lemma tagged_lose: 
  assumes "tagged P R B (us @ f # vs)"
  shows "tagged P R B (us @ vs)"
proof -
  obtain ks where ks: "list_all2 P (us @ f # vs) ks" "sorted_wrt R ks" "\<forall>k \<in> set ks. B k"
    using assms by (auto simp: tagged_def)
  then obtain as k bs where "ks = as @ k # bs" "list_all2 P us as" "list_all2 P vs bs"
    by (auto simp: list_all2_append1 list_all2_Cons1)
  with ks show ?thesis
    unfolding tagged_def by (intro exI [of _ "as @ bs"]) (simp add: sorted_wrt_append list_all2_appendI)
qed

lemma tagged_send:
  assumes "tagged P R B fs" "P f k" "B k" "\<And>g j. P g j \<Longrightarrow> B j \<Longrightarrow> R j k"
  shows "tagged P R B (fs @ [f])"
proof -
  obtain ks where ks: "list_all2 P fs ks" "sorted_wrt R ks" "\<forall>k \<in> set ks. B k"
    using assms(1) by (auto simp: tagged_def)
  then have "\<exists>g. P g j" if "j \<in> set ks" for j
    using that by (metis in_set_conv_nth list_all2_nthD2)
  then have "\<forall>j \<in> set ks. R j k"
    using assms(4) ks(3) by blast
  with ks assms(2,3) show ?thesis
    unfolding tagged_def by (intro exI [of _ "ks @ [k]"]) (simp add: sorted_wrt_append list_all2_appendI)
qed

lemma tagged_head:
  assumes "tagged P R B (f # fs)"
  obtains k where "P f k" "B k" "tagged P R (\<lambda>j. B j \<and> R k j) fs"
proof -
  obtain k ks where "P f k" "list_all2 P fs ks" "sorted_wrt R (k # ks)" "\<forall>j \<in> set (k # ks). B j"
    using assms by (auto simp: tagged_def list_all2_Cons1)
  then show thesis
    by (intro that [of k]) (auto simp: tagged_def)
qed

lemma tagged_mono:
  assumes "tagged P R B fs" "\<And>f k. P f k \<Longrightarrow> P' f k" "\<And>k. B k \<Longrightarrow> B' k"
  shows "tagged P' R B' fs"
  using assms unfolding tagged_def by (blast intro: list_all2_mono)

lemma has_number_more: "has_number T f k \<Longrightarrow> has_number (T @ xs) f k"
proof -
  assume "has_number T f k"
  then have k: "k \<le> length T" "is_ping (pkt_tx_id f) \<or> (\<exists>j a. k = Suc j \<and> f = numbered_octets (id_plus 0 k) a (T ! j))"
    by (simp_all add: has_number_def)
  then have "is_ping (pkt_tx_id f) \<or> (\<exists>j a. k = Suc j \<and> f = numbered_octets (id_plus 0 k) a ((T @ xs) ! j))"
    by (metis Suc_le_eq nth_append)
  with k(1) show ?thesis
    by (simp add: has_number_def)
qed

lemma numbers_more: "numbers_ok T r fs \<Longrightarrow> numbers_ok (T @ xs) r fs"
  unfolding numbers_ok_def by (rule tagged_mono [of "has_number T" "\<lambda>j k. j \<le> k + 63" "\<lambda>k. r \<le> k + 63"]) (simp_all add: has_number_more)

lemma acks_more: "acks_ok a r fs \<Longrightarrow> r \<le> r' \<Longrightarrow> acks_ok a r' fs"
  unfolding acks_ok_def by (rule tagged_mono [of has_ack "(\<le>)" "\<lambda>n. a \<le> n \<and> n \<le> r"]) simp_all

lemma numbers_send:
  assumes "numbers_ok T r fs" "has_number T f k" "length T \<le> k + 63" "r \<le> length T"
  shows "numbers_ok T r (fs @ [f])"
  using assms(1) unfolding numbers_ok_def
  by (rule tagged_send [of _ _ _ _ f k]) (use assms(2-4) in \<open>auto simp: has_number_def\<close>)

lemma acks_send: "acks_ok a r fs \<Longrightarrow> has_ack f r \<Longrightarrow> a \<le> r \<Longrightarrow> acks_ok a r (fs @ [f])"
  unfolding acks_ok_def by (rule tagged_send [of _ _ _ _ f r]) auto

lemma numbers_head:
  assumes "numbers_ok T r (f # fs)"
  obtains k where "has_number T f k" "r \<le> k + 63" "numbers_ok T k fs"
proof (rule tagged_head [OF assms [unfolded numbers_ok_def]])
  fix k
  assume k: "has_number T f k" "r \<le> k + 63" "tagged (has_number T) (\<lambda>j k. j \<le> k + 63) (\<lambda>j. r \<le> j + 63 \<and> k \<le> j + 63) fs"
  show thesis
    by (rule that [OF k(1,2)]) (unfold numbers_ok_def, rule tagged_mono [OF k(3)], simp_all)
qed

lemma acks_head:
  assumes "acks_ok a r (f # fs)"
  obtains n where "has_ack f n" "a \<le> n" "n \<le> r" "acks_ok n r fs"
proof (rule tagged_head [OF assms [unfolded acks_ok_def]])
  fix n
  assume n: "has_ack f n" "a \<le> n \<and> n \<le> r" "tagged has_ack (\<le>) (\<lambda>j. (a \<le> j \<and> j \<le> r) \<and> n \<le> j) fs"
  show thesis
    by (rule that [OF n(1)]) (use n(2) in simp, use n(2) in simp, unfold acks_ok_def, rule tagged_mono [OF n(3)], simp_all)
qed

section \<open>Numbers that do not wrap\<close>

lemma near_ids:
  assumes "r \<le> k + 63" "k \<le> r + 64" "id_plus 0 k = id_plus (id_plus 0 r) 1"
  shows "k = Suc r"
proof -
  have "k mod 128 = (r + 1) mod 128"
    using assms(3) by (simp add: word_unat_eq_iff unat_id_plus mod_simps)
  then have "int 128 dvd int k - int (r + 1)"
    by (metis mod_eq_dvd_iff zmod_int)
  then show ?thesis
    using assms(1,2) zdvd_imp_le [of 128 "int k - int (r + 1)"] zdvd_imp_le [of 128 "int (r + 1) - int k"]
    by (cases "k = r + 1"; cases "k < r + 1") (auto simp: dvd_diff_commute)
qed

lemma near_acks:
  assumes "a \<le> n" "n \<le> a + 64" "has_ack f n" "last_ack c = id_plus 0 a"
  shows "num_acked c (pkt_ack_id f) = n - a"
proof -
  have "id_plus 0 n = id_plus (id_plus 0 a) (n - a)"
    using assms(1) by simp
  then have d: "id_dist (id_plus 0 a) (id_plus 0 n) = n - a"
    using assms(2) id_dist_plus [of "id_plus 0 a" "n - a"] by simp
  have "(x OR 128) AND 127 = x AND 127" for x :: ludlc_id_t
    by (simp add: and_127_take_bit take_bit_or)
  moreover have "(z - y) AND 127 = ((z AND 127) - y) AND 127" for z y :: ludlc_id_t
  proof -
    have "unat ((w - y) AND 127) = (unat w + (256 - unat y)) mod 128" for w :: ludlc_id_t
      using unat_8_less [of y] by (simp del: unat_8_less add: unat_and_127 unat_minus_8 mod_mod_cancel)
    then show ?thesis
      by (simp add: word_unat_eq_iff unat_and_127 mod_simps)
  qed
  ultimately have "id_dist y (x OR 128) = id_dist y x" for x y
    unfolding id_dist_def by metis
  with d assms(3,4) show ?thesis
    by (auto simp: num_acked_def has_ack_def)
qed


section \<open>The steps keep the invariant\<close>

lemma numbered_frame:
  fixes i a :: ludlc_id_t
  assumes "buf_ok (fst (snd x)) (snd (snd x))" "fst (snd x) = None \<longrightarrow> snd (snd x) = 0"
  defines "f \<equiv> numbered_octets i a x"
  shows "pkt_tx_id f = i" "pkt_ack_id f = a"
    "(pkt_chan f, pkt_payload f (length f), rx_payload_size (length f)) = content x"
proof -
  obtain ch buf sz where x: "x = (ch, buf, sz)"
    by (cases x)
  let ?p = "take (unat sz) (case buf of Some bs \<Rightarrow> bs | None \<Rightarrow> [])"
  have f: "f = [i, a, ch] @ ?p" and len: "length ?p = unat sz"
    using assms by (auto simp: f_def x numbered_octets_def buf_ok_def split: option.splits)
  then show "pkt_tx_id f = i" "pkt_ack_id f = a"
    by (simp_all add: pkt_tx_id_def pkt_ack_id_def octet_at_def)
  have "pkt_payload f (length f) = ?p"
    by (rule nth_equalityI) (use len in \<open>simp_all add: f pkt_payload_def octet_at_def del: upt_Suc\<close>)
  moreover have "rx_payload_size (length f) = sz"
    using len by (simp add: f rx_payload_size_def)
  ultimately show "(pkt_chan f, pkt_payload f (length f), rx_payload_size (length f)) = content x"
    by (simp add: content_def x f pkt_chan_def octet_at_def)
qed

lemma books_inbox [simp]: "books (n\<lparr>nd_inbox := fs\<rparr>) = books n"
  by (simp add: books_def)

lemma heard_eq:
  "heard me d evs = Some n \<longleftrightarrow> conn_state d = LUDLC_STATE_CONNECTED \<and> \<not> gave_up evs \<and>
     n = me\<lparr>nd_conn := d, nd_conf := nd_conf me @ confirmed evs\<rparr>"
  by (auto simp: heard_def)

lemma node_window:
  assumes "node_ok n"
  shows "length (nd_took n) \<le> length (nd_conf n) + wnd (nd_build n) (nd_conn n)" "length (nd_took n) \<le> length (nd_conf n) + 64"
  using assms conn_inv_window(1,2) [of "nd_build n" "nd_conn n"] wnd_range [of "nd_build n" "nd_conn n"]
  by (simp_all add: node_ok_def books_def outstanding_def)

text \<open>What an end keeps while its application calls it.\<close>

lemma submit_node:
  assumes n: "node_ok n" and buf: "buf_ok buf sz"
    and r: "ludlc_enqueue_data (nd_build n) (nd_conn n) ch buf sz ttl = (ret, d, evs)"
  shows "node_ok (n\<lparr>nd_conn := d, nd_took := nd_took n @ (if ret = 0 then [(ch, buf, sz)] else [])\<rparr>) \<and> confirmed evs = []"
proof -
  have inv: "conn_inv (nd_build n) (nd_conn n)"
    using n by (simp add: node_ok_def)
  have same: "last_ack d = last_ack (nd_conn n)" "last_received d = last_received (nd_conn n)"
    using r by (auto simp: ludlc_enqueue_data_def enqueue_lock_def set_slot_def Let_def split: if_splits)
  show ?thesis
  proof (rule enqueue_cases [OF inv buf, of ch ttl])
    fix d' it
    assume q: "\<not> enqueue_refused (nd_build n) (nd_conn n) ch buf sz"
      "ludlc_enqueue_data (nd_build n) (nd_conn n) ch buf sz ttl = (0, d', [RequestTx])" "conn_inv (nd_build n) d'"
      "outstanding (nd_build n) d' = outstanding (nd_build n) (nd_conn n) @ [it]" "ident it = (ch, buf, sz)"
      "conn_cb d' = conn_cb (nd_conn n)" "conn_state d' = conn_state (nd_conn n)"
    with r same n buf show ?thesis
      by (auto simp: node_ok_def books_def enqueue_refused_def)
  qed (use r n in \<open>simp_all add: node_ok_def books_def\<close>)
qed


definition idle_step :: "config \<Rightarrow> ludlc_connection \<Rightarrow> ludlc_connection \<Rightarrow> ludlc_event list \<Rightarrow> bool" where
  "idle_step cf c d evs \<longleftrightarrow> conn_inv cf d \<and> conn_cb d = conn_cb c \<and> last_ack d = last_ack c \<and>
     last_received d = last_received c \<and> outstanding cf d = outstanding cf c \<and> confirmed evs = []"

lemma idle_node:
  assumes "node_ok n" "idle_step (nd_build n) (nd_conn n) d evs" "conn_state d = LUDLC_STATE_CONNECTED"
  shows "node_ok (n\<lparr>nd_conn := d\<rparr>)"
  using assms by (simp add: node_ok_def books_def idle_step_def)

lemma urgent_idle:
  assumes "conn_inv cf c" "buf_ok buf sz" "ludlc_send_urgent_data cf c ch buf sz = (ret, d, evs)"
  shows "idle_step cf c d evs"
proof -
  have "conn_inv cf d" "conn_cb d = conn_cb c"
    using urgent_effect [OF assms(1,2), of ch] assms(3) by (auto simp: op_effect_def)
  moreover have "last_ack d = last_ack c \<and> last_received d = last_received c \<and> outstanding cf d = outstanding cf c \<and> confirmed evs = []"
    using assms(3) by (auto simp: ludlc_send_urgent_data_def clear_flag_def split: if_splits)
  ultimately show ?thesis
    by (simp add: idle_step_def)
qed

lemma confirmed_unnumbered [simp]:
  "confirmed (confirms cb Unnumbered its) = []"
  by (simp add: confirms_def confirmed_map)

lemma close_idle:
  assumes inv: "conn_inv cf c" and batch: "1 \<le> CONFIG_LUDLC_CONFIRM_BATCH cf" and st: "conn_state c = LUDLC_STATE_CONNECTED"
    and r: "ludlc_send_disconnect cf c = Some (ret, d, evs)"
  shows "idle_step cf c d evs"
proof (cases "has_flag LUDLC_CONN_U_DONE_F c")
  case True
  obtain e where e: "send_disconnect_lock cf c = (0, e, lock_events cf (conn_cb c) (u_cancelled c) [])"
    "locked cf c e (u_cancelled c) []" "outstanding cf e = outstanding cf c" "conn_state e = conn_state c"
    using send_disconnect_lock_spec [OF inv st True] by metis
  note l = locked_confirm [OF e(2) batch]
  have d: "d = finish cf e" "evs = lock_events cf (conn_cb c) (u_cancelled c) [] @ unlock_events cf (conn_cb c) (u_cancelled c) [] @ [RequestTx]"
    using r e(1) l(1) by (simp_all add: ludlc_send_disconnect_def)
  have "last_ack e = last_ack c \<and> last_received e = last_received c"
    using e(1) by (auto simp: send_disconnect_lock_def ludlc_confirm_u_lock_def Let_def split: if_splits)
  moreover have bus: "\<not> has_flag LUDLC_CONN_BUS_OUT_F e"
    using e(2,4) st by (auto simp: locked_def base_inv_def state_inv_def)
  moreover have "conn_cb e = conn_cb c"
    using e(2) by (simp add: locked_def)
  ultimately show ?thesis
    unfolding idle_step_def d using l(2,3) e(3) finish_received [OF bus, of cf]
    by (cases "CONFIG_LUDLC_MT cf") (simp_all add: finish_ids finish_inline lock_events_def unlock_events_def confirms_def confirmed_map)
next
  case False
  then have "send_disconnect_lock cf c = (- EAGAIN, c, [])"
    using st by (simp add: send_disconnect_lock_def)
  then have "d = c" "evs = []"
    using r finish_settled [OF inv] locked_confirm(1) [OF locked_self [OF inv] batch]
    by (auto simp: ludlc_send_disconnect_def unlock_events_def confirms_def)
  then show ?thesis
    using inv by (simp add: idle_step_def)
qed


definition ends_ok :: "node \<Rightarrow> node \<Rightarrow> bool" where
  "ends_ok me peer \<longleftrightarrow> node_ok me \<and> node_ok peer \<and> half me peer \<and> half peer me"

lemma prefix_length: "prefix xs (map f ys) \<Longrightarrow> length xs \<le> length ys"
  using prefix_length_le by fastforce

lemma half_window:
  assumes "half me peer" "node_ok me"
  shows "length (nd_got peer) \<le> length (nd_took me)" "length (nd_took me) \<le> length (nd_got peer) + 64"
  using assms node_window(2) [OF assms(2)] prefix_length [of "nd_got peer" content "nd_took me"] by (auto simp: half_def)

lemma transmit_ends:
  assumes s: "ends_ok me peer" and t: "tx_sent (nd_build me) (nd_conn me) f d evs" and d: "node_ok (me\<lparr>nd_conn := d\<rparr>)"
  shows "ends_ok (me\<lparr>nd_conn := d\<rparr>) (peer\<lparr>nd_inbox := nd_inbox peer @ [f]\<rparr>)"
proof -
  note h = s [unfolded ends_ok_def]
  let ?T = "nd_took me" and ?a = "length (nd_conf me)"
  have me: "last_ack (nd_conn me) = id_plus 0 ?a" "?T = nd_conf me @ map ident (outstanding (nd_build me) (nd_conn me))"
      "last_received (nd_conn me) = id_plus 0 (length (nd_got me))"
    using h by (simp_all add: node_ok_def books_def)
  have "\<exists>k. has_number ?T f k \<and> length ?T \<le> k + 63"
  proof (cases "is_ping (pkt_tx_id f)")
    case True
    then show ?thesis
      by (intro exI [of _ "length ?T"]) (simp add: has_number_def)
  next
    case False
    then obtain j a where j: "j < length (outstanding (nd_build me) (nd_conn me))"
        "f = numbered_octets (id_plus (id_plus 0 ?a) (Suc j)) a (ident (outstanding (nd_build me) (nd_conn me) ! j))"
      using t me(1) by (auto simp: tx_sent_def)
    then have "has_number ?T f (Suc (?a + j))"
      by (auto simp: has_number_def me(2) nth_append intro!: exI [of _ "?a + j"])
    then show ?thesis
      using node_window(2) [of me] h by (intro exI [of _ "Suc (?a + j)"]) simp
  qed
  then obtain k where k: "has_number ?T f k" "length ?T \<le> k + 63"
    by blast
  have "numbers_ok ?T (length (nd_got peer)) (nd_inbox peer @ [f])"
    using h k half_window(1) [of me peer] by (intro numbers_send [of _ _ _ _ k]) (simp_all add: half_def)
  moreover have "acks_ok (length (nd_conf peer)) (length (nd_got me)) (nd_inbox peer @ [f])"
    using h t me(3) by (intro acks_send) (simp_all add: half_def has_ack_def tx_sent_def)
  ultimately show ?thesis
    using h d by (simp add: ends_ok_def half_def node_ok_def)
qed

lemma arrive_ends:
  assumes s: "ends_ok me peer" and inbox: "nd_inbox me = p # ps"
    and r: "ludlc_receive (nd_build me) (nd_conn me) p (length p) ts = Some (d, evs)"
    and live: "conn_state d = LUDLC_STATE_CONNECTED" "\<not> gave_up evs"
  shows "ends_ok (me\<lparr>nd_conn := d, nd_conf := nd_conf me @ confirmed evs, nd_inbox := ps,
       nd_got := nd_got me @ (if is_ping (pkt_tx_id p) then [] else delivered evs)\<rparr>) peer"
proof -
  let ?cf = "nd_build me" and ?c = "nd_conn me" and ?T = "nd_took peer" and ?r = "length (nd_got me)" and ?a = "length (nd_conf me)"
  note h = s [unfolded ends_ok_def]
  have me: "conn_inv ?cf ?c" "1 \<le> CONFIG_LUDLC_CONFIRM_BATCH ?cf" "conn_state ?c = LUDLC_STATE_CONNECTED" "listens (conn_cb ?c)"
      "takes_data (conn_cb ?c)" "last_ack ?c = id_plus 0 ?a" "last_received ?c = id_plus 0 ?r"
      "nd_took me = nd_conf me @ map ident (outstanding ?cf ?c)"
    using h by (simp_all add: node_ok_def books_def)
  have d: "conn_inv ?cf d" "conn_cb d = conn_cb ?c"
    using receive_effect [OF me(1,2), of p "length p" ts] r by (auto simp: op_effect_def)
  obtain k where k: "has_number ?T p k" "?r \<le> k + 63" "numbers_ok ?T k ps"
    using h inbox by (auto simp: half_def elim: numbers_head)
  obtain n where n: "has_ack p n" "?a \<le> n" "n \<le> length (nd_got peer)" "acks_ok n (length (nd_got peer)) ps"
    using h inbox by (auto simp: half_def elim: acks_head)
  have tail: "numbers_ok ?T ?r ps" "acks_ok ?a (length (nd_got peer)) ps"
    using h inbox tagged_lose [of _ _ _ "[]" p ps] by (simp_all add: half_def numbers_ok_def acks_ok_def)
  from session_receive [OF me(1-5) r live] show ?thesis
  proof
    assume q: "rx_dropped ?cf ?c p d evs"
    then have "books (me\<lparr>nd_conn := d\<rparr>)"
      using me(8) by (simp add: rx_dropped_def books_def)
    with q show ?thesis
      using h d live tail by (simp add: rx_dropped_def ends_ok_def half_def node_ok_def)
  next
    assume t: "rx_taken ?cf ?c p (length p) d evs"
    have "num_acked ?c (pkt_ack_id p) = n - ?a"
      using n half_window [of me peer] h node_window(2) [of me] by (intro near_acks [OF _ _ n(1) me(6)]) auto
    moreover have "n - ?a \<le> length (outstanding ?cf ?c)"
      using n half_window(1) [of me peer] h me(8) by simp
    ultimately have acks: "acks ?cf ?c p = n - ?a"
      by (simp add: acks_def)
    define xs where "xs = (if is_ping (pkt_tx_id p) then [] else delivered evs)"
    have got: "last_received d = id_plus 0 (length (nd_got me @ xs)) \<and> prefix (nd_got me @ xs) (map content ?T) \<and>
        numbers_ok ?T (length (nd_got me @ xs)) ps"
    proof (cases "\<not> is_ping (pkt_tx_id p) \<and> pkt_tx_id p = id_plus (last_received ?c) 1")
      case True
      then obtain j a where j: "k = Suc j" "p = numbered_octets (id_plus 0 k) a (?T ! j)" "k \<le> length ?T"
        using k(1) by (auto simp: has_number_def)
      have "?T ! j \<in> set ?T"
        using j by simp
      then have ok: "buf_ok (fst (snd (?T ! j))) (snd (snd (?T ! j)))" "fst (snd (?T ! j)) = None \<longrightarrow> snd (snd (?T ! j)) = 0"
        using h by (auto simp: node_ok_def)
      note f = numbered_frame [OF ok, of "id_plus 0 k" a, folded j(2)]
      have "k = Suc ?r"
        using True f(1) me(7) k(2) j(3) half_window [of peer me] h by (intro near_ids) simp_all
      moreover have "xs = [content (?T ! j)]" "last_received d = id_plus 0 k"
      proof -
        have l: "last_received d = pkt_tx_id p \<and> delivered evs = [(pkt_chan p, pkt_payload p (length p), rx_payload_size (length p))]"
          using conjunct1 [OF True] conjunct2 [OF True] t unfolding rx_taken_def by (simp only: if_False if_True simp_thms)
        then show "xs = [content (?T ! j)]"
          using conjunct1 [OF True] f(3) by (simp only: xs_def if_False simp_thms)
        show "last_received d = id_plus 0 k"
          using l f(1) by simp
      qed
      moreover have "prefix (nd_got me @ [content (?T ! ?r)]) (map content ?T)" if "?r < length ?T"
      proof -
        have "nd_got me = take ?r (map content ?T)"
          using h by (simp add: half_def prefix_def) (metis append_eq_conv_conj)
        then have "nd_got me @ [content (?T ! ?r)] = take (Suc ?r) (map content ?T)"
          using that by (simp add: take_Suc_conv_app_nth)
        then show ?thesis
          by (metis take_is_prefix)
      qed
      ultimately show ?thesis
        using k(3) j by simp
    next
      case False
      then have "xs = []" "last_received d = last_received ?c"
        using t by (auto simp: xs_def rx_taken_def split: if_splits)
      then show ?thesis
        using tail(1) me(7) h by (simp add: half_def)
    qed
    have le: "n \<le> length (nd_took me)" and out: "length (outstanding ?cf ?c) = length (nd_took me) - ?a"
      using n(3) half_window(1) [of me peer] h me(8) by simp_all
    have t': "last_ack d = id_plus (last_ack ?c) (n - ?a)" "confirmed evs = map ident (take (n - ?a) (outstanding ?cf ?c))"
        "map ident (outstanding ?cf d) = map ident (drop (n - ?a) (outstanding ?cf ?c))"
      using t unfolding rx_taken_def acks by blast+
    have conf: "length (nd_conf me @ confirmed evs) = n" "last_ack d = id_plus 0 n"
      using t'(1,2) n(2) le out me(6) by simp_all
    have "map ident (outstanding ?cf ?c) = confirmed evs @ map ident (outstanding ?cf d)"
      unfolding t'(2,3) map_append [symmetric] append_take_drop_id ..
    then have books: "books (me\<lparr>nd_conn := d, nd_conf := nd_conf me @ confirmed evs, nd_inbox := ps, nd_got := nd_got me @ xs\<rparr>)"
      using me(8) by (simp add: books_def)
    let ?me = "me\<lparr>nd_conn := d, nd_conf := nd_conf me @ confirmed evs, nd_inbox := ps, nd_got := nd_got me @ xs\<rparr>"
    have peer: "node_ok peer" "prefix (nd_got peer) (map content (nd_took me))"
        "numbers_ok (nd_took me) (length (nd_got peer)) (nd_inbox peer)" "length (nd_conf peer) \<le> ?r"
        "acks_ok (length (nd_conf peer)) ?r (nd_inbox peer)"
        "\<forall>(ch, buf, sz) \<in> set (nd_took me). buf_ok buf sz \<and> (buf = None \<longrightarrow> sz = 0)"
      using h by (simp_all add: half_def node_ok_def)
    have "node_ok ?me"
      unfolding node_ok_def using d live(1) me(2,4,5) got conf books peer(6) by simp
    moreover have "half ?me peer"
      unfolding half_def using conf(1) peer(2,3) n(3,4) by simp
    moreover have "half peer ?me"
      unfolding half_def using peer(4) acks_more [OF peer(5)] got by simp
    ultimately show ?thesis
      using peer(1) by (simp add: ends_ok_def xs_def)
  qed
qed


lemma caller_ends:
  assumes "ends_ok me peer" "node_ok me'" "nd_conf me' = nd_conf me" "nd_got me' = nd_got me" "nd_inbox me' = nd_inbox me"
    "nd_took me' = nd_took me @ xs"
  shows "ends_ok me' peer"
  using assms by (auto simp: ends_ok_def half_def intro: numbers_more)

lemma lose_ends:
  assumes "ends_ok me peer" "nd_inbox me = us @ f # vs"
  shows "ends_ok (me\<lparr>nd_inbox := us @ vs\<rparr>) peer"
  using assms tagged_lose [of _ _ _ us f vs] by (simp add: ends_ok_def half_def node_ok_def numbers_ok_def acks_ok_def)

lemma node_step_ends:
  assumes s: "ends_ok me peer" and st: "node_step p me peer = Some (me', peer')"
  shows "ends_ok me' peer'"
proof -
  have n: "node_ok me"
    using s by (simp add: ends_ok_def)
  then have inv: "conn_inv (nd_build me) (nd_conn me)" "1 \<le> CONFIG_LUDLC_CONFIRM_BATCH (nd_build me)"
      "conn_state (nd_conn me) = LUDLC_STATE_CONNECTED"
    by (simp_all add: node_ok_def)
  have idle: "ends_ok (me\<lparr>nd_conn := d, nd_conf := nd_conf me @ confirmed evs\<rparr>) peer"
    if "idle_step (nd_build me) (nd_conn me) d evs" "conn_state d = LUDLC_STATE_CONNECTED" for d evs
    using idle_node [OF n that] that(1)
    by (intro caller_ends [OF s, of _ "[]"]) (simp_all add: idle_step_def)
  show ?thesis
  proof (cases p)
    case (Submit ch buf sz ttl)
    obtain ret d evs where r: "ludlc_enqueue_data (nd_build me) (nd_conn me) ch buf sz ttl = (ret, d, evs)"
      by (metis surj_pair)
    from st Submit r have b: "buf_ok buf sz" and e: "peer' = peer"
        "me' = me\<lparr>nd_conn := d, nd_conf := nd_conf me @ confirmed evs, nd_took := nd_took me @ (if ret = 0 then [(ch, buf, sz)] else [])\<rparr>"
      by (auto simp: bind_eq_Some_conv heard_eq split: if_splits)
    from submit_node [OF n b r] show ?thesis
      unfolding e by (intro caller_ends [OF s]) simp_all
  next
    case (Submit_urgent ch buf sz)
    obtain ret d evs where r: "ludlc_send_urgent_data (nd_build me) (nd_conn me) ch buf sz = (ret, d, evs)"
      by (metis surj_pair)
    with st Submit_urgent show ?thesis
      using idle [OF urgent_idle [OF inv(1) _ r]] by (auto simp: bind_eq_Some_conv heard_eq split: if_splits)
  next
    case Close
    with st show ?thesis
      using idle [OF close_idle [OF inv]] by (auto simp: bind_eq_Some_conv heard_eq)
  next
    case Transmit
    with st obtain ret fr d evs where r: "ludlc_get_packet_to_send (nd_build me) (nd_conn me) True = Some (ret, Some fr, d, evs)"
      and live: "conn_state d = LUDLC_STATE_CONNECTED"
      and e: "me' = me\<lparr>nd_conn := d, nd_conf := nd_conf me @ confirmed evs\<rparr>" "peer' = peer\<lparr>nd_inbox := nd_inbox peer @ [frame_octets fr]\<rparr>"
      by (auto simp: bind_eq_Some_conv heard_eq)
    have t: "tx_sent (nd_build me) (nd_conn me) (frame_octets fr) d evs"
      using session_send [OF inv r live] by auto
    have "conn_inv (nd_build me) d" "conn_cb d = conn_cb (nd_conn me)"
      using get_packet_effect [OF inv(1,2), of True] r by (auto simp: op_effect_def)
    then have "node_ok (me\<lparr>nd_conn := d\<rparr>)"
      using t live by (intro idle_node [OF n, of d evs]) (simp_all add: idle_step_def tx_sent_def)
    from transmit_ends [OF s t this] show ?thesis
      using t unfolding e by (simp add: tx_sent_def)
  next
    case (Arrive ts)
    with st obtain q qs d evs where "nd_inbox me = q # qs"
        "ludlc_receive (nd_build me) (nd_conn me) q (length q) ts = Some (d, evs)" "conn_state d = LUDLC_STATE_CONNECTED" "\<not> gave_up evs"
        "peer' = peer" "me' = me\<lparr>nd_conn := d, nd_conf := nd_conf me @ confirmed evs, nd_inbox := qs,
           nd_got := nd_got me @ (if is_ping (pkt_tx_id q) then [] else delivered evs)\<rparr>"
      by (auto simp: bind_eq_Some_conv heard_eq split: list.splits)
    with arrive_ends [OF s] show ?thesis
      by simp
  next
    case (Lose k)
    with st have k: "k < length (nd_inbox me)" and e: "peer' = peer" "me' = me\<lparr>nd_inbox := take k (nd_inbox me) @ drop (Suc k) (nd_inbox me)\<rparr>"
      by (auto split: if_splits)
    show ?thesis
      unfolding e by (rule lose_ends [OF s id_take_nth_drop [OF k]])
  qed
qed

lemma ends_sym: "ends_ok x y = ends_ok y x"
  by (auto simp: ends_ok_def)

lemma net_run_ends:
  "ends_ok (fst s) (snd s) \<Longrightarrow> net_run ps s = Some s' \<Longrightarrow> ends_ok (fst s') (snd s')"
proof (induction ps arbitrary: s)
  case (Cons p ps)
  obtain t where t: "net_step p s = Some t" "net_run ps t = Some s'"
    using Cons.prems(2) by (auto simp: bind_eq_Some_conv)
  obtain side op where p: "p = (side, op)"
    by (cases p)
  have "ends_ok (fst t) (snd t)"
  proof (cases side)
    case True
    then show ?thesis
      using t(1) Cons.prems(1) node_step_ends [of "fst s" "snd s" op "fst t" "snd t"] by (simp add: net_step_def p)
  next
    case False
    then obtain u where "node_step op (snd s) (fst s) = Some u" "t = prod.swap u"
      using t(1) by (auto simp: net_step_def p)
    then show ?thesis
      using Cons.prems(1) node_step_ends [of "snd s" "fst s" op "fst u" "snd u"] ends_sym by simp
  qed
  then show ?case
    using Cons.IH t(2) by blast
qed simp

lemma start_ends:
  assumes "established cfa a" "established cfb b"
  shows "ends_ok (node_start cfa a) (node_start cfb b)"
  using assms by (simp add: established_def ends_ok_def node_ok_def books_def half_def node_start_def numbers_ok_def acks_ok_def)

text \<open>C1: two ends of a session, joined by wires that keep the order of frames and may lose any of
  them, carry every packet across at most once and in order. However calls, transmissions,
  arrivals and losses interleave, as long as the session lasts and no packet runs out of its
  time to live: what one application was handed is a prefix of what the other submitted,
  with channels, payloads and sizes intact; what was confirmed is a prefix of it too, and
  everything confirmed has been handed over.\<close>

theorem session_in_order:
  assumes "established cfa a" "established cfb b" "net_run ps (node_start cfa a, node_start cfb b) = Some (x, y)"
  shows "prefix (nd_got y) (map content (nd_took x)) \<and> prefix (nd_conf x) (nd_took x) \<and>
    length (nd_conf x) \<le> length (nd_got y) \<and> length (nd_took x) \<le> length (nd_conf x) + wnd (nd_build x) (nd_conn x) \<and>
    prefix (nd_got x) (map content (nd_took y)) \<and> prefix (nd_conf y) (nd_took y) \<and>
    length (nd_conf y) \<le> length (nd_got x) \<and> length (nd_took y) \<le> length (nd_conf y) + wnd (nd_build y) (nd_conn y)"
proof -
  have s: "ends_ok x y"
    using net_run_ends [of "(node_start cfa a, node_start cfb b)"] start_ends [OF assms(1,2)] assms(3) by fastforce
  have "prefix (nd_conf n) (nd_took n)" if "node_ok n" for n
    using that by (simp add: node_ok_def books_def)
  then show ?thesis
    using s node_window(1) [of x] node_window(1) [of y] by (simp add: ends_ok_def half_def)
qed

section \<open>A session of one packet\<close>

definition small_config :: config where
  "small_config = default_config\<lparr>CONFIG_LUDLC_MAX_PAYLOAD_SIZE := 2\<rparr>"

definition sample_end :: ludlc_connection where
  "sample_end =
     \<lparr>conn_cb = Some all_callbacks, ping_timer = None, wd_timer = None, conn_flags = 27,
      conn_cfg = \<lparr>get_timestamp = None, ping_time = 0, max_payload = 0, window = 0, default_ttl = 0, chan_tag_bits = 0\<rparr>,
      packets_q = [item_zero, item_zero, item_zero, item_zero], tx_payload = [0, 0],
      tx_hdr = \<lparr>hdr_tx_id = 0, hdr_ack_id = 0, hdr_chan = 0\<rparr>, u_packet = item_zero, u_confirm = item_zero,
      conn_stats = stats_zero, last_queued = 0, last_sent = 0, last_ack = 0, last_received = 0, last_seen = 0,
      nak_track = 0, last_reported = 0, report_busy = 0, conn_state = LUDLC_STATE_CONNECTED\<rparr>"

lemma sample_end_established: "established small_config sample_end"
proof -
  have flags: "has_flag m sample_end \<longleftrightarrow> m = 0 \<or> m = 1 \<or> m = 3 \<or> m = 4" if "m < 32" for m
    using that by (auto simp: sample_end_def has_flag_bit bit_simps less_Suc_eq numeral_eq_Suc)
  have zero: "id_dist 0 0 = 0" "is_seq 0"
    by (simp_all add: id_dist_def is_seq_def)
  then have "outstanding small_config sample_end = []"
    by (simp add: outstanding_def sample_end_def slots_def)
  moreover have "ring_ok small_config sample_end"
    by (simp add: ring_ok_def sample_end_def wnd_def ludlc_conn_window_def window_ok_def small_config_def default_config_def)
  ultimately show ?thesis
    using flags zero
    by (simp add: established_def conn_inv_def inv_defs settled_def u_flight_def ludlc_conn_last_reported_def Let_def)
       (simp add: sample_end_def ludlc_conn_payload_lim_def small_config_def default_config_def listens_def
          takes_data_def all_callbacks_def)
qed

lemma bind_weak: "x = y \<Longrightarrow> Option.bind x f = Option.bind y f" by simp
lemmas run_weak = let_weak_cong prod.case_cong_weak option.case_cong_weak bind_weak if_weak_cong
lemmas run_defs = default_config_def small_config_def item_zero_def is_ctrl_chan_def ludlc_conn_chan_id_mask_def LUDLC_CHAN_ID_MASK_def ludlc_conn_chan_tag_bits_def LUDLC_CHAN_TAG_PER_LINK_def
   ludlc_conn_payload_lim_def enqueue_lock_def has_flag_def ludlc_platform_test_bit_def ludlc_platform_set_bit_def ludlc_platform_clear_bit_def
    ludlc_tx_queue_full_def set_slot_def slot_def slot_idx_def ludlc_conn_window_mask_def ludlc_conn_window_def Let_def
   ludlc_conn_last_reported_def set_flag_def clear_flag_def start_ping_timer_def ludlc_conn_ping_time_def copy_payload_def tx_connected_def tx_choose_def tx_ack_field_def rx_nak_untracked_def
   get_packet_lock_def ludlc_get_packet_to_send_def ludlc_enqueue_data_def LUDLC_ATOMIC_MASK_def mask_eq_exp_minus_1 LUDLC_BITS_PER_WORD_def

lemmas step_defs = ludlc_receive_def rx_handle_packet_def rx_connected_def rx_handle_ack_def rx_handle_seq_def rx_gap_def rx_nak_answered_def rx_handle_nak_def
  ludlc_watchdog_restart_def ludlc_conn_wd_time_def is_ping_def pkt_tx_id_def pkt_ack_id_def pkt_chan_def pkt_payload_def octet_at_def
  rx_payload_size_def rx_call_caps_def rx_call_connect_def rx_call_expired_def rx_call_recv_def ludlc_call_on_confirm_def ludlc_confirm_queued_lock_def ludlc_confirm_unlocked_def
  ludlc_platform_clear_mask_def inc_on_conn_def inc_dropped_def net_step_def heard_def node_start_def frame_octets_def hdr_octets_def buf_ok_def all_callbacks_def on_disconnect_lock_def confirms_def stats_zero_def

lemma sample_run: "\<exists>x y. net_run [(True, Submit 5 (Some [1, 2]) 2 3), (True, Transmit), (False, Arrive 0), (False, Transmit), (True, Arrive 0)]
    (node_start small_config sample_end, node_start small_config sample_end) = Some (x, y) \<and>
    nd_got y = [(5, [1, 2], 2)] \<and> nd_conf x = [(5, Some [1, 2], 2)] \<and> nd_took x = [(5, Some [1, 2], 2)]"
  by (simp add: run_defs step_defs sample_end_def lock_confirms_def cong: run_weak)

theorem session_in_order_witness:
  "\<exists>x y. net_run [(True, Submit 5 (Some [1, 2]) 2 3), (True, Transmit), (False, Arrive 0), (False, Transmit), (True, Arrive 0)]
    (node_start small_config sample_end, node_start small_config sample_end) = Some (x, y) \<and>
    nd_got y = [(5, [1, 2], 2)] \<and> nd_conf x = [(5, Some [1, 2], 2)] \<and>
    prefix (nd_got y) (map content (nd_took x)) \<and> length (nd_conf x) \<le> length (nd_got y)"
  using sample_run session_in_order [OF sample_end_established sample_end_established] by blast

end
