(* ===== verification/Ludlc_Channel.thy ===== *)
theory Ludlc_Channel
  imports Ludlc_Transmit
begin

text \<open>
  The channel field: an identifier in the low bits and the application's tag in the high
  ones (\<open>ludlc_chan_make\<close>, \<open>ludlc_chan_id\<close> and \<open>ludlc_chan_tag\<close> of
  \<open>src/src/lib/ludlc.c\<close>).
\<close>

lemma bit_chan_id_mask [flag_simps]: "bit (LUDLC_CHAN_ID_MASK b) n \<longleftrightarrow> b + n < 8"
  by (auto simp: LUDLC_CHAN_ID_MASK_def bit_simps)

lemmas chan_defs = ludlc_chan_make_def ludlc_chan_id_def ludlc_chan_tag_def Let_def

lemma bit_word_bound: "bit (w :: 8 word) n \<Longrightarrow> n < 8"
  using bit_imp_le_length [of w n] by simp

text \<open>C23: a channel field built from an identifier and a tag gives both back, cut to the
  bits the link has for them, and splitting a field and building it again is the identity.\<close>

theorem chan_roundtrip:
  assumes "link_tag_bits cf conn < 8"
  shows "ludlc_chan_id cf conn (ludlc_chan_make cf conn i tag) = i AND LUDLC_CHAN_ID_MASK (link_tag_bits cf conn) \<and>
    ludlc_chan_tag cf conn (ludlc_chan_make cf conn i tag) = take_bit (link_tag_bits cf conn) tag \<and>
    ludlc_chan_make cf conn (ludlc_chan_id cf conn c) (ludlc_chan_tag cf conn c) = c"
  using assms
  by (auto intro!: bit_eqI simp: chan_defs bit_simps bit_chan_id_mask dest: bit_word_bound)

theorem chan_roundtrip_witness:
  "ludlc_chan_tag (default_config\<lparr>CONFIG_LUDLC_CHAN_TAG_BITS := 3\<rparr>)
     (Some (conn_zero default_config))
     (ludlc_chan_make (default_config\<lparr>CONFIG_LUDLC_CHAN_TAG_BITS := 3\<rparr>)
        (Some (conn_zero default_config)) 0xff 0x0e) = 6"
proof -
  have "link_tag_bits (default_config\<lparr>CONFIG_LUDLC_CHAN_TAG_BITS := 3\<rparr>) (Some (conn_zero default_config)) = 3"
    by (simp add: link_tag_bits_def ludlc_conn_chan_tag_bits_def LUDLC_CHAN_TAG_PER_LINK_def default_config_def)
  then show ?thesis
    using chan_roundtrip [of "default_config\<lparr>CONFIG_LUDLC_CHAN_TAG_BITS := 3\<rparr>"
        "Some (conn_zero default_config)" 255 14] by (simp add: take_bit_eq_mod)
qed

end
