(* ===== verification/Ludlc_Csum.thy ===== *)
theory Ludlc_Csum
  imports Ludlc_Conn
begin

text \<open>
  The checksum a link runs (\<open>struct ludlc_csum\<close>, \<open>src/src/include/ludlc_proto.h\<close>), the
  helpers the framings compute it through (\<open>src/src/lib/include/ludlc_private.h\<close>) and the
  CRC-16 of the POSIX port (\<open>src/src/lib/platform/posix/ludlc_posix_serial.c\<close>). The
  register \<open>ludlc_csum_t\<close> is 8 to 64 bits wide, so its width is the type parameter
  \<open>'c\<close>; a link that runs no checksum has \<^const>\<open>None\<close> for the descriptor. The last
  section shows that the CRC leaves the residual its descriptor declares.
\<close>

section \<open>Descriptor and helpers\<close>

record 'r ludlc_csum =
  csum_name :: string
  csum_fn :: "'r \<Rightarrow> octet \<Rightarrow> 'r"
  to_wire :: "('r \<Rightarrow> 'r) option"
  csum_init :: 'r
  csum_verify :: 'r
  csum_octets :: uint8

type_synonym 'c csum_alg = "'c word ludlc_csum option"

definition ludlc_csum_on :: "('c::len) csum_alg \<Rightarrow> bool" where
  "ludlc_csum_on alg \<longleftrightarrow> alg \<noteq> None"

definition ludlc_csum_octets :: "('c::len) csum_alg \<Rightarrow> uint8" where
  "ludlc_csum_octets alg = (case alg of None \<Rightarrow> 0 | Some a \<Rightarrow> csum_octets a)"

definition ludlc_csum_tx_init :: "('c::len) csum_alg \<Rightarrow> 'c word" where
  "ludlc_csum_tx_init alg = csum_init (the alg)"

definition ludlc_csum_tx :: "('c::len) csum_alg \<Rightarrow> 'c word \<Rightarrow> octet \<Rightarrow> 'c word" where
  "ludlc_csum_tx alg c data = csum_fn (the alg) c data"

definition ludlc_csum_tx_final :: "('c::len) csum_alg \<Rightarrow> 'c word \<Rightarrow> 'c word" where
  "ludlc_csum_tx_final alg c = (case to_wire (the alg) of Some f \<Rightarrow> f c | None \<Rightarrow> c)"

definition ludlc_csum_rx_init :: "('c::len) csum_alg \<Rightarrow> 'c word" where
  "ludlc_csum_rx_init alg = csum_init (the alg)"

definition ludlc_csum_rx :: "('c::len) csum_alg \<Rightarrow> 'c word \<Rightarrow> octet \<Rightarrow> 'c word" where
  "ludlc_csum_rx alg c data = csum_fn (the alg) c data"

definition ludlc_csum_rx_ok :: "('c::len) csum_alg \<Rightarrow> 'c word \<Rightarrow> bool" where
  "ludlc_csum_rx_ok alg c \<longleftrightarrow> c = csum_verify (the alg)"

definition ludlc_frame_min_sz :: "('c::len) csum_alg \<Rightarrow> nat" where
  "ludlc_frame_min_sz alg = (if ludlc_csum_on alg then unat (ludlc_csum_octets alg) else 0) + sizeof_ping"

definition ludlc_conn_frame_sz :: "config \<Rightarrow> ludlc_connection \<Rightarrow> ('c::len) csum_alg \<Rightarrow> ludlc_frame_size_t" where
  "ludlc_conn_frame_sz cf conn alg =
     of_nat (LUDLC_FRAME_SIZE (unat (ludlc_conn_payload_lim cf conn)) (unat (ludlc_csum_octets alg)))"

definition ludlc_cfg_max_payload :: "config \<Rightarrow> ludlc_conn_cfg option \<Rightarrow> ludlc_payload_size_t" where
  "ludlc_cfg_max_payload cf cfg =
     (case cfg of
        Some c \<Rightarrow> if CONFIG_LUDLC_MULTI_CONN cf \<and> max_payload c \<noteq> 0 then max_payload c
                  else of_nat (CONFIG_LUDLC_MAX_PAYLOAD_SIZE cf)
      | None \<Rightarrow> of_nat (CONFIG_LUDLC_MAX_PAYLOAD_SIZE cf))"

section \<open>The octets of a frame\<close>

text \<open>
  The checksum goes out least significant octet first, shifted out of the register. A
  frame is a packet followed by its checksum.
\<close>

fun shift_out :: "nat \<Rightarrow> ('c::len) word \<Rightarrow> octet list" where
  "shift_out 0 w = []"
| "shift_out (Suc n) w = ucast w # shift_out n (drop_bit 8 w)"

definition csum_run :: "('c::len) csum_alg \<Rightarrow> 'c word \<Rightarrow> octet list \<Rightarrow> 'c word" where
  "csum_run alg c xs = foldl (ludlc_csum_tx alg) c xs"

definition csum_end :: "('c::len) csum_alg \<Rightarrow> 'c word \<Rightarrow> octet list" where
  "csum_end alg c =
     (if ludlc_csum_on alg
      then shift_out (unat (ludlc_csum_octets alg)) (ludlc_csum_tx_final alg c) else [])"

definition csum_tail :: "('c::len) csum_alg \<Rightarrow> octet list \<Rightarrow> octet list" where
  "csum_tail alg xs = csum_end alg (csum_run alg (ludlc_csum_tx_init alg) xs)"

definition frame_of :: "('c::len) csum_alg \<Rightarrow> octet list \<Rightarrow> octet list" where
  "frame_of alg xs = xs @ csum_tail alg xs"

text \<open>
  What a descriptor has to promise: at least one octet, and the residual it declares over
  every packet followed by its checksum.
\<close>

definition csum_ok :: "('c::len) csum_alg \<Rightarrow> bool" where
  "csum_ok alg \<longleftrightarrow> (ludlc_csum_on alg \<longrightarrow> 1 \<le> ludlc_csum_octets alg \<and>
     (\<forall>xs. ludlc_csum_rx_ok alg (csum_run alg (ludlc_csum_rx_init alg) (frame_of alg xs))))"

lemma length_shift_out [simp]: "length (shift_out n w) = n"
  by (induction n arbitrary: w) simp_all

lemma shift_out_nth: "i < n \<Longrightarrow> shift_out n w ! i = ucast (drop_bit (8 * i) w)"
proof (induction n arbitrary: w i)
  case (Suc n)
  then show ?case
    by (cases i) (simp_all add: ac_simps)
qed simp

lemma length_csum_end [simp]: "length (csum_end alg c) = unat (ludlc_csum_octets alg)"
  by (simp add: csum_end_def ludlc_csum_on_def ludlc_csum_octets_def split: option.splits)

lemma length_frame_of [simp]: "length (frame_of alg xs) = length xs + unat (ludlc_csum_octets alg)"
  by (simp add: frame_of_def csum_tail_def)

lemma csum_run_simps [simp]:
  "csum_run alg c [] = c"
  "csum_run alg c (x # xs) = csum_run alg (ludlc_csum_tx alg c x) xs"
  "csum_run alg c (xs @ ys) = csum_run alg (csum_run alg c xs) ys"
  by (simp_all add: csum_run_def)

lemma rx_is_tx [simp]:
  "ludlc_csum_rx alg = ludlc_csum_tx alg" "ludlc_csum_rx_init alg = ludlc_csum_tx_init alg"
  by (simp_all add: fun_eq_iff ludlc_csum_rx_def ludlc_csum_tx_def ludlc_csum_rx_init_def ludlc_csum_tx_init_def)

lemma csum_okD:
  assumes "csum_ok alg" "ludlc_csum_on alg"
  shows "ludlc_csum_rx_ok alg (csum_run alg (ludlc_csum_tx_init alg) (frame_of alg xs))"
    and "0 < unat (ludlc_csum_octets alg)"
  using assms by (auto simp: csum_ok_def word_le_nat_alt)

lemma csum_off [simp]: "\<not> ludlc_csum_on alg \<Longrightarrow> csum_end alg c = []"
  "\<not> ludlc_csum_on alg \<Longrightarrow> ludlc_csum_octets alg = 0"
  by (simp_all add: csum_end_def ludlc_csum_on_def ludlc_csum_octets_def)

lemma frame_min_sz: "ludlc_frame_min_sz alg = unat (ludlc_csum_octets alg) + 2"
  by (simp add: ludlc_frame_min_sz_def)

lemma csum_ok_none [simp]: "csum_ok None"
  by (simp add: csum_ok_def ludlc_csum_on_def)

section \<open>CRC-16/KERMIT\<close>

definition crc_bit :: "16 word \<Rightarrow> 16 word" where
  "crc_bit crc = (if crc AND 1 \<noteq> 0 then drop_bit 1 crc XOR 0x8408 else drop_bit 1 crc)"

definition ludlc_crc16_ccitt_pr0_byte :: "16 word \<Rightarrow> octet \<Rightarrow> 16 word" where
  "ludlc_crc16_ccitt_pr0_byte crc data = (crc_bit ^^ 8) (crc XOR ucast data)"

definition ludlc_crc16_ccitt_pr0 :: "16 word ludlc_csum" where
  "ludlc_crc16_ccitt_pr0 = \<lparr>csum_name = ''crc16-ccitt-pr0'', csum_fn = ludlc_crc16_ccitt_pr0_byte,
     to_wire = None, csum_init = 0, csum_verify = 0, csum_octets = 2\<rparr>"

text \<open>While the low octet is clear the register only shifts.\<close>

lemma crc_bit_shift: "\<not> bit c 0 \<Longrightarrow> crc_bit c = drop_bit 1 c"
  by (simp add: crc_bit_def and_one_eq bit_0 odd_iff_mod_2_eq_one [symmetric])

lemma crc_bits_shift: "\<forall>i<n. \<not> bit c i \<Longrightarrow> (crc_bit ^^ n) c = drop_bit n c"
proof (induction n)
  case (Suc n)
  then have "(crc_bit ^^ n) c = drop_bit n c" and "\<not> bit (drop_bit n c) 0"
    by (simp_all add: bit_drop_bit_eq)
  then show ?case
    by (simp add: crc_bit_shift)
qed simp

lemma crc_own_octet: "ludlc_crc16_ccitt_pr0_byte c (ucast c) = drop_bit 8 c"
  unfolding ludlc_crc16_ccitt_pr0_byte_def
proof (subst crc_bits_shift)
  show "\<forall>i<8. \<not> bit (c XOR ucast (ucast c :: octet)) i"
    by (auto simp: bit_simps)
  show "drop_bit 8 (c XOR ucast (ucast c :: octet)) = drop_bit 8 c"
    by (intro bit_eqI) (auto simp: bit_simps dest: bit_imp_le_length)
qed

lemma crc16_residual: "csum_ok (Some ludlc_crc16_ccitt_pr0)"
proof -
  have "drop_bit 8 (drop_bit 8 c) = 0" for c :: "16 word"
    by (intro bit_eqI) (auto simp: bit_simps dest: bit_imp_le_length)
  then have "csum_run (Some ludlc_crc16_ccitt_pr0) c (shift_out 2 c) = 0" for c
    by (simp add: numeral_2_eq_2 ludlc_csum_tx_def ludlc_crc16_ccitt_pr0_def crc_own_octet)
  then show ?thesis
    by (simp add: csum_ok_def frame_of_def csum_tail_def csum_end_def ludlc_csum_on_def ludlc_csum_octets_def
        ludlc_csum_tx_final_def ludlc_csum_rx_ok_def ludlc_crc16_ccitt_pr0_def)
qed

end
