(* ===== verification/Ludlc_Framing.thy ===== *)
theory Ludlc_Framing
  imports Ludlc_Csum
begin

text \<open>
  What every framing promises a transport (\<open>src/src/lib/include/ludlc_framing.h\<close>): an
  encoder is asked for octets in chunks of any size, a decoder is given octets in chunks of
  any size, and neither result depends on the chunks. The locales state those contracts
  over the entry points \<open>enc_fill\<close>, \<open>enc_busy\<close>, \<open>enc_prep\<close> and \<open>dec_feed\<close>; each
  codec theory interprets them on its own state machines. A framing that follows the
  contract carries a packet over, however both ends are driven.
\<close>

section \<open>The reserved octets a build chooses\<close>

record framing_config =
  LUDLC_SOF :: octet
  LUDLC_ESC :: octet
  LUDLC_COBS_DELIMITER :: octet

abbreviation (input) LUDLC_MASK :: octet where "LUDLC_MASK \<equiv> 0x20"

definition default_framing_config :: framing_config where
  "default_framing_config = \<lparr>LUDLC_SOF = 0x55, LUDLC_ESC = 0xaa, LUDLC_COBS_DELIMITER = 0\<rparr>"

section \<open>The packet given to an encoder\<close>

text \<open>A segment of the caller's packet: a pointer with a size it covers, or nothing.\<close>

definition has_octets :: "buffer \<Rightarrow> ludlc_payload_size_t \<Rightarrow> bool" where
  "has_octets buf sz \<longleftrightarrow> sz = 0 \<or> buf \<noteq> None \<and> unat sz \<le> length (the buf)"

definition segment :: "buffer \<Rightarrow> ludlc_payload_size_t \<Rightarrow> octet list" where
  "segment buf sz = take (unat sz) (the buf)"

lemma segment_0 [simp]: "segment buf 0 = []"
  by (simp add: segment_def)

lemma length_segment [simp]: "has_octets buf sz \<Longrightarrow> length (segment buf sz) = unat sz"
  by (auto simp: has_octets_def segment_def)

text \<open>The octets \<open>p[0]\<close> to \<open>p[n-1]\<close>, and writing octets one after another from an index on.\<close>

definition read_octets :: "octet list \<Rightarrow> nat \<Rightarrow> octet list" where
  "read_octets p n = map ((!) p) [0..<n]"

fun copy_at :: "octet list \<Rightarrow> nat \<Rightarrow> octet list \<Rightarrow> octet list" where
  "copy_at p i [] = p"
| "copy_at p i (x # xs) = copy_at (p[i := x]) (Suc i) xs"

lemma length_read_octets [simp]: "length (read_octets p n) = n"
  by (simp add: read_octets_def)

lemma read_octets_take: "n \<le> length p \<Longrightarrow> read_octets p n = take n p"
  by (simp add: read_octets_def list_eq_iff_nth_eq)

lemma length_copy_at [simp]: "length (copy_at p i xs) = length p"
  by (induction p i xs rule: copy_at.induct) simp_all

lemma copy_at_append: "copy_at p i (xs @ ys) = copy_at (copy_at p i xs) (i + length xs) ys"
  by (induction p i xs rule: copy_at.induct) simp_all

lemma copy_at_take: "i + length xs \<le> length p \<Longrightarrow> take (i + length xs) (copy_at p i xs) = take i p @ xs"
  by (induction p i xs rule: copy_at.induct) (auto simp: take_Suc_conv_app_nth)

lemma copy_at_drop: "i + length xs \<le> n \<Longrightarrow> drop n (copy_at p i xs) = drop n p"
  by (induction p i xs rule: copy_at.induct) simp_all

section \<open>Driving an encoder and a decoder chunk by chunk\<close>

fun fill_chunks :: "('s \<Rightarrow> nat \<Rightarrow> 's \<times> octet list) \<Rightarrow> 's \<Rightarrow> nat list \<Rightarrow> 's \<times> octet list" where
  "fill_chunks fill s [] = (s, [])"
| "fill_chunks fill s (n # ns) =
     (let (s', out) = fill s n; (s'', out') = fill_chunks fill s' ns in (s'', out @ out'))"

fun feed_chunks :: "('d \<Rightarrow> octet list \<Rightarrow> 'd \<times> nat \<times> bool) \<Rightarrow> 'd \<Rightarrow> octet list list \<Rightarrow> 'd \<times> bool" where
  "feed_chunks feed s [] = (s, False)"
| "feed_chunks feed s (xs # xss) =
     (let (s', n, done) = feed s xs in if done then (s', True) else feed_chunks feed s' xss)"

text \<open>The state after a feed and whether a packet is complete.\<close>

definition outcome :: "'d \<times> nat \<times> bool \<Rightarrow> 'd \<times> bool" where
  "outcome r = (fst r, snd (snd r))"

lemma outcome_simps [simp]: "outcome (s, n, d) = (s, d)"
  by (simp add: outcome_def)

section \<open>The contracts\<close>

locale encoder =
  fixes fill :: "'s \<Rightarrow> nat \<Rightarrow> 's \<times> octet list"
    and busy :: "'s \<Rightarrow> bool"
    and rest :: "'s \<Rightarrow> octet list"
    and ok :: "'s \<Rightarrow> bool"
  assumes fill_out: "ok s \<Longrightarrow> snd (fill s n) = take n (rest s)"
    and fill_rest: "ok s \<Longrightarrow> rest (fst (fill s n)) = drop n (rest s)"
    and fill_ok: "ok s \<Longrightarrow> ok (fst (fill s n))"
    and fill_ends: "ok s \<Longrightarrow> length (rest s) < n \<Longrightarrow> \<not> busy (fst (fill s n))"
    and fill_idle: "\<not> busy s \<Longrightarrow> fill s n = (s, [])"
begin

lemma idle_rest: "ok s \<Longrightarrow> \<not> busy s \<Longrightarrow> rest s = []"
  using fill_out [of s "length (rest s)"] fill_idle [of s "length (rest s)"] by simp

lemma chunks_idle: "\<not> busy s \<Longrightarrow> fill_chunks fill s ns = (s, [])"
  by (induction ns) (simp_all add: fill_idle)

theorem fill_any:
  assumes "ok s"
  shows "snd (fill_chunks fill s ns) = take (sum_list ns) (rest s) \<and>
    rest (fst (fill_chunks fill s ns)) = drop (sum_list ns) (rest s) \<and>
    ok (fst (fill_chunks fill s ns)) \<and>
    (length (rest s) < sum_list ns \<longrightarrow> \<not> busy (fst (fill_chunks fill s ns)))"
  using assms
proof (induction ns arbitrary: s)
  case (Cons n ns)
  obtain s' out where f: "fill s n = (s', out)"
    by (cases "fill s n")
  then have s': "ok s'" "rest s' = drop n (rest s)" "out = take n (rest s)"
    using Cons.prems fill_out [of s n] fill_rest [of s n] fill_ok [of s n] by auto
  note IH = Cons.IH [OF s'(1)]
  have "\<not> busy (fst (fill_chunks fill s' ns))" if "length (rest s) < n + sum_list ns"
  proof (cases "length (rest s) < n")
    case True
    then show ?thesis
      using fill_ends [OF Cons.prems True] f by (simp add: chunks_idle)
  next
    case False
    then show ?thesis
      using that IH s' by simp
  qed
  then show ?case
    using IH s' f by (auto simp: split_beta take_add add.commute)
qed simp

end

locale decoder =
  fixes feed :: "'d \<Rightarrow> octet list \<Rightarrow> 'd \<times> nat \<times> bool"
    and live :: "'d \<Rightarrow> bool"
  assumes feed_live: "live s \<Longrightarrow> outcome (feed s xs) = (s', False) \<Longrightarrow> live s'"
    and feed_none: "live s \<Longrightarrow> outcome (feed s []) = (s, False)"
    and feed_stop: "live s \<Longrightarrow> outcome (feed s xs) = (s', True) \<Longrightarrow> feed s (xs @ ys) = feed s xs"
    and feed_on: "live s \<Longrightarrow> outcome (feed s xs) = (s', False) \<Longrightarrow>
                    outcome (feed s (xs @ ys)) = outcome (feed s' ys)"
begin

theorem feed_any:
  assumes "live s"
  shows "feed_chunks feed s xss = outcome (feed s (concat xss))"
  using assms
proof (induction xss arbitrary: s)
  case Nil
  then show ?case by (simp add: feed_none)
next
  case (Cons xs xss)
  obtain s' n d where f: "feed s xs = (s', n, d)"
    by (cases "feed s xs") auto
  show ?case
  proof (cases d)
    case True
    then show ?thesis
      using f feed_stop [OF Cons.prems, of xs s'] by simp
  next
    case False
    then have o: "outcome (feed s xs) = (s', False)"
      using f by simp
    then show ?thesis
      using f False Cons.IH [OF feed_live [OF Cons.prems o]] feed_on [OF Cons.prems o] by simp
  qed
qed

end

text \<open>
  A framing is an encoder and a decoder that agree on the octets of a packet. \<open>load\<close> gives
  the encoder a packet, \<open>ready\<close> says that the decoder waits for a frame this one fits in,
  and \<open>got\<close> reads the packet the decoder completed.
\<close>

locale framing = encoder fill busy rest ok + decoder feed live
  for fill :: "'s \<Rightarrow> nat \<Rightarrow> 's \<times> octet list" and busy rest ok
    and feed :: "'d \<Rightarrow> octet list \<Rightarrow> 'd \<times> nat \<times> bool" and live +
  fixes wire :: "octet list \<Rightarrow> octet list"
    and loaded :: "'s \<Rightarrow> octet list \<Rightarrow> bool"
    and ready :: "'d \<Rightarrow> octet list \<Rightarrow> bool"
    and got :: "'d \<Rightarrow> octet list"
  assumes loaded_ok: "loaded s pkt \<Longrightarrow> ok s"
    and loaded_rest: "loaded s pkt \<Longrightarrow> rest s = wire pkt"
    and ready_live: "ready d pkt \<Longrightarrow> live d"
    and decodes: "ready d pkt \<Longrightarrow> \<exists>d'. outcome (feed d (wire pkt)) = (d', True) \<and> got d' = pkt"
begin

theorem carries:
  assumes "loaded s pkt" "ready d pkt" "length (wire pkt) < sum_list ns"
    and "concat xss = snd (fill_chunks fill s ns)"
  shows "\<not> busy (fst (fill_chunks fill s ns)) \<and>
    (\<exists>d'. feed_chunks feed d xss = (d', True) \<and> got d' = pkt)"
proof -
  note c = fill_any [OF loaded_ok [OF assms(1)], of ns]
  then have "concat xss = wire pkt"
    using assms by (simp add: loaded_rest)
  then show ?thesis
    using c assms decodes [OF assms(2)] feed_any [OF ready_live [OF assms(2)], of xss]
    by (auto simp: loaded_rest)
qed

end

end
