(* ===== verification/Ludlc_Hdlc.thy ===== *)
theory Ludlc_Hdlc
  imports Ludlc_Framing
begin

text \<open>
  The escaping framing (\<open>src/src/lib/ludlc_hdlc.c\<close>): its encoder and decoder state
  machines, octet by octet as the code has them. A pointer into the caller's packet is the list of the octets from there on; the
  transport's buffer is the list of octets written so far. A packet of the caller is a
  header and a payload with their sizes.
\<close>

section \<open>State\<close>

datatype hdlc_dec_fsm_state = dec_idle | dec_wait_sof | dec_esc | dec_payload
datatype hdlc_enc_fsm_state = enc_idle | enc_data | enc_csum | enc_check_send_eof | enc_esc

record 'r ludlc_henc_state =
  henc_hdr :: buffer
  henc_payload :: buffer
  henc_ptr :: "octet list"
  henc_hdr_size :: ludlc_payload_size_t
  henc_payload_size :: ludlc_payload_size_t
  henc_sz :: ludlc_payload_size_t
  henc_csum :: 'r
  henc_state :: hdlc_enc_fsm_state
  henc_esc_state :: hdlc_enc_fsm_state
  henc_esc_data :: octet

record 'r ludlc_hdec_state =
  hdec_size :: ludlc_frame_size_t
  hdec_csum :: 'r
  hdec_state :: hdlc_dec_fsm_state
  hdec_payload :: "octet list"
  hdec_payload_cap :: ludlc_frame_size_t

record 'r hdlc_state =
  hdlc_flags :: uint32
  hdlc_enc :: "'r ludlc_henc_state"
  hdlc_dec :: "'r ludlc_hdec_state"

abbreviation (input) ENC_SEND_EOF_F :: nat where "ENC_SEND_EOF_F \<equiv> 0"

text \<open>What \<open>memset\<close> leaves in a state just created.\<close>

definition hdlc_zero :: "('c::len) word hdlc_state" where
  "hdlc_zero = \<lparr>hdlc_flags = 0,
     hdlc_enc = \<lparr>henc_hdr = None, henc_payload = None, henc_ptr = [], henc_hdr_size = 0,
       henc_payload_size = 0, henc_sz = 0, henc_csum = 0, henc_state = enc_idle,
       henc_esc_state = enc_idle, henc_esc_data = 0\<rparr>,
     hdlc_dec = \<lparr>hdec_size = 0, hdec_csum = 0, hdec_state = dec_idle, hdec_payload = [],
       hdec_payload_cap = 0\<rparr>\<rparr>"

section \<open>The encoder\<close>

definition ludlc_hdlc_enc_init :: "'r hdlc_state \<Rightarrow> 'r hdlc_state" where
  "ludlc_hdlc_enc_init fs =
     fs\<lparr>hdlc_enc := (hdlc_enc fs)\<lparr>henc_state := enc_idle, henc_hdr_size := 0, henc_payload_size := 0\<rparr>,
        hdlc_flags := ludlc_platform_clear_bit ENC_SEND_EOF_F (hdlc_flags fs)\<rparr>"

definition ludlc_hdlc_enc_prep ::
    "'r hdlc_state \<Rightarrow> buffer \<Rightarrow> ludlc_payload_size_t \<Rightarrow> buffer \<Rightarrow> ludlc_payload_size_t \<Rightarrow> bool \<Rightarrow> 'r hdlc_state" where
  "ludlc_hdlc_enc_prep fs hdr hdr_sz payload pay_sz send_eof =
     fs\<lparr>hdlc_enc := (hdlc_enc fs)\<lparr>henc_hdr := hdr, henc_hdr_size := hdr_sz, henc_payload := payload,
                                  henc_payload_size := pay_sz\<rparr>,
        hdlc_flags := (if send_eof then ludlc_platform_set_bit ENC_SEND_EOF_F (hdlc_flags fs)
                       else ludlc_platform_clear_bit ENC_SEND_EOF_F (hdlc_flags fs))\<rparr>"

definition ludlc_hdlc_enc_busy :: "'r hdlc_state \<Rightarrow> bool" where
  "ludlc_hdlc_enc_busy fs \<longleftrightarrow> henc_state (hdlc_enc fs) \<noteq> enc_idle \<or> henc_hdr_size (hdlc_enc fs) \<noteq> 0"

text \<open>
  One turn of the loop in \<open>enc_fill\<close>: the octet it writes, if it writes one. \<open>hdlc_emit\<close>
  is the end of the turn, which writes \<open>c\<close> or opens its escape sequence.
\<close>

definition hdlc_emit :: "framing_config \<Rightarrow> 'r hdlc_state \<Rightarrow> 'r ludlc_henc_state \<Rightarrow> octet \<Rightarrow> 'r hdlc_state \<times> octet option" where
  "hdlc_emit fcf fs enc c =
     (if c = LUDLC_SOF fcf \<or> c = LUDLC_ESC fcf
      then (fs\<lparr>hdlc_enc := enc\<lparr>henc_esc_state := henc_state enc, henc_state := enc_esc,
                                henc_esc_data := c XOR LUDLC_MASK\<rparr>\<rparr>, Some (LUDLC_ESC fcf))
      else (fs\<lparr>hdlc_enc := enc\<rparr>, Some c))"

definition hdlc_enc_data :: "('c::len) csum_alg \<Rightarrow> 'c word ludlc_henc_state \<Rightarrow> 'c word ludlc_henc_state \<times> octet" where
  "hdlc_enc_data alg enc =
     (let c = hd (henc_ptr enc);
          enc = enc\<lparr>henc_ptr := tl (henc_ptr enc)\<rparr>;
          enc = (if ludlc_csum_on alg then enc\<lparr>henc_csum := ludlc_csum_tx alg (henc_csum enc) c\<rparr> else enc);
          enc = enc\<lparr>henc_sz := henc_sz enc - 1\<rparr>
      in if henc_sz enc \<noteq> 0 then (enc, c)
         else if henc_payload_size enc \<noteq> 0 then
           (enc\<lparr>henc_sz := henc_payload_size enc, henc_ptr := the (henc_payload enc), henc_payload_size := 0\<rparr>, c)
         else if ludlc_csum_on alg then
           (enc\<lparr>henc_state := enc_csum, henc_csum := ludlc_csum_tx_final alg (henc_csum enc),
                henc_sz := ludlc_csum_octets alg\<rparr>, c)
         else (enc\<lparr>henc_state := enc_check_send_eof\<rparr>, c))"

definition hdlc_enc_csum :: "('c::len) word ludlc_henc_state \<Rightarrow> 'c word ludlc_henc_state \<times> octet" where
  "hdlc_enc_csum enc =
     (let c = ucast (henc_csum enc AND 0xff);
          enc = enc\<lparr>henc_csum := drop_bit 8 (henc_csum enc), henc_sz := henc_sz enc - 1\<rparr>
      in (if henc_sz enc = 0 then enc\<lparr>henc_state := enc_check_send_eof\<rparr> else enc, c))"

definition hdlc_enc_start :: "('c::len) csum_alg \<Rightarrow> 'c word ludlc_henc_state \<Rightarrow> 'c word ludlc_henc_state" where
  "hdlc_enc_start alg enc =
     (if henc_hdr_size enc \<noteq> 0 \<and> henc_hdr enc \<noteq> None
      then let enc = enc\<lparr>henc_state := enc_data, henc_ptr := the (henc_hdr enc), henc_sz := henc_hdr_size enc\<rparr>
           in if ludlc_csum_on alg then enc\<lparr>henc_csum := ludlc_csum_tx_init alg\<rparr> else enc
      else enc)"

definition hdlc_enc_turn ::
    "framing_config \<Rightarrow> ('c::len) csum_alg \<Rightarrow> 'c word hdlc_state \<Rightarrow> 'c word hdlc_state \<times> octet option" where
  "hdlc_enc_turn fcf alg fs =
     (let enc = hdlc_enc fs in
      case henc_state enc of
        enc_idle \<Rightarrow> (fs\<lparr>hdlc_enc := hdlc_enc_start alg enc\<rparr>, Some (LUDLC_SOF fcf))
      | enc_data \<Rightarrow> (let (enc, c) = hdlc_enc_data alg enc in hdlc_emit fcf fs enc c)
      | enc_csum \<Rightarrow> (let (enc, c) = hdlc_enc_csum enc in hdlc_emit fcf fs enc c)
      | enc_check_send_eof \<Rightarrow>
          (let (eof, flags) = ludlc_platform_test_and_clear_bit ENC_SEND_EOF_F (hdlc_flags fs)
           in (ludlc_hdlc_enc_init (fs\<lparr>hdlc_flags := flags\<rparr>), if eof then Some (LUDLC_SOF fcf) else None))
      | enc_esc \<Rightarrow> (fs\<lparr>hdlc_enc := enc\<lparr>henc_state := henc_esc_state enc\<rparr>\<rparr>, Some (henc_esc_data enc)))"

lemma hdlc_turn_none:
  "hdlc_enc_turn fcf alg fs = (fs', None) \<Longrightarrow>
     henc_state (hdlc_enc fs) = enc_check_send_eof \<and> henc_state (hdlc_enc fs') = enc_idle"
  by (auto simp: hdlc_enc_turn_def hdlc_emit_def Let_def ludlc_hdlc_enc_init_def
      split: hdlc_enc_fsm_state.splits prod.splits if_splits)

text \<open>
  The loop. A turn that writes nothing leaves the encoder idle with no packet, so the
  second component of the measure counts it.
\<close>

function ludlc_hdlc_enc_fill ::
    "framing_config \<Rightarrow> ('c::len) csum_alg \<Rightarrow> 'c word hdlc_state \<Rightarrow> nat \<Rightarrow> 'c word hdlc_state \<times> octet list" where
  "ludlc_hdlc_enc_fill fcf alg fs cap =
     (if 0 < cap \<and> ludlc_hdlc_enc_busy fs then
        case hdlc_enc_turn fcf alg fs of
          (fs', Some c) \<Rightarrow> (let (fs'', out) = ludlc_hdlc_enc_fill fcf alg fs' (cap - 1) in (fs'', c # out))
        | (fs', None) \<Rightarrow> ludlc_hdlc_enc_fill fcf alg fs' cap
      else (fs, []))"
  by pat_completeness auto

termination
  by (relation "measures [\<lambda>(fcf, alg, fs, cap). cap,
        \<lambda>(fcf, alg, fs, cap). if henc_state (hdlc_enc fs) = enc_check_send_eof then 1 else 0]")
    (auto dest: hdlc_turn_none [OF sym])

declare ludlc_hdlc_enc_fill.simps [simp del]

section \<open>The decoder\<close>

definition ludlc_hdlc_dec_init :: "'r hdlc_state \<Rightarrow> 'r hdlc_state" where
  "ludlc_hdlc_dec_init fs = fs\<lparr>hdlc_dec := (hdlc_dec fs)\<lparr>hdec_state := dec_idle, hdec_size := 0\<rparr>\<rparr>"

definition ludlc_hdlc_dec_prep ::
    "'c::len word hdlc_state \<Rightarrow> 'c csum_alg \<Rightarrow> octet list \<Rightarrow> ludlc_frame_size_t \<Rightarrow> 'c word hdlc_state" where
  "ludlc_hdlc_dec_prep fs alg buf cap =
     (let dec = (hdlc_dec fs)\<lparr>hdec_payload := buf, hdec_payload_cap := cap\<rparr>;
          dec = (if ludlc_csum_on alg then dec\<lparr>hdec_csum := ludlc_csum_rx_init alg\<rparr> else dec)
      in fs\<lparr>hdlc_dec := dec\<lparr>hdec_size := 0\<rparr>\<rparr>)"

text \<open>The end of a frame, on a start octet: a packet, or nothing and a fresh start.\<close>

definition hdlc_dec_end ::
    "('c::len) csum_alg \<Rightarrow> 'c word ludlc_hdec_state \<times> ludlc_stats \<Rightarrow> ('c word ludlc_hdec_state \<times> ludlc_stats) \<times> bool" where
  "hdlc_dec_end alg ds =
     (let (dec, stats) = ds;
          dec = dec\<lparr>hdec_state := dec_payload\<rparr>;
          fresh = (let dec = dec\<lparr>hdec_size := 0\<rparr>
                   in if ludlc_csum_on alg then dec\<lparr>hdec_csum := ludlc_csum_rx_init alg\<rparr> else dec)
      in if unat (hdec_size dec) \<ge> ludlc_frame_min_sz alg then
           if ludlc_csum_on alg \<and> \<not> ludlc_csum_rx_ok alg (hdec_csum dec) then
             ((fresh, stats\<lparr>bad_csum := bad_csum stats + 1\<rparr>), False)
           else
             ((if ludlc_csum_on alg then dec\<lparr>hdec_size := hdec_size dec - ucast (ludlc_csum_octets alg)\<rparr> else dec,
               stats\<lparr>rx_packet := rx_packet stats + 1\<rparr>), True)
         else if hdec_size dec \<noteq> 0 then ((fresh, stats\<lparr>dropped := dropped stats + 1\<rparr>), False)
         else ((fresh, stats), False))"

definition hdlc_dec_store ::
    "('c::len) csum_alg \<Rightarrow> 'c word ludlc_hdec_state \<times> ludlc_stats \<Rightarrow> octet \<Rightarrow> 'c word ludlc_hdec_state \<times> ludlc_stats" where
  "hdlc_dec_store alg ds c =
     (let (dec, stats) = ds in
      if hdec_size dec < hdec_payload_cap dec then
        let dec = dec\<lparr>hdec_payload := (hdec_payload dec)[unat (hdec_size dec) := c], hdec_size := hdec_size dec + 1\<rparr>
        in (if ludlc_csum_on alg then dec\<lparr>hdec_csum := ludlc_csum_rx alg (hdec_csum dec) c\<rparr> else dec, stats)
      else (dec\<lparr>hdec_state := dec_idle, hdec_size := 0\<rparr>, stats\<lparr>jabber := jabber stats + 1\<rparr>))"

text \<open>One turn of the loop in \<open>dec_feed\<close>.\<close>

definition hdlc_dec_turn ::
    "framing_config \<Rightarrow> ('c::len) csum_alg \<Rightarrow> 'c word ludlc_hdec_state \<times> ludlc_stats \<Rightarrow> octet \<Rightarrow>
     ('c word ludlc_hdec_state \<times> ludlc_stats) \<times> bool" where
  "hdlc_dec_turn fcf alg ds c =
     (let (dec, stats) = ds;
          dec = (if c = LUDLC_SOF fcf then dec\<lparr>hdec_state := dec_wait_sof\<rparr> else dec)
      in case hdec_state dec of
           dec_idle \<Rightarrow> ((dec, stats), False)
         | dec_wait_sof \<Rightarrow> hdlc_dec_end alg (dec, stats)
         | dec_esc \<Rightarrow> (hdlc_dec_store alg (dec\<lparr>hdec_state := dec_payload\<rparr>, stats) (c XOR LUDLC_MASK), False)
         | dec_payload \<Rightarrow>
             if c = LUDLC_ESC fcf then ((dec\<lparr>hdec_state := dec_esc\<rparr>, stats), False)
             else (hdlc_dec_store alg (dec, stats) c, False))"

fun hdlc_dec_loop ::
    "framing_config \<Rightarrow> ('c::len) csum_alg \<Rightarrow> 'c word ludlc_hdec_state \<times> ludlc_stats \<Rightarrow> octet list \<Rightarrow>
     ('c word ludlc_hdec_state \<times> ludlc_stats) \<times> nat \<times> bool" where
  "hdlc_dec_loop fcf alg ds [] = (ds, 0, False)"
| "hdlc_dec_loop fcf alg ds (c # cs) =
     (let (ds', done) = hdlc_dec_turn fcf alg ds c in
      if done then (ds', 1, True)
      else let (ds'', n, done) = hdlc_dec_loop fcf alg ds' cs in (ds'', n + 1, done))"

definition ludlc_hdlc_dec_feed ::
    "framing_config \<Rightarrow> ('c::len) csum_alg \<Rightarrow> 'c word hdlc_state \<times> ludlc_stats \<Rightarrow> octet list \<Rightarrow>
     ('c word hdlc_state \<times> ludlc_stats) \<times> nat \<times> bool" where
  "ludlc_hdlc_dec_feed fcf alg = (\<lambda>(fs, stats) src.
     let ((dec, stats), n, done) = hdlc_dec_loop fcf alg (hdlc_dec fs, stats) src
     in ((fs\<lparr>hdlc_dec := dec\<rparr>, stats), n, done))"

definition ludlc_hdlc_dec_size :: "'r hdlc_state \<Rightarrow> ludlc_payload_size_t" where
  "ludlc_hdlc_dec_size fs = ucast (hdec_size (hdlc_dec fs))"

definition framing_hdlc_encoded_max :: "config \<Rightarrow> ludlc_connection \<Rightarrow> ('c::len) csum_alg \<Rightarrow> ludlc_frame_size_t" where
  "framing_hdlc_encoded_max cf conn alg = ludlc_conn_frame_sz cf conn alg"

end
