(* ===== verification/Ludlc_Hdlc_Link.thy ===== *)
theory Ludlc_Hdlc_Link
  imports Ludlc_Hdlc
begin

text \<open>
  What the escaping encoder writes and what the decoder makes of it: the interpretation of
  the framing contract on \<open>src/src/lib/ludlc_hdlc.c\<close>, and its properties.
\<close>

section \<open>What the encoder writes\<close>

definition escape :: "framing_config \<Rightarrow> octet list \<Rightarrow> octet list" where
  "escape fcf xs =
     concat (map (\<lambda>c. if c = LUDLC_SOF fcf \<or> c = LUDLC_ESC fcf
                      then [LUDLC_ESC fcf, c XOR LUDLC_MASK] else [c]) xs)"

definition hdlc_eof :: "framing_config \<Rightarrow> bool \<Rightarrow> octet list" where
  "hdlc_eof fcf eof = (if eof then [LUDLC_SOF fcf] else [])"

definition hdlc_wire :: "framing_config \<Rightarrow> ('c::len) csum_alg \<Rightarrow> bool \<Rightarrow> octet list \<Rightarrow> octet list" where
  "hdlc_wire fcf alg eof pkt = LUDLC_SOF fcf # escape fcf (frame_of alg pkt) @ hdlc_eof fcf eof"

text \<open>
  What is still to come in each state of the encoder, and what its fields then have to
  satisfy. An escape sequence under way is followed by what the state it returns to writes.
\<close>

definition henc_rest ::
    "framing_config \<Rightarrow> ('c::len) csum_alg \<Rightarrow> 'c word ludlc_henc_state \<Rightarrow> bool \<Rightarrow> hdlc_enc_fsm_state \<Rightarrow> octet list" where
  "henc_rest fcf alg enc eof st =
     (case st of
        enc_idle \<Rightarrow> if henc_hdr_size enc = 0 then []
          else hdlc_wire fcf alg eof (segment (henc_hdr enc) (henc_hdr_size enc) @
                 segment (henc_payload enc) (henc_payload_size enc))
      | enc_data \<Rightarrow>
          (let xs = take (unat (henc_sz enc)) (henc_ptr enc) @ segment (henc_payload enc) (henc_payload_size enc)
           in escape fcf (xs @ csum_end alg (csum_run alg (henc_csum enc) xs)) @ hdlc_eof fcf eof)
      | enc_csum \<Rightarrow> escape fcf (shift_out (unat (henc_sz enc)) (henc_csum enc)) @ hdlc_eof fcf eof
      | enc_check_send_eof \<Rightarrow> hdlc_eof fcf eof
      | enc_esc \<Rightarrow> [])"

definition henc_ok :: "'r ludlc_henc_state \<Rightarrow> hdlc_enc_fsm_state \<Rightarrow> bool" where
  "henc_ok enc st \<longleftrightarrow>
     (case st of
        enc_idle \<Rightarrow> has_octets (henc_hdr enc) (henc_hdr_size enc) \<and>
          has_octets (henc_payload enc) (henc_payload_size enc)
      | enc_data \<Rightarrow> henc_sz enc \<noteq> 0 \<and> unat (henc_sz enc) \<le> length (henc_ptr enc) \<and>
          has_octets (henc_payload enc) (henc_payload_size enc)
      | enc_csum \<Rightarrow> henc_sz enc \<noteq> 0
      | enc_check_send_eof \<Rightarrow> True
      | enc_esc \<Rightarrow> False)"

definition hdlc_rest :: "framing_config \<Rightarrow> ('c::len) csum_alg \<Rightarrow> 'c word hdlc_state \<Rightarrow> octet list" where
  "hdlc_rest fcf alg fs =
     (let enc = hdlc_enc fs; eof = bit (hdlc_flags fs) ENC_SEND_EOF_F in
      if henc_state enc = enc_esc then henc_esc_data enc # henc_rest fcf alg enc eof (henc_esc_state enc)
      else henc_rest fcf alg enc eof (henc_state enc))"

definition hdlc_enc_ok :: "('c::len) csum_alg \<Rightarrow> 'c word hdlc_state \<Rightarrow> bool" where
  "hdlc_enc_ok alg fs \<longleftrightarrow> csum_ok alg \<and>
     (let enc = hdlc_enc fs in
      if henc_state enc = enc_esc then henc_esc_state enc \<noteq> enc_idle \<and> henc_ok enc (henc_esc_state enc)
      else henc_ok enc (henc_state enc))"

lemma escape_simps [simp]:
  "escape fcf [] = []"
  "escape fcf (x # xs) = (if x = LUDLC_SOF fcf \<or> x = LUDLC_ESC fcf
     then [LUDLC_ESC fcf, x XOR LUDLC_MASK] else [x]) @ escape fcf xs"
  "escape fcf (xs @ ys) = escape fcf xs @ escape fcf ys"
  by (simp_all add: escape_def)

text \<open>Writing one octet, escaped or not, moves on by exactly that octet.\<close>

lemma hdlc_emit_rest:
  assumes "hdlc_emit fcf fs enc c = (fs', o')" "henc_state enc \<noteq> enc_esc" "henc_state enc \<noteq> enc_idle"
    and "henc_ok enc (henc_state enc)" "csum_ok alg"
  shows "hdlc_enc_ok alg fs' \<and>
    escape fcf [c] @ henc_rest fcf alg enc (bit (hdlc_flags fs) ENC_SEND_EOF_F) (henc_state enc) =
      the o' # hdlc_rest fcf alg fs' \<and> o' \<noteq> None"
proof -
  have "henc_rest fcf alg (enc\<lparr>henc_esc_state := a, henc_state := b, henc_esc_data := d\<rparr>) e st =
      henc_rest fcf alg enc e st"
    and "henc_ok (enc\<lparr>henc_esc_state := a, henc_state := b, henc_esc_data := d\<rparr>) st = henc_ok enc st" for a b d e st
    by (simp_all add: henc_rest_def henc_ok_def split: hdlc_enc_fsm_state.split)
  then show ?thesis
    using assms by (auto simp: hdlc_emit_def hdlc_rest_def hdlc_enc_ok_def Let_def split: if_splits)
qed

lemma henc_data_rest:
  assumes "henc_ok enc enc_data" "csum_ok alg" "hdlc_enc_data alg enc = (enc', c)" "henc_state enc = enc_data"
  shows "henc_rest fcf alg enc eof enc_data = escape fcf [c] @ henc_rest fcf alg enc' eof (henc_state enc')"
    and "henc_ok enc' (henc_state enc')" "henc_state enc' \<notin> {enc_idle, enc_esc}"
proof -
  obtain m where m: "unat (henc_sz enc) = Suc m"
    using assms(1) by (cases "unat (henc_sz enc)") (auto simp: henc_ok_def unat_eq_0)
  obtain y ys where y: "henc_ptr enc = y # ys"
    using assms(1) m by (cases "henc_ptr enc") (auto simp: henc_ok_def)
  have m': "unat (henc_sz enc - 1) = m" "henc_sz enc - 1 = 0 \<longleftrightarrow> m = 0"
    using m by (auto simp: unat_minus_one unat_eq_0 [symmetric])
  have oct: "ludlc_csum_on alg \<Longrightarrow> ludlc_csum_octets alg \<noteq> 0"
    using csum_okD(2) [OF assms(2)] by auto
  note d = assms(3) [unfolded hdlc_enc_data_def, symmetric]
  show "henc_rest fcf alg enc eof enc_data = escape fcf [c] @ henc_rest fcf alg enc' eof (henc_state enc')"
    using d y m m' assms(4)
    by (auto simp: henc_rest_def Let_def segment_def csum_end_def split: if_splits)
  show "henc_ok enc' (henc_state enc')" "henc_state enc' \<notin> {enc_idle, enc_esc}"
    using d y m m' assms(1,4) oct
    by (auto simp: henc_ok_def Let_def has_octets_def split: if_splits)
qed

lemma henc_csum_rest:
  assumes "henc_ok enc enc_csum" "hdlc_enc_csum enc = (enc', c)" "henc_state enc = enc_csum"
  shows "henc_rest fcf alg enc eof enc_csum = escape fcf [c] @ henc_rest fcf alg enc' eof (henc_state enc')"
    and "henc_ok enc' (henc_state enc')" "henc_state enc' \<notin> {enc_idle, enc_esc}"
proof -
  obtain m where m: "unat (henc_sz enc) = Suc m"
    using assms(1) by (cases "unat (henc_sz enc)") (auto simp: henc_ok_def unat_eq_0)
  have m': "unat (henc_sz enc - 1) = m" "henc_sz enc - 1 = 0 \<longleftrightarrow> m = 0"
    using m by (auto simp: unat_minus_one unat_eq_0 [symmetric])
  note d = assms(2) [unfolded hdlc_enc_csum_def, symmetric]
  show "henc_rest fcf alg enc eof enc_csum = escape fcf [c] @ henc_rest fcf alg enc' eof (henc_state enc')"
    using d m m' assms(3) by (auto simp: henc_rest_def Let_def ucast_low_octet split: if_splits)
  show "henc_ok enc' (henc_state enc')" "henc_state enc' \<notin> {enc_idle, enc_esc}"
    using d m m' assms(3) by (auto simp: henc_ok_def Let_def split: if_splits)
qed


lemma hdlc_turn_rest:
  assumes "hdlc_enc_ok alg fs" "ludlc_hdlc_enc_busy fs" "hdlc_enc_turn fcf alg fs = (fs', o')"
  shows "hdlc_enc_ok alg fs' \<and> hdlc_rest fcf alg fs = (case o' of None \<Rightarrow> [] | Some c \<Rightarrow> [c]) @ hdlc_rest fcf alg fs'"
proof (cases "henc_state (hdlc_enc fs)")
  case enc_idle
  then have "has_octets (henc_hdr (hdlc_enc fs)) (henc_hdr_size (hdlc_enc fs))"
      "has_octets (henc_payload (hdlc_enc fs)) (henc_payload_size (hdlc_enc fs))"
      "henc_hdr_size (hdlc_enc fs) \<noteq> 0" "csum_ok alg"
    using assms(1,2) by (simp_all add: hdlc_enc_ok_def henc_ok_def ludlc_hdlc_enc_busy_def Let_def)
  then show ?thesis
    using assms(3) enc_idle
    by (cases "ludlc_csum_on alg") (auto simp: hdlc_enc_turn_def hdlc_enc_start_def hdlc_rest_def hdlc_enc_ok_def henc_rest_def henc_ok_def
        hdlc_wire_def frame_of_def csum_tail_def segment_def has_octets_def Let_def unat_eq_0)
next
  case enc_data
  obtain enc' c where d: "hdlc_enc_data alg (hdlc_enc fs) = (enc', c)"
    by (cases "hdlc_enc_data alg (hdlc_enc fs)")
  have ok: "henc_ok (hdlc_enc fs) enc_data" "csum_ok alg"
    using assms(1) enc_data by (simp_all add: hdlc_enc_ok_def)
  note r = henc_data_rest [OF ok d enc_data]
  have "hdlc_emit fcf fs enc' c = (fs', o')"
    using assms(3) enc_data d by (simp add: hdlc_enc_turn_def)
  from hdlc_emit_rest [OF this _ _ r(2) ok(2)] r show ?thesis
    using enc_data by (auto simp: hdlc_rest_def)
next
  case enc_csum
  obtain enc' c where d: "hdlc_enc_csum (hdlc_enc fs) = (enc', c)"
    by (cases "hdlc_enc_csum (hdlc_enc fs)")
  have ok: "henc_ok (hdlc_enc fs) enc_csum" "csum_ok alg"
    using assms(1) enc_csum by (simp_all add: hdlc_enc_ok_def)
  note r = henc_csum_rest [OF ok(1) d enc_csum]
  have "hdlc_emit fcf fs enc' c = (fs', o')"
    using assms(3) enc_csum d by (simp add: hdlc_enc_turn_def)
  from hdlc_emit_rest [OF this _ _ r(2) ok(2)] r show ?thesis
    using enc_csum by (auto simp: hdlc_rest_def)
next
  case enc_check_send_eof
  then show ?thesis
    using assms by (auto simp: hdlc_enc_turn_def hdlc_rest_def hdlc_enc_ok_def henc_rest_def henc_ok_def hdlc_eof_def
        ludlc_hdlc_enc_init_def has_octets_def test_and_clear_bit_eq bit_clear_bit Let_def)
next
  case enc_esc
  then show ?thesis
    using assms by (auto simp: hdlc_enc_turn_def hdlc_rest_def hdlc_enc_ok_def henc_rest_def henc_ok_def Let_def
        split: hdlc_enc_fsm_state.splits)
qed

lemma hdlc_idle_rest: "\<not> ludlc_hdlc_enc_busy fs \<Longrightarrow> hdlc_rest fcf alg fs = []"
  by (simp add: ludlc_hdlc_enc_busy_def hdlc_rest_def henc_rest_def)

lemma hdlc_fill_idle: "\<not> ludlc_hdlc_enc_busy fs \<Longrightarrow> ludlc_hdlc_enc_fill fcf alg fs n = (fs, [])"
  by (subst ludlc_hdlc_enc_fill.simps) simp

lemma hdlc_fill_rest:
  assumes "hdlc_enc_ok alg fs"
  shows "snd (ludlc_hdlc_enc_fill fcf alg fs n) = take n (hdlc_rest fcf alg fs) \<and>
    hdlc_rest fcf alg (fst (ludlc_hdlc_enc_fill fcf alg fs n)) = drop n (hdlc_rest fcf alg fs) \<and>
    hdlc_enc_ok alg (fst (ludlc_hdlc_enc_fill fcf alg fs n)) \<and>
    (length (snd (ludlc_hdlc_enc_fill fcf alg fs n)) < n \<longrightarrow> \<not> ludlc_hdlc_enc_busy (fst (ludlc_hdlc_enc_fill fcf alg fs n)))"
  using assms
proof (induction fcf alg fs n rule: ludlc_hdlc_enc_fill.induct)
  case (1 fcf alg fs cap)
  show ?case
  proof (cases "0 < cap \<and> ludlc_hdlc_enc_busy fs")
    case False
    then show ?thesis
      using 1 by (subst (1 2 3 4 5) ludlc_hdlc_enc_fill.simps) (auto simp: hdlc_idle_rest)
  next
    case True
    obtain fs' o' where t: "hdlc_enc_turn fcf alg fs = (fs', o')"
      by (cases "hdlc_enc_turn fcf alg fs")
    note r = hdlc_turn_rest [OF "1.prems" conjunct2 [OF True] t]
    have f: "ludlc_hdlc_enc_fill fcf alg fs cap =
      (case o' of Some c \<Rightarrow> (let (fs'', out) = ludlc_hdlc_enc_fill fcf alg fs' (cap - 1) in (fs'', c # out))
       | None \<Rightarrow> ludlc_hdlc_enc_fill fcf alg fs' cap)"
      using True t by (subst ludlc_hdlc_enc_fill.simps) (simp split: option.splits)
    show ?thesis
    proof (cases o')
      case None
      then show ?thesis
        using "1.IH"(1) [OF True t [symmetric] None] r f t by simp
    next
      case (Some c)
      then show ?thesis
        using "1.IH"(2) [OF True t [symmetric] Some] r f True by (cases cap) (auto simp: split_beta)
    qed
  qed
qed

section \<open>What the decoder makes of it\<close>

text \<open>Reserved octets an escape sequence can tell apart; the defaults are.\<close>

definition hdlc_marks_ok :: "framing_config \<Rightarrow> bool" where
  "hdlc_marks_ok fcf \<longleftrightarrow> LUDLC_SOF fcf \<noteq> LUDLC_ESC fcf \<and> LUDLC_ESC fcf XOR LUDLC_MASK \<noteq> LUDLC_SOF fcf"

text \<open>A decoder inside a frame that has gathered the octets \<open>xs\<close> of it.\<close>

definition gathered :: "('c::len) csum_alg \<Rightarrow> octet list \<Rightarrow> 'c word ludlc_hdec_state \<Rightarrow> bool" where
  "gathered alg xs dec \<longleftrightarrow> hdec_state dec = dec_payload \<and> unat (hdec_size dec) = length xs \<and>
     take (length xs) (hdec_payload dec) = xs \<and> unat (hdec_payload_cap dec) \<le> length (hdec_payload dec) \<and>
     (ludlc_csum_on alg \<longrightarrow> hdec_csum dec = csum_run alg (ludlc_csum_tx_init alg) xs)"

lemma hdlc_loop_append:
  "hdlc_dec_loop fcf alg ds (xs @ ys) =
     (let (ds', n, d) = hdlc_dec_loop fcf alg ds xs in
      if d then (ds', n, True)
      else let (ds'', m, e) = hdlc_dec_loop fcf alg ds' ys in (ds'', n + m, e))"
  by (induction xs arbitrary: ds) (auto simp: split_beta Let_def)

lemma hdlc_loop_count:
  "let (ds', n, d) = hdlc_dec_loop fcf alg ds xs in n \<le> length xs \<and> (\<not> d \<longrightarrow> n = length xs)"
  by (induction xs arbitrary: ds) (auto simp: split_beta Let_def)

lemma gathered_store:
  assumes "gathered alg xs dec" "length xs < unat (hdec_payload_cap dec)"
  shows "\<exists>dec'. hdlc_dec_store alg (dec, stats) c = (dec', stats) \<and> gathered alg (xs @ [c]) dec' \<and>
    hdec_payload_cap dec' = hdec_payload_cap dec"
proof -
  have "unat (hdec_size dec + 1) = Suc (unat (hdec_size dec))"
    using assms by (intro unat_suc_16 [where y = "hdec_payload_cap dec"]) (simp add: gathered_def)
  moreover have "hdec_size dec < hdec_payload_cap dec" "length xs < length (hdec_payload dec)"
    using assms by (simp_all add: gathered_def word_less_nat_alt)
  moreover have "take (Suc (length xs)) ((hdec_payload dec)[length xs := c]) = xs @ [c]"
    using assms calculation(3) by (simp add: gathered_def take_Suc_conv_app_nth)
  ultimately show ?thesis
    using assms by (simp add: hdlc_dec_store_def gathered_def Let_def)
qed

lemma mask_changes: "(x :: octet) XOR LUDLC_MASK \<noteq> x"
proof
  assume "x XOR LUDLC_MASK = x"
  then have "x XOR (x XOR LUDLC_MASK) = 0"
    by simp
  then show False
    by (simp add: xor.assoc [symmetric])
qed

lemma gathered_escaped:
  assumes "hdlc_marks_ok fcf" "gathered alg xs dec" "length xs + length ys \<le> unat (hdec_payload_cap dec)"
  shows "\<exists>dec' n. hdlc_dec_loop fcf alg (dec, stats) (escape fcf ys) = ((dec', stats), n, False) \<and>
    gathered alg (xs @ ys) dec' \<and> hdec_payload_cap dec' = hdec_payload_cap dec"
  using assms(2,3)
proof (induction ys arbitrary: xs dec)
  case Nil
  then show ?case by simp
next
  case (Cons y ys)
  obtain dec' where d: "hdlc_dec_store alg (dec, stats) y = (dec', stats)" "gathered alg (xs @ [y]) dec'"
      "hdec_payload_cap dec' = hdec_payload_cap dec"
    using gathered_store [OF Cons.prems(1), of stats y] Cons.prems(2) by auto
  have st: "hdec_state dec = dec_payload"
    using Cons.prems(1) by (simp add: gathered_def)
  then have st': "dec\<lparr>hdec_state := dec_payload\<rparr> = dec"
    by simp
  obtain n where one: "hdlc_dec_loop fcf alg (dec, stats) (escape fcf [y]) = ((dec', stats), n, False)"
  proof (cases "y = LUDLC_SOF fcf \<or> y = LUDLC_ESC fcf")
    case True
    then have "y XOR LUDLC_MASK \<noteq> LUDLC_SOF fcf" "LUDLC_ESC fcf \<noteq> LUDLC_SOF fcf"
      using assms(1) mask_changes [of "LUDLC_SOF fcf"] by (auto simp: hdlc_marks_ok_def xor.assoc)
    then show ?thesis
      using True st d(1) that [of 2] by (simp add: hdlc_dec_turn_def st' xor.assoc)
  next
    case False
    then show ?thesis
      using st d(1) that [of 1] by (simp add: hdlc_dec_turn_def)
  qed
  have "escape fcf (y # ys) = escape fcf [y] @ escape fcf ys"
    by simp
  then show ?case
    using Cons.IH [OF d(2)] Cons.prems(2) d(3) unfolding \<open>escape fcf (y # ys) = _\<close> hdlc_loop_append one
    by auto
qed

text \<open>
  A start octet synchronises any decoder at all: whatever it was in the middle of, it
  either completes a packet there or starts an empty frame.
\<close>

lemma hdlc_sync:
  assumes "unat (hdec_payload_cap dec) \<le> length (hdec_payload dec)"
  shows "\<exists>dec' stats' done. hdlc_dec_turn fcf alg (dec, stats) (LUDLC_SOF fcf) = ((dec', stats'), done) \<and>
    hdec_payload_cap dec' = hdec_payload_cap dec \<and> hdec_payload dec' = hdec_payload dec \<and>
    (\<not> done \<longrightarrow> gathered alg [] dec') \<and> (hdec_size dec = 0 \<longrightarrow> \<not> done \<and> stats' = stats)"
proof -
  obtain dec' stats' d where t: "hdlc_dec_turn fcf alg (dec, stats) (LUDLC_SOF fcf) = ((dec', stats'), d)"
    by (metis surj_pair)
  then have "hdec_payload_cap dec' = hdec_payload_cap dec \<and> hdec_payload dec' = hdec_payload dec \<and>
      (\<not> d \<longrightarrow> gathered alg [] dec') \<and> (hdec_size dec = 0 \<longrightarrow> \<not> d \<and> stats' = stats)"
    using assms by (auto simp: hdlc_dec_turn_def hdlc_dec_end_def gathered_def Let_def frame_min_sz split: if_splits)
  with t show ?thesis by blast
qed

text \<open>The start octet after a whole frame completes its packet.\<close>

lemma hdlc_complete:
  assumes "gathered alg (frame_of alg pkt) dec" "csum_ok alg" "2 \<le> length pkt"
  shows "\<exists>dec'. hdlc_dec_turn fcf alg (dec, stats) (LUDLC_SOF fcf) =
      ((dec', stats\<lparr>rx_packet := rx_packet stats + 1\<rparr>), True) \<and>
    unat (hdec_size dec') = length pkt \<and> take (length pkt) (hdec_payload dec') = pkt \<and>
    hdec_state dec' = dec_payload"
proof -
  have sz: "unat (hdec_size dec) = length pkt + unat (ludlc_csum_octets alg)"
    using assms(1) by (simp add: gathered_def)
  have "unat (hdec_size dec - ucast (ludlc_csum_octets alg)) = length pkt"
  proof -
    show ?thesis
      using sz by (simp add: unat_sub word_le_nat_alt)
  qed
  moreover have "take (length pkt) (hdec_payload dec) = pkt"
    using assms(1) arg_cong [of _ _ "take (length pkt)", OF conjunct1 [OF conjunct2 [OF conjunct2 [OF assms(1) [unfolded gathered_def]]]]]
    by (simp add: frame_of_def min_def)
  ultimately show ?thesis
    using sz assms csum_okD(1) [OF assms(2), of pkt]
    by (auto simp: hdlc_dec_turn_def hdlc_dec_end_def Let_def frame_min_sz gathered_def)
qed

section \<open>The framing contract\<close>

text \<open>
  The packet an encoder is loaded with, the decoder a frame of it fits in, and the packet
  read from a decoder. The packet is closed by a start octet of its own, so that it
  completes without waiting for the next one.
\<close>

definition hdlc_loaded :: "('c::len) csum_alg \<Rightarrow> 'c word hdlc_state \<Rightarrow> octet list \<Rightarrow> bool" where
  "hdlc_loaded alg fs pkt \<longleftrightarrow> csum_ok alg \<and> henc_state (hdlc_enc fs) = enc_idle \<and>
     henc_hdr_size (hdlc_enc fs) \<noteq> 0 \<and> has_octets (henc_hdr (hdlc_enc fs)) (henc_hdr_size (hdlc_enc fs)) \<and>
     has_octets (henc_payload (hdlc_enc fs)) (henc_payload_size (hdlc_enc fs)) \<and>
     segment (henc_hdr (hdlc_enc fs)) (henc_hdr_size (hdlc_enc fs)) @
       segment (henc_payload (hdlc_enc fs)) (henc_payload_size (hdlc_enc fs)) = pkt \<and>
     bit (hdlc_flags fs) ENC_SEND_EOF_F"

definition hdlc_ready ::
    "framing_config \<Rightarrow> ('c::len) csum_alg \<Rightarrow> 'c word hdlc_state \<times> ludlc_stats \<Rightarrow> octet list \<Rightarrow> bool" where
  "hdlc_ready fcf alg ds pkt \<longleftrightarrow> hdlc_marks_ok fcf \<and> csum_ok alg \<and> hdec_size (hdlc_dec (fst ds)) = 0 \<and>
     2 \<le> length pkt \<and> length pkt < 256 \<and> length (frame_of alg pkt) \<le> unat (hdec_payload_cap (hdlc_dec (fst ds))) \<and>
     unat (hdec_payload_cap (hdlc_dec (fst ds))) \<le> length (hdec_payload (hdlc_dec (fst ds)))"

definition hdlc_got :: "'r hdlc_state \<times> ludlc_stats \<Rightarrow> octet list" where
  "hdlc_got ds = take (unat (ludlc_hdlc_dec_size (fst ds))) (hdec_payload (hdlc_dec (fst ds)))"

lemma hdlc_feed_loop:
  "outcome (ludlc_hdlc_dec_feed fcf alg (fs, st) xs) =
     (let (ds, n, d) = hdlc_dec_loop fcf alg (hdlc_dec fs, st) xs in ((fs\<lparr>hdlc_dec := fst ds\<rparr>, snd ds), d))"
  by (simp add: ludlc_hdlc_dec_feed_def outcome_def split_beta Let_def)

lemma hdlc_prep_loaded:
  assumes "csum_ok alg" "\<not> ludlc_hdlc_enc_busy fs" "hsz \<noteq> 0" "has_octets hdr hsz" "has_octets pay psz"
  shows "hdlc_loaded alg (ludlc_hdlc_enc_prep fs hdr hsz pay psz True) (segment hdr hsz @ segment pay psz)"
  using assms by (simp add: hdlc_loaded_def ludlc_hdlc_enc_prep_def ludlc_hdlc_enc_busy_def bit_set_bit)

lemma hdlc_prep_ready:
  assumes "csum_ok alg" "hdlc_marks_ok fcf" "2 \<le> length pkt" "length pkt < 256"
    and "length (frame_of alg pkt) \<le> unat cap" "unat cap \<le> length buf"
  shows "hdlc_ready fcf alg (ludlc_hdlc_dec_prep fs alg buf cap, st) pkt"
  using assms by (simp add: hdlc_ready_def ludlc_hdlc_dec_prep_def Let_def)

lemma hdlc_frame:
  assumes "csum_ok alg" "hdlc_marks_ok fcf" "2 \<le> length pkt" "length pkt < 256"
    and "length (frame_of alg pkt) \<le> unat (hdec_payload_cap (hdlc_dec fs))"
    and "unat (hdec_payload_cap (hdlc_dec fs)) \<le> length (hdec_payload (hdlc_dec fs))"
    and "\<not> snd (snd (ludlc_hdlc_dec_feed fcf alg (fs, st) [LUDLC_SOF fcf]))"
  shows "\<exists>fs' st'. ludlc_hdlc_dec_feed fcf alg (fs, st) (hdlc_wire fcf alg True pkt @ ys) =
      ((fs', st'), length (hdlc_wire fcf alg True pkt), True) \<and>
    take (unat (ludlc_hdlc_dec_size fs')) (hdec_payload (hdlc_dec fs')) = pkt"
proof -
  obtain d1 s1 where d1: "hdlc_dec_turn fcf alg (hdlc_dec fs, st) (LUDLC_SOF fcf) = ((d1, s1), False)"
      "gathered alg [] d1" "hdec_payload_cap d1 = hdec_payload_cap (hdlc_dec fs)"
    using hdlc_sync [OF assms(6), of fcf alg st] assms(7) by (auto simp: ludlc_hdlc_dec_feed_def split: if_splits)
  obtain d2 n where d2: "hdlc_dec_loop fcf alg (d1, s1) (escape fcf (frame_of alg pkt)) = ((d2, s1), n, False)"
      "gathered alg (frame_of alg pkt) d2"
    using gathered_escaped [OF assms(2) d1(2), of "frame_of alg pkt" s1] assms(5) d1(3) by auto
  have n: "n = length (escape fcf (frame_of alg pkt))"
    using hdlc_loop_count [of fcf alg "(d1, s1)" "escape fcf (frame_of alg pkt)"] d2(1) by simp
  obtain d3 where d3: "hdlc_dec_turn fcf alg (d2, s1) (LUDLC_SOF fcf) = ((d3, s1\<lparr>rx_packet := rx_packet s1 + 1\<rparr>), True)"
      "unat (hdec_size d3) = length pkt" "take (length pkt) (hdec_payload d3) = pkt"
    using hdlc_complete [OF d2(2) assms(1,3), of fcf s1] by auto
  have "unat (ucast (hdec_size d3) :: octet) = length pkt"
    using d3(2) assms(4) by (simp add: unsigned_ucast_eq take_bit_eq_mod)
  then show ?thesis
    using d1(1) d2(1) d3 n
    by (simp add: ludlc_hdlc_dec_feed_def hdlc_wire_def hdlc_eof_def hdlc_loop_append ludlc_hdlc_dec_size_def)
qed

lemma hdlc_decodes:
  assumes "hdlc_ready fcf alg ds pkt"
  shows "\<exists>ds'. outcome (ludlc_hdlc_dec_feed fcf alg ds (hdlc_wire fcf alg True pkt)) = (ds', True) \<and> hdlc_got ds' = pkt"
proof -
  obtain fs st where ds: "ds = (fs, st)"
    by (cases ds)
  have "\<not> snd (snd (ludlc_hdlc_dec_feed fcf alg (fs, st) [LUDLC_SOF fcf]))"
    using hdlc_sync [of "hdlc_dec fs" fcf alg st] assms ds by (auto simp: hdlc_ready_def ludlc_hdlc_dec_feed_def)
  then obtain fs' st' where "ludlc_hdlc_dec_feed fcf alg (fs, st) (hdlc_wire fcf alg True pkt @ []) =
      ((fs', st'), length (hdlc_wire fcf alg True pkt), True)"
      "take (unat (ludlc_hdlc_dec_size fs')) (hdec_payload (hdlc_dec fs')) = pkt"
    using hdlc_frame [of alg fcf pkt fs st "[]"] assms ds by (auto simp: hdlc_ready_def)
  then show ?thesis
    by (auto simp: ds hdlc_got_def)
qed

interpretation hdlc: framing "ludlc_hdlc_enc_fill fcf alg" ludlc_hdlc_enc_busy "hdlc_rest fcf alg" "hdlc_enc_ok alg"
    "ludlc_hdlc_dec_feed fcf alg" "\<lambda>_. True" "hdlc_wire fcf alg True" "hdlc_loaded alg" "hdlc_ready fcf alg" hdlc_got
  for fcf alg
proof
  fix s n assume ok: "hdlc_enc_ok alg s"
  note f = hdlc_fill_rest [OF ok, of fcf n]
  show "snd (ludlc_hdlc_enc_fill fcf alg s n) = take n (hdlc_rest fcf alg s)"
      "hdlc_rest fcf alg (fst (ludlc_hdlc_enc_fill fcf alg s n)) = drop n (hdlc_rest fcf alg s)"
      "hdlc_enc_ok alg (fst (ludlc_hdlc_enc_fill fcf alg s n))"
    using f by auto
  show "\<not> ludlc_hdlc_enc_busy (fst (ludlc_hdlc_enc_fill fcf alg s n))" if "length (hdlc_rest fcf alg s) < n"
    using f that by auto
next
  fix ds ds' xs ys
  assume "outcome (ludlc_hdlc_dec_feed fcf alg ds xs) = (ds', True)"
  then show "ludlc_hdlc_dec_feed fcf alg ds (xs @ ys) = ludlc_hdlc_dec_feed fcf alg ds xs"
    by (cases ds) (auto simp: ludlc_hdlc_dec_feed_def outcome_def hdlc_loop_append split_beta Let_def prod_eq_iff)
next
  fix ds ds' xs ys
  assume "outcome (ludlc_hdlc_dec_feed fcf alg ds xs) = (ds', False)"
  then show "outcome (ludlc_hdlc_dec_feed fcf alg ds (xs @ ys)) = outcome (ludlc_hdlc_dec_feed fcf alg ds' ys)"
    by (cases ds) (auto simp: hdlc_feed_loop hdlc_loop_append split_beta Let_def)
next
  fix s pkt assume "hdlc_loaded alg s pkt"
  then show "hdlc_enc_ok alg s" "hdlc_rest fcf alg s = hdlc_wire fcf alg True pkt"
    by (auto simp: hdlc_loaded_def hdlc_enc_ok_def henc_ok_def hdlc_rest_def henc_rest_def Let_def)
next
  fix ds pkt assume "hdlc_ready fcf alg ds pkt"
  then show "\<exists>ds'. outcome (ludlc_hdlc_dec_feed fcf alg ds (hdlc_wire fcf alg True pkt)) = (ds', True) \<and> hdlc_got ds' = pkt"
    by (rule hdlc_decodes)
qed (auto simp: hdlc_fill_idle hdlc_feed_loop)

section \<open>Properties\<close>

text \<open>C15: the escaping carries every packet. However the transport splits what it takes from the
  encoder and what it gives the decoder, the decoder completes exactly the header and the
  payload the encoder was given, and the encoder is free for the next packet.\<close>

theorem hdlc_carries_packets:
  assumes "csum_ok alg" "hdlc_marks_ok fcf"
    and "\<not> ludlc_hdlc_enc_busy fs" "hsz \<noteq> 0" "has_octets hdr hsz" "has_octets pay psz"
    and "pkt = segment hdr hsz @ segment pay psz" "2 \<le> length pkt" "length pkt < 256"
    and "length (frame_of alg pkt) \<le> unat cap" "unat cap \<le> length buf"
    and "fill_chunks (ludlc_hdlc_enc_fill fcf alg) (ludlc_hdlc_enc_prep fs hdr hsz pay psz True) ns = (fs', out)"
    and "length (hdlc_wire fcf alg True pkt) < sum_list ns" "concat chunks = out"
  shows "\<not> ludlc_hdlc_enc_busy fs' \<and>
    (\<exists>rs st'. feed_chunks (ludlc_hdlc_dec_feed fcf alg) (ludlc_hdlc_dec_prep r alg buf cap, st) chunks = ((rs, st'), True) \<and>
       take (unat (ludlc_hdlc_dec_size rs)) (hdec_payload (hdlc_dec rs)) = pkt)"
proof -
  have l: "hdlc_loaded alg (ludlc_hdlc_enc_prep fs hdr hsz pay psz True) pkt"
    using assms by (simp add: hdlc_prep_loaded)
  have r: "hdlc_ready fcf alg (ludlc_hdlc_dec_prep r alg buf cap, st) pkt"
    using assms by (intro hdlc_prep_ready) simp_all
  show ?thesis
    using hdlc.carries [OF l r, where ns = ns and xss = chunks] assms(12-14) by (auto simp: hdlc_got_def)
qed

theorem hdlc_carries_packets_witness:
  "\<exists>rs st'. feed_chunks (ludlc_hdlc_dec_feed default_framing_config (Some ludlc_crc16_ccitt_pr0))
       (ludlc_hdlc_dec_prep hdlc_zero (Some ludlc_crc16_ccitt_pr0) (replicate 40 0) 37, stats_zero)
       [snd (fill_chunks (ludlc_hdlc_enc_fill default_framing_config (Some ludlc_crc16_ccitt_pr0))
              (ludlc_hdlc_enc_prep hdlc_zero (Some [1, 0x55, 3]) 3 (Some [0xaa]) 1 True) [4, 30])] = ((rs, st'), True) \<and>
     take (unat (ludlc_hdlc_dec_size rs)) (hdec_payload (hdlc_dec rs)) = [1, 0x55, 3, 0xaa]"
proof -
  let ?alg = "Some ludlc_crc16_ccitt_pr0"
  let ?f = "fill_chunks (ludlc_hdlc_enc_fill default_framing_config ?alg)
      (ludlc_hdlc_enc_prep hdlc_zero (Some [1, 0x55, 3]) 3 (Some [0xaa]) 1 True) [4, 30]"
  have le: "length (escape fcf xs) \<le> 2 * length xs" for fcf xs
    by (induction xs) auto
  have "length (hdlc_wire default_framing_config ?alg True [1, 0x55, 3, 0xaa]) < 34"
    using le [of default_framing_config "frame_of ?alg [1, 0x55, 3, 0xaa]"]
    by (simp add: hdlc_wire_def hdlc_eof_def ludlc_csum_octets_def ludlc_crc16_ccitt_pr0_def)
  then have len: "length (hdlc_wire default_framing_config ?alg True [1, 0x55, 3, 0xaa]) < sum_list [4, 30]"
    by simp
  show ?thesis
  proof (rule hdlc_carries_packets [THEN conjunct2])
    show "csum_ok ?alg" by (rule crc16_residual)
    show "hdlc_marks_ok default_framing_config" by (simp add: hdlc_marks_ok_def default_framing_config_def)
    show "\<not> ludlc_hdlc_enc_busy (hdlc_zero :: 16 word hdlc_state)" by (simp add: ludlc_hdlc_enc_busy_def hdlc_zero_def)
    show "fill_chunks (ludlc_hdlc_enc_fill default_framing_config ?alg)
        (ludlc_hdlc_enc_prep hdlc_zero (Some [1, 0x55, 3]) 3 (Some [0xaa]) 1 True) [4, 30] = (fst ?f, snd ?f)" by simp
  qed (use len in \<open>simp_all add: has_octets_def segment_def ludlc_csum_octets_def ludlc_crc16_ccitt_pr0_def\<close>)
qed

lemma escape_no_sof: "hdlc_marks_ok fcf \<Longrightarrow> LUDLC_SOF fcf \<notin> set (escape fcf xs)"
  using mask_changes [of "LUDLC_SOF fcf"] by (induction xs) (auto simp: hdlc_marks_ok_def)

lemma escape_length: "length xs \<le> length (escape fcf xs) \<and> length (escape fcf xs) \<le> 2 * length xs"
  by (induction xs) auto

text \<open>C16: the octets the encoder writes, in chunks of any size, are the start octet, the packet and
  its checksum escaped, and the closing start octet where one was asked for. A start octet
  never occurs inside, and escaping at most doubles the frame.\<close>

theorem hdlc_encoding:
  assumes "csum_ok alg" "hdlc_marks_ok fcf" "\<not> ludlc_hdlc_enc_busy fs" "hsz \<noteq> 0" "has_octets hdr hsz" "has_octets pay psz"
  defines "body \<equiv> escape fcf (frame_of alg (segment hdr hsz @ segment pay psz))"
  shows "snd (fill_chunks (ludlc_hdlc_enc_fill fcf alg) (ludlc_hdlc_enc_prep fs hdr hsz pay psz eof) ns) =
      take (sum_list ns) (LUDLC_SOF fcf # body @ (if eof then [LUDLC_SOF fcf] else [])) \<and>
    LUDLC_SOF fcf \<notin> set body \<and>
    length body \<le> 2 * (unat hsz + unat psz + unat (ludlc_csum_octets alg))"
proof -
  let ?s = "ludlc_hdlc_enc_prep fs hdr hsz pay psz eof"
  have "hdlc_enc_ok alg ?s" "hdlc_rest fcf alg ?s = LUDLC_SOF fcf # body @ (if eof then [LUDLC_SOF fcf] else [])"
    using assms by (auto simp: hdlc_enc_ok_def henc_ok_def hdlc_rest_def henc_rest_def ludlc_hdlc_enc_prep_def
        ludlc_hdlc_enc_busy_def hdlc_wire_def hdlc_eof_def bit_set_bit bit_clear_bit body_def Let_def)
  moreover have "length body \<le> 2 * (unat hsz + unat psz + unat (ludlc_csum_octets alg))"
    using escape_length [of "frame_of alg (segment hdr hsz @ segment pay psz)" fcf] assms by simp
  ultimately show ?thesis
    using hdlc.fill_any [of alg ?s fcf ns] assms(2) by (simp add: escape_no_sof body_def)
qed

theorem hdlc_encoding_witness:
  "snd (fill_chunks (ludlc_hdlc_enc_fill default_framing_config (None :: 16 csum_alg))
     (ludlc_hdlc_enc_prep hdlc_zero (Some [1, 0x55]) 2 None 0 True) [2, 8]) = [0x55, 1, 0xaa, 0x75, 0x55]"
  using hdlc_encoding [of "None :: 16 csum_alg" default_framing_config hdlc_zero 2 "Some [1, 0x55]" None 0 True "[2, 8]"]
  by (simp add: hdlc_marks_ok_def default_framing_config_def ludlc_hdlc_enc_busy_def hdlc_zero_def has_octets_def
      segment_def frame_of_def csum_tail_def ludlc_csum_on_def)

text \<open>Without the condition on the reserved octets a frame can contain a start octet.\<close>

lemma hdlc_marks_clash:
  "LUDLC_ESC fcf XOR LUDLC_MASK = LUDLC_SOF fcf \<Longrightarrow> LUDLC_SOF fcf \<in> set (escape fcf [LUDLC_ESC fcf])"
  by auto



text \<open>
  A decoder holds at most its capacity, and the running checksum is that of what it holds
  wherever it can still complete a frame.
\<close>

definition hdlc_dec_inv :: "('c::len) csum_alg \<Rightarrow> 'c word ludlc_hdec_state \<Rightarrow> bool" where
  "hdlc_dec_inv alg dec \<longleftrightarrow> hdec_size dec \<le> hdec_payload_cap dec \<and>
     unat (hdec_payload_cap dec) \<le> length (hdec_payload dec) \<and>
     (if hdec_state dec = dec_idle then hdec_size dec = 0
      else ludlc_csum_on alg \<longrightarrow>
        hdec_csum dec = csum_run alg (ludlc_csum_tx_init alg) (take (unat (hdec_size dec)) (hdec_payload dec)))"

definition hdlc_dec_holds :: "('c::len) csum_alg \<Rightarrow> 'c word ludlc_hdec_state \<Rightarrow> bool" where
  "hdlc_dec_holds alg dec \<longleftrightarrow> 2 \<le> unat (hdec_size dec) \<and>
     unat (hdec_size dec) + unat (ludlc_csum_octets alg) \<le> unat (hdec_payload_cap dec) \<and>
     (ludlc_csum_on alg \<longrightarrow> ludlc_csum_rx_ok alg (csum_run alg (ludlc_csum_rx_init alg)
        (take (unat (hdec_size dec) + unat (ludlc_csum_octets alg)) (hdec_payload dec))))"

definition same_room :: "'r ludlc_hdec_state \<Rightarrow> 'r ludlc_hdec_state \<Rightarrow> bool" where
  "same_room dec dec' \<longleftrightarrow> hdec_payload_cap dec' = hdec_payload_cap dec \<and>
     length (hdec_payload dec') = length (hdec_payload dec) \<and>
     drop (unat (hdec_payload_cap dec)) (hdec_payload dec') = drop (unat (hdec_payload_cap dec)) (hdec_payload dec)"

lemma hdlc_store_inv:
  assumes "hdlc_dec_inv alg dec" "hdec_state dec \<noteq> dec_idle" "hdlc_dec_store alg (dec, st) c = (dec', st')"
  shows "hdlc_dec_inv alg dec' \<and> same_room dec dec'"
proof (cases "hdec_size dec < hdec_payload_cap dec")
  case True
  let ?n = "unat (hdec_size dec)"
  have n: "unat (hdec_size dec + 1) = Suc ?n" "?n < unat (hdec_payload_cap dec)"
    using True unat_suc_16 [of "hdec_size dec" "hdec_payload_cap dec"] by (simp_all add: word_less_nat_alt)
  then have "?n < length (hdec_payload dec)"
    using assms(1) by (simp add: hdlc_dec_inv_def)
  then have "take (Suc ?n) ((hdec_payload dec)[?n := c]) = take ?n (hdec_payload dec) @ [c]"
    by (simp add: take_Suc_conv_app_nth)
  then show ?thesis
    using assms n True
    by (cases "ludlc_csum_on alg") (auto simp: hdlc_dec_store_def hdlc_dec_inv_def same_room_def word_le_nat_alt Let_def)
next
  case False
  then show ?thesis
    using assms by (auto simp: hdlc_dec_store_def hdlc_dec_inv_def same_room_def)
qed

lemma hdlc_end_inv:
  assumes "hdlc_dec_inv alg dec" "hdlc_dec_end alg (dec, st) = ((dec', st'), d)"
  shows "same_room dec dec' \<and> (if d then hdlc_dec_holds alg dec' else hdlc_dec_inv alg dec')"
proof (cases "hdec_state dec = dec_idle")
  case True
  then have "hdec_size dec = 0"
    using assms(1) by (simp add: hdlc_dec_inv_def)
  then show ?thesis
    using assms by (auto simp: hdlc_dec_end_def hdlc_dec_inv_def same_room_def frame_min_sz Let_def)
next
  case False
  have sub: "unat (hdec_size dec - ucast (ludlc_csum_octets alg)) = unat (hdec_size dec) - unat (ludlc_csum_octets alg)"
    if "unat (ludlc_csum_octets alg) \<le> unat (hdec_size dec)"
    using that by (simp add: unat_sub word_le_nat_alt)
  show ?thesis
    using assms False
    by (auto simp: hdlc_dec_end_def hdlc_dec_inv_def hdlc_dec_holds_def same_room_def frame_min_sz Let_def sub
        word_le_nat_alt split: if_splits)
qed

lemma hdlc_end_state [simp]: "hdlc_dec_end alg (dec\<lparr>hdec_state := s\<rparr>, st) = hdlc_dec_end alg (dec, st)"
  by (simp add: hdlc_dec_end_def)

lemma hdlc_turn_inv:
  assumes "hdlc_dec_inv alg dec" "hdlc_dec_turn fcf alg (dec, st) c = ((dec', st'), d)"
  shows "same_room dec dec' \<and> (if d then hdlc_dec_holds alg dec' else hdlc_dec_inv alg dec')"
proof (cases "c = LUDLC_SOF fcf")
  case True
  then show ?thesis
    using assms hdlc_end_inv [OF assms(1)] by (simp add: hdlc_dec_turn_def)
next
  case False
  have esc: "hdlc_dec_inv alg (dec\<lparr>hdec_state := s\<rparr>)" if "hdec_state dec \<noteq> dec_idle" "s \<noteq> dec_idle" for s
    using that assms(1) by (simp add: hdlc_dec_inv_def)
  have room: "same_room (dec\<lparr>hdec_state := s\<rparr>) d' \<longleftrightarrow> same_room dec d'" "same_room dec (dec\<lparr>hdec_state := s\<rparr>)" for s d'
    by (simp_all add: same_room_def)
  show ?thesis
  proof (cases "hdec_state dec")
    case dec_idle
    then show ?thesis
      using assms False by (auto simp: hdlc_dec_turn_def same_room_def)
  next
    case dec_wait_sof
    then show ?thesis
      using assms False hdlc_end_inv [OF assms(1)] by (simp add: hdlc_dec_turn_def)
  next
    case dec_esc
    then show ?thesis
      using assms False hdlc_store_inv [OF esc [of dec_payload], of st "c XOR LUDLC_MASK" dec' st'] room
      by (auto simp: hdlc_dec_turn_def)
  next
    case dec_payload
    then show ?thesis
      using assms False hdlc_store_inv [OF assms(1), of st c dec' st'] esc [of dec_esc] room
      by (auto simp: hdlc_dec_turn_def split: if_splits)
  qed
qed

lemma hdlc_loop_inv:
  assumes "hdlc_dec_inv alg dec" "hdlc_dec_loop fcf alg (dec, st) xs = ((dec', st'), n, d)"
  shows "same_room dec dec' \<and> (if d then hdlc_dec_holds alg dec' else hdlc_dec_inv alg dec')"
  using assms
proof (induction xs arbitrary: dec st n)
  case Nil
  then show ?case by (simp add: same_room_def)
next
  case (Cons x xs)
  obtain d1 s1 e where t: "hdlc_dec_turn fcf alg (dec, st) x = ((d1, s1), e)"
    by (metis surj_pair)
  note i = hdlc_turn_inv [OF Cons.prems(1) t]
  show ?case
  proof (cases e)
    case True
    then show ?thesis
      using i Cons.prems(2) t by simp
  next
    case False
    obtain m where "hdlc_dec_loop fcf alg (d1, s1) xs = ((dec', st'), m, d)"
      using Cons.prems(2) t False by (auto split: prod.splits)
    then show ?thesis
      using Cons.IH [of d1 s1 m] i False by (auto simp: same_room_def split: if_splits)
  qed
qed

text \<open>C18: whatever octets arrive, the decoder stays inside its buffer: nothing past the capacity it
  was given is written. When it reports a packet, the packet has at least the size of the
  shortest one, and the octets gathered, checksum included, leave the expected residual.\<close>

theorem hdlc_decoder_sound:
  assumes "hdlc_dec_inv alg (hdlc_dec fs)" "ludlc_hdlc_dec_feed fcf alg (fs, st) xs = ((fs', st'), n, done)"
  shows "same_room (hdlc_dec fs) (hdlc_dec fs') \<and> n \<le> length xs \<and> (\<not> done \<longrightarrow> n = length xs) \<and>
    (if done then hdlc_dec_holds alg (hdlc_dec fs') else hdlc_dec_inv alg (hdlc_dec fs'))"
proof -
  obtain dec' where l: "hdlc_dec_loop fcf alg (hdlc_dec fs, st) xs = ((dec', st'), n, done)" "fs' = fs\<lparr>hdlc_dec := dec'\<rparr>"
    using assms(2) by (auto simp: ludlc_hdlc_dec_feed_def split: prod.splits)
  show ?thesis
    using hdlc_loop_inv [OF assms(1) l(1)] hdlc_loop_count [of fcf alg "(hdlc_dec fs, st)" xs] l by simp
qed

theorem hdlc_decoder_sound_witness:
  "hdlc_dec_inv (None :: 16 csum_alg) (hdlc_dec (fst (fst (ludlc_hdlc_dec_feed default_framing_config None
     (ludlc_hdlc_dec_prep hdlc_zero None (replicate 4 0) 4, stats_zero) [0x55, 1, 2, 3, 4]))))"
proof -
  let ?r = "ludlc_hdlc_dec_feed default_framing_config (None :: 16 csum_alg)
     (ludlc_hdlc_dec_prep hdlc_zero None (replicate 4 0) 4, stats_zero) [0x55, 1, 2, 3, 4]"
  obtain fs st n d where r: "?r = ((fs, st), n, d)"
    by (metis surj_pair)
  have "\<not> d"
    using r by (auto simp: ludlc_hdlc_dec_feed_def default_framing_config_def hdlc_dec_turn_def hdlc_dec_end_def
        hdlc_dec_store_def ludlc_hdlc_dec_prep_def hdlc_zero_def frame_min_sz ludlc_csum_on_def Let_def)
  moreover have "hdlc_dec_inv (None :: 16 csum_alg) (hdlc_dec (ludlc_hdlc_dec_prep hdlc_zero None (replicate 4 0) 4))"
    by (simp add: hdlc_dec_inv_def ludlc_hdlc_dec_prep_def hdlc_zero_def ludlc_csum_on_def Let_def)
  ultimately show ?thesis
    using hdlc_decoder_sound [OF _ r] r by auto
qed

end
