(* ===== verification/Ludlc_Cobs.thy ===== *)
theory Ludlc_Cobs
  imports Ludlc_Framing
begin

text \<open>
  The stuffing framing (\<open>src/src/lib/ludlc_cobs.c\<close>, \<open>src/src/lib/include/ludlc_cobs.h\<close>):
  the encoder that scans ahead for the length of a group and the decoder that puts the
  delimiters back. The loop of \<open>enc_fill\<close> would spin on a state in which a group claims
  more octets than the frame has, so it is a partial function; that no such state is
  reached is proved.
\<close>

section \<open>State\<close>

datatype cobs_enc_fsm_state = cenc_idle | cenc_code | cenc_data

record 'r ludlc_cenc_state =
  cenc_hdr :: buffer
  cenc_payload :: buffer
  cenc_ptr :: "octet list"
  cenc_hdr_size :: ludlc_payload_size_t
  cenc_payload_size :: ludlc_payload_size_t
  cenc_sz :: nat
  cenc_csum :: 'r
  cenc_csum_left :: uint8
  cenc_run :: uint8
  cenc_state :: cobs_enc_fsm_state

record 'r ludlc_cdec_state =
  cdec_payload :: "octet list"
  cdec_payload_cap :: ludlc_frame_size_t
  cdec_size :: ludlc_frame_size_t
  cdec_csum :: 'r
  cdec_code :: uint8
  cdec_left :: uint8

record 'r cobs_state =
  cobs_flags :: uint32
  cobs_enc :: "'r ludlc_cenc_state"
  cobs_dec :: "'r ludlc_cdec_state"

abbreviation (input) CENC_FULL_F :: nat where "CENC_FULL_F \<equiv> 0"
abbreviation (input) CDEC_STARTED_F :: nat where "CDEC_STARTED_F \<equiv> 1"
abbreviation (input) CDEC_OVER_F :: nat where "CDEC_OVER_F \<equiv> 2"
abbreviation (input) CENC_ARMED_F :: nat where "CENC_ARMED_F \<equiv> 4"
abbreviation (input) CENC_DELIM_F :: nat where "CENC_DELIM_F \<equiv> 5"

definition CENC_FLAGS_MASK :: uint32 where
  "CENC_FLAGS_MASK = push_bit CENC_FULL_F 1 OR push_bit CENC_ARMED_F 1 OR push_bit CENC_DELIM_F 1"

definition CDEC_FLAGS_MASK :: uint32 where
  "CDEC_FLAGS_MASK = push_bit CDEC_STARTED_F 1 OR push_bit CDEC_OVER_F 1"

abbreviation (input) LUDLC_COBS_BLOCK_MAX :: nat where "LUDLC_COBS_BLOCK_MAX \<equiv> 254"

definition LUDLC_COBS_ENCODED_MAX :: "nat \<Rightarrow> nat" where
  "LUDLC_COBS_ENCODED_MAX n = n + n div LUDLC_COBS_BLOCK_MAX + 2"

definition cobs_zero :: "('c::len) word cobs_state" where
  "cobs_zero = \<lparr>cobs_flags = 0,
     cobs_enc = \<lparr>cenc_hdr = None, cenc_payload = None, cenc_ptr = [], cenc_hdr_size = 0, cenc_payload_size = 0,
       cenc_sz = 0, cenc_csum = 0, cenc_csum_left = 0, cenc_run = 0, cenc_state = cenc_idle\<rparr>,
     cobs_dec = \<lparr>cdec_payload = [], cdec_payload_cap = 0, cdec_size = 0, cdec_csum = 0, cdec_code = 0,
       cdec_left = 0\<rparr>\<rparr>"

text \<open>Updating one side of the state, and testing a flag of it.\<close>

definition with_enc :: "('r ludlc_cenc_state \<Rightarrow> 'r ludlc_cenc_state) \<Rightarrow> 'r cobs_state \<Rightarrow> 'r cobs_state" where
  "with_enc f fs = fs\<lparr>cobs_enc := f (cobs_enc fs)\<rparr>"

definition cobs_flag :: "nat \<Rightarrow> 'r cobs_state \<Rightarrow> bool" where
  "cobs_flag nr fs = ludlc_platform_test_bit nr (cobs_flags fs)"

definition cobs_put_flag :: "nat \<Rightarrow> bool \<Rightarrow> 'r cobs_state \<Rightarrow> 'r cobs_state" where
  "cobs_put_flag nr v fs =
     fs\<lparr>cobs_flags := (if v then ludlc_platform_set_bit nr (cobs_flags fs)
                       else ludlc_platform_clear_bit nr (cobs_flags fs))\<rparr>"

section \<open>The encoder\<close>

definition cobs_busy :: "'r ludlc_cenc_state \<Rightarrow> bool" where
  "cobs_busy enc \<longleftrightarrow> cenc_state enc \<noteq> cenc_idle \<or> cenc_hdr_size enc \<noteq> 0"

definition ludlc_cobs_enc_init :: "'r cobs_state \<Rightarrow> 'r cobs_state" where
  "ludlc_cobs_enc_init fs =
     fs\<lparr>cobs_enc := (cobs_enc fs)\<lparr>cenc_state := cenc_idle, cenc_hdr_size := 0, cenc_payload_size := 0,
                                  cenc_csum_left := 0\<rparr>,
        cobs_flags := ludlc_platform_clear_mask CENC_FLAGS_MASK (cobs_flags fs)\<rparr>"

definition ludlc_cobs_enc_prep ::
    "'r cobs_state \<Rightarrow> buffer \<Rightarrow> ludlc_payload_size_t \<Rightarrow> buffer \<Rightarrow> ludlc_payload_size_t \<Rightarrow> bool \<Rightarrow> 'r cobs_state" where
  "ludlc_cobs_enc_prep fs hdr hdr_sz payload pay_sz send_eof =
     fs\<lparr>cobs_enc := (cobs_enc fs)\<lparr>cenc_hdr := hdr, cenc_hdr_size := hdr_sz, cenc_payload := payload,
                                  cenc_payload_size := pay_sz\<rparr>\<rparr>"

definition ludlc_cobs_enc_busy :: "'r cobs_state \<Rightarrow> bool" where
  "ludlc_cobs_enc_busy fs = cobs_busy (cobs_enc fs)"

text \<open>
  The scan that opens a group: at most \<open>k\<close> more octets, \<open>run\<close> of them found so far. It
  reads ahead through copies of the cursor and folds every octet of the body into the
  checksum; past the body it turns the sum into its wire value, once.
\<close>

definition cobs_arm :: "('c::len) csum_alg \<Rightarrow> 'c word cobs_state \<Rightarrow> uint8 \<Rightarrow> 'c word cobs_state \<times> uint8" where
  "cobs_arm alg fs cleft =
     (if \<not> cobs_flag CENC_ARMED_F fs then
        let fs = (if ludlc_csum_on alg
                  then with_enc (\<lambda>e. e\<lparr>cenc_csum := ludlc_csum_tx_final alg (cenc_csum e)\<rparr>) fs else fs);
            cleft = (if ludlc_csum_on alg then ludlc_csum_octets alg else 0);
            fs = with_enc (\<lambda>e. e\<lparr>cenc_csum_left := cleft\<rparr>) fs
        in (cobs_put_flag CENC_ARMED_F True fs, cleft)
      else (fs, cleft))"

definition cobs_sum :: "('c::len) csum_alg \<Rightarrow> 'c word cobs_state \<Rightarrow> octet \<Rightarrow> 'c word cobs_state" where
  "cobs_sum alg fs c =
     (if ludlc_csum_on alg then with_enc (\<lambda>e. e\<lparr>cenc_csum := ludlc_csum_tx alg (cenc_csum e) c\<rparr>) fs else fs)"

fun cobs_scan ::
    "framing_config \<Rightarrow> ('c::len) csum_alg \<Rightarrow> nat \<Rightarrow> nat \<Rightarrow> octet list \<Rightarrow> nat \<Rightarrow> octet list \<Rightarrow> nat \<Rightarrow> uint8 \<Rightarrow>
     'c word cobs_state \<Rightarrow> nat \<times> bool \<times> 'c word cobs_state" where
  "cobs_scan fcf alg 0 run p sz pay pay_sz cleft fs = (run, False, fs)"
| "cobs_scan fcf alg (Suc k) run p sz pay pay_sz cleft fs =
     (if sz \<noteq> 0 then
        let c = hd p; fs = cobs_sum alg fs c in
        if c = LUDLC_COBS_DELIMITER fcf then (run, True, fs)
        else cobs_scan fcf alg k (run + 1) (tl p) (sz - 1) pay pay_sz cleft fs
      else if pay_sz \<noteq> 0 then
        let c = hd pay; fs = cobs_sum alg fs c in
        if c = LUDLC_COBS_DELIMITER fcf then (run, True, fs)
        else cobs_scan fcf alg k (run + 1) p sz (tl pay) (pay_sz - 1) cleft fs
      else
        let (fs, cleft) = cobs_arm alg fs cleft in
        if cleft = 0 then (run, False, fs)
        else
          let c = ucast (drop_bit (8 * unat (cenc_csum_left (cobs_enc fs) - cleft)) (cenc_csum (cobs_enc fs))) in
          if c = LUDLC_COBS_DELIMITER fcf then (run, True, fs)
          else cobs_scan fcf alg k (run + 1) p sz pay pay_sz (cleft - 1) fs)"

definition cobs_enc_code :: "framing_config \<Rightarrow> ('c::len) csum_alg \<Rightarrow> 'c word cobs_state \<Rightarrow> 'c word cobs_state \<times> octet list" where
  "cobs_enc_code fcf alg fs =
     (let enc = cobs_enc fs;
          (run, delim, fs) = cobs_scan fcf alg LUDLC_COBS_BLOCK_MAX 0 (cenc_ptr enc) (cenc_sz enc) (the (cenc_payload enc))
             (unat (cenc_payload_size enc)) (cenc_csum_left enc) fs;
          fs = cobs_put_flag CENC_DELIM_F delim fs;
          fs = cobs_put_flag CENC_FULL_F (run = LUDLC_COBS_BLOCK_MAX) fs
      in (with_enc (\<lambda>e. e\<lparr>cenc_run := of_nat run, cenc_state := cenc_data\<rparr>) fs, [of_nat (run + 1)]))"

text \<open>The cursor moves from the header to the payload.\<close>

definition cobs_next_segment :: "'r ludlc_cenc_state \<Rightarrow> 'r ludlc_cenc_state" where
  "cobs_next_segment enc =
     (if cenc_sz enc = 0 \<and> cenc_payload_size enc \<noteq> 0
      then enc\<lparr>cenc_ptr := the (cenc_payload enc), cenc_sz := unat (cenc_payload_size enc), cenc_payload_size := 0\<rparr>
      else enc)"

text \<open>The inner loop: the octets of the open group, in blocks, while there is room.\<close>

function cobs_send :: "('c::len) csum_alg \<Rightarrow> 'c word cobs_state \<Rightarrow> nat \<Rightarrow> 'c word cobs_state \<times> octet list" where
  "cobs_send alg fs room =
     (if cenc_run (cobs_enc fs) \<noteq> 0 \<and> 0 < room then
        let fs = with_enc cobs_next_segment fs; enc = cobs_enc fs in
        if cenc_sz enc = 0 then
          let enc = (if cenc_csum_left enc = 0 \<and> cobs_flag CENC_ARMED_F fs \<and> ludlc_csum_on alg
                     then enc\<lparr>cenc_csum_left := ludlc_csum_octets alg\<rparr> else enc) in
          if cenc_csum_left enc = 0 then (fs\<lparr>cobs_enc := enc\<rparr>, [])
          else
            let out = [ucast (cenc_csum enc)];
                enc = enc\<lparr>cenc_csum := drop_bit 8 (cenc_csum enc), cenc_csum_left := cenc_csum_left enc - 1,
                          cenc_run := cenc_run enc - 1\<rparr>;
                (fs', out') = cobs_send alg (fs\<lparr>cobs_enc := enc\<rparr>) (room - 1)
            in (fs', out @ out')
        else
          let len = unat (cenc_run enc);
              len = (if len > cenc_sz enc then cenc_sz enc else len);
              len = (if len > room then room else len);
              out = read_octets (cenc_ptr enc) len;
              enc = enc\<lparr>cenc_ptr := drop len (cenc_ptr enc), cenc_sz := cenc_sz enc - len,
                        cenc_run := cenc_run enc - of_nat len\<rparr>;
              (fs', out') = cobs_send alg (fs\<lparr>cobs_enc := enc\<rparr>) (room - len)
          in (fs', out @ out')
      else (fs, []))"
  by pat_completeness auto

termination
  by (relation "measure (\<lambda>(alg, fs, room). room)") (auto simp: with_enc_def cobs_next_segment_def unat_gt_0 split: if_splits)

declare cobs_send.simps [simp del]

definition cobs_enc_data :: "framing_config \<Rightarrow> ('c::len) csum_alg \<Rightarrow> 'c word cobs_state \<Rightarrow> nat \<Rightarrow> 'c word cobs_state \<times> octet list" where
  "cobs_enc_data fcf alg fs room =
     (let (fs, out) = cobs_send alg fs room; enc = cobs_enc fs in
      if cenc_run enc \<noteq> 0 \<or> length out \<ge> room then (fs, out)
      else if cobs_flag CENC_DELIM_F fs then
        let enc = cobs_next_segment enc;
            enc = (if cenc_sz enc \<noteq> 0 then enc\<lparr>cenc_ptr := tl (cenc_ptr enc), cenc_sz := cenc_sz enc - 1\<rparr>
                   else if cenc_csum_left enc \<noteq> 0
                   then enc\<lparr>cenc_csum := drop_bit 8 (cenc_csum enc), cenc_csum_left := cenc_csum_left enc - 1\<rparr>
                   else enc)
        in (fs\<lparr>cobs_enc := enc\<lparr>cenc_state := cenc_code\<rparr>\<rparr>, out)
      else if cobs_flag CENC_FULL_F fs \<and>
              (cenc_sz enc \<noteq> 0 \<or> cenc_payload_size enc \<noteq> 0 \<or> cenc_csum_left enc \<noteq> 0 \<or>
               (\<not> cobs_flag CENC_ARMED_F fs \<and> ludlc_csum_on alg \<and> ludlc_csum_octets alg \<noteq> 0)) then
        (with_enc (\<lambda>e. e\<lparr>cenc_state := cenc_code\<rparr>) fs, out)
      else (ludlc_cobs_enc_init fs, out @ [LUDLC_COBS_DELIMITER fcf]))"

text \<open>One turn of the loop in \<open>enc_fill\<close> with \<open>room\<close> octets left: the octets it writes.\<close>

definition cobs_enc_turn :: "framing_config \<Rightarrow> ('c::len) csum_alg \<Rightarrow> 'c word cobs_state \<Rightarrow> nat \<Rightarrow> 'c word cobs_state \<times> octet list" where
  "cobs_enc_turn fcf alg fs room =
     (let enc = cobs_enc fs in
      case cenc_state enc of
        cenc_idle \<Rightarrow>
          if cenc_hdr_size enc = 0 \<or> cenc_hdr enc = None then (ludlc_cobs_enc_init fs, [])
          else
            let enc = enc\<lparr>cenc_ptr := the (cenc_hdr enc), cenc_sz := unat (cenc_hdr_size enc), cenc_csum_left := 0\<rparr>;
                enc = (if ludlc_csum_on alg then enc\<lparr>cenc_csum := ludlc_csum_tx_init alg\<rparr> else enc)
            in cobs_enc_code fcf alg (fs\<lparr>cobs_enc := enc\<lparr>cenc_state := cenc_code\<rparr>\<rparr>)
      | cenc_code \<Rightarrow> cobs_enc_code fcf alg fs
      | cenc_data \<Rightarrow> cobs_enc_data fcf alg fs room)"

partial_function (option) ludlc_cobs_enc_fill ::
    "framing_config \<Rightarrow> ('c::len) csum_alg \<Rightarrow> 'c word cobs_state \<Rightarrow> nat \<Rightarrow> ('c word cobs_state \<times> octet list) option" where
  "ludlc_cobs_enc_fill fcf alg fs room =
     (if 0 < room \<and> ludlc_cobs_enc_busy fs then
        Option.bind (ludlc_cobs_enc_fill fcf alg (fst (cobs_enc_turn fcf alg fs room))
                       (room - length (snd (cobs_enc_turn fcf alg fs room))))
          (\<lambda>(fs', out'). Some (fs', snd (cobs_enc_turn fcf alg fs room) @ out'))
      else Some (fs, []))"

declare ludlc_cobs_enc_fill.simps [code]

section \<open>The decoder\<close>

definition cobs_dec_reset :: "'c::len word cobs_state \<Rightarrow> 'c csum_alg \<Rightarrow> 'c word cobs_state" where
  "cobs_dec_reset fs alg =
     (let dec = (cobs_dec fs)\<lparr>cdec_size := 0\<rparr>;
          dec = (if ludlc_csum_on alg then dec\<lparr>cdec_csum := ludlc_csum_rx_init alg\<rparr> else dec)
      in fs\<lparr>cobs_dec := dec\<lparr>cdec_code := 0, cdec_left := 0\<rparr>,
            cobs_flags := ludlc_platform_clear_mask CDEC_FLAGS_MASK (cobs_flags fs)\<rparr>)"

definition cobs_store_byte :: "'c::len word cobs_state \<Rightarrow> 'c csum_alg \<Rightarrow> octet \<Rightarrow> 'c word cobs_state" where
  "cobs_store_byte fs alg c =
     (let dec = cobs_dec fs in
      if cdec_size dec < cdec_payload_cap dec then
        let dec = dec\<lparr>cdec_payload := (cdec_payload dec)[unat (cdec_size dec) := c], cdec_size := cdec_size dec + 1\<rparr>
        in fs\<lparr>cobs_dec := if ludlc_csum_on alg then dec\<lparr>cdec_csum := ludlc_csum_rx alg (cdec_csum dec) c\<rparr> else dec\<rparr>
      else cobs_put_flag CDEC_OVER_F True fs)"

definition ludlc_cobs_dec_init :: "'r cobs_state \<Rightarrow> 'r cobs_state" where
  "ludlc_cobs_dec_init fs = fs\<lparr>cobs_dec := (cobs_dec fs)\<lparr>cdec_size := 0\<rparr>\<rparr>"

definition ludlc_cobs_dec_prep ::
    "'c::len word cobs_state \<Rightarrow> 'c csum_alg \<Rightarrow> octet list \<Rightarrow> ludlc_frame_size_t \<Rightarrow> 'c word cobs_state" where
  "ludlc_cobs_dec_prep fs alg buf cap =
     cobs_dec_reset (fs\<lparr>cobs_dec := (cobs_dec fs)\<lparr>cdec_payload := buf, cdec_payload_cap := cap\<rparr>\<rparr>) alg"

text \<open>An octet other than the delimiter, and the delimiter.\<close>

definition cobs_dec_octet :: "framing_config \<Rightarrow> ('c::len) csum_alg \<Rightarrow> 'c word cobs_state \<Rightarrow> octet \<Rightarrow> 'c word cobs_state" where
  "cobs_dec_octet fcf alg fs c =
     (if cobs_flag CDEC_OVER_F fs then fs
      else if cdec_left (cobs_dec fs) \<noteq> 0 then
        let fs = cobs_store_byte fs alg c
        in fs\<lparr>cobs_dec := (cobs_dec fs)\<lparr>cdec_left := cdec_left (cobs_dec fs) - 1\<rparr>\<rparr>
      else
        let fs = (if cobs_flag CDEC_STARTED_F fs \<and> cdec_code (cobs_dec fs) \<noteq> 0xff
                  then cobs_store_byte fs alg (LUDLC_COBS_DELIMITER fcf) else fs);
            fs = fs\<lparr>cobs_dec := (cobs_dec fs)\<lparr>cdec_code := c, cdec_left := c - 1\<rparr>\<rparr>
        in cobs_put_flag CDEC_STARTED_F True fs)"

definition cobs_dec_end ::
    "('c::len) csum_alg \<Rightarrow> 'c word cobs_state \<times> ludlc_stats \<Rightarrow> ('c word cobs_state \<times> ludlc_stats) \<times> bool" where
  "cobs_dec_end alg = (\<lambda>(fs, stats).
     let dec = cobs_dec fs in
     if cobs_flag CDEC_OVER_F fs then ((cobs_dec_reset fs alg, stats\<lparr>jabber := jabber stats + 1\<rparr>), False)
     else if cdec_left dec \<noteq> 0 then ((cobs_dec_reset fs alg, stats\<lparr>dropped := dropped stats + 1\<rparr>), False)
     else if unat (cdec_size dec) \<ge> ludlc_frame_min_sz alg then
       if \<not> ludlc_csum_on alg \<or> ludlc_csum_rx_ok alg (cdec_csum dec) then
         ((if ludlc_csum_on alg
           then fs\<lparr>cobs_dec := dec\<lparr>cdec_size := cdec_size dec - ucast (ludlc_csum_octets alg)\<rparr>\<rparr> else fs,
           stats\<lparr>rx_packet := rx_packet stats + 1\<rparr>), True)
       else ((cobs_dec_reset fs alg, stats\<lparr>bad_csum := bad_csum stats + 1\<rparr>), False)
     else if cdec_size dec \<noteq> 0 then ((cobs_dec_reset fs alg, stats\<lparr>dropped := dropped stats + 1\<rparr>), False)
     else ((cobs_dec_reset fs alg, stats), False))"

fun ludlc_cobs_dec_feed ::
    "framing_config \<Rightarrow> ('c::len) csum_alg \<Rightarrow> 'c word cobs_state \<times> ludlc_stats \<Rightarrow> octet list \<Rightarrow>
     ('c word cobs_state \<times> ludlc_stats) \<times> nat \<times> bool" where
  "ludlc_cobs_dec_feed fcf alg (fs, stats) [] = ((fs, stats), 0, False)"
| "ludlc_cobs_dec_feed fcf alg (fs, stats) (c # cs) =
     (if c \<noteq> LUDLC_COBS_DELIMITER fcf then
        let (ds, n, done) = ludlc_cobs_dec_feed fcf alg (cobs_dec_octet fcf alg fs c, stats) cs in (ds, n + 1, done)
      else
        let (ds, done) = cobs_dec_end alg (fs, stats) in
        if done then (ds, 0, True)
        else let (ds, n, done) = ludlc_cobs_dec_feed fcf alg ds cs in (ds, n + 1, done))"

definition ludlc_cobs_dec_size :: "'r cobs_state \<Rightarrow> ludlc_payload_size_t" where
  "ludlc_cobs_dec_size fs = ucast (cdec_size (cobs_dec fs))"

section \<open>Sizes\<close>

definition ludlc_cobs_frame_sz :: "config \<Rightarrow> ludlc_connection \<Rightarrow> ('c::len) csum_alg \<Rightarrow> ludlc_frame_size_t" where
  "ludlc_cobs_frame_sz cf conn alg = of_nat (LUDLC_COBS_ENCODED_MAX (unat (ludlc_conn_frame_sz cf conn alg)))"

definition framing_cobs_encoded_max :: "config \<Rightarrow> ludlc_connection \<Rightarrow> ('c::len) csum_alg \<Rightarrow> ludlc_frame_size_t" where
  "framing_cobs_encoded_max cf conn alg = ludlc_cobs_frame_sz cf conn alg"

definition framing_cobs_wire_len :: "('c::len) csum_alg \<Rightarrow> ludlc_payload_size_t \<Rightarrow> ludlc_payload_size_t \<Rightarrow> nat" where
  "framing_cobs_wire_len alg hdr_sz pay_sz =
     (let grp = LUDLC_COBS_BLOCK_MAX - 1;
          n = unat hdr_sz + unat pay_sz;
          n = (if ludlc_csum_on alg then n + unat (ludlc_csum_octets alg) else n)
      in if n = 0 then 1 else n + (n + grp - 1) div grp + 1)"

end
