(* ===== verification/Ludlc_Cobs_Enc.thy ===== *)
theory Ludlc_Cobs_Enc
  imports Ludlc_Cobs
begin

text \<open>
  The reference stuffing and the proof that the encoder of \<open>src/src/lib/ludlc_cobs.c\<close>
  computes it: the scan finds the groups of the reference, and what the encoder still has to
  write is, in every state it reaches, the rest of the reference.
\<close>

section \<open>The reference\<close>

text \<open>
  A group is the longest stretch without a delimiter, of 254 octets at most, behind a code
  octet that counts it. A group that stopped short stands for the delimiter after it.
\<close>

function cobs_stuff :: "octet \<Rightarrow> octet list \<Rightarrow> octet list" where
  "cobs_stuff d xs =
     (let g = takeWhile (\<lambda>c. c \<noteq> d) (take 254 xs); n = length g in
      of_nat (n + 1) # g @
        (if n = length xs then [d]
         else if n = 254 then cobs_stuff d (drop 254 xs)
         else cobs_stuff d (drop (n + 1) xs)))"
  by pat_completeness auto

termination
proof (relation "measure (\<lambda>(d, xs). length xs)")
  fix d :: octet and xs g :: "octet list" and n
  assume g: "g = takeWhile (\<lambda>c. c \<noteq> d) (take 254 xs)" "n = length g" "n \<noteq> length xs"
  have "n \<le> length xs"
    using g(1,2) length_takeWhile_le [of "\<lambda>c. c \<noteq> d" "take 254 xs"] by simp
  with g(3) have "n < length xs" by simp
  then show "((d, drop (n + 1) xs), d, xs) \<in> measure (\<lambda>(d, xs). length xs)"
    and "n = 254 \<Longrightarrow> ((d, drop 254 xs), d, xs) \<in> measure (\<lambda>(d, xs). length xs)"
    by auto
qed simp

declare cobs_stuff.simps [simp del]

text \<open>The length of the first group.\<close>

definition group_len :: "octet \<Rightarrow> nat \<Rightarrow> octet list \<Rightarrow> nat" where
  "group_len d k xs = length (takeWhile (\<lambda>c. c \<noteq> d) (take k xs))"

lemma group_len_simps [simp]:
  "group_len d 0 xs = 0" "group_len d k [] = 0"
  "group_len d (Suc k) (x # xs) = (if x = d then 0 else Suc (group_len d k xs))"
  by (simp_all add: group_len_def)

lemma group_len_le: "group_len d k xs \<le> k" "group_len d k xs \<le> length xs"
  using length_takeWhile_le [of "\<lambda>c. c \<noteq> d" "take k xs"] by (simp_all add: group_len_def)

lemma group_take: "takeWhile (\<lambda>c. c \<noteq> d) (take k xs) = take (group_len d k xs) xs"
  by (induction k arbitrary: xs; case_tac xs) auto

lemma group_stop: "group_len d k xs < k \<Longrightarrow> group_len d k xs < length xs \<Longrightarrow> xs ! group_len d k xs = d"
proof (induction k arbitrary: xs)
  case (Suc k)
  then show ?case by (cases xs) (auto split: if_splits)
qed simp

lemma group_free: "d \<notin> set (take (group_len d k xs) xs)"
  by (metis (mono_tags, lifting) group_take set_takeWhileD)

lemma cobs_stuff_eq:
  "cobs_stuff d xs =
     (let n = group_len d 254 xs in
      of_nat (n + 1) # take n xs @
        (if n = length xs then [d] else if n = 254 then cobs_stuff d (drop 254 xs) else cobs_stuff d (drop (n + 1) xs)))"
  using group_len_le(2) [of d 254 xs] by (subst cobs_stuff.simps) (simp add: group_take Let_def min_absorb2)

section \<open>What is left to send\<close>

definition cobs_body :: "'r ludlc_cenc_state \<Rightarrow> octet list" where
  "cobs_body enc = take (cenc_sz enc) (cenc_ptr enc) @ segment (cenc_payload enc) (cenc_payload_size enc)"

text \<open>
  The octets of the frame from the cursor on, where the first \<open>m\<close> of the body are already in
  the running checksum.
\<close>

definition cobs_ahead :: "('c::len) csum_alg \<Rightarrow> 'c word cobs_state \<Rightarrow> nat \<Rightarrow> octet list" where
  "cobs_ahead alg fs m =
     (let enc = cobs_enc fs; b = cobs_body enc in
      b @ (if cobs_flag CENC_ARMED_F fs then shift_out (unat (cenc_csum_left enc)) (cenc_csum enc)
           else csum_end alg (csum_run alg (cenc_csum enc) (drop m b))))"

definition cobs_scanned :: "'r cobs_state \<Rightarrow> nat" where
  "cobs_scanned fs = unat (cenc_run (cobs_enc fs)) + (if cobs_flag CENC_DELIM_F fs then 1 else 0)"

definition cobs_rest :: "framing_config \<Rightarrow> ('c::len) csum_alg \<Rightarrow> 'c word cobs_state \<Rightarrow> octet list" where
  "cobs_rest fcf alg fs =
     (let enc = cobs_enc fs; d = LUDLC_COBS_DELIMITER fcf; run = unat (cenc_run enc) in
      case cenc_state enc of
        cenc_idle \<Rightarrow> if cenc_hdr_size enc = 0 then []
          else cobs_stuff d (frame_of alg (segment (cenc_hdr enc) (cenc_hdr_size enc) @
                 segment (cenc_payload enc) (cenc_payload_size enc)))
      | cenc_code \<Rightarrow> cobs_stuff d (cobs_ahead alg fs 0)
      | cenc_data \<Rightarrow>
          (let xs = cobs_ahead alg fs (cobs_scanned fs) in
           take run xs @
             (if run = length xs then [d]
              else if cobs_flag CENC_DELIM_F fs then cobs_stuff d (drop (run + 1) xs) else cobs_stuff d (drop run xs))))"

definition cobs_cursor_ok :: "'r ludlc_cenc_state \<Rightarrow> bool" where
  "cobs_cursor_ok enc \<longleftrightarrow> cenc_sz enc \<le> length (cenc_ptr enc) \<and> has_octets (cenc_payload enc) (cenc_payload_size enc)"

text \<open>An open group: the octets it still claims are there, and the sum is where the scan left it.\<close>

definition cobs_group_ok :: "('c::len) csum_alg \<Rightarrow> 'c word cobs_state \<Rightarrow> bool" where
  "cobs_group_ok alg fs \<longleftrightarrow> cobs_cursor_ok (cobs_enc fs) \<and>
     unat (cenc_run (cobs_enc fs)) \<le> length (cobs_ahead alg fs (cobs_scanned fs)) \<and>
     (if cobs_flag CENC_ARMED_F fs then length (cobs_body (cobs_enc fs)) \<le> cobs_scanned fs
      else cobs_scanned fs \<le> length (cobs_body (cobs_enc fs)) \<and> cenc_csum_left (cobs_enc fs) = 0)"

definition cobs_enc_ok :: "framing_config \<Rightarrow> ('c::len) csum_alg \<Rightarrow> 'c word cobs_state \<Rightarrow> bool" where
  "cobs_enc_ok fcf alg fs \<longleftrightarrow> csum_ok alg \<and>
     (let enc = cobs_enc fs in
      case cenc_state enc of
        cenc_idle \<Rightarrow> \<not> cobs_flag CENC_ARMED_F fs \<and> has_octets (cenc_hdr enc) (cenc_hdr_size enc) \<and>
          has_octets (cenc_payload enc) (cenc_payload_size enc)
      | cenc_code \<Rightarrow> cobs_cursor_ok enc \<and>
          (if cobs_flag CENC_ARMED_F fs then cobs_body enc = [] else cenc_csum_left enc = 0)
      | cenc_data \<Rightarrow> cobs_group_ok alg fs \<and>
          (let xs = cobs_ahead alg fs (cobs_scanned fs); run = unat (cenc_run enc) in
           if cobs_flag CENC_DELIM_F fs
           then run < length xs \<and> xs ! run = LUDLC_COBS_DELIMITER fcf \<and> \<not> cobs_flag CENC_FULL_F fs
           else \<not> cobs_flag CENC_FULL_F fs \<longrightarrow> run = length xs))"

lemma flag_put [simp]: "m < 32 \<Longrightarrow> n < 32 \<Longrightarrow> cobs_flag m (cobs_put_flag n v fs) = (if m = n then v else cobs_flag m fs)"
  by (simp add: cobs_flag_def cobs_put_flag_def flag_simps)

lemma put_flag_simps [simp]:
  "cobs_enc (cobs_put_flag n v fs) = cobs_enc fs" "cobs_dec (cobs_put_flag n v fs) = cobs_dec fs"
  by (simp_all add: cobs_put_flag_def)

lemma with_enc_simps [simp]:
  "cobs_enc (with_enc f fs) = f (cobs_enc fs)" "cobs_dec (with_enc f fs) = cobs_dec fs"
  "cobs_flags (with_enc f fs) = cobs_flags fs"
  by (simp_all add: with_enc_def)

lemma flag_upd [simp]:
  "cobs_flag n (fs\<lparr>cobs_enc := e\<rparr>) = cobs_flag n fs" "cobs_flag n (fs\<lparr>cobs_dec := c\<rparr>) = cobs_flag n fs"
  "cobs_flag n (with_enc f fs) = cobs_flag n fs"
  by (simp_all add: cobs_flag_def)

section \<open>The scan\<close>

text \<open>
  What holds at each octet of a scan over the frame \<open>xs\<close>: the copies of the cursor point at
  octet \<open>run\<close> of it.
\<close>

definition scan_at ::
    "('c::len) csum_alg \<Rightarrow> octet list \<Rightarrow> nat \<Rightarrow> octet list \<Rightarrow> nat \<Rightarrow> octet list \<Rightarrow> nat \<Rightarrow> uint8 \<Rightarrow> 'c word cobs_state \<Rightarrow> bool" where
  "scan_at alg xs run p sz pay pay_sz cleft fs \<longleftrightarrow>
     sz \<le> length p \<and> pay_sz \<le> length pay \<and> xs = cobs_ahead alg fs run \<and>
     (let b = cobs_body (cobs_enc fs); left = cenc_csum_left (cobs_enc fs) in
      if cobs_flag CENC_ARMED_F fs
      then sz = 0 \<and> pay_sz = 0 \<and> cleft \<le> left \<and> run = length b + (unat left - unat cleft)
      else run \<le> length b \<and> take sz p @ take pay_sz pay = drop run b \<and> left = 0)"

definition scan_same :: "'r cobs_state \<Rightarrow> 'r cobs_state \<Rightarrow> bool" where
  "scan_same fs fs' \<longleftrightarrow> cobs_dec fs' = cobs_dec fs \<and>
     (cobs_enc fs')\<lparr>cenc_csum := cenc_csum (cobs_enc fs), cenc_csum_left := cenc_csum_left (cobs_enc fs)\<rparr> = cobs_enc fs \<and>
     (\<forall>n<32. n \<noteq> CENC_ARMED_F \<longrightarrow> cobs_flag n fs' = cobs_flag n fs)"

definition scan_done :: "octet list \<Rightarrow> nat \<Rightarrow> ('c::len) csum_alg \<Rightarrow> bool \<Rightarrow> 'c word cobs_state \<Rightarrow> bool" where
  "scan_done xs run alg delim fs \<longleftrightarrow>
     (let m = (if delim then run + 1 else run); b = cobs_body (cobs_enc fs) in
      xs = cobs_ahead alg fs m \<and>
      (if cobs_flag CENC_ARMED_F fs then length b \<le> m else m \<le> length b \<and> cenc_csum_left (cobs_enc fs) = 0))"

lemma scan_same_refl [simp]: "scan_same fs fs"
  by (simp add: scan_same_def)

lemma scan_same_trans:
  assumes "scan_same a b" "scan_same b c"
  shows "scan_same a c"
proof -
  let ?u = "\<lambda>e. e\<lparr>cenc_csum := cenc_csum (cobs_enc a), cenc_csum_left := cenc_csum_left (cobs_enc a)\<rparr>"
  have "?u (cobs_enc c) = ?u ((cobs_enc c)\<lparr>cenc_csum := cenc_csum (cobs_enc b), cenc_csum_left := cenc_csum_left (cobs_enc b)\<rparr>)"
    by simp
  also have "\<dots> = cobs_enc a"
    using assms by (simp add: scan_same_def)
  finally show ?thesis
    using assms by (simp add: scan_same_def)
qed

lemma body_upd [simp]:
  "cobs_body (e\<lparr>cenc_csum := c\<rparr>) = cobs_body e" "cobs_body (e\<lparr>cenc_csum_left := l\<rparr>) = cobs_body e"
  "cobs_body (e\<lparr>cenc_run := r\<rparr>) = cobs_body e" "cobs_body (e\<lparr>cenc_state := st\<rparr>) = cobs_body e"
  by (simp_all add: cobs_body_def)

lemma cobs_sum_simps [simp]:
  "cobs_flag n (cobs_sum alg fs c) = cobs_flag n fs" "cobs_body (cobs_enc (cobs_sum alg fs c)) = cobs_body (cobs_enc fs)"
  "cenc_csum_left (cobs_enc (cobs_sum alg fs c)) = cenc_csum_left (cobs_enc fs)"
  by (simp_all add: cobs_sum_def)

lemma cobs_sum_same: "scan_same fs (cobs_sum alg fs c)"
  by (simp add: scan_same_def cobs_sum_def)

text \<open>Folding the next octet of the body in leaves the frame as it is.\<close>

lemma ahead_sum:
  assumes "\<not> cobs_flag CENC_ARMED_F fs" "run < length (cobs_body (cobs_enc fs))" "c = cobs_body (cobs_enc fs) ! run"
  shows "cobs_ahead alg (cobs_sum alg fs c) (Suc run) = cobs_ahead alg fs run"
proof -
  have "drop run (cobs_body (cobs_enc fs)) = c # drop (Suc run) (cobs_body (cobs_enc fs))"
    using assms by (simp add: Cons_nth_drop_Suc)
  then show ?thesis
    using assms(1) by (cases "ludlc_csum_on alg") (simp_all add: cobs_ahead_def Let_def cobs_sum_def)
qed

lemma ahead_armed: "cobs_flag CENC_ARMED_F fs \<Longrightarrow> cobs_ahead alg fs m = cobs_ahead alg fs n"
  by (simp add: cobs_ahead_def Let_def)

text \<open>So does turning the sum into its wire value at the end of the body.\<close>

lemma arm_spec:
  assumes "\<not> cobs_flag CENC_ARMED_F fs" "cobs_arm alg fs cleft = (fs', left)"
  shows "cobs_flag CENC_ARMED_F fs'" "cenc_csum_left (cobs_enc fs') = left" "scan_same fs fs'"
    "cobs_body (cobs_enc fs') = cobs_body (cobs_enc fs)"
    "cobs_ahead alg fs' m = cobs_ahead alg fs (length (cobs_body (cobs_enc fs)))"
proof -
  note a = assms(2) [unfolded cobs_arm_def Let_def, symmetric]
  show "cobs_flag CENC_ARMED_F fs'" "cenc_csum_left (cobs_enc fs') = left"
    using a assms(1) by auto
  show "scan_same fs fs'"
    using a assms(1) by (auto simp: scan_same_def)
  show b: "cobs_body (cobs_enc fs') = cobs_body (cobs_enc fs)"
    using a assms(1) by auto
  show "cobs_ahead alg fs' m = cobs_ahead alg fs (length (cobs_body (cobs_enc fs)))"
    using a assms(1) b by (auto simp: cobs_ahead_def csum_end_def Let_def)
qed

lemma drop_nth_split: "n < length xs \<Longrightarrow> drop n xs = xs ! n # drop (Suc n) xs"
  by (simp add: Cons_nth_drop_Suc)

text \<open>A turn of the scan on an octet of the body, from the header or from the payload.\<close>

lemma scan_body_octet:
  assumes "scan_at alg xs run p sz pay pay_sz cleft fs" "take sz p @ take pay_sz pay = c # ys"
  shows "drop run xs = c # drop (Suc run) xs" "\<not> cobs_flag CENC_ARMED_F fs" "run < length (cobs_body (cobs_enc fs))"
    "xs = cobs_ahead alg (cobs_sum alg fs c) (Suc run)" "drop (Suc run) (cobs_body (cobs_enc fs)) = ys"
proof -
  let ?b = "cobs_body (cobs_enc fs)"
  show na: "\<not> cobs_flag CENC_ARMED_F fs"
    using assms by (auto simp: scan_at_def Let_def)
  then have d: "drop run ?b = c # ys"
    using assms by (simp add: scan_at_def Let_def)
  then show lt: "run < length ?b"
    by (metis drop_eq_Nil list.distinct(1) not_less)
  from d drop_nth_split [OF lt] have c: "c = ?b ! run" "drop (Suc run) ?b = ys"
    by simp_all
  then show "drop (Suc run) ?b = ys" by simp
  show e: "xs = cobs_ahead alg (cobs_sum alg fs c) (Suc run)"
    using ahead_sum [OF na lt c(1), of alg] assms(1) by (simp add: scan_at_def)
  have "length ?b \<le> length xs" "xs ! run = c"
    using assms(1) lt c(1) by (auto simp: scan_at_def cobs_ahead_def Let_def nth_append)
  then show "drop run xs = c # drop (Suc run) xs"
    using drop_nth_split [of run xs] lt by simp
qed

text \<open>A turn of the scan past the body: the sum is in its wire form, and its octets come next.\<close>

lemma scan_armed:
  assumes "scan_at alg xs run p 0 pay 0 cleft fs" "cobs_arm alg fs cleft = (fs1, left)"
  shows "scan_at alg xs run p 0 pay 0 left fs1" "cobs_flag CENC_ARMED_F fs1" "scan_same fs fs1"
    "left = 0 \<Longrightarrow> run = length xs"
    "left \<noteq> 0 \<Longrightarrow> drop run xs =
       ucast (drop_bit (8 * unat (cenc_csum_left (cobs_enc fs1) - left)) (cenc_csum (cobs_enc fs1))) # drop (Suc run) xs"
    "left \<noteq> 0 \<Longrightarrow> scan_at alg xs (run + 1) p 0 pay 0 (left - 1) fs1"
proof -
  have all: "scan_at alg xs run p 0 pay 0 left fs1 \<and> cobs_flag CENC_ARMED_F fs1 \<and> scan_same fs fs1"
  proof (cases "cobs_flag CENC_ARMED_F fs")
    case True
    then show ?thesis
      using assms by (simp add: cobs_arm_def)
  next
    case False
    then have "run = length (cobs_body (cobs_enc fs))"
      using assms(1) by (simp add: scan_at_def Let_def)
    then show ?thesis
      using arm_spec [OF False assms(2)] assms(1) by (auto simp: scan_at_def Let_def)
  qed
  then show at: "scan_at alg xs run p 0 pay 0 left fs1" and fl: "cobs_flag CENC_ARMED_F fs1" and "scan_same fs fs1"
    by simp_all
  let ?e = "cobs_enc fs1" and ?b = "cobs_body (cobs_enc fs1)"
  have xs: "xs = ?b @ shift_out (unat (cenc_csum_left ?e)) (cenc_csum ?e)"
    and run: "run = length ?b + (unat (cenc_csum_left ?e) - unat left)" "unat left \<le> unat (cenc_csum_left ?e)"
    using at fl by (auto simp: scan_at_def cobs_ahead_def Let_def word_le_nat_alt)
  show "run = length xs" if "left = 0"
    using that run xs by simp
  show "drop run xs =
       ucast (drop_bit (8 * unat (cenc_csum_left ?e - left)) (cenc_csum ?e)) # drop (Suc run) xs" if "left \<noteq> 0"
  proof -
    have "0 < unat left"
      using that by (simp add: unat_gt_0)
    then have lt: "run < length xs" "unat (cenc_csum_left ?e) - unat left < unat (cenc_csum_left ?e)"
      using run xs by simp_all
    have "xs ! run = shift_out (unat (cenc_csum_left ?e)) (cenc_csum ?e) ! (unat (cenc_csum_left ?e) - unat left)"
      unfolding xs run(1) by (rule nth_append_length_plus)
    also have "\<dots> = ucast (drop_bit (8 * unat (cenc_csum_left ?e - left)) (cenc_csum ?e))"
      using run(2) lt(2) by (simp add: shift_out_nth unat_sub word_le_nat_alt)
    finally have "xs ! run = ucast (drop_bit (8 * unat (cenc_csum_left ?e - left)) (cenc_csum ?e))" .
    then show ?thesis
      using drop_nth_split [OF lt(1)] by simp
  qed
  show "scan_at alg xs (run + 1) p 0 pay 0 (left - 1) fs1" if "left \<noteq> 0"
  proof -
    have "unat (left - 1) = unat left - 1" "0 < unat left"
      using that by (simp_all add: unat_minus_one unat_gt_0)
    then show ?thesis
      using at fl run ahead_armed [OF fl, of alg run "run + 1"] by (auto simp: scan_at_def Let_def word_le_nat_alt)
  qed
qed

lemma scan_spec:
  assumes "scan_at alg xs run p sz pay pay_sz cleft fs"
    and "cobs_scan fcf alg k run p sz pay pay_sz cleft fs = (run', delim, fs')"
  shows "run' = run + group_len (LUDLC_COBS_DELIMITER fcf) k (drop run xs) \<and>
    (delim \<longleftrightarrow> run' < run + k \<and> run' < length xs) \<and> scan_same fs fs' \<and> scan_done xs run' alg delim fs'"
  using assms
proof (induction k arbitrary: run p sz pay pay_sz cleft fs)
  case 0
  have le: "run \<le> length xs"
    using 0 by (auto simp: scan_at_def cobs_ahead_def Let_def word_le_nat_alt split: if_splits)
  show ?case
    using 0 by (auto simp: scan_at_def scan_done_def Let_def split: if_splits)
next
  case (Suc k)
  let ?d = "LUDLC_COBS_DELIMITER fcf"
  note at = Suc.prems(1)
  have body: ?case if c: "take sz p @ take pay_sz pay = c # ys"
      and s: "cobs_scan fcf alg (Suc k) run p sz pay pay_sz cleft fs =
        (if c = ?d then (run, True, cobs_sum alg fs c) else cobs_scan fcf alg k (run + 1) p' sz' pay' pay_sz' cleft (cobs_sum alg fs c))"
      and p': "take sz' p' @ take pay_sz' pay' = ys" "sz' \<le> length p'" "pay_sz' \<le> length pay'" for c ys p' sz' pay' pay_sz'
  proof -
    note b = scan_body_octet [OF at c]
    have lt: "run < length xs"
      using b(1) by (metis drop_eq_Nil list.distinct(1) not_less)
    show ?thesis
    proof (cases "c = ?d")
      case True
      then show ?thesis
        using Suc.prems(2) s b lt at cobs_sum_same [of fs alg c]
        by (auto simp: scan_done_def scan_at_def Let_def Suc_le_eq)
    next
      case False
      have "scan_at alg xs (run + 1) p' sz' pay' pay_sz' cleft (cobs_sum alg fs c)"
        using b at p' by (simp add: scan_at_def Let_def Suc_le_eq)
      from Suc.IH [OF this] show ?thesis
        using Suc.prems(2) s b False scan_same_trans [OF cobs_sum_same [of fs alg c]] by auto
    qed
  qed
  consider (hdr) "sz \<noteq> 0" | (pay) "sz = 0" "pay_sz \<noteq> 0" | (csum) "sz = 0" "pay_sz = 0"
    by blast
  then show ?case
  proof cases
    case hdr
    then obtain c q where p: "p = c # q"
      using at by (cases p) (auto simp: scan_at_def)
    have "take sz p @ take pay_sz pay = c # (take (sz - 1) q @ take pay_sz pay)"
      using hdr p by (cases sz) simp_all
    then show ?thesis
    proof (rule body)
      show "cobs_scan fcf alg (Suc k) run p sz pay pay_sz cleft fs =
        (if c = ?d then (run, True, cobs_sum alg fs c)
         else cobs_scan fcf alg k (run + 1) q (sz - 1) pay pay_sz cleft (cobs_sum alg fs c))"
        using hdr p by (simp add: Let_def)
    qed (use at p in \<open>auto simp: scan_at_def\<close>)
  next
    case pay
    then obtain c q where p: "pay = c # q"
      using at by (cases pay) (auto simp: scan_at_def)
    have "take sz p @ take pay_sz pay = c # (take (pay_sz - 1) q)"
      using pay p by (cases pay_sz) simp_all
    then show ?thesis
    proof (rule body)
      show "cobs_scan fcf alg (Suc k) run p sz pay pay_sz cleft fs =
        (if c = ?d then (run, True, cobs_sum alg fs c)
         else cobs_scan fcf alg k (run + 1) p 0 q (pay_sz - 1) cleft (cobs_sum alg fs c))"
        using pay p by (simp add: Let_def)
    qed (use at p in \<open>auto simp: scan_at_def\<close>)
  next
    case csum
    obtain fs1 left where a: "cobs_arm alg fs cleft = (fs1, left)"
      by (cases "cobs_arm alg fs cleft")
    note ar = scan_armed [OF at [unfolded csum] a]
    have s: "cobs_scan fcf alg (Suc k) run p sz pay pay_sz cleft fs =
        (if left = 0 then (run, False, fs1)
         else let c = ucast (drop_bit (8 * unat (cenc_csum_left (cobs_enc fs1) - left)) (cenc_csum (cobs_enc fs1))) in
           if c = ?d then (run, True, fs1) else cobs_scan fcf alg k (run + 1) p 0 pay 0 (left - 1) fs1)"
      using csum a by (simp add: Let_def)
    have dn: "scan_done xs run alg delim fs1" for delim
      using ar(1,2) ahead_armed [OF ar(2), of alg run] by (auto simp: scan_done_def scan_at_def Let_def)
    show ?thesis
    proof (cases "left = 0")
      case True
      then have "run' = run" "\<not> delim" "fs' = fs1" "drop run xs = []" "run = length xs"
        using Suc.prems(2) s ar(4) by auto
      then show ?thesis
        using dn ar(3) by simp
    next
      case False
      note oc = ar(5,6) [OF False]
      have lt: "run < length xs"
        using oc(1) by (metis drop_eq_Nil list.distinct(1) not_less)
      show ?thesis
      proof (cases "ucast (drop_bit (8 * unat (cenc_csum_left (cobs_enc fs1) - left)) (cenc_csum (cobs_enc fs1))) = ?d")
        case True
        then show ?thesis
          using Suc.prems(2) s oc(1) False lt dn ar(3) by (auto simp: Let_def)
      next
        case nd: False
        from Suc.IH [OF oc(2)] show ?thesis
          using Suc.prems(2) s oc(1) False nd scan_same_trans [OF ar(3)] by (auto simp: Let_def)
      qed
    qed
  qed
qed

section \<open>Opening a group\<close>

lemma scan_same_fields:
  assumes "scan_same fs fs'"
  shows "cenc_ptr (cobs_enc fs') = cenc_ptr (cobs_enc fs)" "cenc_sz (cobs_enc fs') = cenc_sz (cobs_enc fs)"
    "cenc_payload (cobs_enc fs') = cenc_payload (cobs_enc fs)"
    "cenc_payload_size (cobs_enc fs') = cenc_payload_size (cobs_enc fs)"
    "cobs_body (cobs_enc fs') = cobs_body (cobs_enc fs)"
proof -
  let ?e = "(cobs_enc fs')\<lparr>cenc_csum := cenc_csum (cobs_enc fs), cenc_csum_left := cenc_csum_left (cobs_enc fs)\<rparr>"
  have e: "?e = cobs_enc fs"
    using assms by (simp add: scan_same_def)
  show "cenc_ptr (cobs_enc fs') = cenc_ptr (cobs_enc fs)" "cenc_sz (cobs_enc fs') = cenc_sz (cobs_enc fs)"
    "cenc_payload (cobs_enc fs') = cenc_payload (cobs_enc fs)"
    "cenc_payload_size (cobs_enc fs') = cenc_payload_size (cobs_enc fs)"
    "cobs_body (cobs_enc fs') = cobs_body (cobs_enc fs)"
    using arg_cong [OF e, of cenc_ptr] arg_cong [OF e, of cenc_sz] arg_cong [OF e, of cenc_payload]
      arg_cong [OF e, of cenc_payload_size] arg_cong [OF e, of cobs_body] by simp_all
qed

lemma ahead_cong:
  assumes "cobs_body (cobs_enc a) = cobs_body (cobs_enc b)" "cenc_csum (cobs_enc a) = cenc_csum (cobs_enc b)"
    and "cenc_csum_left (cobs_enc a) = cenc_csum_left (cobs_enc b)" "cobs_flag CENC_ARMED_F a = cobs_flag CENC_ARMED_F b"
  shows "cobs_ahead alg a m = cobs_ahead alg b m"
  using assms by (simp add: cobs_ahead_def Let_def)

lemma code_rest:
  assumes "cobs_enc_ok fcf alg fs" "cenc_state (cobs_enc fs) = cenc_code" "cobs_enc_code fcf alg fs = (fs', out)"
  shows "cobs_enc_ok fcf alg fs' \<and> cobs_rest fcf alg fs = out @ cobs_rest fcf alg fs' \<and> length out = 1"
proof -
  let ?d = "LUDLC_COBS_DELIMITER fcf" and ?e = "cobs_enc fs"
  define xs where "xs = cobs_ahead alg fs 0"
  obtain n delim fs1 where s: "cobs_scan fcf alg 254 0 (cenc_ptr ?e) (cenc_sz ?e) (the (cenc_payload ?e))
      (unat (cenc_payload_size ?e)) (cenc_csum_left ?e) fs = (n, delim, fs1)"
    by (metis surj_pair)
  have at: "scan_at alg xs 0 (cenc_ptr ?e) (cenc_sz ?e) (the (cenc_payload ?e))
      (unat (cenc_payload_size ?e)) (cenc_csum_left ?e) fs"
    using assms(1,2) by (auto simp: scan_at_def cobs_enc_ok_def cobs_cursor_ok_def has_octets_def cobs_body_def
        segment_def xs_def Let_def split: if_splits)
  note sp = scan_spec [OF at s, unfolded drop_0 add_0]
  have n: "n = group_len ?d 254 xs" "n \<le> 254" "n \<le> length xs" and delim: "delim \<longleftrightarrow> n < 254 \<and> n < length xs"
    using sp group_len_le [of ?d 254 xs] by auto
  define m where "m = (if delim then n + 1 else n)"
  let ?g = "cobs_put_flag CENC_FULL_F (n = 254) (cobs_put_flag CENC_DELIM_F delim fs1)"
  have fs': "fs' = with_enc (\<lambda>e. e\<lparr>cenc_run := of_nat n, cenc_state := cenc_data\<rparr>) ?g" and out: "out = [of_nat (n + 1)]"
    using assms(3) s by (auto simp: cobs_enc_code_def Let_def)
  have run: "unat (of_nat n :: 8 word) = n"
    using n(2) by (simp add: unat_of_nat)
  have sc: "cobs_scanned fs' = m"
    by (simp add: cobs_scanned_def fs' run m_def)
  have dn: "xs = cobs_ahead alg fs1 m"
      "if cobs_flag CENC_ARMED_F fs1 then length (cobs_body (cobs_enc fs1)) \<le> m
       else m \<le> length (cobs_body (cobs_enc fs1)) \<and> cenc_csum_left (cobs_enc fs1) = 0"
    using conjunct2 [OF conjunct2 [OF conjunct2 [OF sp]]] unfolding scan_done_def Let_def m_def by blast+
  have ahead: "cobs_ahead alg fs' m = xs"
    unfolding dn(1) by (rule ahead_cong) (simp_all add: fs')
  have cur: "cobs_cursor_ok (cobs_enc fs')"
    using assms(1,2) scan_same_fields [of fs fs1] sp by (simp add: fs' cobs_enc_ok_def cobs_cursor_ok_def Let_def)
  have grp: "cobs_group_ok alg fs'"
    using cur dn(2) n(3) sc ahead by (auto simp: cobs_group_ok_def fs' run)
  have stop: "xs ! n = ?d" if delim
    using that delim n(1) group_stop [of ?d 254 xs] by simp
  have f: "cenc_state (cobs_enc fs') = cenc_data" "unat (cenc_run (cobs_enc fs')) = n"
      "cobs_flag CENC_DELIM_F fs' = delim" "cobs_flag CENC_FULL_F fs' = (n = 254)"
    by (simp_all add: fs' run)
  have "cobs_rest fcf alg fs' = take n xs @
      (if n = length xs then [?d] else if delim then cobs_stuff ?d (drop (n + 1) xs) else cobs_stuff ?d (drop n xs))"
    by (simp add: cobs_rest_def Let_def f sc ahead)
  moreover have "cobs_rest fcf alg fs = cobs_stuff ?d xs"
    using assms(2) by (simp add: cobs_rest_def xs_def)
  ultimately have "cobs_rest fcf alg fs = out @ cobs_rest fcf alg fs'"
    using delim n(2,3) by (auto simp: cobs_stuff_eq [of ?d xs] n(1) [symmetric] Let_def out)
  moreover have "cobs_enc_ok fcf alg fs'"
    using grp assms(1) stop delim n(2,3) by (simp add: cobs_enc_ok_def f sc ahead Let_def)
  ultimately show ?thesis
    by (simp add: out)
qed

section \<open>Sending a group\<close>

lemma body_next [simp]: "cobs_body (cobs_next_segment e) = cobs_body e"
  by (simp add: cobs_next_segment_def cobs_body_def segment_def)

lemma next_fields [simp]:
  "cenc_csum (cobs_next_segment e) = cenc_csum e" "cenc_csum_left (cobs_next_segment e) = cenc_csum_left e"
  "cenc_run (cobs_next_segment e) = cenc_run e" "cenc_state (cobs_next_segment e) = cenc_state e"
  by (simp_all add: cobs_next_segment_def)

lemma next_cursor: "cobs_cursor_ok e \<Longrightarrow> cobs_cursor_ok (cobs_next_segment e)"
  by (auto simp: cobs_cursor_ok_def cobs_next_segment_def has_octets_def)

lemma next_empty: "cobs_cursor_ok e \<Longrightarrow> cenc_sz (cobs_next_segment e) = 0 \<longleftrightarrow> cobs_body e = []"
  by (auto simp: cobs_next_segment_def cobs_body_def cobs_cursor_ok_def segment_def has_octets_def unat_eq_0)

lemma next_payload: "cenc_sz (cobs_next_segment e) = 0 \<Longrightarrow> cenc_payload_size (cobs_next_segment e) = 0"
  by (auto simp: cobs_next_segment_def unat_eq_0 split: if_splits)

text \<open>What a step of the inner loop, one octet of the checksum or a block of the body, moves on by.\<close>

definition sent :: "('c::len) csum_alg \<Rightarrow> 'c word cobs_state \<Rightarrow> octet list \<Rightarrow> 'c word cobs_state \<Rightarrow> bool" where
  "sent alg fs out fs' \<longleftrightarrow> cobs_group_ok alg fs' \<and> cobs_flags fs' = cobs_flags fs \<and> cobs_dec fs' = cobs_dec fs \<and>
     cenc_state (cobs_enc fs') = cenc_state (cobs_enc fs) \<and>
     unat (cenc_run (cobs_enc fs)) = length out + unat (cenc_run (cobs_enc fs')) \<and>
     cobs_ahead alg fs (cobs_scanned fs) = out @ cobs_ahead alg fs' (cobs_scanned fs')"

lemma sentD:
  assumes "sent alg fs out fs'"
  shows "cenc_state (cobs_enc fs') = cenc_state (cobs_enc fs)" "cobs_group_ok alg fs'"
    "unat (cenc_run (cobs_enc fs)) = length out + unat (cenc_run (cobs_enc fs'))"
    "cobs_flag n fs' = cobs_flag n fs" "cobs_dec fs' = cobs_dec fs"
  using assms unfolding sent_def cobs_flag_def by (elim conjE; simp only:)+

lemma sent_trans: "sent alg a xs b \<Longrightarrow> sent alg b ys c \<Longrightarrow> sent alg a (xs @ ys) c"
  by (simp add: sent_def)

lemma sent_nil: "cobs_group_ok alg fs \<Longrightarrow> sent alg fs [] fs"
  by (simp add: sent_def)

lemma send_csum_octet:
  assumes "cobs_group_ok alg fs" "cenc_run (cobs_enc fs) \<noteq> 0" "cobs_body (cobs_enc fs) = []"
  defines "e \<equiv> cobs_next_segment (cobs_enc fs)"
  shows "cenc_csum_left e \<noteq> 0" "cobs_flag CENC_ARMED_F fs"
    "sent alg fs [ucast (cenc_csum e)]
       (fs\<lparr>cobs_enc := e\<lparr>cenc_csum := drop_bit 8 (cenc_csum e), cenc_csum_left := cenc_csum_left e - 1,
                         cenc_run := cenc_run e - 1\<rparr>\<rparr>)"
proof -
  have r: "0 < unat (cenc_run (cobs_enc fs))"
    using assms(2) by (simp add: unat_gt_0)
  show ar: "cobs_flag CENC_ARMED_F fs"
    using assms(1,3) r by (auto simp: cobs_group_ok_def cobs_scanned_def split: if_splits)
  then have le: "unat (cenc_run (cobs_enc fs)) \<le> unat (cenc_csum_left (cobs_enc fs))"
    using assms(1,3) by (simp add: cobs_group_ok_def cobs_ahead_def Let_def)
  with r show left: "cenc_csum_left e \<noteq> 0"
    by (auto simp: e_def)
  have one: "unat (cenc_run (cobs_enc fs) - 1) = unat (cenc_run (cobs_enc fs)) - 1"
      "unat (cenc_csum_left (cobs_enc fs) - 1) = unat (cenc_csum_left (cobs_enc fs)) - 1"
    using assms(2) left by (simp_all add: unat_minus_one e_def)
  obtain l where l: "unat (cenc_csum_left (cobs_enc fs)) = Suc l"
    using le r by (cases "unat (cenc_csum_left (cobs_enc fs))") auto
  have "cobs_cursor_ok (e\<lparr>cenc_csum := a, cenc_csum_left := b, cenc_run := c\<rparr>)" for a b c
    using assms(1) next_cursor [of "cobs_enc fs"] by (simp add: e_def cobs_group_ok_def cobs_cursor_ok_def)
  then show "sent alg fs [ucast (cenc_csum e)]
       (fs\<lparr>cobs_enc := e\<lparr>cenc_csum := drop_bit 8 (cenc_csum e), cenc_csum_left := cenc_csum_left e - 1,
                         cenc_run := cenc_run e - 1\<rparr>\<rparr>)"
    using ar le r one l assms(3)
    by (auto simp: sent_def cobs_group_ok_def cobs_ahead_def e_def Let_def)
qed

lemma send_block:
  assumes "cobs_group_ok alg fs" "len \<le> unat (cenc_run (cobs_enc fs))"
  defines "e \<equiv> cobs_next_segment (cobs_enc fs)"
  assumes "len \<le> cenc_sz e"
  shows "sent alg fs (read_octets (cenc_ptr e) len)
       (fs\<lparr>cobs_enc := e\<lparr>cenc_ptr := drop len (cenc_ptr e), cenc_sz := cenc_sz e - len, cenc_run := cenc_run e - of_nat len\<rparr>\<rparr>)"
proof -
  let ?e' = "e\<lparr>cenc_ptr := drop len (cenc_ptr e), cenc_sz := cenc_sz e - len, cenc_run := cenc_run e - of_nat len\<rparr>"
  let ?fs = "fs\<lparr>cobs_enc := ?e'\<rparr>"
  have cur: "cobs_cursor_ok e"
    using assms(1) next_cursor [of "cobs_enc fs"] by (simp add: e_def cobs_group_ok_def)
  have "len < 256"
    using assms(2) unat_8_less [of "cenc_run (cobs_enc fs)"] by linarith
  then have run: "unat (cenc_run e - of_nat len) = unat (cenc_run (cobs_enc fs)) - len"
    using assms(2) by (simp add: e_def unat_sub word_le_nat_alt unat_of_nat)
  have rd: "read_octets (cenc_ptr e) len = take len (cenc_ptr e)"
    using assms(4) cur by (simp add: read_octets_take cobs_cursor_ok_def)
  have "take (cenc_sz e) (cenc_ptr e) = take len (cenc_ptr e) @ take (cenc_sz e - len) (drop len (cenc_ptr e))"
    using assms(4) by (metis le_add_diff_inverse take_add)
  then have b: "cobs_body (cobs_enc fs) = take len (cenc_ptr e) @ cobs_body ?e'"
    unfolding body_next [of "cobs_enc fs", symmetric] e_def [symmetric] by (simp add: cobs_body_def)
  have l: "length (take len (cenc_ptr e)) = len"
    using assms(4) cur by (simp add: cobs_cursor_ok_def)
  have sc: "cobs_scanned fs = len + cobs_scanned ?fs"
    using assms(2) run by (simp add: cobs_scanned_def cobs_flag_def)
  have ahead: "cobs_ahead alg fs (cobs_scanned fs) = take len (cenc_ptr e) @ cobs_ahead alg ?fs (cobs_scanned ?fs)"
    using b l sc by (simp add: cobs_ahead_def Let_def e_def)
  have "unat (cenc_run ?e') \<le> length (cobs_ahead alg ?fs (cobs_scanned ?fs))"
  proof -
    have "unat (cenc_run (cobs_enc fs)) \<le> length (cobs_ahead alg fs (cobs_scanned fs))"
      using assms(1) by (simp add: cobs_group_ok_def)
    then have "unat (cenc_run (cobs_enc fs)) \<le> len + length (cobs_ahead alg ?fs (cobs_scanned ?fs))"
      unfolding ahead length_append l .
    then show ?thesis
      using run by simp
  qed
  moreover have "cobs_cursor_ok ?e'"
    using cur by (auto simp: cobs_cursor_ok_def)
  moreover have "length (cobs_body (cobs_enc fs)) = len + length (cobs_body ?e')"
    using b l by simp
  moreover have "cenc_csum_left e = cenc_csum_left (cobs_enc fs)"
    by (simp add: e_def)
  ultimately have "cobs_group_ok alg ?fs"
    using assms(1) sc by (auto simp: cobs_group_ok_def split: if_splits)
  then show ?thesis
    using assms(2) run rd l ahead by (simp add: sent_def e_def)
qed

lemma sent_step:
  assumes "sent alg a xs b" "length xs \<le> room"
    and "sent alg b ys c \<and> length ys = min (unat (cenc_run (cobs_enc b))) (room - length xs)"
  shows "sent alg a (xs @ ys) c \<and> length (xs @ ys) = min (unat (cenc_run (cobs_enc a))) room"
proof -
  have "unat (cenc_run (cobs_enc a)) = length xs + unat (cenc_run (cobs_enc b))"
    using assms(1) by (simp add: sent_def)
  then show ?thesis
    using sent_trans [OF assms(1)] assms(2,3) by simp
qed

lemma send_spec:
  assumes "cobs_group_ok alg fs" "cobs_send alg fs room = (fs', out)"
  shows "sent alg fs out fs' \<and> length out = min (unat (cenc_run (cobs_enc fs))) room"
  using assms
proof (induction room arbitrary: fs fs' out rule: less_induct)
  case (less room)
  note g = less.prems(1)
  let ?fs = "with_enc cobs_next_segment fs" and ?e = "cobs_next_segment (cobs_enc fs)"
  show ?case
  proof (cases "cenc_run (cobs_enc fs) \<noteq> 0 \<and> 0 < room")
    case False
    then have "fs' = fs" "out = []"
      using less.prems(2) cobs_send.simps [of alg fs room] by auto
    then show ?thesis
      using sent_nil [OF g] False by auto
  next
    case True
    then have r: "0 < unat (cenc_run (cobs_enc fs))" "0 < room"
      by (simp_all add: unat_gt_0)
    show ?thesis
    proof (cases "cenc_sz ?e = 0")
      case sz: True
      then have b: "cobs_body (cobs_enc fs) = []"
        using g by (simp add: next_empty cobs_group_ok_def)
      let ?f1 = "?fs\<lparr>cobs_enc := ?e\<lparr>cenc_csum := drop_bit 8 (cenc_csum ?e), cenc_csum_left := cenc_csum_left ?e - 1,
                         cenc_run := cenc_run ?e - 1\<rparr>\<rparr>"
      have left: "cenc_csum_left ?e \<noteq> 0" and s1: "sent alg fs [ucast (cenc_csum ?e)] ?f1"
        using send_csum_octet [OF g _ b] True by (simp_all add: with_enc_def)
      obtain out' where rec: "cobs_send alg ?f1 (room - 1) = (fs', out')" and out: "out = ucast (cenc_csum ?e) # out'"
        using less.prems(2) cobs_send.simps [of alg fs room] True sz left by (auto simp: Let_def split: prod.splits)
      have g1: "cobs_group_ok alg ?f1"
        using s1 by (simp add: sent_def)
      have "sent alg ?f1 out' fs' \<and> length out' = min (unat (cenc_run (cobs_enc ?f1))) (room - 1)"
        using r(2) by (intro less.IH [OF _ g1 rec]) simp
      then show ?thesis
        using sent_step [OF s1, of room out' fs'] r(2) by (simp add: out)
    next
      case sz: False
      let ?len = "min (min (unat (cenc_run (cobs_enc fs))) (cenc_sz ?e)) room"
      have len: "(if (if unat (cenc_run ?e) > cenc_sz ?e then cenc_sz ?e else unat (cenc_run ?e)) > room then room
          else (if unat (cenc_run ?e) > cenc_sz ?e then cenc_sz ?e else unat (cenc_run ?e))) = ?len"
        by simp
      let ?f1 = "?fs\<lparr>cobs_enc := ?e\<lparr>cenc_ptr := drop ?len (cenc_ptr ?e), cenc_sz := cenc_sz ?e - ?len,
          cenc_run := cenc_run ?e - of_nat ?len\<rparr>\<rparr>"
      have s1: "sent alg fs (read_octets (cenc_ptr ?e) ?len) ?f1"
        using send_block [OF g, of ?len] by (simp add: with_enc_def)
      obtain out' where rec: "cobs_send alg ?f1 (room - ?len) = (fs', out')" and out: "out = read_octets (cenc_ptr ?e) ?len @ out'"
        using less.prems(2) cobs_send.simps [of alg fs room] True sz unfolding Let_def with_enc_simps len
        by (auto split: prod.splits)
      have g1: "cobs_group_ok alg ?f1"
        using s1 by (simp add: sent_def)
      have "sent alg ?f1 out' fs' \<and> length out' = min (unat (cenc_run (cobs_enc ?f1))) (room - ?len)"
        using r sz by (intro less.IH [OF _ g1 rec]) simp
      then show ?thesis
        using sent_step [OF s1, of room out' fs'] by (simp add: out)
    qed
  qed
qed

lemma data_ok:
  fixes alg :: "('c::len) csum_alg"
  assumes "cenc_state (cobs_enc fs) = cenc_data"
  defines "xs \<equiv> cobs_ahead alg fs (cobs_scanned fs)" and "run \<equiv> unat (cenc_run (cobs_enc fs))"
  shows "cobs_enc_ok fcf alg fs \<longleftrightarrow> csum_ok alg \<and> cobs_group_ok alg fs \<and>
    (if cobs_flag CENC_DELIM_F fs then run < length xs \<and> xs ! run = LUDLC_COBS_DELIMITER fcf \<and> \<not> cobs_flag CENC_FULL_F fs
     else \<not> cobs_flag CENC_FULL_F fs \<longrightarrow> run = length xs)"
    and "cobs_rest fcf alg fs = take run xs @
      (if run = length xs then [LUDLC_COBS_DELIMITER fcf]
       else if cobs_flag CENC_DELIM_F fs then cobs_stuff (LUDLC_COBS_DELIMITER fcf) (drop (run + 1) xs)
       else cobs_stuff (LUDLC_COBS_DELIMITER fcf) (drop run xs))"
  using assms(1) by (simp_all add: cobs_enc_ok_def cobs_rest_def xs_def run_def Let_def)

lemma sent_rest:
  assumes "cobs_enc_ok fcf alg fs" "cenc_state (cobs_enc fs) = cenc_data" "sent alg fs out fs'"
  shows "cobs_enc_ok fcf alg fs' \<and> cobs_rest fcf alg fs = out @ cobs_rest fcf alg fs'"
proof -
  define xs ys where "xs = cobs_ahead alg fs (cobs_scanned fs)" and "ys = cobs_ahead alg fs' (cobs_scanned fs')"
  have st: "cenc_state (cobs_enc fs') = cenc_data" and x: "xs = out @ ys" and g: "cobs_group_ok alg fs'"
    and r: "unat (cenc_run (cobs_enc fs)) = length out + unat (cenc_run (cobs_enc fs'))"
    and fl: "cobs_flag n fs' = cobs_flag n fs" for n
    using assms(2,3) by (simp_all add: sent_def xs_def ys_def cobs_flag_def)
  have "cobs_enc_ok fcf alg fs'"
    using assms(1) g unfolding data_ok(1) [OF assms(2)] data_ok(1) [OF st] xs_def [symmetric] ys_def [symmetric] r x fl
    by (auto split: if_splits)
  moreover have "cobs_rest fcf alg fs = out @ cobs_rest fcf alg fs'"
    unfolding data_ok(2) [OF assms(2)] data_ok(2) [OF st] xs_def [symmetric] ys_def [symmetric] r x fl by simp
  ultimately show ?thesis by blast
qed

text \<open>Whether anything follows a full group, as the code asks it.\<close>

lemma ahead_empty:
  assumes "cobs_cursor_ok (cobs_enc fs)" "\<not> cobs_flag CENC_ARMED_F fs \<Longrightarrow> cenc_csum_left (cobs_enc fs) = 0"
  shows "cobs_ahead alg fs m \<noteq> [] \<longleftrightarrow>
    cenc_sz (cobs_enc fs) \<noteq> 0 \<or> cenc_payload_size (cobs_enc fs) \<noteq> 0 \<or> cenc_csum_left (cobs_enc fs) \<noteq> 0 \<or>
    (\<not> cobs_flag CENC_ARMED_F fs \<and> ludlc_csum_on alg \<and> ludlc_csum_octets alg \<noteq> 0)"
proof -
  have b: "cobs_body (cobs_enc fs) = [] \<longleftrightarrow> cenc_sz (cobs_enc fs) = 0 \<and> cenc_payload_size (cobs_enc fs) = 0"
    using assms(1) by (auto simp: cobs_body_def cobs_cursor_ok_def segment_def has_octets_def unat_eq_0)
  have e: "csum_end alg c = [] \<longleftrightarrow> \<not> (ludlc_csum_on alg \<and> ludlc_csum_octets alg \<noteq> 0)" for c
    using length_csum_end [of alg c] by (metis csum_off(2) length_0_conv unat_eq_0)
  have o: "shift_out n w = [] \<longleftrightarrow> n = 0" for n and w :: "'a word"
    by (cases n) simp_all
  show ?thesis
    using b e o assms(2) by (auto simp: cobs_ahead_def Let_def unat_eq_0)
qed

lemma code_ok:
  assumes "cenc_state (cobs_enc fs) = cenc_code"
  shows "cobs_enc_ok fcf alg fs \<longleftrightarrow> csum_ok alg \<and> cobs_cursor_ok (cobs_enc fs) \<and>
      (if cobs_flag CENC_ARMED_F fs then cobs_body (cobs_enc fs) = [] else cenc_csum_left (cobs_enc fs) = 0)"
    and "cobs_rest fcf alg fs = cobs_stuff (LUDLC_COBS_DELIMITER fcf) (cobs_ahead alg fs 0)"
  using assms by (simp_all add: cobs_enc_ok_def cobs_rest_def Let_def)

text \<open>Past the delimiter a group ends on, the next group starts.\<close>

lemma delim_rest:
  fixes alg :: "('c::len) csum_alg"
  assumes "cobs_enc_ok fcf alg fs" "cenc_state (cobs_enc fs) = cenc_data" "cenc_run (cobs_enc fs) = 0" "cobs_flag CENC_DELIM_F fs"
  defines "e \<equiv> cobs_next_segment (cobs_enc fs)"
  defines "e' \<equiv> (if cenc_sz e \<noteq> 0 then e\<lparr>cenc_ptr := tl (cenc_ptr e), cenc_sz := cenc_sz e - 1\<rparr>
     else if cenc_csum_left e \<noteq> 0 then e\<lparr>cenc_csum := drop_bit 8 (cenc_csum e), cenc_csum_left := cenc_csum_left e - 1\<rparr>
     else e)"
  shows "cobs_enc_ok fcf alg (fs\<lparr>cobs_enc := e'\<lparr>cenc_state := cenc_code\<rparr>\<rparr>) \<and>
    cobs_rest fcf alg fs = cobs_rest fcf alg (fs\<lparr>cobs_enc := e'\<lparr>cenc_state := cenc_code\<rparr>\<rparr>)"
proof -
  let ?fs = "fs\<lparr>cobs_enc := e'\<lparr>cenc_state := cenc_code\<rparr>\<rparr>"
  define xs where "xs = cobs_ahead alg fs (cobs_scanned fs)"
  note ok = assms(1) [unfolded data_ok(1) [OF assms(2)], folded xs_def]
  have sc: "cobs_scanned fs = 1"
    using assms(3,4) by (simp add: cobs_scanned_def)
  have g: "cobs_cursor_ok e" "xs \<noteq> []" "csum_ok alg"
      "if cobs_flag CENC_ARMED_F fs then length (cobs_body e) \<le> 1 else 1 \<le> length (cobs_body e) \<and> cenc_csum_left e = 0"
    using ok next_cursor [of "cobs_enc fs"] assms(4) sc by (auto simp: cobs_group_ok_def e_def)
  have xs: "xs = cobs_body e @ (if cobs_flag CENC_ARMED_F fs then shift_out (unat (cenc_csum_left e)) (cenc_csum e)
      else csum_end alg (csum_run alg (cenc_csum e) (drop 1 (cobs_body e))))"
    by (simp add: xs_def cobs_ahead_def e_def sc Let_def)
  have empty: "cenc_sz e = 0 \<longleftrightarrow> cobs_body e = []"
    using assms(1,2) next_empty [of "cobs_enc fs"] ok by (simp add: e_def cobs_group_ok_def)
  have "cobs_cursor_ok e' \<and> cobs_body e' = tl (cobs_body e) \<and>
      (if cobs_flag CENC_ARMED_F fs then cobs_body e' = [] else cenc_csum_left e' = 0) \<and> cobs_ahead alg ?fs 0 = tl xs"
  proof (cases "cenc_sz e = 0")
    case True
    then have b: "cobs_body e = []" "cobs_flag CENC_ARMED_F fs"
      using empty g(4) by (auto split: if_splits)
    then obtain l where l: "unat (cenc_csum_left e) = Suc l"
      using xs g(2) by (cases "unat (cenc_csum_left e)") auto
    then have left: "cenc_csum_left e \<noteq> 0"
      by auto
    then have l1: "unat (cenc_csum_left e - 1) = l"
      using l by (simp add: unat_minus_one)
    have "cobs_cursor_ok (e\<lparr>cenc_csum := a, cenc_csum_left := c\<rparr>)" for a c
      using g(1) by (simp add: cobs_cursor_ok_def)
    then show ?thesis
      using True b left l l1 xs by (simp add: e'_def cobs_ahead_def)
  next
    case False
    then obtain c ys where p: "cenc_ptr e = c # ys"
      using g(1) by (cases "cenc_ptr e") (auto simp: cobs_cursor_ok_def)
    have b: "cobs_body e' = tl (cobs_body e)"
      using False p by (cases "cenc_sz e") (simp_all add: e'_def cobs_body_def)
    moreover have "cobs_cursor_ok e'"
      using False p g(1) by (auto simp: e'_def cobs_cursor_ok_def)
    moreover have "cobs_body e \<noteq> []"
      using False empty by simp
    ultimately show ?thesis
      using False xs g(4) by (cases "cobs_body e") (auto simp: cobs_ahead_def e'_def Let_def drop_Suc split: if_splits)
  qed
  moreover have "cobs_rest fcf alg fs = cobs_stuff (LUDLC_COBS_DELIMITER fcf) (tl xs)"
    unfolding data_ok(2) [OF assms(2)] xs_def [symmetric] using g(2) assms(3,4) by (simp add: drop_Suc)
  moreover have "cobs_cursor_ok (e'\<lparr>cenc_state := cenc_code\<rparr>) = cobs_cursor_ok e'"
    by (simp add: cobs_cursor_ok_def)
  moreover have st: "cenc_state (cobs_enc ?fs) = cenc_code"
    by simp
  ultimately show ?thesis
    using g(3) unfolding code_ok [OF st] by (auto split: if_splits)
qed

lemma data_turn_rest:
  assumes "cobs_enc_ok fcf alg fs" "cenc_state (cobs_enc fs) = cenc_data" "0 < room" "cobs_enc_data fcf alg fs room = (fs', out)"
  shows "cobs_enc_ok fcf alg fs' \<and> cobs_rest fcf alg fs = out @ cobs_rest fcf alg fs' \<and> length out \<le> room \<and>
    (out = [] \<longrightarrow> cenc_state (cobs_enc fs') \<noteq> cenc_data)"
proof -
  let ?d = "LUDLC_COBS_DELIMITER fcf"
  obtain fs1 o1 where s: "cobs_send alg fs room = (fs1, o1)"
    by (cases "cobs_send alg fs room")
  have "cobs_group_ok alg fs"
    using assms(1) data_ok(1) [OF assms(2)] by blast
  note sp = send_spec [OF this s]
  note r = sent_rest [OF assms(1,2) conjunct1 [OF sp]]
  have st: "cenc_state (cobs_enc fs1) = cenc_data"
      "unat (cenc_run (cobs_enc fs)) = length o1 + unat (cenc_run (cobs_enc fs1))"
    using sentD(1,3) [OF conjunct1 [OF sp]] assms(2) by simp_all
  have len: "length o1 \<le> room"
    using sp by simp
  show ?thesis
  proof (cases "cenc_run (cobs_enc fs1) \<noteq> 0 \<or> length o1 \<ge> room")
    case True
    then have "fs' = fs1" "out = o1"
      using assms(4) s by (auto simp: cobs_enc_data_def)
    moreover have "o1 \<noteq> []"
    proof
      assume nil: "o1 = []"
      with conjunct2 [OF sp] assms(3) have "unat (cenc_run (cobs_enc fs)) = 0"
        by (simp add: min_def split: if_splits)
      with st(2) nil True assms(3) show False
        by (simp add: unat_eq_0)
    qed
    ultimately show ?thesis
      using r len by simp
  next
    case False
    define xs where "xs = cobs_ahead alg fs1 (cobs_scanned fs1)"
    have run: "cenc_run (cobs_enc fs1) = 0" "unat (cenc_run (cobs_enc fs1)) = 0"
      using False by simp_all
    note ok = conjunct1 [OF r, unfolded data_ok(1) [OF st(1)], folded xs_def, unfolded run(2)]
    note re = data_ok(2) [OF st(1), of fcf alg, folded xs_def, unfolded run(2)]
    show ?thesis
    proof (cases "cobs_flag CENC_DELIM_F fs1")
      case delim: True
      note d = delim_rest [OF conjunct1 [OF r] st(1) run(1) delim]
      have "out = o1"
        using assms(4) s False delim by (simp add: cobs_enc_data_def Let_def)
      then show ?thesis
        using assms(4) s False delim d r len by (auto simp: cobs_enc_data_def Let_def)
    next
      case nd: False
      have sc: "cobs_scanned fs1 = 0"
        using nd run by (simp add: cobs_scanned_def)
      have g: "cobs_cursor_ok (cobs_enc fs1)" "\<not> cobs_flag CENC_ARMED_F fs1 \<Longrightarrow> cenc_csum_left (cobs_enc fs1) = 0"
          "cobs_flag CENC_ARMED_F fs1 \<Longrightarrow> cobs_body (cobs_enc fs1) = []" "csum_ok alg"
          "\<not> cobs_flag CENC_FULL_F fs1 \<Longrightarrow> xs = []"
        using ok nd sc by (auto simp: cobs_group_ok_def)
      note em = ahead_empty [OF g(1,2), of alg "cobs_scanned fs1", folded xs_def]
      let ?c = "with_enc (\<lambda>e. e\<lparr>cenc_state := cenc_code\<rparr>) fs1"
      show ?thesis
      proof (cases "cobs_flag CENC_FULL_F fs1 \<and> xs \<noteq> []")
        case True
        then have f: "fs' = ?c" "out = o1"
          using assms(4) s False nd em by (simp_all add: cobs_enc_data_def Let_def)
        have a: "cobs_ahead alg ?c 0 = xs"
          unfolding xs_def sc by (rule ahead_cong) simp_all
        have "cobs_cursor_ok ((cobs_enc fs1)\<lparr>cenc_state := cenc_code\<rparr>)"
          using g(1) by (simp add: cobs_cursor_ok_def)
        then have "cobs_enc_ok fcf alg ?c"
          using g by (simp add: cobs_enc_ok_def)
        moreover have "cobs_rest fcf alg fs1 = cobs_rest fcf alg ?c"
          using re True nd a by (simp add: cobs_rest_def)
        ultimately show ?thesis
          using r f len by simp
      next
        case stop: False
        then have x: "xs = []"
          using g(5) by blast
        have f: "fs' = ludlc_cobs_enc_init fs1" "out = o1 @ [?d]"
          using assms(4) s False nd em stop by (auto simp: cobs_enc_data_def Let_def)
        have "cobs_enc_ok fcf alg (ludlc_cobs_enc_init fs1)" "cobs_rest fcf alg (ludlc_cobs_enc_init fs1) = []"
          using g(4) by (simp_all add: cobs_enc_ok_def cobs_rest_def ludlc_cobs_enc_init_def cobs_flag_def has_octets_def
              flag_simps CENC_FLAGS_MASK_def bit_simps)
        moreover have "cobs_rest fcf alg fs1 = [?d]"
          using re x by simp
        ultimately show ?thesis
          using r f False by simp
      qed
    qed
  qed
qed

lemma cobs_turn_rest:
  assumes "cobs_enc_ok fcf alg fs" "ludlc_cobs_enc_busy fs" "0 < room" "cobs_enc_turn fcf alg fs room = (fs', out)"
  shows "cobs_enc_ok fcf alg fs' \<and> cobs_rest fcf alg fs = out @ cobs_rest fcf alg fs' \<and> length out \<le> room \<and>
    (out = [] \<longrightarrow> cenc_state (cobs_enc fs) = cenc_data \<and> cenc_state (cobs_enc fs') \<noteq> cenc_data)"
proof (cases "cenc_state (cobs_enc fs)")
  case cenc_idle
  let ?e = "cobs_enc fs"
  let ?e1 = "?e\<lparr>cenc_ptr := the (cenc_hdr ?e), cenc_sz := unat (cenc_hdr_size ?e), cenc_csum_left := 0\<rparr>"
  let ?e2 = "if ludlc_csum_on alg then ?e1\<lparr>cenc_csum := ludlc_csum_tx_init alg\<rparr> else ?e1"
  let ?fs = "fs\<lparr>cobs_enc := ?e2\<lparr>cenc_state := cenc_code\<rparr>\<rparr>"
  have h: "cenc_hdr_size ?e \<noteq> 0" "has_octets (cenc_hdr ?e) (cenc_hdr_size ?e)" "\<not> cobs_flag CENC_ARMED_F fs" "csum_ok alg"
      "has_octets (cenc_payload ?e) (cenc_payload_size ?e)"
    using assms(1,2) cenc_idle by (simp_all add: cobs_enc_ok_def ludlc_cobs_enc_busy_def cobs_busy_def Let_def)
  have t: "cobs_enc_code fcf alg ?fs = (fs', out)"
    using assms(4) cenc_idle h(1,2) by (auto simp: cobs_enc_turn_def has_octets_def Let_def)
  have body: "cobs_body ?e2 = segment (cenc_hdr ?e) (cenc_hdr_size ?e) @ segment (cenc_payload ?e) (cenc_payload_size ?e)"
    by (simp add: cobs_body_def segment_def)
  have "cobs_enc_ok fcf alg ?fs"
    using h by (auto simp: cobs_enc_ok_def cobs_cursor_ok_def has_octets_def)
  moreover have "cobs_rest fcf alg fs = cobs_rest fcf alg ?fs"
    using cenc_idle h(1,3) body
    by (cases "ludlc_csum_on alg") (simp_all add: cobs_rest_def cobs_ahead_def frame_of_def csum_tail_def Let_def)
  ultimately show ?thesis
    using code_rest [of fcf alg ?fs, OF _ _ t] assms(3) by auto
next
  case cenc_code
  then show ?thesis
    using code_rest [OF assms(1) cenc_code] assms(3,4) by (auto simp: cobs_enc_turn_def)
next
  case cenc_data
  then show ?thesis
    using data_turn_rest [OF assms(1) cenc_data assms(3)] assms(4) by (simp add: cobs_enc_turn_def)
qed

lemma cobs_idle_rest: "\<not> ludlc_cobs_enc_busy fs \<Longrightarrow> cobs_rest fcf alg fs = []"
  by (simp add: ludlc_cobs_enc_busy_def cobs_busy_def cobs_rest_def)

lemma cobs_fill_idle: "\<not> ludlc_cobs_enc_busy fs \<Longrightarrow> ludlc_cobs_enc_fill fcf alg fs n = Some (fs, [])"
  by (subst ludlc_cobs_enc_fill.simps) simp

text \<open>The loop of the encoder returns, and writes the next octets of the reference.\<close>

lemma cobs_fill_rest:
  assumes "cobs_enc_ok fcf alg fs"
  shows "\<exists>fs' out. ludlc_cobs_enc_fill fcf alg fs n = Some (fs', out) \<and> out = take n (cobs_rest fcf alg fs) \<and>
    cobs_rest fcf alg fs' = drop n (cobs_rest fcf alg fs) \<and> cobs_enc_ok fcf alg fs' \<and>
    (length out < n \<longrightarrow> \<not> ludlc_cobs_enc_busy fs')"
  using assms
proof (induction "2 * n + (if cenc_state (cobs_enc fs) = cenc_data then 1 else 0)" arbitrary: fs n rule: less_induct)
  case less
  show ?case
  proof (cases "0 < n \<and> ludlc_cobs_enc_busy fs")
    case False
    then have "ludlc_cobs_enc_fill fcf alg fs n = Some (fs, [])"
      by (subst ludlc_cobs_enc_fill.simps) auto
    then show ?thesis
      using False less.prems by (auto simp: cobs_idle_rest)
  next
    case True
    obtain fs1 o1 where t: "cobs_enc_turn fcf alg fs n = (fs1, o1)"
      by (cases "cobs_enc_turn fcf alg fs n")
    note r = cobs_turn_rest [OF less.prems conjunct2 [OF True] conjunct1 [OF True] t]
    have "2 * (n - length o1) + (if cenc_state (cobs_enc fs1) = cenc_data then 1 else 0) <
        2 * n + (if cenc_state (cobs_enc fs) = cenc_data then 1 else 0)"
      using r True by (cases o1) (auto split: if_splits)
    from less.hyps [OF this] r obtain fs2 o2 where h: "ludlc_cobs_enc_fill fcf alg fs1 (n - length o1) = Some (fs2, o2)"
        "o2 = take (n - length o1) (cobs_rest fcf alg fs1)" "cobs_rest fcf alg fs2 = drop (n - length o1) (cobs_rest fcf alg fs1)"
        "cobs_enc_ok fcf alg fs2" "length o2 < n - length o1 \<longrightarrow> \<not> ludlc_cobs_enc_busy fs2"
      by blast
    have "ludlc_cobs_enc_fill fcf alg fs n = Some (fs2, o1 @ o2)"
      using True t h(1) by (subst ludlc_cobs_enc_fill.simps) simp
    then show ?thesis
      using h r by auto
  qed
qed

end
