(* ===== verification/Ludlc_Cobs_Link.thy ===== *)
theory Ludlc_Cobs_Link
  imports Ludlc_Cobs_Enc
begin

text \<open>
  What the decoder of \<open>src/src/lib/ludlc_cobs.c\<close> makes of the reference stuffing, the
  interpretation of the framing contract, and the properties of the stuffing. The code
  octets of a frame are 1 to 255, so a delimiter of zero is the one value none of them has;
  the round trip is stated for it.
\<close>

section \<open>What the decoder holds\<close>

definition cdec_holds :: "('c::len) csum_alg \<Rightarrow> octet list \<Rightarrow> 'c word cobs_state \<Rightarrow> bool" where
  "cdec_holds alg ys fs \<longleftrightarrow> (let dec = cobs_dec fs in
     \<not> cobs_flag CDEC_OVER_F fs \<and> unat (cdec_size dec) = length ys \<and> take (length ys) (cdec_payload dec) = ys \<and>
     unat (cdec_payload_cap dec) \<le> length (cdec_payload dec) \<and>
     (ludlc_csum_on alg \<longrightarrow> cdec_csum dec = csum_run alg (ludlc_csum_tx_init alg) ys))"

text \<open>Between two groups, with a delimiter to put back if another group follows.\<close>

definition cdec_between :: "('c::len) csum_alg \<Rightarrow> octet list \<Rightarrow> bool \<Rightarrow> 'c word cobs_state \<Rightarrow> bool" where
  "cdec_between alg ys p fs \<longleftrightarrow> cdec_holds alg ys fs \<and> cdec_left (cobs_dec fs) = 0 \<and>
     (p \<longleftrightarrow> cobs_flag CDEC_STARTED_F fs \<and> cdec_code (cobs_dec fs) \<noteq> 0xff)"

abbreviation cdec_cap :: "'r cobs_state \<Rightarrow> nat" where
  "cdec_cap fs \<equiv> unat (cdec_payload_cap (cobs_dec fs))"

lemma store_holds:
  fixes c :: octet
  assumes "cdec_holds alg ys fs" "length ys < cdec_cap fs"
  defines "fs' \<equiv> cobs_store_byte fs alg c"
  shows "cdec_holds alg (ys @ [c]) fs'" "cdec_cap fs' = cdec_cap fs" "cdec_left (cobs_dec fs') = cdec_left (cobs_dec fs)"
    "cdec_code (cobs_dec fs') = cdec_code (cobs_dec fs)" "cobs_flag n fs' = cobs_flag n fs" "cobs_enc fs' = cobs_enc fs"
proof -
  let ?dec = "cobs_dec fs"
  have sz: "cdec_size ?dec < cdec_payload_cap ?dec" "unat (cdec_size ?dec + 1) = Suc (length ys)"
      "length ys < length (cdec_payload ?dec)"
    using assms(1,2) unat_suc_16 [of "cdec_size ?dec" "cdec_payload_cap ?dec"]
    by (simp_all add: cdec_holds_def Let_def word_less_nat_alt)
  then have "take (Suc (length ys)) ((cdec_payload ?dec)[length ys := c]) = ys @ [c]"
    using assms(1) by (simp add: cdec_holds_def Let_def take_Suc_conv_app_nth)
  then show "cdec_holds alg (ys @ [c]) fs'"
    using assms(1) sz by (auto simp: fs'_def cobs_store_byte_def cdec_holds_def Let_def)
  show "cdec_cap fs' = cdec_cap fs" "cdec_left (cobs_dec fs') = cdec_left (cobs_dec fs)"
    "cdec_code (cobs_dec fs') = cdec_code (cobs_dec fs)" "cobs_flag n fs' = cobs_flag n fs" "cobs_enc fs' = cobs_enc fs"
    using sz(1) by (simp_all add: fs'_def cobs_store_byte_def Let_def)
qed

text \<open>The octets of a group, after its code octet.\<close>

lemma group_octets:
  assumes "cdec_holds alg ys fs" "unat (cdec_left (cobs_dec fs)) = length g" "length ys + length g \<le> cdec_cap fs"
  shows "\<exists>fs'. foldl (cobs_dec_octet fcf alg) fs g = fs' \<and> cdec_holds alg (ys @ g) fs' \<and> cdec_left (cobs_dec fs') = 0 \<and>
    cdec_cap fs' = cdec_cap fs \<and> cdec_code (cobs_dec fs') = cdec_code (cobs_dec fs) \<and>
    cobs_flag CDEC_STARTED_F fs' = cobs_flag CDEC_STARTED_F fs"
  using assms
proof (induction g arbitrary: ys fs)
  case Nil
  then show ?case by (simp add: unat_eq_0)
next
  case (Cons c g)
  let ?s = "cobs_store_byte fs alg c"
  let ?fs = "?s\<lparr>cobs_dec := (cobs_dec ?s)\<lparr>cdec_left := cdec_left (cobs_dec ?s) - 1\<rparr>\<rparr>"
  note st = store_holds [OF Cons.prems(1), where c = c]
  have lt: "length ys < cdec_cap fs"
    using Cons.prems(3) by simp
  have left: "cdec_left (cobs_dec fs) \<noteq> 0"
    using Cons.prems(2) by auto
  have o: "cobs_dec_octet fcf alg fs c = ?fs"
    using left Cons.prems(1) by (simp add: cobs_dec_octet_def cdec_holds_def Let_def)
  have "\<exists>fs'. foldl (cobs_dec_octet fcf alg) ?fs g = fs' \<and> cdec_holds alg ((ys @ [c]) @ g) fs' \<and>
      cdec_left (cobs_dec fs') = 0 \<and> cdec_cap fs' = cdec_cap ?fs \<and> cdec_code (cobs_dec fs') = cdec_code (cobs_dec ?fs) \<and>
      cobs_flag CDEC_STARTED_F fs' = cobs_flag CDEC_STARTED_F ?fs"
  proof (rule Cons.IH)
    show "cdec_holds alg (ys @ [c]) ?fs"
      using st(1) [OF lt] by (simp add: cdec_holds_def Let_def)
    show "unat (cdec_left (cobs_dec ?fs)) = length g"
      using st(3) [OF lt] left Cons.prems(2) by (simp add: unat_minus_one)
    show "length (ys @ [c]) + length g \<le> cdec_cap ?fs"
      using st(2) [OF lt] Cons.prems(3) by simp
  qed
  then show ?case
    using o st(2-5) [OF lt] by simp
qed

lemma code_octet:
  assumes "cdec_between alg ys p fs" "length ys + (if p then 1 else 0) \<le> cdec_cap fs"
  shows "\<exists>fs'. cobs_dec_octet fcf alg fs c = fs' \<and> cdec_holds alg (ys @ (if p then [LUDLC_COBS_DELIMITER fcf] else [])) fs' \<and>
    cdec_left (cobs_dec fs') = c - 1 \<and> cdec_cap fs' = cdec_cap fs \<and> cdec_code (cobs_dec fs') = c \<and> cobs_flag CDEC_STARTED_F fs'"
proof -
  let ?s = "if p then cobs_store_byte fs alg (LUDLC_COBS_DELIMITER fcf) else fs"
  have h: "cdec_holds alg (ys @ (if p then [LUDLC_COBS_DELIMITER fcf] else [])) ?s" "cdec_cap ?s = cdec_cap fs"
    using assms store_holds(1,2) [of alg ys fs] by (auto simp: cdec_between_def)
  have "cobs_dec_octet fcf alg fs c =
      cobs_put_flag CDEC_STARTED_F True (?s\<lparr>cobs_dec := (cobs_dec ?s)\<lparr>cdec_code := c, cdec_left := c - 1\<rparr>\<rparr>)"
    using assms(1) by (auto simp: cobs_dec_octet_def cdec_between_def cdec_holds_def Let_def)
  then show ?thesis
    using h by (simp add: cdec_holds_def Let_def)
qed

text \<open>The decoder undoes the reference stuffing up to the delimiter that ends it.\<close>

lemma stuff_decodes:
  assumes "LUDLC_COBS_DELIMITER fcf = 0" "cdec_between alg ys p fs"
    and "length ys + (if p then 1 else 0) + length xs \<le> cdec_cap fs"
  shows "\<exists>body q. cobs_stuff 0 xs = body @ [0] \<and> 0 \<notin> set body \<and>
    cdec_between alg (ys @ (if p then [0] else []) @ xs) q (foldl (cobs_dec_octet fcf alg) fs body) \<and>
    cdec_cap (foldl (cobs_dec_octet fcf alg) fs body) = cdec_cap fs"
  using assms(2,3)
proof (induction "length xs" arbitrary: xs ys p fs rule: less_induct)
  case less
  define n zs where "n = group_len 0 254 xs" and "zs = ys @ (if p then [0] else [])"
  have n: "n \<le> 254" "n \<le> length xs"
    using group_len_le [of 0 254 xs] by (simp_all add: n_def)
  define c where "c = (of_nat (n + 1) :: octet)"
  have uc1: "unat c = n + 1"
    unfolding c_def unat_of_nat using n(1) by simp
  then have "c \<noteq> 0"
    by auto
  then have uc: "unat c = n + 1" "unat (c - 1) = n"
    using uc1 by (simp_all add: unat_minus_one)
  then have c0: "c \<noteq> 0" "c = 0xff \<longleftrightarrow> n = 254"
    by (auto simp: word_unat_eq_iff)
  obtain f1 where f1: "cobs_dec_octet fcf alg fs c = f1" "cdec_holds alg zs f1" "cdec_left (cobs_dec f1) = c - 1"
      "cdec_cap f1 = cdec_cap fs" "cdec_code (cobs_dec f1) = c" "cobs_flag CDEC_STARTED_F f1"
    using code_octet [OF less.prems(1), of fcf c, unfolded assms(1)] less.prems(2) by (auto simp: zs_def)
  have len: "length zs + length xs \<le> cdec_cap f1"
    using less.prems(2) f1(4) by (simp add: zs_def split: if_splits)
  obtain f2 where f2: "foldl (cobs_dec_octet fcf alg) f1 (take n xs) = f2" "cdec_holds alg (zs @ take n xs) f2"
      "cdec_left (cobs_dec f2) = 0" "cdec_cap f2 = cdec_cap fs" "cdec_code (cobs_dec f2) = c" "cobs_flag CDEC_STARTED_F f2"
    using group_octets [OF f1(2), of "take n xs" fcf] f1 uc(2) n(2) len by auto
  have b2: "cdec_between alg (zs @ take n xs) (n \<noteq> 254) f2"
    using f2 c0(2) by (simp add: cdec_between_def)
  have free: "0 \<notin> set (take n xs)"
    unfolding n_def by (rule group_free)
  have step: "foldl (cobs_dec_octet fcf alg) fs (c # take n xs @ more) = foldl (cobs_dec_octet fcf alg) f2 more" for more
    using f1(1) f2(1) by simp
  have stuff: "cobs_stuff 0 xs = c # take n xs @
      (if n = length xs then [0] else if n = 254 then cobs_stuff 0 (drop 254 xs) else cobs_stuff 0 (drop (n + 1) xs))"
    by (subst cobs_stuff_eq) (simp add: n_def [symmetric] c_def Let_def)
  show ?case
  proof (cases "n = length xs")
    case True
    then show ?thesis
      using stuff c0(1) free b2 f2(1,4) f1(1)
      by (intro exI [of _ "c # take n xs"] exI [of _ "n \<noteq> 254"]) (simp add: zs_def)
  next
    case ne: False
    define k where "k = (if n = 254 then 254 else n + 1)"
    have k: "xs = take n xs @ (if n \<noteq> 254 then [0] else []) @ drop k xs" "length (drop k xs) < length xs"
        "length xs = n + (if n \<noteq> 254 then 1 else 0) + length (drop k xs)"
    proof -
      have lt: "n < length xs"
        using n(2) ne by simp
      have "xs ! n = 0" if "n \<noteq> 254"
        using that n(1) lt group_stop [of 0 254 xs] by (simp add: n_def)
      then show "xs = take n xs @ (if n \<noteq> 254 then [0] else []) @ drop k xs"
        using id_take_nth_drop [OF lt] by (auto simp: k_def)
      show "length (drop k xs) < length xs" "length xs = n + (if n \<noteq> 254 then 1 else 0) + length (drop k xs)"
        using lt by (auto simp: k_def)
    qed
    have "length (take n xs) = n"
      using n(2) by simp
    then have "length (zs @ take n xs) + (if n \<noteq> 254 then 1 else 0) + length (drop k xs) \<le> cdec_cap f2"
      using len f2(4) f1(4) k(3) unfolding length_append by linarith
    from less.hyps [OF k(2) b2 this] obtain body q where r: "cobs_stuff 0 (drop k xs) = body @ [0]" "0 \<notin> set body"
        "cdec_between alg ((zs @ take n xs) @ (if n \<noteq> 254 then [0] else []) @ drop k xs) q (foldl (cobs_dec_octet fcf alg) f2 body)"
        "cdec_cap (foldl (cobs_dec_octet fcf alg) f2 body) = cdec_cap f2"
      by blast
    have "cobs_stuff 0 xs = (c # take n xs @ body) @ [0]"
      using stuff ne r(1) by (auto simp: k_def)
    moreover have "ys @ (if p then [0] else []) @ xs = (zs @ take n xs) @ (if n \<noteq> 254 then [0] else []) @ drop k xs"
      unfolding zs_def append_assoc k(1) [symmetric] ..
    ultimately show ?thesis
      using r(2-4) c0(1) free f2(4) step [of body] by (intro exI [of _ "c # take n xs @ body"] exI [of _ q]) simp
  qed
qed

section \<open>Feeding the decoder\<close>

lemma cobs_feed_append:
  "ludlc_cobs_dec_feed fcf alg ds (xs @ ys) =
     (let (ds', n, d) = ludlc_cobs_dec_feed fcf alg ds xs in
      if d then (ds', n, True)
      else let (ds'', m, e) = ludlc_cobs_dec_feed fcf alg ds' ys in (ds'', n + m, e))"
proof (induction xs arbitrary: ds)
  case Nil
  then show ?case by (cases ds) (simp add: split_beta)
next
  case (Cons x xs)
  then show ?case by (cases ds) (auto simp: split_beta Let_def)
qed

lemma cobs_feed_body:
  "LUDLC_COBS_DELIMITER fcf \<notin> set xs \<Longrightarrow>
     ludlc_cobs_dec_feed fcf alg (fs, st) xs = ((foldl (cobs_dec_octet fcf alg) fs xs, st), length xs, False)"
  by (induction xs arbitrary: fs) auto

lemma cobs_feed_count:
  "let (ds', n, d) = ludlc_cobs_dec_feed fcf alg ds xs in n \<le> length xs \<and> (if d then n < length xs else n = length xs)"
proof (induction xs arbitrary: ds)
  case Nil
  then show ?case by (cases ds) simp
next
  case (Cons x xs)
  then show ?case by (cases ds) (auto simp: split_beta Let_def split: if_splits)
qed

text \<open>The delimiter that ends a whole frame completes its packet.\<close>

lemma cobs_complete:
  assumes "cdec_holds alg (frame_of alg pkt) fs" "cdec_left (cobs_dec fs) = 0" "csum_ok alg" "2 \<le> length pkt"
  shows "\<exists>fs'. cobs_dec_end alg (fs, st) = ((fs', st\<lparr>rx_packet := rx_packet st + 1\<rparr>), True) \<and>
    unat (cdec_size (cobs_dec fs')) = length pkt \<and> take (length pkt) (cdec_payload (cobs_dec fs')) = pkt"
proof -
  let ?dec = "cobs_dec fs"
  have h: "unat (cdec_size ?dec) = length pkt + unat (ludlc_csum_octets alg)" "\<not> cobs_flag CDEC_OVER_F fs"
      "take (length (frame_of alg pkt)) (cdec_payload ?dec) = frame_of alg pkt"
      "ludlc_csum_on alg \<longrightarrow> cdec_csum ?dec = csum_run alg (ludlc_csum_tx_init alg) (frame_of alg pkt)"
    using assms(1) by (simp_all add: cdec_holds_def Let_def)
  have sub: "unat (cdec_size ?dec - ucast (ludlc_csum_octets alg)) = length pkt"
    using h(1) by (simp add: unat_sub word_le_nat_alt)
  have "take (length pkt) (cdec_payload ?dec) = take (length pkt) (take (length (frame_of alg pkt)) (cdec_payload ?dec))"
    by simp
  also have "\<dots> = pkt"
    unfolding h(3) by (simp add: frame_of_def)
  finally show ?thesis
    using h sub assms(2-4) csum_okD(1) [OF assms(3), of pkt] by (auto simp: cobs_dec_end_def frame_min_sz Let_def)
qed

section \<open>The framing contract\<close>

definition cobs_fill :: "framing_config \<Rightarrow> ('c::len) csum_alg \<Rightarrow> 'c word cobs_state \<Rightarrow> nat \<Rightarrow> 'c word cobs_state \<times> octet list" where
  "cobs_fill fcf alg fs n = the (ludlc_cobs_enc_fill fcf alg fs n)"

definition cobs_wire :: "framing_config \<Rightarrow> ('c::len) csum_alg \<Rightarrow> octet list \<Rightarrow> octet list" where
  "cobs_wire fcf alg pkt = cobs_stuff (LUDLC_COBS_DELIMITER fcf) (frame_of alg pkt)"

definition cobs_loaded :: "('c::len) csum_alg \<Rightarrow> 'c word cobs_state \<Rightarrow> octet list \<Rightarrow> bool" where
  "cobs_loaded alg fs pkt \<longleftrightarrow> csum_ok alg \<and> cenc_state (cobs_enc fs) = cenc_idle \<and> \<not> cobs_flag CENC_ARMED_F fs \<and>
     cenc_hdr_size (cobs_enc fs) \<noteq> 0 \<and> has_octets (cenc_hdr (cobs_enc fs)) (cenc_hdr_size (cobs_enc fs)) \<and>
     has_octets (cenc_payload (cobs_enc fs)) (cenc_payload_size (cobs_enc fs)) \<and>
     segment (cenc_hdr (cobs_enc fs)) (cenc_hdr_size (cobs_enc fs)) @
       segment (cenc_payload (cobs_enc fs)) (cenc_payload_size (cobs_enc fs)) = pkt"

definition cobs_ready ::
    "framing_config \<Rightarrow> ('c::len) csum_alg \<Rightarrow> 'c word cobs_state \<times> ludlc_stats \<Rightarrow> octet list \<Rightarrow> bool" where
  "cobs_ready fcf alg ds pkt \<longleftrightarrow> LUDLC_COBS_DELIMITER fcf = 0 \<and> csum_ok alg \<and> cdec_between alg [] False (fst ds) \<and>
     2 \<le> length pkt \<and> length pkt < 256 \<and> length (frame_of alg pkt) \<le> cdec_cap (fst ds)"

definition cobs_got :: "'r cobs_state \<times> ludlc_stats \<Rightarrow> octet list" where
  "cobs_got ds = take (unat (ludlc_cobs_dec_size (fst ds))) (cdec_payload (cobs_dec (fst ds)))"

lemma cobs_decodes:
  assumes "cobs_ready fcf alg (fs, st) pkt"
  shows "\<exists>fs'. ludlc_cobs_dec_feed fcf alg (fs, st) (cobs_wire fcf alg pkt) =
      ((fs', st\<lparr>rx_packet := rx_packet st + 1\<rparr>), length (cobs_wire fcf alg pkt) - 1, True) \<and>
    unat (ludlc_cobs_dec_size fs') = length pkt \<and> take (length pkt) (cdec_payload (cobs_dec fs')) = pkt \<and>
    cdec_cap fs \<le> length (cdec_payload (cobs_dec fs'))"
proof -
  have r: "LUDLC_COBS_DELIMITER fcf = 0" "csum_ok alg" "cdec_between alg [] False fs" "2 \<le> length pkt" "length pkt < 256"
      "length (frame_of alg pkt) \<le> cdec_cap fs"
    using assms by (simp_all add: cobs_ready_def)
  obtain body q where b: "cobs_stuff 0 (frame_of alg pkt) = body @ [0]" "0 \<notin> set body"
      "cdec_between alg (frame_of alg pkt) q (foldl (cobs_dec_octet fcf alg) fs body)"
      "cdec_cap (foldl (cobs_dec_octet fcf alg) fs body) = cdec_cap fs"
    using stuff_decodes [OF r(1,3), of "frame_of alg pkt"] r(6) by auto
  let ?f = "foldl (cobs_dec_octet fcf alg) fs body"
  obtain fs' where e: "cobs_dec_end alg (?f, st) = ((fs', st\<lparr>rx_packet := rx_packet st + 1\<rparr>), True)"
      "unat (cdec_size (cobs_dec fs')) = length pkt" "take (length pkt) (cdec_payload (cobs_dec fs')) = pkt"
    using cobs_complete [OF _ _ r(2,4), of ?f st] b(3) by (auto simp: cdec_between_def)
  have "cdec_payload (cobs_dec fs') = cdec_payload (cobs_dec ?f)"
    using e(1) by (auto simp: cobs_dec_end_def cobs_dec_reset_def Let_def split: if_splits)
  then have "cdec_cap fs \<le> length (cdec_payload (cobs_dec fs'))"
    using b(3,4) by (simp add: cdec_between_def cdec_holds_def Let_def)
  moreover have "unat (ucast (cdec_size (cobs_dec fs')) :: octet) = length pkt"
    using e(2) r(5) by (simp add: unsigned_ucast_eq take_bit_eq_mod)
  ultimately show ?thesis
    using b(1,2) e r(1) cobs_feed_body [of fcf body alg fs st]
    by (simp add: cobs_wire_def cobs_feed_append ludlc_cobs_dec_size_def)
qed

lemma cobs_fill_spec:
  assumes "cobs_enc_ok fcf alg fs"
  shows "ludlc_cobs_enc_fill fcf alg fs n = Some (cobs_fill fcf alg fs n)"
    "snd (cobs_fill fcf alg fs n) = take n (cobs_rest fcf alg fs)"
    "cobs_rest fcf alg (fst (cobs_fill fcf alg fs n)) = drop n (cobs_rest fcf alg fs)"
    "cobs_enc_ok fcf alg (fst (cobs_fill fcf alg fs n))"
    "length (cobs_rest fcf alg fs) < n \<Longrightarrow> \<not> ludlc_cobs_enc_busy (fst (cobs_fill fcf alg fs n))"
  using cobs_fill_rest [OF assms, of n] by (auto simp: cobs_fill_def)

interpretation cobs: framing "cobs_fill fcf alg" ludlc_cobs_enc_busy "cobs_rest fcf alg" "cobs_enc_ok fcf alg"
    "ludlc_cobs_dec_feed fcf alg" "\<lambda>_. True" "cobs_wire fcf alg" "cobs_loaded alg" "cobs_ready fcf alg" cobs_got
  for fcf alg
proof
  fix s pkt assume "cobs_loaded alg s pkt"
  then show "cobs_enc_ok fcf alg s" "cobs_rest fcf alg s = cobs_wire fcf alg pkt"
    by (auto simp: cobs_loaded_def cobs_enc_ok_def cobs_rest_def cobs_wire_def Let_def)
next
  fix ds pkt assume "cobs_ready fcf alg ds pkt"
  then show "\<exists>ds'. outcome (ludlc_cobs_dec_feed fcf alg ds (cobs_wire fcf alg pkt)) = (ds', True) \<and> cobs_got ds' = pkt"
    using cobs_decodes [of fcf alg "fst ds" "snd ds" pkt] by (auto simp: cobs_got_def)
next
  fix ds :: "'a word cobs_state \<times> ludlc_stats"
  show "outcome (ludlc_cobs_dec_feed fcf alg ds []) = (ds, False)"
    by (cases ds) simp
next
  fix ds ds' :: "'a word cobs_state \<times> ludlc_stats" and xs ys
  assume "outcome (ludlc_cobs_dec_feed fcf alg ds xs) = (ds', True)"
  then show "ludlc_cobs_dec_feed fcf alg ds (xs @ ys) = ludlc_cobs_dec_feed fcf alg ds xs"
    by (cases "ludlc_cobs_dec_feed fcf alg ds xs") (auto simp: cobs_feed_append)
next
  fix ds ds' :: "'a word cobs_state \<times> ludlc_stats" and xs ys
  assume "outcome (ludlc_cobs_dec_feed fcf alg ds xs) = (ds', False)"
  then show "outcome (ludlc_cobs_dec_feed fcf alg ds (xs @ ys)) = outcome (ludlc_cobs_dec_feed fcf alg ds' ys)"
    by (cases "ludlc_cobs_dec_feed fcf alg ds xs"; cases "ludlc_cobs_dec_feed fcf alg ds' ys") (auto simp: cobs_feed_append)
next
  fix s :: "'a word cobs_state" and n
  assume "\<not> ludlc_cobs_enc_busy s"
  then show "cobs_fill fcf alg s n = (s, [])"
    by (simp add: cobs_fill_def cobs_fill_idle)
qed (simp_all add: cobs_fill_spec)

end
