(* ===== verification/Ludlc_Cobs_Props.thy ===== *)
theory Ludlc_Cobs_Props
  imports Ludlc_Cobs_Link
begin

text \<open>The properties of the stuffing, stated over the entry points of \<open>src/src/lib/ludlc_cobs.c\<close>.\<close>

section \<open>The encoder\<close>

lemma cobs_init_loaded:
  assumes "csum_ok alg" "hsz \<noteq> 0" "has_octets hdr hsz" "has_octets pay psz"
  shows "cobs_loaded alg (ludlc_cobs_enc_prep (ludlc_cobs_enc_init fs) hdr hsz pay psz eof) (segment hdr hsz @ segment pay psz)"
  using assms by (simp add: cobs_loaded_def ludlc_cobs_enc_prep_def ludlc_cobs_enc_init_def cobs_flag_def flag_simps
      CENC_FLAGS_MASK_def bit_simps)

text \<open>C11: from every state an encoder reaches, a request for octets returns, whatever room it is
  given: the loop does not spin. It writes the next octets of the frame, as many as fit, and
  is idle again once it had room to spare.\<close>

theorem cobs_fill_returns:
  assumes "cobs_enc_ok fcf alg fs"
  shows "\<exists>fs' out. ludlc_cobs_enc_fill fcf alg fs n = Some (fs', out) \<and> out = take n (cobs_rest fcf alg fs) \<and>
    cobs_rest fcf alg fs' = drop n (cobs_rest fcf alg fs) \<and> cobs_enc_ok fcf alg fs' \<and>
    (length out < n \<longrightarrow> \<not> ludlc_cobs_enc_busy fs')"
  using assms by (rule cobs_fill_rest)

theorem cobs_fill_returns_witness:
  "\<exists>fs' out. ludlc_cobs_enc_fill default_framing_config (Some ludlc_crc16_ccitt_pr0)
     (ludlc_cobs_enc_prep (ludlc_cobs_enc_init cobs_zero) (Some [1, 0, 2]) 3 None 0 False) 2 = Some (fs', out) \<and> length out \<le> 2"
proof -
  have "cobs_enc_ok default_framing_config (Some ludlc_crc16_ccitt_pr0)
      (ludlc_cobs_enc_prep (ludlc_cobs_enc_init cobs_zero) (Some [1, 0, 2]) 3 None 0 False)"
    by (rule cobs.loaded_ok [OF cobs_init_loaded [OF crc16_residual]]) (simp_all add: has_octets_def)
  from cobs_fill_returns [OF this, of 2] show ?thesis by auto
qed

text \<open>C10: the octets the encoder writes, in chunks of any size, are the reference stuffing of the
  packet and its checksum, and each of those requests returns.\<close>

theorem cobs_encoding:
  fixes fs :: "('c::len) word cobs_state" and eof :: bool
  assumes "csum_ok alg" "hsz \<noteq> 0" "has_octets hdr hsz" "has_octets pay psz"
  defines "s \<equiv> ludlc_cobs_enc_prep (ludlc_cobs_enc_init fs) hdr hsz pay psz eof"
  shows "snd (fill_chunks (cobs_fill fcf alg) s ns) =
      take (sum_list ns) (cobs_stuff (LUDLC_COBS_DELIMITER fcf) (frame_of alg (segment hdr hsz @ segment pay psz))) \<and>
    (\<forall>k n. ludlc_cobs_enc_fill fcf alg (fst (fill_chunks (cobs_fill fcf alg) s (take k ns))) n =
      Some (cobs_fill fcf alg (fst (fill_chunks (cobs_fill fcf alg) s (take k ns))) n))"
proof -
  have l: "cobs_loaded alg s (segment hdr hsz @ segment pay psz)"
    unfolding s_def by (rule cobs_init_loaded [OF assms(1-4)])
  note c = cobs.fill_any [OF cobs.loaded_ok [OF l, of fcf]]
  show ?thesis
    using c [of ns] c cobs.loaded_rest [OF l, of fcf] cobs_fill_spec(1) [of fcf alg] by (simp add: cobs_wire_def)
qed

theorem cobs_encoding_witness:
  "snd (fill_chunks (cobs_fill default_framing_config (None :: 16 csum_alg))
     (ludlc_cobs_enc_prep (ludlc_cobs_enc_init cobs_zero) (Some [7, 0]) 2 (Some [8]) 1 False) [2, 9]) = [2, 7, 2, 8, 0]"
proof -
  have "cobs_stuff 0 [7, 0, 8] = [2, 7, 2, 8, 0]"
    by (simp add: cobs_stuff.simps [of 0 "[7, 0, 8]"] cobs_stuff.simps [of 0 "[8]"])
  then show ?thesis
    using cobs_encoding [of "None :: 16 csum_alg" 2 "Some [7, 0]" "Some [8]" 1 default_framing_config cobs_zero False "[2, 9]"]
    by (simp add: default_framing_config_def has_octets_def segment_def frame_of_def csum_tail_def ludlc_csum_on_def)
qed

lemma stuff_length_le: "length (cobs_stuff d xs) \<le> length xs + (length xs - 1) div 254 + 2"
proof (induction d xs rule: cobs_stuff.induct)
  case (1 d xs)
  define n where "n = group_len d 254 xs"
  have n: "n \<le> 254" "n \<le> length xs"
    using group_len_le [of d 254 xs] by (simp_all add: n_def)
  have eq: "cobs_stuff d xs = of_nat (n + 1) # take n xs @
      (if n = length xs then [d] else if n = 254 then cobs_stuff d (drop 254 xs) else cobs_stuff d (drop (n + 1) xs))"
    by (subst cobs_stuff_eq) (simp add: n_def [symmetric] Let_def)
  have g: "length (takeWhile (\<lambda>c. c \<noteq> d) (take 254 xs)) = n"
    by (simp add: n_def group_len_def)
  show ?case
  proof (cases "n = length xs")
    case True
    then show ?thesis
      by (simp add: eq)
  next
    case ne: False
    show ?thesis
    proof (cases "n = 254")
      case True
      then have "length (cobs_stuff d (drop 254 xs)) \<le> length (drop 254 xs) + (length (drop 254 xs) - 1) div 254 + 2"
        using 1(1) [OF refl refl] ne g by simp
      moreover have "(length xs - 1) div 254 = (length xs - 254 - 1) div 254 + 1"
        using True ne n(2) le_div_geq [of 254 "length xs - 1"] by simp
      ultimately show ?thesis
        using True ne n(2) by (simp add: eq)
    next
      case False
      then have "length (cobs_stuff d (drop (n + 1) xs)) \<le> length (drop (n + 1) xs) + (length (drop (n + 1) xs) - 1) div 254 + 2"
        using 1(2) [OF refl refl] ne g by simp
      moreover have "(length (drop (n + 1) xs) - 1) div 254 \<le> (length xs - 1) div 254"
        by (intro div_le_mono) simp
      ultimately show ?thesis
        using False ne n(2) by (simp add: eq)
    qed
  qed
qed

lemma stuff_delimited: "\<exists>body. cobs_stuff 0 xs = body @ [0] \<and> 0 \<notin> set body"
proof (induction "length xs" arbitrary: xs rule: less_induct)
  case less
  define n where "n = group_len 0 254 xs"
  have n: "n \<le> 254" "n \<le> length xs"
    using group_len_le [of 0 254 xs] by (simp_all add: n_def)
  have c: "(of_nat (n + 1) :: octet) \<noteq> 0"
  proof -
    have "unat (of_nat (n + 1) :: octet) = n + 1"
      unfolding unat_of_nat using n(1) by simp
    then show ?thesis by auto
  qed
  have free: "0 \<notin> set (take n xs)"
    unfolding n_def by (rule group_free)
  define k where "k = (if n = 254 then 254 else n + 1)"
  have eq: "cobs_stuff 0 xs = of_nat (n + 1) # take n xs @ (if n = length xs then [0] else cobs_stuff 0 (drop k xs))"
    by (subst cobs_stuff_eq) (simp add: n_def [symmetric] k_def Let_def)
  show ?case
  proof (cases "n = length xs")
    case True
    then show ?thesis
      using c free eq by (intro exI [of _ "of_nat (n + 1) # take n xs"]) simp
  next
    case False
    then have "length (drop k xs) < length xs"
      using n by (auto simp: k_def)
    from less.hyps [OF this] obtain body where "cobs_stuff 0 (drop k xs) = body @ [0]" "0 \<notin> set body"
      by blast
    then show ?thesis
      using c free eq False by (intro exI [of _ "of_nat (n + 1) # take n xs @ body"]) simp
  qed
qed

text \<open>C13: a stuffed frame has its delimiter at its end and nowhere else, and it fits in the room
  the framing declares for it and in the length it announces.\<close>

theorem cobs_frame_shape:
  fixes alg :: "('c::len) csum_alg"
  assumes "has_octets hdr hsz" "has_octets pay psz" "hsz \<noteq> 0"
  defines "frame \<equiv> frame_of alg (segment hdr hsz @ segment pay psz)"
  shows "(\<exists>body. cobs_stuff 0 frame = body @ [0] \<and> 0 \<notin> set body) \<and>
    length (cobs_stuff 0 frame) \<le> LUDLC_COBS_ENCODED_MAX (length frame) \<and>
    length (cobs_stuff 0 frame) \<le> framing_cobs_wire_len alg hsz psz"
proof -
  let ?n = "length frame"
  have n: "?n = unat hsz + unat psz + unat (ludlc_csum_octets alg)" "0 < ?n"
    using assms by (simp_all add: frame_def unat_gt_0)
  have w: "framing_cobs_wire_len alg hsz psz = ?n + (?n + 252) div 253 + 1"
    using n by (simp add: framing_cobs_wire_len_def Let_def ac_simps)
  have "(?n - 1) div 254 \<le> (?n - 1) div 253"
    by (rule div_le_mono2) simp_all
  moreover have "(?n + 252) div 253 = (?n - 1) div 253 + 1"
    using n(2) by (cases ?n) (simp_all add: div_add_self2)
  moreover have "(?n - 1) div 254 \<le> ?n div 254"
    by (intro div_le_mono) simp
  ultimately show ?thesis
    using stuff_length_le [of 0 frame] stuff_delimited [of frame] w by (simp add: LUDLC_COBS_ENCODED_MAX_def)
qed

theorem cobs_frame_shape_witness:
  "length (cobs_stuff 0 (frame_of (None :: 16 csum_alg) (segment (Some [1, 2]) 2 @ segment None 0))) \<le>
     framing_cobs_wire_len (None :: 16 csum_alg) 2 0"
  using cobs_frame_shape [of "Some [1, 2]" 2 None 0 "None :: 16 csum_alg"] by (simp add: has_octets_def)

text \<open>The announced length is an upper bound only: a full group is announced one octet too long.\<close>

lemma cobs_wire_len_not_exact:
  "length (cobs_stuff 0 (replicate 254 1)) = 256" "framing_cobs_wire_len (None :: 16 csum_alg) 3 251 = 257"
proof -
  have "group_len 0 k (replicate k 1) = k" for k
    by (induction k) simp_all
  from this [of 254] show "length (cobs_stuff 0 (replicate 254 1)) = 256"
    by (subst cobs_stuff_eq) (simp add: Let_def)
  show "framing_cobs_wire_len (None :: 16 csum_alg) 3 251 = 257"
    by (simp add: framing_cobs_wire_len_def ludlc_csum_on_def)
qed

text \<open>A delimiter other than zero can occur inside a frame, as a code octet.\<close>

lemma cobs_delimiter_clash: "cobs_stuff 3 [1, 2] = [3, 1, 2, 3]"
  by (simp add: cobs_stuff.simps [of 3 "[1, 2]"])

section \<open>The link\<close>

lemma cobs_prep_ready:
  assumes "csum_ok alg" "LUDLC_COBS_DELIMITER fcf = 0" "2 \<le> length pkt" "length pkt < 256"
    and "length (frame_of alg pkt) \<le> unat cap" "unat cap \<le> length buf"
  shows "cobs_ready fcf alg (ludlc_cobs_dec_prep fs alg buf cap, st) pkt"
proof -
  have "cdec_between alg [] False (ludlc_cobs_dec_prep fs alg buf cap)"
    using assms(6) by (simp add: cdec_between_def cdec_holds_def ludlc_cobs_dec_prep_def cobs_dec_reset_def cobs_flag_def
        flag_simps CDEC_FLAGS_MASK_def bit_simps Let_def)
  then show ?thesis
    using assms by (simp add: cobs_ready_def ludlc_cobs_dec_prep_def cobs_dec_reset_def Let_def)
qed

text \<open>C12: the stuffing carries every packet. However the transport splits what it takes from the
  encoder and what it gives the decoder, the decoder completes exactly the header and the
  payload the encoder was given, and the encoder is free for the next packet.\<close>

theorem cobs_carries_packets:
  assumes "csum_ok alg" "LUDLC_COBS_DELIMITER fcf = 0" "hsz \<noteq> 0" "has_octets hdr hsz" "has_octets pay psz"
    and "pkt = segment hdr hsz @ segment pay psz" "2 \<le> length pkt" "length pkt < 256"
    and "length (frame_of alg pkt) \<le> unat cap" "unat cap \<le> length buf"
    and "fill_chunks (cobs_fill fcf alg) (ludlc_cobs_enc_prep (ludlc_cobs_enc_init fs) hdr hsz pay psz eof) ns = (fs', out)"
    and "length (cobs_wire fcf alg pkt) < sum_list ns" "concat chunks = out"
  shows "\<not> ludlc_cobs_enc_busy fs' \<and>
    (\<exists>rs st'. feed_chunks (ludlc_cobs_dec_feed fcf alg) (ludlc_cobs_dec_prep r alg buf cap, st) chunks = ((rs, st'), True) \<and>
       take (unat (ludlc_cobs_dec_size rs)) (cdec_payload (cobs_dec rs)) = pkt)"
proof -
  have l: "cobs_loaded alg (ludlc_cobs_enc_prep (ludlc_cobs_enc_init fs) hdr hsz pay psz eof) pkt"
    using cobs_init_loaded [OF assms(1,3-5)] assms(6) by simp
  have r: "cobs_ready fcf alg (ludlc_cobs_dec_prep r alg buf cap, st) pkt"
    using assms(1,2,7-10) by (intro cobs_prep_ready)
  show ?thesis
    using cobs.carries [OF l r, where ns = ns and xss = chunks] assms(11-13) by (auto simp: cobs_got_def)
qed

theorem cobs_carries_packets_witness:
  "\<exists>rs st'. feed_chunks (ludlc_cobs_dec_feed default_framing_config (Some ludlc_crc16_ccitt_pr0))
       (ludlc_cobs_dec_prep cobs_zero (Some ludlc_crc16_ccitt_pr0) (replicate 8 0) 6, stats_zero)
       [snd (fill_chunks (cobs_fill default_framing_config (Some ludlc_crc16_ccitt_pr0))
              (ludlc_cobs_enc_prep (ludlc_cobs_enc_init cobs_zero) (Some [1, 0, 3]) 3 (Some [9]) 1 False) [4, 30])] = ((rs, st'), True) \<and>
     take (unat (ludlc_cobs_dec_size rs)) (cdec_payload (cobs_dec rs)) = [1, 0, 3, 9]"
proof -
  let ?alg = "Some ludlc_crc16_ccitt_pr0"
  let ?f = "fill_chunks (cobs_fill default_framing_config ?alg)
      (ludlc_cobs_enc_prep (ludlc_cobs_enc_init cobs_zero) (Some [1, 0, 3]) 3 (Some [9]) 1 False) [4, 30]"
  have "length (cobs_wire default_framing_config ?alg [1, 0, 3, 9]) < sum_list [4, 30]"
    using stuff_length_le [of 0 "frame_of ?alg [1, 0, 3, 9]"]
    by (simp add: cobs_wire_def default_framing_config_def ludlc_csum_octets_def ludlc_crc16_ccitt_pr0_def)
  then show ?thesis
  proof (rule cobs_carries_packets [THEN conjunct2, rotated 11])
    show "csum_ok ?alg" by (rule crc16_residual)
    show "LUDLC_COBS_DELIMITER default_framing_config = 0" by (simp add: default_framing_config_def)
    show "?f = (fst ?f, snd ?f)" by simp
  qed (simp_all add: has_octets_def segment_def ludlc_csum_octets_def ludlc_crc16_ccitt_pr0_def)
qed

section \<open>The decoder on any input\<close>

definition cobs_dec_inv :: "('c::len) csum_alg \<Rightarrow> 'c word cobs_state \<Rightarrow> bool" where
  "cobs_dec_inv alg fs \<longleftrightarrow> (let dec = cobs_dec fs in
     cdec_size dec \<le> cdec_payload_cap dec \<and> unat (cdec_payload_cap dec) \<le> length (cdec_payload dec) \<and>
     (ludlc_csum_on alg \<longrightarrow>
        cdec_csum dec = csum_run alg (ludlc_csum_tx_init alg) (take (unat (cdec_size dec)) (cdec_payload dec))))"

definition cobs_dec_passed :: "('c::len) csum_alg \<Rightarrow> 'c word cobs_state \<Rightarrow> bool" where
  "cobs_dec_passed alg fs \<longleftrightarrow> (let dec = cobs_dec fs in
     2 \<le> unat (cdec_size dec) \<and> unat (cdec_size dec) + unat (ludlc_csum_octets alg) \<le> unat (cdec_payload_cap dec) \<and>
     (ludlc_csum_on alg \<longrightarrow> ludlc_csum_rx_ok alg (csum_run alg (ludlc_csum_rx_init alg)
        (take (unat (cdec_size dec) + unat (ludlc_csum_octets alg)) (cdec_payload dec)))))"

text \<open>What feeding the decoder leaves alone: its capacity, the memory past it, and the encoder.\<close>

definition cobs_kept :: "'r cobs_state \<Rightarrow> 'r cobs_state \<Rightarrow> bool" where
  "cobs_kept fs fs' \<longleftrightarrow> cdec_payload_cap (cobs_dec fs') = cdec_payload_cap (cobs_dec fs) \<and>
     length (cdec_payload (cobs_dec fs')) = length (cdec_payload (cobs_dec fs)) \<and>
     drop (cdec_cap fs) (cdec_payload (cobs_dec fs')) = drop (cdec_cap fs) (cdec_payload (cobs_dec fs)) \<and>
     cobs_enc fs' = cobs_enc fs \<and> (\<forall>n\<in>{CENC_FULL_F, CENC_ARMED_F, CENC_DELIM_F}. cobs_flag n fs' = cobs_flag n fs)"

lemma cobs_kept_trans: "cobs_kept a b \<Longrightarrow> cobs_kept b c \<Longrightarrow> cobs_kept a c"
  by (simp add: cobs_kept_def)

lemma store_inv:
  assumes "cobs_dec_inv alg fs"
  shows "cobs_dec_inv alg (cobs_store_byte fs alg c) \<and> cobs_kept fs (cobs_store_byte fs alg c)"
proof (cases "cdec_size (cobs_dec fs) < cdec_payload_cap (cobs_dec fs)")
  case True
  let ?d = "cobs_dec fs" and ?n = "unat (cdec_size (cobs_dec fs))"
  have n: "unat (cdec_size ?d + 1) = Suc ?n" "?n < cdec_cap fs"
    using True unat_suc_16 [of "cdec_size ?d" "cdec_payload_cap ?d"] by (simp_all add: word_less_nat_alt)
  then have "?n < length (cdec_payload ?d)"
    using assms by (simp add: cobs_dec_inv_def Let_def)
  then have "take (Suc ?n) ((cdec_payload ?d)[?n := c]) = take ?n (cdec_payload ?d) @ [c]"
    by (simp add: take_Suc_conv_app_nth)
  then show ?thesis
    using assms n True
    by (cases "ludlc_csum_on alg") (auto simp: cobs_store_byte_def cobs_dec_inv_def cobs_kept_def word_le_nat_alt Let_def)
next
  case False
  then show ?thesis
    using assms by (auto simp: cobs_store_byte_def cobs_dec_inv_def cobs_kept_def Let_def)
qed

lemma reset_inv: "cobs_dec_inv alg fs \<Longrightarrow> cobs_dec_inv alg (cobs_dec_reset fs alg) \<and> cobs_kept fs (cobs_dec_reset fs alg)"
  by (auto simp: cobs_dec_reset_def cobs_dec_inv_def cobs_kept_def cobs_flag_def flag_simps CDEC_FLAGS_MASK_def bit_simps Let_def)

lemma octet_inv:
  assumes "cobs_dec_inv alg fs"
  shows "cobs_dec_inv alg (cobs_dec_octet fcf alg fs c) \<and> cobs_kept fs (cobs_dec_octet fcf alg fs c)"
proof -
  note s = store_inv [OF assms]
  have k: "cobs_kept fs fs"
    by (simp add: cobs_kept_def)
  have i: "cobs_dec_inv alg (f\<lparr>cobs_dec := (cobs_dec f)\<lparr>cdec_left := l\<rparr>\<rparr>) = cobs_dec_inv alg f"
      "cobs_dec_inv alg (cobs_put_flag n True (f\<lparr>cobs_dec := (cobs_dec f)\<lparr>cdec_code := a, cdec_left := l\<rparr>\<rparr>)) = cobs_dec_inv alg f"
      "cobs_kept fs (f\<lparr>cobs_dec := (cobs_dec f)\<lparr>cdec_left := l\<rparr>\<rparr>) = cobs_kept fs f"
      "cobs_kept fs (cobs_put_flag CDEC_STARTED_F True (f\<lparr>cobs_dec := (cobs_dec f)\<lparr>cdec_code := a, cdec_left := l\<rparr>\<rparr>)) = cobs_kept fs f"
      for f l a n
    by (simp_all add: cobs_dec_inv_def cobs_kept_def Let_def)
  show ?thesis
    using s k assms unfolding cobs_dec_octet_def Let_def by (simp only: i split: if_split) simp
qed

lemma end_inv:
  assumes "cobs_dec_inv alg fs" "cobs_dec_end alg (fs, st) = ((fs', st'), d)"
  shows "cobs_kept fs fs' \<and> (if d then cobs_dec_passed alg fs' else cobs_dec_inv alg fs')"
proof (cases d)
  case True
  let ?dec = "cobs_dec fs"
  have sub: "unat (cdec_size ?dec - ucast (ludlc_csum_octets alg)) = unat (cdec_size ?dec) - unat (ludlc_csum_octets alg)"
    if "unat (ludlc_csum_octets alg) \<le> unat (cdec_size ?dec)"
    using that by (simp add: unat_sub word_le_nat_alt)
  show ?thesis
    using assms True sub
    by (auto simp: cobs_dec_end_def cobs_dec_inv_def cobs_dec_passed_def cobs_kept_def frame_min_sz word_le_nat_alt Let_def
        split: if_splits)
next
  case False
  then have "fs' = cobs_dec_reset fs alg"
    using assms(2) by (auto simp: cobs_dec_end_def Let_def split: if_splits)
  then show ?thesis
    using reset_inv [OF assms(1)] False by simp
qed

lemma kept_rest:
  assumes "cobs_kept fs fs'"
  shows "cobs_rest fcf alg fs' = cobs_rest fcf alg fs" "cobs_enc_ok fcf alg fs' = cobs_enc_ok fcf alg fs"
proof -
  have f: "cobs_enc fs' = cobs_enc fs" "cobs_flag CENC_FULL_F fs' = cobs_flag CENC_FULL_F fs"
      "cobs_flag CENC_ARMED_F fs' = cobs_flag CENC_ARMED_F fs" "cobs_flag CENC_DELIM_F fs' = cobs_flag CENC_DELIM_F fs"
    using assms by (simp_all add: cobs_kept_def)
  have a: "cobs_ahead alg fs' m = cobs_ahead alg fs m" "cobs_scanned fs' = cobs_scanned fs" for m
    by (simp_all only: cobs_ahead_def cobs_scanned_def f)
  show "cobs_rest fcf alg fs' = cobs_rest fcf alg fs" "cobs_enc_ok fcf alg fs' = cobs_enc_ok fcf alg fs"
    by (simp_all only: cobs_rest_def cobs_enc_ok_def cobs_group_ok_def f a)
qed

lemma feed_inv:
  assumes "cobs_dec_inv alg fs" "ludlc_cobs_dec_feed fcf alg (fs, st) xs = ((fs', st'), n, d)"
  shows "cobs_kept fs fs' \<and> (if d then cobs_dec_passed alg fs' else cobs_dec_inv alg fs')"
  using assms
proof (induction xs arbitrary: fs st n)
  case Nil
  then show ?case by (auto simp: cobs_kept_def)
next
  case (Cons x xs)
  show ?case
  proof (cases "x = LUDLC_COBS_DELIMITER fcf")
    case True
    obtain f1 s1 e where t: "cobs_dec_end alg (fs, st) = ((f1, s1), e)"
      by (metis surj_pair)
    note i = end_inv [OF Cons.prems(1) t]
    show ?thesis
    proof (cases e)
      case True
      then show ?thesis
        using i Cons.prems(2) t \<open>x = _\<close> by simp
    next
      case False
      obtain m where "ludlc_cobs_dec_feed fcf alg (f1, s1) xs = ((fs', st'), m, d)"
        using Cons.prems(2) t False \<open>x = _\<close> by (auto split: prod.splits)
      then show ?thesis
        using Cons.IH [of f1 s1 m] i False cobs_kept_trans [of fs f1 fs'] by simp
    qed
  next
    case False
    let ?f = "cobs_dec_octet fcf alg fs x"
    note i = octet_inv [OF Cons.prems(1), of fcf x]
    obtain m where "ludlc_cobs_dec_feed fcf alg (?f, st) xs = ((fs', st'), m, d)"
      using Cons.prems(2) False by (auto split: prod.splits)
    then show ?thesis
      using Cons.IH [of ?f st m] i cobs_kept_trans [of fs ?f fs'] by simp
  qed
qed

text \<open>C14: whatever octets arrive, the decoder stays inside its buffer and out of the encoder's way:
  nothing past the capacity it was given is written, and what the encoder still has to write is
  the same. A packet it reports has passed the length and checksum tests.\<close>

theorem cobs_decoder_sound:
  assumes "cobs_dec_inv alg fs" "ludlc_cobs_dec_feed fcf alg (fs, st) xs = ((fs', st'), n, done)"
  shows "cobs_kept fs fs' \<and> cobs_rest fcf alg fs' = cobs_rest fcf alg fs \<and> n \<le> length xs \<and> (\<not> done \<longrightarrow> n = length xs) \<and>
    (if done then cobs_dec_passed alg fs' else cobs_dec_inv alg fs')"
  using feed_inv [OF assms] kept_rest(1) [of fs fs' fcf alg] cobs_feed_count [of fcf alg "(fs, st)" xs] assms(2) by auto

theorem cobs_decoder_sound_witness:
  "\<exists>fs' st' n. ludlc_cobs_dec_feed default_framing_config (None :: 16 csum_alg)
     (ludlc_cobs_dec_prep cobs_zero None (replicate 4 0) 4, stats_zero) [9, 1, 2, 3] = ((fs', st'), n, False) \<and>
     cobs_dec_inv (None :: 16 csum_alg) fs'"
proof -
  let ?s = "ludlc_cobs_dec_prep cobs_zero (None :: 16 csum_alg) (replicate 4 0) 4"
  obtain fs' st' n d where r: "ludlc_cobs_dec_feed default_framing_config (None :: 16 csum_alg) (?s, stats_zero) [9, 1, 2, 3] =
      ((fs', st'), n, d)"
    by (metis surj_pair)
  have "\<not> d"
    using cobs_feed_body [of default_framing_config "[9, 1, 2, 3]" "None :: 16 csum_alg" ?s stats_zero] r
    by (simp add: default_framing_config_def)
  moreover have "cobs_dec_inv (None :: 16 csum_alg) ?s"
    by (simp add: cobs_dec_inv_def ludlc_cobs_dec_prep_def cobs_dec_reset_def ludlc_csum_on_def Let_def)
  ultimately show ?thesis
    using cobs_decoder_sound [OF _ r] r by simp
qed

text \<open>Starting over leaves the group under way: only a new buffer drops it.\<close>

lemma cobs_dec_init_keeps_group: "cdec_left (cobs_dec (ludlc_cobs_dec_init fs)) = cdec_left (cobs_dec fs)"
  by (simp add: ludlc_cobs_dec_init_def)

end
