(* ===== verification/Ludlc_Raw.thy ===== *)
theory Ludlc_Raw
  imports Ludlc_Framing
begin

text \<open>
  The framing that carries frames unchanged (\<open>src/src/lib/ludlc_raw.c\<close>): header, payload
  and checksum, copied in blocks. The transport announces the length of a frame as the
  capacity it gives the decoder.
\<close>

section \<open>State\<close>

datatype raw_enc_fsm_state = renc_idle | renc_data | renc_csum
datatype raw_dec_fsm_state = rdec_idle | rdec_data

record 'r ludlc_renc_state =
  renc_hdr :: buffer
  renc_payload :: buffer
  renc_hdr_size :: ludlc_payload_size_t
  renc_payload_size :: ludlc_payload_size_t
  renc_ptr :: "octet list"
  renc_sz :: nat
  renc_state :: raw_enc_fsm_state
  renc_csum_reg :: 'r

record 'r ludlc_rdec_state =
  rdec_payload :: "octet list"
  rdec_size :: ludlc_frame_size_t
  rdec_csum :: 'r
  rdec_state :: raw_dec_fsm_state
  rdec_sz :: nat

record 'r raw_state =
  raw_flags :: uint32
  raw_enc :: "'r ludlc_renc_state"
  raw_dec :: "'r ludlc_rdec_state"

definition raw_zero :: "('c::len) word raw_state" where
  "raw_zero = \<lparr>raw_flags = 0,
     raw_enc = \<lparr>renc_hdr = None, renc_payload = None, renc_hdr_size = 0, renc_payload_size = 0, renc_ptr = [],
       renc_sz = 0, renc_state = renc_idle, renc_csum_reg = 0\<rparr>,
     raw_dec = \<lparr>rdec_payload = [], rdec_size = 0, rdec_csum = 0, rdec_state = rdec_idle, rdec_sz = 0\<rparr>\<rparr>"

section \<open>The encoder\<close>

definition ludlc_raw_enc_init :: "'r raw_state \<Rightarrow> 'r raw_state" where
  "ludlc_raw_enc_init fs =
     fs\<lparr>raw_enc := (raw_enc fs)\<lparr>renc_state := renc_idle, renc_hdr := None, renc_hdr_size := 0,
                                renc_payload_size := 0\<rparr>\<rparr>"

definition ludlc_raw_enc_prep ::
    "'r raw_state \<Rightarrow> buffer \<Rightarrow> ludlc_payload_size_t \<Rightarrow> buffer \<Rightarrow> ludlc_payload_size_t \<Rightarrow> bool \<Rightarrow> 'r raw_state" where
  "ludlc_raw_enc_prep fs hdr hdr_sz payload pay_sz send_eof =
     fs\<lparr>raw_enc := (raw_enc fs)\<lparr>renc_hdr := hdr, renc_hdr_size := hdr_sz, renc_payload := payload,
                                renc_payload_size := pay_sz\<rparr>\<rparr>"

definition ludlc_raw_enc_busy :: "'r raw_state \<Rightarrow> bool" where
  "ludlc_raw_enc_busy fs \<longleftrightarrow> renc_state (raw_enc fs) \<noteq> renc_idle \<or> renc_hdr_size (raw_enc fs) \<noteq> 0"

text \<open>
  One turn of the loop in \<open>enc_fill\<close> with \<open>room\<close> octets left: the octets it writes. A turn
  that ends in \<open>continue\<close> leaves the packet loaded, the others release it.
\<close>

definition raw_enc_copy :: "('c::len) csum_alg \<Rightarrow> 'c word raw_state \<Rightarrow> nat \<Rightarrow> 'c word raw_state \<times> octet list" where
  "raw_enc_copy alg fs room =
     (let enc = raw_enc fs;
          len = (if room > renc_sz enc then renc_sz enc else room);
          out = read_octets (renc_ptr enc) len;
          enc = (if ludlc_csum_on alg
                 then enc\<lparr>renc_csum_reg := foldl (ludlc_csum_tx alg) (renc_csum_reg enc) out\<rparr> else enc);
          enc = enc\<lparr>renc_ptr := drop len (renc_ptr enc), renc_sz := renc_sz enc - len\<rparr>
      in if renc_sz enc \<noteq> 0 then (fs\<lparr>raw_enc := enc\<rparr>, out)
         else if renc_payload_size enc \<noteq> 0 then
           (fs\<lparr>raw_enc := enc\<lparr>renc_ptr := the (renc_payload enc), renc_sz := unat (renc_payload_size enc),
                              renc_payload_size := 0\<rparr>\<rparr>, out)
         else if ludlc_csum_on alg then
           (fs\<lparr>raw_enc := enc\<lparr>renc_state := renc_csum, renc_csum_reg := ludlc_csum_tx_final alg (renc_csum_reg enc),
                              renc_sz := unat (ludlc_csum_octets alg)\<rparr>\<rparr>, out)
         else (ludlc_raw_enc_init (fs\<lparr>raw_enc := enc\<rparr>), out))"

definition raw_enc_turn :: "('c::len) csum_alg \<Rightarrow> 'c word raw_state \<Rightarrow> nat \<Rightarrow> 'c word raw_state \<times> octet list" where
  "raw_enc_turn alg fs room =
     (let enc = raw_enc fs in
      case renc_state enc of
        renc_idle \<Rightarrow>
          if renc_hdr_size enc = 0 \<or> renc_hdr enc = None then (ludlc_raw_enc_init fs, [])
          else
            let enc = (if ludlc_csum_on alg then enc\<lparr>renc_csum_reg := ludlc_csum_tx_init alg\<rparr> else enc);
                enc = enc\<lparr>renc_ptr := the (renc_hdr enc), renc_sz := unat (renc_hdr_size enc), renc_state := renc_data\<rparr>
            in raw_enc_copy alg (fs\<lparr>raw_enc := enc\<rparr>) room
      | renc_data \<Rightarrow> raw_enc_copy alg fs room
      | renc_csum \<Rightarrow>
          let out = [ucast (renc_csum_reg enc AND 0xff)];
              enc = enc\<lparr>renc_csum_reg := drop_bit 8 (renc_csum_reg enc), renc_sz := renc_sz enc - 1\<rparr>
          in if renc_sz enc \<noteq> 0 then (fs\<lparr>raw_enc := enc\<rparr>, out)
             else (ludlc_raw_enc_init (fs\<lparr>raw_enc := enc\<rparr>), out))"

text \<open>A turn that writes nothing moves on to a later part of the packet.\<close>

definition raw_stage :: "'r raw_state \<Rightarrow> nat" where
  "raw_stage fs =
     (case renc_state (raw_enc fs) of
        renc_idle \<Rightarrow> if renc_hdr_size (raw_enc fs) = 0 then 0 else 4
      | renc_data \<Rightarrow> if renc_payload_size (raw_enc fs) \<noteq> 0 then 3 else 2
      | renc_csum \<Rightarrow> 1)"

lemma raw_copy_stage:
  "raw_enc_copy alg fs room = (fs', []) \<Longrightarrow> 0 < room \<Longrightarrow> renc_state (raw_enc fs) = renc_data \<Longrightarrow> raw_stage fs' < raw_stage fs"
  by (auto simp: raw_enc_copy_def raw_stage_def ludlc_raw_enc_init_def Let_def read_octets_def split: if_splits)

lemma raw_turn_stage:
  assumes "raw_enc_turn alg fs room = (fs', [])" "0 < room" "ludlc_raw_enc_busy fs"
  shows "raw_stage fs' < raw_stage fs"
proof (cases "renc_state (raw_enc fs)")
  case renc_idle
  let ?e = "(if ludlc_csum_on alg then (raw_enc fs)\<lparr>renc_csum_reg := ludlc_csum_tx_init alg\<rparr> else raw_enc fs)
      \<lparr>renc_ptr := the (renc_hdr (raw_enc fs)), renc_sz := unat (renc_hdr_size (raw_enc fs)), renc_state := renc_data\<rparr>"
  show ?thesis
  proof (cases "renc_hdr (raw_enc fs) = None")
    case True
    then show ?thesis
      using assms renc_idle by (auto simp: raw_enc_turn_def raw_stage_def ludlc_raw_enc_init_def ludlc_raw_enc_busy_def)
  next
    case False
    then have "raw_enc_copy alg (fs\<lparr>raw_enc := ?e\<rparr>) room = (fs', [])"
      using assms renc_idle by (cases "ludlc_csum_on alg") (auto simp: raw_enc_turn_def ludlc_raw_enc_busy_def Let_def)
    then have "raw_stage fs' < raw_stage (fs\<lparr>raw_enc := ?e\<rparr>)"
      using assms(2) by (rule raw_copy_stage) simp
    moreover have "raw_stage (fs\<lparr>raw_enc := ?e\<rparr>) \<le> 3" "raw_stage fs = 4"
      using assms(3) renc_idle by (auto simp: raw_stage_def ludlc_raw_enc_busy_def)
    ultimately show ?thesis by simp
  qed
next
  case renc_data
  then show ?thesis
    using assms raw_copy_stage [of alg fs room fs'] by (simp add: raw_enc_turn_def)
next
  case renc_csum
  then show ?thesis
    using assms by (auto simp: raw_enc_turn_def Let_def split: if_splits)
qed

function ludlc_raw_enc_fill :: "('c::len) csum_alg \<Rightarrow> 'c word raw_state \<Rightarrow> nat \<Rightarrow> 'c word raw_state \<times> octet list" where
  "ludlc_raw_enc_fill alg fs room =
     (if 0 < room \<and> ludlc_raw_enc_busy fs then
        let (fs', out) = raw_enc_turn alg fs room;
            (fs'', out') = ludlc_raw_enc_fill alg fs' (room - length out)
        in (fs'', out @ out')
      else (fs, []))"
  by pat_completeness auto

termination
proof (relation "measures [\<lambda>(alg, fs, room). room, \<lambda>(alg, fs, room). raw_stage fs]")
  fix alg :: "'c::len csum_alg" and fs fs' room x out
  assume "0 < room \<and> ludlc_raw_enc_busy fs" "x = raw_enc_turn alg fs room" "(fs', out) = x"
  then show "((alg, fs', room - length out), alg, fs, room)
      \<in> measures [\<lambda>(alg, fs, room). room, \<lambda>(alg, fs, room). raw_stage fs]"
    using raw_turn_stage [of alg fs room fs'] by (cases out) auto
qed simp

declare ludlc_raw_enc_fill.simps [simp del]

section \<open>The decoder\<close>

definition ludlc_raw_dec_init :: "'r raw_state \<Rightarrow> 'r raw_state" where
  "ludlc_raw_dec_init fs = fs\<lparr>raw_dec := (raw_dec fs)\<lparr>rdec_state := rdec_idle, rdec_size := 0\<rparr>\<rparr>"

definition ludlc_raw_dec_prep ::
    "'c::len word raw_state \<Rightarrow> 'c csum_alg \<Rightarrow> octet list \<Rightarrow> ludlc_frame_size_t \<Rightarrow> 'c word raw_state" where
  "ludlc_raw_dec_prep fs alg buf cap =
     (let dec = (raw_dec fs)\<lparr>rdec_payload := buf, rdec_size := 0, rdec_sz := unat cap,
                             rdec_state := (if cap \<noteq> 0 then rdec_data else rdec_idle)\<rparr>
      in fs\<lparr>raw_dec := if ludlc_csum_on alg then dec\<lparr>rdec_csum := ludlc_csum_rx_init alg\<rparr> else dec\<rparr>)"

text \<open>One octet into the checksum and the buffer, and the end of the announced frame.\<close>

definition raw_dec_octet :: "('c::len) csum_alg \<Rightarrow> 'c word ludlc_rdec_state \<Rightarrow> octet \<Rightarrow> 'c word ludlc_rdec_state" where
  "raw_dec_octet alg dec c =
     dec\<lparr>rdec_csum := ludlc_csum_rx alg (rdec_csum dec) c,
         rdec_payload := (rdec_payload dec)[unat (rdec_size dec) := c], rdec_size := rdec_size dec + 1\<rparr>"

definition raw_dec_end ::
    "('c::len) csum_alg \<Rightarrow> 'c word ludlc_rdec_state \<times> ludlc_stats \<Rightarrow> ('c word ludlc_rdec_state \<times> ludlc_stats) \<times> bool" where
  "raw_dec_end alg ds =
     (let (dec, stats) = ds; dec = dec\<lparr>rdec_state := rdec_idle\<rparr> in
      if unat (rdec_size dec) < ludlc_frame_min_sz alg then ((dec, stats\<lparr>dropped := dropped stats + 1\<rparr>), False)
      else if ludlc_csum_on alg \<and> \<not> ludlc_csum_rx_ok alg (rdec_csum dec) then
        ((dec, stats\<lparr>bad_csum := bad_csum stats + 1\<rparr>), False)
      else
        ((if ludlc_csum_on alg then dec\<lparr>rdec_size := rdec_size dec - ucast (ludlc_csum_octets alg)\<rparr> else dec,
          stats\<lparr>rx_packet := rx_packet stats + 1\<rparr>), True))"

definition ludlc_raw_dec_feed ::
    "('c::len) csum_alg \<Rightarrow> 'c word raw_state \<times> ludlc_stats \<Rightarrow> octet list \<Rightarrow> ('c word raw_state \<times> ludlc_stats) \<times> nat \<times> bool" where
  "ludlc_raw_dec_feed alg = (\<lambda>(fs, stats) src.
     let dec = raw_dec fs;
         tk = (if length src < rdec_sz dec then length src else rdec_sz dec)
     in case rdec_state dec of
          rdec_data \<Rightarrow>
            (let dec = (if ludlc_csum_on alg then foldl (raw_dec_octet alg) dec (take tk src)
                        else dec\<lparr>rdec_payload := copy_at (rdec_payload dec) (unat (rdec_size dec)) (take tk src),
                                 rdec_size := rdec_size dec + of_nat tk\<rparr>);
                 dec = dec\<lparr>rdec_sz := rdec_sz dec - tk\<rparr>
             in if rdec_sz dec \<noteq> 0 then ((fs\<lparr>raw_dec := dec\<rparr>, stats), tk, False)
                else let ((dec, stats), done) = raw_dec_end alg (dec, stats)
                     in ((fs\<lparr>raw_dec := dec\<rparr>, stats), tk, done))
        | rdec_idle \<Rightarrow> ((fs, stats), length src, False))"

definition ludlc_raw_dec_size :: "'r raw_state \<Rightarrow> ludlc_payload_size_t" where
  "ludlc_raw_dec_size fs = ucast (rdec_size (raw_dec fs))"

definition framing_raw_encoded_max :: "config \<Rightarrow> ludlc_connection \<Rightarrow> ('c::len) csum_alg \<Rightarrow> ludlc_frame_size_t" where
  "framing_raw_encoded_max cf conn alg = ludlc_conn_frame_sz cf conn alg"

definition framing_raw_wire_len ::
    "('c::len) csum_alg \<Rightarrow> ludlc_payload_size_t \<Rightarrow> ludlc_payload_size_t \<Rightarrow> nat" where
  "framing_raw_wire_len alg hdr_sz pay_sz =
     (if ludlc_csum_on alg then unat (ludlc_csum_octets alg) else 0) + unat hdr_sz + unat pay_sz"

end
