(* ===== verification/Ludlc_Raw_Link.thy ===== *)
theory Ludlc_Raw_Link
  imports Ludlc_Raw
begin

text \<open>
  The interpretation of the framing contract on \<open>src/src/lib/ludlc_raw.c\<close>, and its
  properties.
\<close>


section \<open>What the encoder writes\<close>

definition raw_rest :: "('c::len) csum_alg \<Rightarrow> 'c word raw_state \<Rightarrow> octet list" where
  "raw_rest alg fs =
     (let enc = raw_enc fs in
      case renc_state enc of
        renc_idle \<Rightarrow> if renc_hdr_size enc = 0 then []
          else frame_of alg (segment (renc_hdr enc) (renc_hdr_size enc) @ segment (renc_payload enc) (renc_payload_size enc))
      | renc_data \<Rightarrow>
          (let xs = take (renc_sz enc) (renc_ptr enc) @ segment (renc_payload enc) (renc_payload_size enc)
           in xs @ csum_end alg (csum_run alg (renc_csum_reg enc) xs))
      | renc_csum \<Rightarrow> shift_out (renc_sz enc) (renc_csum_reg enc))"

definition raw_enc_ok :: "('c::len) csum_alg \<Rightarrow> 'c word raw_state \<Rightarrow> bool" where
  "raw_enc_ok alg fs \<longleftrightarrow> csum_ok alg \<and>
     (let enc = raw_enc fs in
      case renc_state enc of
        renc_idle \<Rightarrow> has_octets (renc_hdr enc) (renc_hdr_size enc) \<and> has_octets (renc_payload enc) (renc_payload_size enc)
      | renc_data \<Rightarrow> renc_sz enc \<le> length (renc_ptr enc) \<and> has_octets (renc_payload enc) (renc_payload_size enc)
      | renc_csum \<Rightarrow> renc_sz enc \<noteq> 0)"

lemma raw_copy_rest:
  assumes "raw_enc_ok alg fs" "renc_state (raw_enc fs) = renc_data" "raw_enc_copy alg fs room = (fs', out)"
  shows "raw_enc_ok alg fs' \<and> raw_rest alg fs = out @ raw_rest alg fs' \<and> length out \<le> room"
proof -
  let ?e = "raw_enc fs" and ?len = "min (renc_sz (raw_enc fs)) room"
  have ok: "csum_ok alg" "renc_sz ?e \<le> length (renc_ptr ?e)" "has_octets (renc_payload ?e) (renc_payload_size ?e)"
    using assms(1,2) by (simp_all add: raw_enc_ok_def Let_def)
  have len: "(if room > renc_sz ?e then renc_sz ?e else room) = ?len"
    by simp
  have out: "out = take ?len (renc_ptr ?e)"
    using assms(3) ok(2) unfolding raw_enc_copy_def Let_def len
    by (auto simp: read_octets_take split: if_splits)
  have xs: "take (renc_sz ?e) (renc_ptr ?e) = out @ take (renc_sz ?e - ?len) (drop ?len (renc_ptr ?e))"
    unfolding out by (metis add_diff_inverse_nat min.cobounded1 not_less take_add)
  have oct: "ludlc_csum_on alg \<Longrightarrow> unat (ludlc_csum_octets alg) \<noteq> 0"
    using csum_okD(2) [OF ok(1)] by auto
  have rd: "read_octets (renc_ptr ?e) ?len = out"
    using ok(2) by (simp add: out read_octets_take)
  have pay: "unat (renc_payload_size ?e) \<le> length (the (renc_payload ?e))" if "renc_payload_size ?e \<noteq> 0"
    using ok(3) that by (simp add: has_octets_def)
  note c = assms(3) [unfolded raw_enc_copy_def Let_def len rd, symmetric]
  show ?thesis
  proof (cases "ludlc_csum_on alg")
    case True
    then show ?thesis
      using c xs oct pay ok assms(2)
      by (auto simp: raw_rest_def raw_enc_ok_def Let_def csum_end_def csum_run_def [symmetric] segment_def has_octets_def out
          split: if_splits)
  next
    case False
    then show ?thesis
      using c xs pay ok assms(2)
      by (auto simp: raw_rest_def raw_enc_ok_def Let_def segment_def has_octets_def ludlc_raw_enc_init_def out
          split: if_splits)
  qed
qed

lemma raw_turn_rest:
  assumes "raw_enc_ok alg fs" "ludlc_raw_enc_busy fs" "0 < room" "raw_enc_turn alg fs room = (fs', out)"
  shows "raw_enc_ok alg fs' \<and> raw_rest alg fs = out @ raw_rest alg fs' \<and> length out \<le> room"
proof (cases "renc_state (raw_enc fs)")
  case renc_idle
  let ?e = "(if ludlc_csum_on alg then (raw_enc fs)\<lparr>renc_csum_reg := ludlc_csum_tx_init alg\<rparr> else raw_enc fs)
      \<lparr>renc_ptr := the (renc_hdr (raw_enc fs)), renc_sz := unat (renc_hdr_size (raw_enc fs)), renc_state := renc_data\<rparr>"
  let ?s = "fs\<lparr>raw_enc := ?e\<rparr>"
  have h: "has_octets (renc_hdr (raw_enc fs)) (renc_hdr_size (raw_enc fs))" "renc_hdr_size (raw_enc fs) \<noteq> 0" "csum_ok alg"
      "has_octets (renc_payload (raw_enc fs)) (renc_payload_size (raw_enc fs))"
    using assms(1,2) renc_idle by (simp_all add: raw_enc_ok_def ludlc_raw_enc_busy_def Let_def)
  then have c: "raw_enc_copy alg ?s room = (fs', out)"
    using assms(4) renc_idle
    by (cases "ludlc_csum_on alg") (auto simp: raw_enc_turn_def has_octets_def Let_def)
  have "raw_enc_ok alg ?s" "renc_state (raw_enc ?s) = renc_data" "raw_rest alg fs = raw_rest alg ?s"
    using h renc_idle
    by (auto simp: raw_enc_ok_def raw_rest_def frame_of_def csum_tail_def csum_end_def has_octets_def segment_def Let_def)
  then show ?thesis
    using raw_copy_rest [OF _ _ c] by simp
next
  case renc_data
  then show ?thesis
    using raw_copy_rest [OF assms(1) renc_data, of room] assms(4) by (simp add: raw_enc_turn_def)
next
  case renc_csum
  obtain m where m: "renc_sz (raw_enc fs) = Suc m"
    using assms(1) renc_csum by (cases "renc_sz (raw_enc fs)") (auto simp: raw_enc_ok_def Let_def)
  show ?thesis
    using assms m renc_csum
    by (auto simp: raw_enc_turn_def raw_rest_def raw_enc_ok_def ludlc_raw_enc_init_def has_octets_def ucast_low_octet Let_def
        split: if_splits)
qed

lemma raw_idle_rest: "\<not> ludlc_raw_enc_busy fs \<Longrightarrow> raw_rest alg fs = []"
  by (simp add: ludlc_raw_enc_busy_def raw_rest_def)

lemma raw_fill_idle: "\<not> ludlc_raw_enc_busy fs \<Longrightarrow> ludlc_raw_enc_fill alg fs n = (fs, [])"
  by (subst ludlc_raw_enc_fill.simps) simp

lemma raw_fill_rest:
  assumes "raw_enc_ok alg fs"
  shows "snd (ludlc_raw_enc_fill alg fs n) = take n (raw_rest alg fs) \<and>
    raw_rest alg (fst (ludlc_raw_enc_fill alg fs n)) = drop n (raw_rest alg fs) \<and>
    raw_enc_ok alg (fst (ludlc_raw_enc_fill alg fs n)) \<and>
    (length (snd (ludlc_raw_enc_fill alg fs n)) < n \<longrightarrow> \<not> ludlc_raw_enc_busy (fst (ludlc_raw_enc_fill alg fs n)))"
  using assms
proof (induction alg fs n rule: ludlc_raw_enc_fill.induct)
  case (1 alg fs room)
  show ?case
  proof (cases "0 < room \<and> ludlc_raw_enc_busy fs")
    case False
    then show ?thesis
      using 1 by (subst (1 2 3 4 5) ludlc_raw_enc_fill.simps) (auto simp: raw_idle_rest)
  next
    case True
    obtain fs' out where t: "raw_enc_turn alg fs room = (fs', out)"
      by (cases "raw_enc_turn alg fs room")
    note r = raw_turn_rest [OF "1.prems" conjunct2 [OF True] conjunct1 [OF True] t]
    have f: "ludlc_raw_enc_fill alg fs room =
      (let (fs'', out') = ludlc_raw_enc_fill alg fs' (room - length out) in (fs'', out @ out'))"
      using True t by (subst ludlc_raw_enc_fill.simps) simp
    show ?thesis
      using "1.IH" [OF True t [symmetric]] r unfolding f by (auto simp: split_beta)
  qed
qed

section \<open>What the decoder makes of it\<close>

text \<open>A decoder that waits for \<open>sz\<close> more octets has room for them, whatever they are.\<close>

definition raw_live :: "'r raw_state \<times> ludlc_stats \<Rightarrow> bool" where
  "raw_live ds \<longleftrightarrow> (let dec = raw_dec (fst ds) in
     rdec_state dec = rdec_data \<longrightarrow> 0 < rdec_sz dec \<and> unat (rdec_size dec) + rdec_sz dec \<le> length (rdec_payload dec) \<and>
       unat (rdec_size dec) + rdec_sz dec < 65536)"

text \<open>Taking octets in, with or without a checksum, as one update.\<close>

definition raw_take :: "('c::len) csum_alg \<Rightarrow> 'c word ludlc_rdec_state \<Rightarrow> octet list \<Rightarrow> 'c word ludlc_rdec_state" where
  "raw_take alg dec xs =
     dec\<lparr>rdec_payload := copy_at (rdec_payload dec) (unat (rdec_size dec)) xs,
         rdec_size := rdec_size dec + of_nat (length xs),
         rdec_csum := (if ludlc_csum_on alg then csum_run alg (rdec_csum dec) xs else rdec_csum dec),
         rdec_sz := rdec_sz dec - length xs\<rparr>"

lemma unat_add_16: "unat (x :: 16 word) + n < 65536 \<Longrightarrow> unat (x + of_nat n) = unat x + n"
  by (simp add: unat_word_ariths unat_of_nat)

lemma raw_octets:
  assumes "unat (rdec_size dec) + length xs < 65536" "ludlc_csum_on alg"
  shows "foldl (raw_dec_octet alg) dec xs = raw_take alg dec xs\<lparr>rdec_sz := rdec_sz dec\<rparr>"
  using assms(1)
proof (induction xs arbitrary: dec)
  case Nil
  then show ?case by (simp add: raw_take_def)
next
  case (Cons x xs)
  have sz: "unat (rdec_size dec + 1) = Suc (unat (rdec_size dec))"
    using Cons.prems unat_add_16 [of "rdec_size dec" 1] by simp
  have "foldl (raw_dec_octet alg) (raw_dec_octet alg dec x) xs =
      raw_take alg (raw_dec_octet alg dec x) xs\<lparr>rdec_sz := rdec_sz (raw_dec_octet alg dec x)\<rparr>"
    using Cons.prems sz by (intro Cons.IH) (simp add: raw_dec_octet_def)
  moreover have "raw_take alg (raw_dec_octet alg dec x) xs\<lparr>rdec_sz := rdec_sz (raw_dec_octet alg dec x)\<rparr> =
      raw_take alg dec (x # xs)\<lparr>rdec_sz := rdec_sz dec\<rparr>"
    using assms(2) sz by (simp add: raw_take_def raw_dec_octet_def add.assoc)
  ultimately show ?case
    by simp
qed

lemma raw_take_append:
  "unat (rdec_size dec) + length xs < 65536 \<Longrightarrow>
     raw_take alg dec (xs @ ys) = raw_take alg (raw_take alg dec xs) ys"
  by (simp add: raw_take_def copy_at_append unat_add_16 ac_simps)

text \<open>A feed, in the words of the octets it takes.\<close>

lemma raw_feed_eq:
  assumes "raw_live (fs, st)"
  shows "ludlc_raw_dec_feed alg (fs, st) xs =
    (let dec = raw_dec fs; ys = take (rdec_sz dec) xs in
     if rdec_state dec = rdec_idle then ((fs, st), length xs, False)
     else if length xs < rdec_sz dec then ((fs\<lparr>raw_dec := raw_take alg dec xs\<rparr>, st), length xs, False)
     else let (ds, done) = raw_dec_end alg (raw_take alg dec ys, st)
          in ((fs\<lparr>raw_dec := fst ds\<rparr>, snd ds), rdec_sz dec, done))"
proof (cases "rdec_state (raw_dec fs)")
  case rdec_idle
  then show ?thesis by (simp add: ludlc_raw_dec_feed_def Let_def)
next
  case rdec_data
  then have l: "unat (rdec_size (raw_dec fs)) + rdec_sz (raw_dec fs) < 65536"
    using assms by (simp add: raw_live_def Let_def)
  have on: "foldl (raw_dec_octet alg) (raw_dec fs) ys = raw_take alg (raw_dec fs) ys\<lparr>rdec_sz := rdec_sz (raw_dec fs)\<rparr>"
    if "ludlc_csum_on alg" "length ys \<le> rdec_sz (raw_dec fs)" for ys
    using that l by (intro raw_octets) simp_all
  show ?thesis
    using rdec_data on [of xs] on [of "take (rdec_sz (raw_dec fs)) xs"]
    by (cases "ludlc_csum_on alg")
      (auto simp: ludlc_raw_dec_feed_def raw_take_def Let_def split_beta min_def)
qed

lemma raw_take_live:
  assumes "raw_live (fs, st)" "rdec_state (raw_dec fs) = rdec_data" "length xs < rdec_sz (raw_dec fs)"
  shows "raw_live (fs\<lparr>raw_dec := raw_take alg (raw_dec fs) xs\<rparr>, st)"
  using assms by (simp add: raw_live_def raw_take_def Let_def unat_add_16)

lemma raw_end_idle: "raw_dec_end alg (dec, st) = ((dec', st'), d) \<Longrightarrow> rdec_state dec' = rdec_idle"
  by (auto simp: raw_dec_end_def Let_def split: if_splits)

lemma raw_idle_live: "rdec_state (raw_dec fs) = rdec_idle \<Longrightarrow> raw_live (fs, st)"
  by (simp add: raw_live_def)

lemma raw_feed_live:
  assumes "raw_live ds" "outcome (ludlc_raw_dec_feed alg ds xs) = (ds', False)"
  shows "raw_live ds'"
proof -
  obtain fs st where ds: "ds = (fs, st)"
    by (cases ds)
  show ?thesis
  proof (cases "rdec_state (raw_dec fs) = rdec_data \<and> length xs < rdec_sz (raw_dec fs)")
    case True
    then show ?thesis
      using assms raw_take_live [of fs st xs alg] by (auto simp: ds raw_feed_eq Let_def)
  next
    case False
    then show ?thesis
      using assms raw_end_idle [of alg _ st]
      by (cases "rdec_state (raw_dec fs)") (auto simp: ds raw_feed_eq Let_def split: prod.splits intro!: raw_idle_live)
  qed
qed

lemma raw_feed_stop:
  assumes "raw_live ds" "outcome (ludlc_raw_dec_feed alg ds xs) = (ds', True)"
  shows "ludlc_raw_dec_feed alg ds (xs @ ys) = ludlc_raw_dec_feed alg ds xs"
  using assms by (cases ds) (auto simp: raw_feed_eq Let_def split: if_splits)

lemma raw_feed_on:
  assumes "raw_live ds" "outcome (ludlc_raw_dec_feed alg ds xs) = (ds', False)"
  shows "outcome (ludlc_raw_dec_feed alg ds (xs @ ys)) = outcome (ludlc_raw_dec_feed alg ds' ys)"
proof -
  obtain fs st where ds: "ds = (fs, st)"
    by (cases ds)
  have l': "raw_live ds'"
    using assms by (rule raw_feed_live)
  show ?thesis
  proof (cases "rdec_state (raw_dec fs) = rdec_data \<and> length xs < rdec_sz (raw_dec fs)")
    case True
    then have ds': "ds' = (fs\<lparr>raw_dec := raw_take alg (raw_dec fs) xs\<rparr>, st)"
      using assms by (simp add: ds raw_feed_eq Let_def)
    have "unat (rdec_size (raw_dec fs)) + length xs < 65536"
      using assms(1) True by (simp add: ds raw_live_def Let_def)
    from raw_take_append [OF this] have app: "raw_take alg (raw_dec fs) (xs @ zs) = raw_take alg (raw_take alg (raw_dec fs) xs) zs" for zs .
    have sz: "rdec_sz (raw_take alg (raw_dec fs) xs) = rdec_sz (raw_dec fs) - length xs"
        "rdec_state (raw_take alg (raw_dec fs) xs) = rdec_data"
      using True by (simp_all add: raw_take_def)
    show ?thesis
      using True assms(1) l' by (auto simp: ds ds' raw_feed_eq app sz Let_def split_beta)
  next
    case False
    then have "rdec_state (raw_dec (fst ds')) = rdec_idle" "outcome (ludlc_raw_dec_feed alg ds (xs @ ys)) = (ds', False)"
      using assms raw_end_idle [of alg _ st]
      by (cases "rdec_state (raw_dec fs)"; auto simp: ds raw_feed_eq Let_def split: prod.splits)+
    then show ?thesis
      using l' by (cases ds') (simp add: raw_feed_eq)
  qed
qed

section \<open>The framing contract\<close>

definition raw_loaded :: "('c::len) csum_alg \<Rightarrow> 'c word raw_state \<Rightarrow> octet list \<Rightarrow> bool" where
  "raw_loaded alg fs pkt \<longleftrightarrow> csum_ok alg \<and> renc_state (raw_enc fs) = renc_idle \<and> renc_hdr_size (raw_enc fs) \<noteq> 0 \<and>
     has_octets (renc_hdr (raw_enc fs)) (renc_hdr_size (raw_enc fs)) \<and>
     has_octets (renc_payload (raw_enc fs)) (renc_payload_size (raw_enc fs)) \<and>
     segment (renc_hdr (raw_enc fs)) (renc_hdr_size (raw_enc fs)) @
       segment (renc_payload (raw_enc fs)) (renc_payload_size (raw_enc fs)) = pkt"

definition raw_ready :: "('c::len) csum_alg \<Rightarrow> 'c word raw_state \<times> ludlc_stats \<Rightarrow> octet list \<Rightarrow> bool" where
  "raw_ready alg ds pkt \<longleftrightarrow> (let dec = raw_dec (fst ds) in csum_ok alg \<and> rdec_state dec = rdec_data \<and> rdec_size dec = 0 \<and>
     (ludlc_csum_on alg \<longrightarrow> rdec_csum dec = ludlc_csum_rx_init alg) \<and> 2 \<le> length pkt \<and> length pkt < 256 \<and>
     rdec_sz dec = length (frame_of alg pkt) \<and> rdec_sz dec \<le> length (rdec_payload dec))"

definition raw_got :: "'r raw_state \<times> ludlc_stats \<Rightarrow> octet list" where
  "raw_got ds = take (unat (ludlc_raw_dec_size (fst ds))) (rdec_payload (raw_dec (fst ds)))"

lemma raw_ready_live: "raw_ready alg ds pkt \<Longrightarrow> raw_live ds"
proof -
  assume r: "raw_ready alg ds pkt"
  then have "length pkt + unat (ludlc_csum_octets alg) < 65536"
    using unat_8_less [of "ludlc_csum_octets alg"] unfolding raw_ready_def Let_def by linarith
  with r show ?thesis
    by (auto simp: raw_ready_def raw_live_def Let_def)
qed

lemma raw_completes:
  assumes "raw_ready alg (fs, st) pkt"
  shows "\<exists>dec. ludlc_raw_dec_feed alg (fs, st) (frame_of alg pkt) =
      ((fs\<lparr>raw_dec := dec\<rparr>, st\<lparr>rx_packet := rx_packet st + 1\<rparr>), length (frame_of alg pkt), True) \<and>
    unat (ucast (rdec_size dec) :: octet) = length pkt \<and> take (length pkt) (rdec_payload dec) = pkt \<and>
    length (rdec_payload dec) = length (rdec_payload (raw_dec fs))"
proof -
  let ?d = "raw_take alg (raw_dec fs) (frame_of alg pkt)"
  have r: "csum_ok alg" "rdec_state (raw_dec fs) = rdec_data" "rdec_size (raw_dec fs) = 0"
      "ludlc_csum_on alg \<longrightarrow> rdec_csum (raw_dec fs) = ludlc_csum_rx_init alg" "2 \<le> length pkt" "length pkt < 256"
      "rdec_sz (raw_dec fs) = length (frame_of alg pkt)" "rdec_sz (raw_dec fs) \<le> length (rdec_payload (raw_dec fs))"
    using assms by (simp_all add: raw_ready_def Let_def)
  have small: "length pkt + unat (ludlc_csum_octets alg) < 65536"
    using unat_8_less [of "ludlc_csum_octets alg"] r(6) by linarith
  have sz: "unat (rdec_size ?d) = length pkt + unat (ludlc_csum_octets alg)"
    using r(3) small unat_add_16 [of 0 "length (frame_of alg pkt)"] by (simp add: raw_take_def)
  have buf: "take (length (frame_of alg pkt)) (rdec_payload ?d) = frame_of alg pkt"
    using r copy_at_take [of 0 "frame_of alg pkt" "rdec_payload (raw_dec fs)"] by (simp add: raw_take_def)
  have "take (length pkt) (rdec_payload ?d) = take (length pkt) (take (length (frame_of alg pkt)) (rdec_payload ?d))"
    by simp
  also have "\<dots> = pkt"
    unfolding buf by (simp add: frame_of_def)
  finally have pay: "take (length pkt) (rdec_payload ?d) = pkt" .
  have "unat (rdec_size ?d - ucast (ludlc_csum_octets alg)) = length pkt"
    using sz by (simp add: unat_sub word_le_nat_alt)
  then have s8: "unat (ucast (rdec_size ?d - ucast (ludlc_csum_octets alg)) :: octet) = length pkt"
    using r(6) by (simp add: unsigned_ucast_eq take_bit_eq_mod)
  have ok: "ludlc_csum_rx_ok alg (rdec_csum ?d)" if "ludlc_csum_on alg"
    using r(4) that csum_okD(1) [OF r(1) that, of pkt] by (simp add: raw_take_def)
  have off: "unat (ucast (rdec_size ?d) :: octet) = length pkt" if "\<not> ludlc_csum_on alg"
    using that s8 by simp
  have lb: "length (rdec_payload ?d) = length (rdec_payload (raw_dec fs))"
    by (simp add: raw_take_def)
  show ?thesis
    using assms raw_ready_live [OF assms] r(2,5,7) sz ok s8 pay off lb
    by (intro exI [of _ "fst (fst (raw_dec_end alg (?d, st)))"]) (simp add: raw_feed_eq raw_dec_end_def frame_min_sz Let_def)
qed

lemma raw_decodes:
  assumes "raw_ready alg ds pkt"
  shows "\<exists>ds'. outcome (ludlc_raw_dec_feed alg ds (frame_of alg pkt)) = (ds', True) \<and> raw_got ds' = pkt"
  using assms raw_completes [of alg "fst ds" "snd ds" pkt]
  by (cases ds) (auto simp: raw_got_def ludlc_raw_dec_size_def)

interpretation raw: framing "ludlc_raw_enc_fill alg" ludlc_raw_enc_busy "raw_rest alg" "raw_enc_ok alg"
    "ludlc_raw_dec_feed alg" raw_live "frame_of alg" "raw_loaded alg" "raw_ready alg" raw_got
  for alg
proof
  fix s n assume ok: "raw_enc_ok alg s"
  note f = raw_fill_rest [OF ok, of n]
  show "snd (ludlc_raw_enc_fill alg s n) = take n (raw_rest alg s)"
      "raw_rest alg (fst (ludlc_raw_enc_fill alg s n)) = drop n (raw_rest alg s)"
      "raw_enc_ok alg (fst (ludlc_raw_enc_fill alg s n))"
    using f by auto
  show "\<not> ludlc_raw_enc_busy (fst (ludlc_raw_enc_fill alg s n))" if "length (raw_rest alg s) < n"
    using f that by auto
next
  fix s pkt assume "raw_loaded alg s pkt"
  then show "raw_enc_ok alg s" "raw_rest alg s = frame_of alg pkt"
    by (auto simp: raw_loaded_def raw_enc_ok_def raw_rest_def Let_def)
next
  fix ds :: "'a word raw_state \<times> ludlc_stats" assume l: "raw_live ds"
  then show "outcome (ludlc_raw_dec_feed alg ds []) = (ds, False)"
    by (cases ds; cases "rdec_state (raw_dec (fst ds))") (auto simp: raw_feed_eq raw_take_def raw_live_def Let_def)
next
  fix ds pkt assume "raw_ready alg ds pkt"
  then show "\<exists>ds'. outcome (ludlc_raw_dec_feed alg ds (frame_of alg pkt)) = (ds', True) \<and> raw_got ds' = pkt"
    by (rule raw_decodes)
qed (auto simp: raw_fill_idle intro: raw_ready_live raw_feed_live raw_feed_stop raw_feed_on)

section \<open>Properties\<close>

lemma raw_prep_ready:
  assumes "csum_ok alg" "2 \<le> length pkt" "length pkt < 256" "unat cap \<le> length buf" "unat cap = length (frame_of alg pkt)"
  shows "raw_ready alg (ludlc_raw_dec_prep fs alg buf cap, st) pkt"
proof -
  have "0 < unat cap"
    using assms(2,5) by (cases pkt) simp_all
  then show ?thesis
    using assms by (auto simp: raw_ready_def ludlc_raw_dec_prep_def Let_def)
qed

text \<open>C19: the raw framing puts the packet and its checksum on the wire as they are, in chunks of any
  size, and its length is the one announced; a decoder told that length completes the
  packet from chunks of any size.\<close>

theorem raw_carries_packets:
  assumes "csum_ok alg" "\<not> ludlc_raw_enc_busy fs" "hsz \<noteq> 0" "has_octets hdr hsz" "has_octets pay psz"
    and "pkt = segment hdr hsz @ segment pay psz" "2 \<le> length pkt" "length pkt < 256"
    and "cap = of_nat (framing_raw_wire_len alg hsz psz)" "unat cap \<le> length buf"
    and "fill_chunks (ludlc_raw_enc_fill alg) (ludlc_raw_enc_prep fs hdr hsz pay psz eof) ns = (fs', out)"
    and "framing_raw_wire_len alg hsz psz < sum_list ns" "concat chunks = out"
  shows "\<not> ludlc_raw_enc_busy fs' \<and> out = frame_of alg pkt \<and> length out = framing_raw_wire_len alg hsz psz \<and>
    (\<exists>rs st'. feed_chunks (ludlc_raw_dec_feed alg) (ludlc_raw_dec_prep r alg buf cap, st) chunks = ((rs, st'), True) \<and>
       take (unat (ludlc_raw_dec_size rs)) (rdec_payload (raw_dec rs)) = pkt)"
proof -
  have len: "length (frame_of alg pkt) = framing_raw_wire_len alg hsz psz"
    using assms(4-6) by (simp add: framing_raw_wire_len_def)
  have "framing_raw_wire_len alg hsz psz < 65536"
    using len assms(8) unat_8_less [of "ludlc_csum_octets alg"] unfolding length_frame_of by linarith
  then have cap: "unat cap = length (frame_of alg pkt)"
    using assms(9) len by (simp add: unat_of_nat)
  have l: "raw_loaded alg (ludlc_raw_enc_prep fs hdr hsz pay psz eof) pkt"
    using assms(1-6) by (simp add: raw_loaded_def ludlc_raw_enc_prep_def ludlc_raw_enc_busy_def)
  have r: "raw_ready alg (ludlc_raw_dec_prep r alg buf cap, st) pkt"
    using assms(1,7,8,10) cap by (intro raw_prep_ready)
  have "out = frame_of alg pkt"
    using raw.fill_any [OF raw.loaded_ok [OF l], of ns] raw.loaded_rest [OF l] assms(11,12) len by simp
  then show ?thesis
    using raw.carries [OF l r, of ns chunks] assms(11-13) len by (auto simp: raw_got_def)
qed

theorem raw_carries_packets_witness:
  "\<exists>rs st'. feed_chunks (ludlc_raw_dec_feed (Some ludlc_crc16_ccitt_pr0))
       (ludlc_raw_dec_prep raw_zero (Some ludlc_crc16_ccitt_pr0) (replicate 6 0)
          (of_nat (framing_raw_wire_len (Some ludlc_crc16_ccitt_pr0) 2 1)), stats_zero)
       [snd (fill_chunks (ludlc_raw_enc_fill (Some ludlc_crc16_ccitt_pr0))
              (ludlc_raw_enc_prep raw_zero (Some [1, 2]) 2 (Some [7]) 1 False) [3, 4])] = ((rs, st'), True) \<and>
     take (unat (ludlc_raw_dec_size rs)) (rdec_payload (raw_dec rs)) = [1, 2, 7]"
proof -
  let ?alg = "Some ludlc_crc16_ccitt_pr0"
  let ?f = "fill_chunks (ludlc_raw_enc_fill ?alg) (ludlc_raw_enc_prep raw_zero (Some [1, 2]) 2 (Some [7]) 1 False) [3, 4]"
  show ?thesis
  proof (rule raw_carries_packets [THEN conjunct2, THEN conjunct2, THEN conjunct2])
    show "csum_ok ?alg" by (rule crc16_residual)
    show "\<not> ludlc_raw_enc_busy (raw_zero :: 16 word raw_state)" by (simp add: ludlc_raw_enc_busy_def raw_zero_def)
    show "?f = (fst ?f, snd ?f)" by simp
  qed (simp_all add: has_octets_def segment_def framing_raw_wire_len_def ludlc_csum_octets_def ludlc_csum_on_def
      ludlc_crc16_ccitt_pr0_def)
qed

text \<open>C20: whatever octets arrive, the raw decoder takes no more than were announced and writes
  nothing past them, and the packet it reports has passed the length and checksum tests.\<close>

theorem raw_decoder_sound:
  assumes "raw_live (fs, st)" "rdec_state (raw_dec fs) = rdec_data" "rdec_size (raw_dec fs) = 0"
    and "ludlc_csum_on alg \<longrightarrow> rdec_csum (raw_dec fs) = ludlc_csum_rx_init alg"
    and "ludlc_raw_dec_feed alg (fs, st) xs = ((fs', st'), n, done)"
  shows "n = min (length xs) (rdec_sz (raw_dec fs)) \<and>
    take n (rdec_payload (raw_dec fs')) = take n xs \<and>
    drop n (rdec_payload (raw_dec fs')) = drop n (rdec_payload (raw_dec fs)) \<and>
    (done \<longleftrightarrow> rdec_sz (raw_dec fs) \<le> length xs \<and> ludlc_frame_min_sz alg \<le> n \<and>
       (ludlc_csum_on alg \<longrightarrow> ludlc_csum_rx_ok alg (csum_run alg (ludlc_csum_rx_init alg) (take n xs)))) \<and>
    (done \<longrightarrow> unat (rdec_size (raw_dec fs')) + unat (ludlc_csum_octets alg) = n)"
proof -
  let ?k = "rdec_sz (raw_dec fs)"
  have l: "?k \<le> length (rdec_payload (raw_dec fs))" "?k < 65536"
    using assms(1-3) by (simp_all add: raw_live_def Let_def)
  have pay: "take (length ys) (rdec_payload (raw_take alg (raw_dec fs) ys)) = ys \<and>
      drop (length ys) (rdec_payload (raw_take alg (raw_dec fs) ys)) = drop (length ys) (rdec_payload (raw_dec fs)) \<and>
      unat (rdec_size (raw_take alg (raw_dec fs) ys)) = length ys" if "length ys \<le> ?k" for ys
    using that l assms(3) copy_at_take [of 0 ys "rdec_payload (raw_dec fs)"]
      copy_at_drop [of 0 ys "length ys" "rdec_payload (raw_dec fs)"] unat_add_16 [of 0 "length ys"]
    by (simp add: raw_take_def)
  have cs: "rdec_csum (raw_take alg (raw_dec fs) ys) = csum_run alg (ludlc_csum_tx_init alg) ys" if "ludlc_csum_on alg" for ys
    using that assms(4) by (simp add: raw_take_def)
  show ?thesis
  proof (cases "length xs < ?k")
    case True
    then show ?thesis
      using assms(2,5) raw_feed_eq [OF assms(1), of alg xs] pay [of xs] by (auto simp: Let_def)
  next
    case False
    let ?d = "raw_take alg (raw_dec fs) (take ?k xs)"
    have len: "length (take ?k xs) = ?k"
      using False by simp
    have sub: "unat (rdec_size ?d - ucast (ludlc_csum_octets alg)) + unat (ludlc_csum_octets alg) = ?k"
      if "ludlc_frame_min_sz alg \<le> ?k"
      using that pay [of "take ?k xs"] len by (simp add: unat_sub word_le_nat_alt frame_min_sz)
    show ?thesis
      using False assms(2,5) raw_feed_eq [OF assms(1), of alg xs] pay [of "take ?k xs"] cs [of "take ?k xs"] sub len
      by (auto simp: raw_dec_end_def Let_def split: if_splits)
  qed
qed

theorem raw_decoder_sound_witness:
  "\<not> snd (snd (ludlc_raw_dec_feed (None :: 16 csum_alg)
     (ludlc_raw_dec_prep raw_zero (None :: 16 csum_alg) (replicate 4 0) 4, stats_zero) [1, 2]))"
proof -
  let ?s = "ludlc_raw_dec_prep raw_zero (None :: 16 csum_alg) (replicate 4 0) 4"
  obtain fs st n d where r: "ludlc_raw_dec_feed (None :: 16 csum_alg) (?s, stats_zero) [1, 2] = ((fs, st), n, d)"
    by (metis surj_pair)
  have s: "raw_live (?s, stats_zero)" "rdec_state (raw_dec ?s) = rdec_data" "rdec_size (raw_dec ?s) = 0" "rdec_sz (raw_dec ?s) = 4"
    by (simp_all add: raw_live_def ludlc_raw_dec_prep_def raw_zero_def ludlc_csum_on_def Let_def)
  show ?thesis
    using raw_decoder_sound [OF s(1-3) _ r] s(4) r by (simp add: ludlc_csum_on_def)
qed

end
