(* ===== verification/Ludlc_Pool.thy ===== *)
theory Ludlc_Pool
  imports Ludlc_Framing
begin

text \<open>
  The framing objects each codec preallocates (the end of \<open>src/src/lib/ludlc_hdlc.c\<close>,
  \<open>ludlc_cobs.c\<close> and \<open>ludlc_raw.c\<close>, the same code in the three files): a fixed array with a
  bitset of the slots in use, and the platform's allocator once the array is used up. A
  handle is the slot of the array or the address the allocator returned; what the allocator
  answers is an argument of \<open>create\<close>. Two links never share an object.
\<close>

record framing_pool =
  pool_num :: nat
  pool_busy :: "uint32 list"

datatype framing_handle = Static nat | Heap nat

definition pool_empty :: "nat \<Rightarrow> framing_pool" where
  "pool_empty n = \<lparr>pool_num = n, pool_busy = replicate (LUDLC_BITS_TO_WORDS n) 0\<rparr>"

definition hdlc_framing_get :: "framing_pool \<Rightarrow> nat option \<times> framing_pool" where
  "hdlc_framing_get p =
     (let (slot, busy) = ludlc_bitset_claim (pool_busy p) (pool_num p)
      in (if slot < 0 then None else Some (nat slot), p\<lparr>pool_busy := busy\<rparr>))"

definition hdlc_framing_put :: "framing_pool \<Rightarrow> framing_handle \<Rightarrow> bool \<times> framing_pool" where
  "hdlc_framing_put p h =
     (case h of
        Static n \<Rightarrow> if n \<ge> pool_num p then (False, p) else (True, p\<lparr>pool_busy := bitset_clear (pool_busy p) n\<rparr>)
      | Heap a \<Rightarrow> (False, p))"

definition ludlc_create_framing_hdlc :: "framing_pool \<Rightarrow> nat option \<Rightarrow> framing_handle option \<times> framing_pool" where
  "ludlc_create_framing_hdlc p alloc =
     (case hdlc_framing_get p of
        (Some n, p') \<Rightarrow> (Some (Static n), p')
      | (None, p') \<Rightarrow> (map_option Heap alloc, p'))"

text \<open>Releasing gives the address handed back to the platform, if there is one.\<close>

definition ludlc_destroy_framing_hdlc :: "framing_pool \<Rightarrow> framing_handle option \<Rightarrow> framing_pool \<times> framing_handle option" where
  "ludlc_destroy_framing_hdlc p fs =
     (case fs of
        None \<Rightarrow> (p, None)
      | Some h \<Rightarrow> (let (ok, p') = hdlc_framing_put p h in (p', if ok then None else Some h)))"

definition cobs_framing_get :: "framing_pool \<Rightarrow> nat option \<times> framing_pool" where
  "cobs_framing_get = hdlc_framing_get"

definition cobs_framing_put :: "framing_pool \<Rightarrow> framing_handle \<Rightarrow> bool \<times> framing_pool" where
  "cobs_framing_put = hdlc_framing_put"

definition ludlc_create_framing_cobs :: "framing_pool \<Rightarrow> nat option \<Rightarrow> framing_handle option \<times> framing_pool" where
  "ludlc_create_framing_cobs = ludlc_create_framing_hdlc"

definition ludlc_destroy_framing_cobs :: "framing_pool \<Rightarrow> framing_handle option \<Rightarrow> framing_pool \<times> framing_handle option" where
  "ludlc_destroy_framing_cobs = ludlc_destroy_framing_hdlc"

definition raw_framing_get :: "framing_pool \<Rightarrow> nat option \<times> framing_pool" where
  "raw_framing_get = hdlc_framing_get"

definition raw_framing_put :: "framing_pool \<Rightarrow> framing_handle \<Rightarrow> bool \<times> framing_pool" where
  "raw_framing_put = hdlc_framing_put"

definition ludlc_create_framing_raw :: "framing_pool \<Rightarrow> nat option \<Rightarrow> framing_handle option \<times> framing_pool" where
  "ludlc_create_framing_raw = ludlc_create_framing_hdlc"

definition ludlc_destroy_framing_raw :: "framing_pool \<Rightarrow> framing_handle option \<Rightarrow> framing_pool \<times> framing_handle option" where
  "ludlc_destroy_framing_raw = ludlc_destroy_framing_hdlc"

section \<open>Exclusive use\<close>

text \<open>The objects links hold: a slot is marked busy exactly when some link has it.\<close>

definition pool_inv :: "framing_pool \<Rightarrow> framing_handle set \<Rightarrow> bool" where
  "pool_inv p held \<longleftrightarrow> length (pool_busy p) = LUDLC_BITS_TO_WORDS (pool_num p) \<and>
     (\<forall>n. bitset_bit (pool_busy p) n \<longleftrightarrow> Static n \<in> held) \<and> (\<forall>n. Static n \<in> held \<longrightarrow> n < pool_num p)"

lemma words_cover: "n \<le> LUDLC_BITS_TO_WORDS n * 32"
proof -
  have "n \<le> (n + 31) div 32 * 32"
    using div_mult_mod_eq [of "n + 31" 32] mod_less_divisor [of 32 "n + 31"] by linarith
  then show ?thesis
    by (simp add: LUDLC_BITS_TO_WORDS_def LUDLC_BITS_PER_WORD_def)
qed

lemma claim_spec:
  assumes "length bs = LUDLC_BITS_TO_WORDS n" "ludlc_bitset_claim bs n = (r, bs')"
  shows "length bs' = length bs \<and>
    (r = -1 \<and> bs' = bs \<and> (\<forall>i<n. bitset_bit bs i) \<or>
     (\<exists>i<n. r = int i \<and> \<not> bitset_bit bs i \<and> (\<forall>m. bitset_bit bs' m \<longleftrightarrow> bitset_bit bs m \<or> m = i)))"
proof -
  obtain ys where c: "ludlc_bitset_claim_from 0 bs n = (r, ys)" and e: "bs' = ys"
    using assms by (auto simp: ludlc_bitset_claim_def Let_def split: prod.splits)
  show ?thesis
    using claim_from_spec [OF c] words_cover [of n] assms(1) unfolding e by auto
qed

lemma bitset_clear_bit:
  assumes "n div 32 < length bs"
  shows "bitset_bit (bitset_clear bs n) m \<longleftrightarrow> bitset_bit bs m \<and> m \<noteq> n"
proof -
  have "m = n \<longleftrightarrow> m div 32 = n div 32 \<and> m mod 32 = n mod 32"
    by (metis div_mult_mod_eq)
  then show ?thesis
    using assms
    by (auto simp: bitset_bit_def bitset_clear_def test_bit_mod bit_clear_bit_mod LUDLC_BITS_PER_WORD_def nth_list_update)
qed

lemma bitset_clear_length [simp]: "length (bitset_clear bs n) = length bs"
  by (simp add: bitset_clear_def)

lemma pool_inv_empty: "pool_inv (pool_empty n) {}"
  by (simp add: pool_inv_def pool_empty_def bitset_bit_def ludlc_platform_test_bit_def LUDLC_BITS_PER_WORD_def)

text \<open>C21: a framing object is used by one link at a time. A request is answered with an object no
  link holds, from the array while it has a free slot and from the allocator after that;
  it fails only when both are out. A release makes exactly that object free again, and
  hands only the allocator's own back to it.\<close>

theorem framing_objects_exclusive:
  assumes "pool_inv p held" "\<forall>a. alloc = Some a \<longrightarrow> Heap a \<notin> held"
  shows "(case ludlc_create_framing_hdlc p alloc of
       (Some h, p') \<Rightarrow> h \<notin> held \<and> pool_inv p' (insert h held) \<and>
          ((\<exists>n<pool_num p. Static n \<notin> held) \<longrightarrow> (\<exists>n<pool_num p. h = Static n))
     | (None, p') \<Rightarrow> p' = p \<and> alloc = None \<and> (\<forall>n<pool_num p. Static n \<in> held)) \<and>
    (h \<in> held \<longrightarrow> (case ludlc_destroy_framing_hdlc p (Some h) of (p', freed) \<Rightarrow>
       pool_inv p' (held - {h}) \<and> freed = (case h of Static n \<Rightarrow> None | Heap a \<Rightarrow> Some h)))"
proof
  obtain r bs where c: "ludlc_bitset_claim (pool_busy p) (pool_num p) = (r, bs)"
    by (cases "ludlc_bitset_claim (pool_busy p) (pool_num p)")
  have len: "length (pool_busy p) = LUDLC_BITS_TO_WORDS (pool_num p)"
    using assms(1) by (simp add: pool_inv_def)
  from claim_spec [OF len c] show "case ludlc_create_framing_hdlc p alloc of
       (Some h, p') \<Rightarrow> h \<notin> held \<and> pool_inv p' (insert h held) \<and>
          ((\<exists>n<pool_num p. Static n \<notin> held) \<longrightarrow> (\<exists>n<pool_num p. h = Static n))
     | (None, p') \<Rightarrow> p' = p \<and> alloc = None \<and> (\<forall>n<pool_num p. Static n \<in> held)"
    using assms c
    by (auto simp: ludlc_create_framing_hdlc_def hdlc_framing_get_def pool_inv_def split: option.splits)
next
  show "h \<in> held \<longrightarrow> (case ludlc_destroy_framing_hdlc p (Some h) of (p', freed) \<Rightarrow>
       pool_inv p' (held - {h}) \<and> freed = (case h of Static n \<Rightarrow> None | Heap a \<Rightarrow> Some h))"
  proof
    assume h: "h \<in> held"
    show "case ludlc_destroy_framing_hdlc p (Some h) of (p', freed) \<Rightarrow>
       pool_inv p' (held - {h}) \<and> freed = (case h of Static n \<Rightarrow> None | Heap a \<Rightarrow> Some h)"
    proof (cases h)
      case (Static n)
      then have "n < pool_num p" "n div 32 < length (pool_busy p)"
        using assms(1) h by (auto simp: pool_inv_def bitset_bit_def LUDLC_BITS_PER_WORD_def)
      then show ?thesis
        using assms(1) Static
        by (auto simp: ludlc_destroy_framing_hdlc_def hdlc_framing_put_def pool_inv_def bitset_clear_bit)
    next
      case (Heap a)
      then show ?thesis
        using assms(1) by (auto simp: ludlc_destroy_framing_hdlc_def hdlc_framing_put_def pool_inv_def)
    qed
  qed
qed

theorem framing_objects_exclusive_witness:
  "case ludlc_create_framing_hdlc (pool_empty 2) (Some 7) of
     (Some h, p') \<Rightarrow> pool_inv p' {h} \<and> (\<exists>n<2. h = Static n) | (None, p') \<Rightarrow> False"
  using framing_objects_exclusive [OF pool_inv_empty, of "Some 7" 2]
  by (simp add: pool_empty_def split: prod.splits option.splits) (metis less_numeral_extra(1) zero_less_numeral)

end
