(* ===== verification/Ludlc_Framings.thy ===== *)
theory Ludlc_Framings
  imports Ludlc_Hdlc_Link Ludlc_Cobs_Props Ludlc_Raw_Link Ludlc_Pool
begin

text \<open>
  Choosing a framing and running it: the descriptors of the three framings, the table a
  link is opened from (\<open>src/src/lib/ludlc_framing.c\<close>) and the wrappers a transport calls
  (\<open>src/src/lib/include/ludlc_framing.h\<close>), for a build that carries more than one. The state
  a wrapper dispatches on carries the framing it was created for. The lookup is the one
  outside the kernel, whose own uses \<open>sysfs_streq\<close>.
\<close>

section \<open>Descriptors\<close>

datatype ludlc_framing = Hdlc | Cobs | Raw

record framings_built =
  CONFIG_LUDLC_FRAMING_HDLC :: bool
  CONFIG_LUDLC_FRAMING_COBS :: bool
  CONFIG_LUDLC_FRAMING_RAW :: bool


definition framing_name :: "ludlc_framing \<Rightarrow> string" where
  "framing_name f = (case f of Hdlc \<Rightarrow> ''hdlc'' | Cobs \<Rightarrow> ''cobs'' | Raw \<Rightarrow> ''raw'')"

definition needs_wire_len :: "ludlc_framing \<Rightarrow> bool" where
  "needs_wire_len f \<longleftrightarrow> f = Raw"

definition framing_encoded_max :: "ludlc_framing \<Rightarrow> config \<Rightarrow> ludlc_connection \<Rightarrow> ('c::len) csum_alg \<Rightarrow> ludlc_frame_size_t" where
  "framing_encoded_max f cf conn alg =
     (case f of Hdlc \<Rightarrow> framing_hdlc_encoded_max cf conn alg | Cobs \<Rightarrow> framing_cobs_encoded_max cf conn alg
      | Raw \<Rightarrow> framing_raw_encoded_max cf conn alg)"

text \<open>A framing that cannot tell its length before encoding has no such entry.\<close>

definition framing_wire_len :: "ludlc_framing \<Rightarrow> (('c::len) csum_alg \<Rightarrow> ludlc_payload_size_t \<Rightarrow> ludlc_payload_size_t \<Rightarrow> nat) option" where
  "framing_wire_len f = (case f of Hdlc \<Rightarrow> None | Cobs \<Rightarrow> Some framing_cobs_wire_len | Raw \<Rightarrow> Some framing_raw_wire_len)"

section \<open>Looking a framing up\<close>


fun name_len :: "string \<Rightarrow> nat \<Rightarrow> nat" where
  "name_len name 0 = 0"
| "name_len name (Suc n) = (if name ! n = CHR 0x0A \<or> name ! n = CHR 0x0D then name_len name n else Suc n)"



definition ludlc_framing_default :: "framings_built \<Rightarrow> ludlc_framing" where
  "ludlc_framing_default b =
     (if CONFIG_LUDLC_FRAMING_HDLC b then Hdlc else if CONFIG_LUDLC_FRAMING_COBS b then Cobs else Raw)"

definition ludlc_framing_name :: "framings_built \<Rightarrow> ludlc_framing option \<Rightarrow> string" where
  "ludlc_framing_name b f = (case f of Some f \<Rightarrow> framing_name f | None \<Rightarrow> framing_name (ludlc_framing_default b))"

definition ludlc_framing_or_default :: "framings_built \<Rightarrow> ludlc_framing option \<Rightarrow> ludlc_framing" where
  "ludlc_framing_or_default b f = (case f of Some f \<Rightarrow> f | None \<Rightarrow> ludlc_framing_default b)"

section \<open>The wrappers\<close>

datatype 'r framing_state = Hdlc_fs "'r hdlc_state" | Cobs_fs "'r cobs_state" | Raw_fs "'r raw_state"

text \<open>A state just created is cleared and runs the framing asked for, or the default.\<close>

definition ludlc_framing_create :: "framings_built \<Rightarrow> ludlc_framing option \<Rightarrow> ('c::len) word framing_state" where
  "ludlc_framing_create b f =
     (case ludlc_framing_or_default b f of Hdlc \<Rightarrow> Hdlc_fs hdlc_zero | Cobs \<Rightarrow> Cobs_fs cobs_zero | Raw \<Rightarrow> Raw_fs raw_zero)"

definition LUDLC_FS_FRAMING :: "'r framing_state \<Rightarrow> ludlc_framing" where
  "LUDLC_FS_FRAMING fs = (case fs of Hdlc_fs s \<Rightarrow> Hdlc | Cobs_fs s \<Rightarrow> Cobs | Raw_fs s \<Rightarrow> Raw)"

definition ludlc_enc_init :: "'r framing_state \<Rightarrow> 'r framing_state" where
  "ludlc_enc_init fs = (case fs of Hdlc_fs s \<Rightarrow> Hdlc_fs (ludlc_hdlc_enc_init s) | Cobs_fs s \<Rightarrow> Cobs_fs (ludlc_cobs_enc_init s)
     | Raw_fs s \<Rightarrow> Raw_fs (ludlc_raw_enc_init s))"

definition ludlc_enc_prep ::
    "'r framing_state \<Rightarrow> buffer \<Rightarrow> ludlc_payload_size_t \<Rightarrow> buffer \<Rightarrow> ludlc_payload_size_t \<Rightarrow> bool \<Rightarrow> 'r framing_state" where
  "ludlc_enc_prep fs hdr hdr_sz payload pay_sz send_eof =
     (case fs of Hdlc_fs s \<Rightarrow> Hdlc_fs (ludlc_hdlc_enc_prep s hdr hdr_sz payload pay_sz send_eof)
      | Cobs_fs s \<Rightarrow> Cobs_fs (ludlc_cobs_enc_prep s hdr hdr_sz payload pay_sz send_eof)
      | Raw_fs s \<Rightarrow> Raw_fs (ludlc_raw_enc_prep s hdr hdr_sz payload pay_sz send_eof))"

definition ludlc_enc_busy :: "'r framing_state \<Rightarrow> bool" where
  "ludlc_enc_busy fs = (case fs of Hdlc_fs s \<Rightarrow> ludlc_hdlc_enc_busy s | Cobs_fs s \<Rightarrow> ludlc_cobs_enc_busy s
     | Raw_fs s \<Rightarrow> ludlc_raw_enc_busy s)"

definition ludlc_enc_fill ::
    "framing_config \<Rightarrow> ('c::len) csum_alg \<Rightarrow> 'c word framing_state \<Rightarrow> nat \<Rightarrow> ('c word framing_state \<times> octet list) option" where
  "ludlc_enc_fill fcf alg fs cap =
     (case fs of Hdlc_fs s \<Rightarrow> Some (map_prod Hdlc_fs id (ludlc_hdlc_enc_fill fcf alg s cap))
      | Cobs_fs s \<Rightarrow> map_option (map_prod Cobs_fs id) (ludlc_cobs_enc_fill fcf alg s cap)
      | Raw_fs s \<Rightarrow> Some (map_prod Raw_fs id (ludlc_raw_enc_fill alg s cap)))"

definition ludlc_dec_init :: "'r framing_state \<Rightarrow> 'r framing_state" where
  "ludlc_dec_init fs = (case fs of Hdlc_fs s \<Rightarrow> Hdlc_fs (ludlc_hdlc_dec_init s) | Cobs_fs s \<Rightarrow> Cobs_fs (ludlc_cobs_dec_init s)
     | Raw_fs s \<Rightarrow> Raw_fs (ludlc_raw_dec_init s))"

definition ludlc_dec_prep ::
    "'c::len word framing_state \<Rightarrow> 'c csum_alg \<Rightarrow> octet list \<Rightarrow> ludlc_frame_size_t \<Rightarrow> 'c word framing_state" where
  "ludlc_dec_prep fs alg buf cap =
     (case fs of Hdlc_fs s \<Rightarrow> Hdlc_fs (ludlc_hdlc_dec_prep s alg buf cap) | Cobs_fs s \<Rightarrow> Cobs_fs (ludlc_cobs_dec_prep s alg buf cap)
      | Raw_fs s \<Rightarrow> Raw_fs (ludlc_raw_dec_prep s alg buf cap))"

definition ludlc_dec_feed ::
    "framing_config \<Rightarrow> ('c::len) csum_alg \<Rightarrow> 'c word framing_state \<times> ludlc_stats \<Rightarrow> octet list \<Rightarrow>
     ('c word framing_state \<times> ludlc_stats) \<times> nat \<times> bool" where
  "ludlc_dec_feed fcf alg ds src =
     (case fst ds of
        Hdlc_fs s \<Rightarrow> map_prod (map_prod Hdlc_fs id) id (ludlc_hdlc_dec_feed fcf alg (s, snd ds) src)
      | Cobs_fs s \<Rightarrow> map_prod (map_prod Cobs_fs id) id (ludlc_cobs_dec_feed fcf alg (s, snd ds) src)
      | Raw_fs s \<Rightarrow> map_prod (map_prod Raw_fs id) id (ludlc_raw_dec_feed alg (s, snd ds) src))"

definition ludlc_dec_size :: "'r framing_state \<Rightarrow> ludlc_payload_size_t" where
  "ludlc_dec_size fs = (case fs of Hdlc_fs s \<Rightarrow> ludlc_hdlc_dec_size s | Cobs_fs s \<Rightarrow> ludlc_cobs_dec_size s
     | Raw_fs s \<Rightarrow> ludlc_raw_dec_size s)"

text \<open>The buffer a decoder fills.\<close>

definition dec_buffer :: "'r framing_state \<Rightarrow> octet list" where
  "dec_buffer fs = (case fs of Hdlc_fs s \<Rightarrow> hdec_payload (hdlc_dec s) | Cobs_fs s \<Rightarrow> cdec_payload (cobs_dec s)
     | Raw_fs s \<Rightarrow> rdec_payload (raw_dec s))"

section \<open>Properties\<close>

lemma name_len_le: "n \<le> length name \<Longrightarrow> name_len name n \<le> n"
  by (induction n) auto




text \<open>Driving the wrappers chunk by chunk is driving the codec chunk by chunk.\<close>

definition any_fill :: "framing_config \<Rightarrow> ('c::len) csum_alg \<Rightarrow> 'c word framing_state \<Rightarrow> nat \<Rightarrow> 'c word framing_state \<times> octet list" where
  "any_fill fcf alg fs n = the (ludlc_enc_fill fcf alg fs n)"

lemma fill_chunks_map:
  assumes "\<And>s n. P s \<Longrightarrow> F (C s) n = map_prod C id (f s n) \<and> P (fst (f s n))" "P s"
  shows "fill_chunks F (C s) ns = map_prod C id (fill_chunks f s ns)"
  using assms(2)
proof (induction ns arbitrary: s)
  case (Cons n ns)
  then show ?case
    using assms(1) [of s n] Cons.IH [of "fst (f s n)"] by (simp add: split_beta)
qed simp

lemma feed_chunks_map:
  assumes "\<And>s xs. F (C s) xs = map_prod C id (f s xs)"
  shows "feed_chunks F (C s) xss = map_prod C id (feed_chunks f s xss)"
  by (induction xss arbitrary: s) (simp_all add: assms split_beta)

lemma any_fill_chunks:
  "fill_chunks (any_fill fcf alg) (Hdlc_fs h) ns = map_prod Hdlc_fs id (fill_chunks (ludlc_hdlc_enc_fill fcf alg) h ns)"
  "cobs_enc_ok fcf alg c \<Longrightarrow>
     fill_chunks (any_fill fcf alg) (Cobs_fs c) ns = map_prod Cobs_fs id (fill_chunks (cobs_fill fcf alg) c ns)"
  "fill_chunks (any_fill fcf alg) (Raw_fs r) ns = map_prod Raw_fs id (fill_chunks (ludlc_raw_enc_fill alg) r ns)"
  by (rule fill_chunks_map [where P = "\<lambda>_. True"], simp_all add: any_fill_def ludlc_enc_fill_def)
    (rule fill_chunks_map [where P = "cobs_enc_ok fcf alg"],
     simp_all add: any_fill_def ludlc_enc_fill_def cobs_fill_spec,
     rule fill_chunks_map [where P = "\<lambda>_. True"], simp_all add: any_fill_def ludlc_enc_fill_def)

lemma any_feed_chunks:
  "feed_chunks (ludlc_dec_feed fcf alg) (Hdlc_fs h, st) xss =
     map_prod (map_prod Hdlc_fs id) id (feed_chunks (ludlc_hdlc_dec_feed fcf alg) (h, st) xss)"
  "feed_chunks (ludlc_dec_feed fcf alg) (Cobs_fs c, st) xss =
     map_prod (map_prod Cobs_fs id) id (feed_chunks (ludlc_cobs_dec_feed fcf alg) (c, st) xss)"
  "feed_chunks (ludlc_dec_feed fcf alg) (Raw_fs r, st) xss =
     map_prod (map_prod Raw_fs id) id (feed_chunks (ludlc_raw_dec_feed alg) (r, st) xss)"
  using feed_chunks_map [of "ludlc_dec_feed fcf alg" "map_prod Hdlc_fs id" "ludlc_hdlc_dec_feed fcf alg" "(h, st)" xss]
    feed_chunks_map [of "ludlc_dec_feed fcf alg" "map_prod Cobs_fs id" "ludlc_cobs_dec_feed fcf alg" "(c, st)" xss]
    feed_chunks_map [of "ludlc_dec_feed fcf alg" "map_prod Raw_fs id" "ludlc_raw_dec_feed alg" "(r, st)" xss]
  by (simp_all add: ludlc_dec_feed_def split: prod.split)

text \<open>C9: a transport that only knows the wrappers gets every packet across, whichever framing the
  two ends run: the packet loaded into the encoder of one end is the packet the decoder of
  the other completes, whatever the sizes of the chunks on the way.\<close>

theorem framings_carry_packets:
  assumes "csum_ok alg" "hdlc_marks_ok fcf" "LUDLC_COBS_DELIMITER fcf = 0"
    and "LUDLC_FS_FRAMING r = LUDLC_FS_FRAMING s" "hsz \<noteq> 0" "has_octets hdr hsz" "has_octets pay psz"
    and "pkt = segment hdr hsz @ segment pay psz" "2 \<le> length pkt" "length pkt < 256"
    and "length (frame_of alg pkt) \<le> unat cap" "unat cap \<le> length buf"
    and "needs_wire_len (LUDLC_FS_FRAMING s) \<longrightarrow> unat cap = length (frame_of alg pkt)"
    and "fill_chunks (any_fill fcf alg) (ludlc_enc_prep (ludlc_enc_init s) hdr hsz pay psz True) ns = (s', out)"
    and "2 * length (frame_of alg pkt) + 2 < sum_list ns" "concat chunks = out"
  shows "\<not> ludlc_enc_busy s' \<and>
    (\<exists>r' st'. feed_chunks (ludlc_dec_feed fcf alg) (ludlc_dec_prep r alg buf cap, st) chunks = ((r', st'), True) \<and>
       take (unat (ludlc_dec_size r')) (dec_buffer r') = pkt)"
proof (cases s)
  case (Hdlc_fs h)
  obtain h2 where r: "r = Hdlc_fs h2"
    using assms(4) Hdlc_fs by (cases r) (simp_all add: LUDLC_FS_FRAMING_def)
  let ?p = "ludlc_hdlc_enc_prep (ludlc_hdlc_enc_init h) hdr hsz pay psz True"
  obtain h' where f: "fill_chunks (ludlc_hdlc_enc_fill fcf alg) ?p ns = (h', out)" "s' = Hdlc_fs h'"
    using assms(14) Hdlc_fs any_fill_chunks(1) [of fcf alg ?p ns]
    by (cases "fill_chunks (ludlc_hdlc_enc_fill fcf alg) ?p ns") (auto simp: ludlc_enc_prep_def ludlc_enc_init_def)
  have "\<not> ludlc_hdlc_enc_busy (ludlc_hdlc_enc_init h)"
    by (simp add: ludlc_hdlc_enc_busy_def ludlc_hdlc_enc_init_def)
  moreover have "length (hdlc_wire fcf alg True pkt) < sum_list ns"
    using assms(15) escape_length [of "frame_of alg pkt" fcf] by (simp add: hdlc_wire_def hdlc_eof_def)
  ultimately have "hdlc_loaded alg ?p pkt" "hdlc_ready fcf alg (ludlc_hdlc_dec_prep h2 alg buf cap, st) pkt"
      "length (hdlc_wire fcf alg True pkt) < sum_list ns"
    using assms by (simp_all add: hdlc_prep_loaded hdlc_prep_ready)
  from hdlc.carries [OF this, of chunks] show ?thesis
    using f assms(16)
    by (auto simp: r ludlc_enc_busy_def ludlc_dec_prep_def any_feed_chunks hdlc_got_def ludlc_dec_size_def dec_buffer_def)
next
  case (Cobs_fs c)
  obtain c2 where r: "r = Cobs_fs c2"
    using assms(4) Cobs_fs by (cases r) (simp_all add: LUDLC_FS_FRAMING_def)
  let ?p = "ludlc_cobs_enc_prep (ludlc_cobs_enc_init c) hdr hsz pay psz True"
  have l: "cobs_loaded alg ?p pkt"
    using cobs_init_loaded [OF assms(1,5-7)] assms(8) by simp
  obtain c' where f: "fill_chunks (cobs_fill fcf alg) ?p ns = (c', out)" "s' = Cobs_fs c'"
    using assms(14) Cobs_fs any_fill_chunks(2) [OF cobs.loaded_ok [OF l], of fcf ns]
    by (cases "fill_chunks (cobs_fill fcf alg) ?p ns") (auto simp: ludlc_enc_prep_def ludlc_enc_init_def)
  have "(length (frame_of alg pkt) - 1) div 254 \<le> length (frame_of alg pkt)"
    by (meson diff_le_self div_le_dividend le_trans)
  then have w: "length (cobs_wire fcf alg pkt) < sum_list ns"
    using assms(15) stuff_length_le [of "LUDLC_COBS_DELIMITER fcf" "frame_of alg pkt"] by (simp add: cobs_wire_def)
  have rd: "cobs_ready fcf alg (ludlc_cobs_dec_prep c2 alg buf cap, st) pkt"
    using assms(1,3,9-12) by (simp add: cobs_prep_ready)
  from cobs.carries [OF l rd w, of chunks] show ?thesis
    using f assms(16)
    by (auto simp: r ludlc_enc_busy_def ludlc_dec_prep_def any_feed_chunks cobs_got_def ludlc_dec_size_def dec_buffer_def)
next
  case (Raw_fs w)
  obtain w2 where r: "r = Raw_fs w2"
    using assms(4) Raw_fs by (cases r) (simp_all add: LUDLC_FS_FRAMING_def)
  let ?p = "ludlc_raw_enc_prep (ludlc_raw_enc_init w) hdr hsz pay psz True"
  obtain w' where f: "fill_chunks (ludlc_raw_enc_fill alg) ?p ns = (w', out)" "s' = Raw_fs w'"
    using assms(14) Raw_fs any_fill_chunks(3) [of fcf alg ?p ns]
    by (cases "fill_chunks (ludlc_raw_enc_fill alg) ?p ns") (auto simp: ludlc_enc_prep_def ludlc_enc_init_def)
  have l: "raw_loaded alg ?p pkt"
    using assms(1,5-8) by (simp add: raw_loaded_def ludlc_raw_enc_prep_def ludlc_raw_enc_init_def)
  have cap: "unat cap = length (frame_of alg pkt)"
    using assms(13) Raw_fs by (simp add: needs_wire_len_def LUDLC_FS_FRAMING_def)
  then have "raw_ready alg (ludlc_raw_dec_prep w2 alg buf cap, st) pkt"
    using assms(1,9,10,12) by (intro raw_prep_ready)
  from raw.carries [OF l this, of ns chunks] show ?thesis
    using f assms(15,16)
    by (auto simp: r ludlc_enc_busy_def ludlc_dec_prep_def any_feed_chunks raw_got_def ludlc_dec_size_def dec_buffer_def)
qed

theorem framings_carry_packets_witness:
  "\<exists>r' st'. feed_chunks (ludlc_dec_feed default_framing_config (Some ludlc_crc16_ccitt_pr0))
       (ludlc_dec_prep (Cobs_fs cobs_zero) (Some ludlc_crc16_ccitt_pr0) (replicate 9 0) 6, stats_zero)
       [snd (fill_chunks (any_fill default_framing_config (Some ludlc_crc16_ccitt_pr0))
              (ludlc_enc_prep (ludlc_enc_init (Cobs_fs cobs_zero)) (Some [4, 0, 2]) 3 (Some [1]) 1 True) [3, 20])] = ((r', st'), True) \<and>
     take (unat (ludlc_dec_size r')) (dec_buffer r') = [4, 0, 2, 1]"
proof -
  let ?alg = "Some ludlc_crc16_ccitt_pr0"
  let ?f = "fill_chunks (any_fill default_framing_config ?alg)
      (ludlc_enc_prep (ludlc_enc_init (Cobs_fs cobs_zero)) (Some [4, 0, 2]) 3 (Some [1]) 1 True) [3, 20]"
  show ?thesis
  proof (rule framings_carry_packets [THEN conjunct2])
    show "csum_ok ?alg" by (rule crc16_residual)
    show "?f = (fst ?f, snd ?f)" by simp
    show "hdlc_marks_ok default_framing_config" "LUDLC_COBS_DELIMITER default_framing_config = 0"
      by (simp_all add: hdlc_marks_ok_def default_framing_config_def)
  qed (simp_all add: has_octets_def segment_def ludlc_csum_octets_def ludlc_crc16_ccitt_pr0_def LUDLC_FS_FRAMING_def
      needs_wire_len_def)
qed

text \<open>
  The room the escaping declares for a frame is that of the frame before escaping, which a
  frame with reserved octets in it exceeds.
\<close>

lemma hdlc_encoded_max_too_small:
  "unat (framing_hdlc_encoded_max default_config conn (None :: 16 csum_alg)) = 35"
  "35 < length (hdlc_wire default_framing_config (None :: 16 csum_alg) False (replicate 35 0x55))"
proof -
  show "unat (framing_hdlc_encoded_max default_config conn (None :: 16 csum_alg)) = 35"
    by (simp add: framing_hdlc_encoded_max_def ludlc_conn_frame_sz_def ludlc_conn_payload_lim_def default_config_def
        LUDLC_FRAME_SIZE_def LUDLC_PACKET_SIZE_def ludlc_csum_octets_def)
  show "35 < length (hdlc_wire default_framing_config (None :: 16 csum_alg) False (replicate 35 0x55))"
    using escape_length [of "replicate 35 0x55" default_framing_config]
    by (simp add: hdlc_wire_def frame_of_def csum_tail_def ludlc_csum_on_def)
qed

end
