(* ===== verification/Ludlc_Kfifo.thy ===== *)
theory Ludlc_Kfifo
  imports Ludlc_Prelude "HOL-Library.Sublist"
begin

text \<open>
  The byte FIFO of the POSIX port (\<open>src/src/lib/platform/posix/kfifo.h\<close>): one thread puts
  while another gets, each moving its own free-running 32-bit index over a buffer whose
  size is a power of two. An operation is a function of the FIFO; its atomic loads and
  stores are read in program order. A pointer the FIFO hands out is an offset in its
  buffer. The contract of the FIFO as a queue of octets is the locale \<open>octet_queue\<close>; the
  last section splits the copying operations into their loads, single octets and stores,
  and lets the two threads interleave.
\<close>

section \<open>The operations\<close>

record kfifo =
  kf_data :: "octet list"
  kf_size :: uint32
  kf_in :: uint32
  kf_out :: uint32

text \<open>\<open>memcpy\<close> into a buffer at an offset.\<close>

definition memcpy_at :: "octet list \<Rightarrow> nat \<Rightarrow> octet list \<Rightarrow> octet list" where
  "memcpy_at d off bs = take off d @ bs @ drop (off + length bs) d"

definition kfifo_is_empty :: "kfifo \<Rightarrow> bool" where
  "kfifo_is_empty fifo \<longleftrightarrow> kf_in fifo = kf_out fifo"

definition kfifo_len :: "kfifo \<Rightarrow> uint32" where
  "kfifo_len fifo = kf_in fifo - kf_out fifo"

definition kfifo_is_full :: "kfifo \<Rightarrow> bool" where
  "kfifo_is_full fifo \<longleftrightarrow> kfifo_len fifo = kf_size fifo"

definition kfifo_reset :: "kfifo \<Rightarrow> kfifo" where
  "kfifo_reset fifo = fifo\<lparr>kf_in := 0, kf_out := 0\<rparr>"

definition kfifo_init :: "kfifo \<Rightarrow> octet list \<Rightarrow> uint32 \<Rightarrow> kfifo" where
  "kfifo_init fifo buf sz = kfifo_reset (fifo\<lparr>kf_data := buf, kf_size := sz\<rparr>)"

text \<open>The place in the buffer of an index.\<close>

definition kf_place :: "kfifo \<Rightarrow> uint32 \<Rightarrow> uint32" where
  "kf_place fifo i = i AND (kf_size fifo - 1)"

definition kfifo_put :: "kfifo \<Rightarrow> octet \<Rightarrow> bool \<times> kfifo" where
  "kfifo_put fifo val =
     (if kf_in fifo - kf_out fifo \<ge> kf_size fifo then (False, fifo)
      else (True, fifo\<lparr>kf_data := (kf_data fifo)[unat (kf_place fifo (kf_in fifo)) := val],
                       kf_in := kf_in fifo + 1\<rparr>))"

definition kfifo_in :: "kfifo \<Rightarrow> octet list \<Rightarrow> uint32 \<Rightarrow> uint32 \<times> kfifo" where
  "kfifo_in fifo src len =
     (let free = kf_size fifo - (kf_in fifo - kf_out fifo);
          len = min len free;
          head = kf_place fifo (kf_in fifo);
          l = min len (kf_size fifo - head);
          d = memcpy_at (kf_data fifo) (unat head) (take (unat l) src);
          d = (if len - l \<noteq> 0 then memcpy_at d 0 (take (unat (len - l)) (drop (unat l) src)) else d)
      in (len, fifo\<lparr>kf_data := d, kf_in := kf_in fifo + len\<rparr>))"

text \<open>The octet is what the destination holds afterwards, if there is one.\<close>

definition kfifo_get :: "kfifo \<Rightarrow> octet option \<times> kfifo" where
  "kfifo_get fifo =
     (if kf_in fifo = kf_out fifo then (None, fifo)
      else (Some (kf_data fifo ! unat (kf_place fifo (kf_out fifo))), fifo\<lparr>kf_out := kf_out fifo + 1\<rparr>))"

definition kfifo_out :: "kfifo \<Rightarrow> uint32 \<Rightarrow> uint32 \<times> octet list \<times> kfifo" where
  "kfifo_out fifo sz =
     (let data_len = kf_in fifo - kf_out fifo;
          sz = min sz data_len;
          tail = kf_place fifo (kf_out fifo);
          l = min sz (kf_size fifo - tail);
          dst = take (unat l) (drop (unat tail) (kf_data fifo));
          dst = (if sz - l \<noteq> 0 then dst @ take (unat (sz - l)) (kf_data fifo) else dst)
      in (sz, dst, fifo\<lparr>kf_out := kf_out fifo + sz\<rparr>))"

definition kfifo_put_claim :: "kfifo \<Rightarrow> uint32 \<Rightarrow> uint32 \<times> uint32" where
  "kfifo_put_claim fifo n =
     (let head = kf_place fifo (kf_in fifo);
          n = min n (kf_size fifo - (kf_in fifo - kf_out fifo))
      in (head, min n (kf_size fifo - head)))"

definition kfifo_put_finish :: "kfifo \<Rightarrow> uint32 \<Rightarrow> kfifo" where
  "kfifo_put_finish fifo count = fifo\<lparr>kf_in := kf_in fifo + count\<rparr>"

definition kfifo_get_claim :: "kfifo \<Rightarrow> uint32 \<Rightarrow> uint32 \<times> uint32" where
  "kfifo_get_claim fifo n =
     (let tail = kf_place fifo (kf_out fifo);
          n = min n (kf_in fifo - kf_out fifo)
      in (tail, min n (kf_size fifo - tail)))"

definition kfifo_get_finish :: "kfifo \<Rightarrow> uint32 \<Rightarrow> kfifo" where
  "kfifo_get_finish fifo count = fifo\<lparr>kf_out := kf_out fifo + count\<rparr>"

section \<open>A buffer read round its end\<close>

definition ring :: "octet list \<Rightarrow> nat \<Rightarrow> nat \<Rightarrow> octet list" where
  "ring d s n = map (\<lambda>i. d ! ((s + i) mod length d)) [0..<n]"

lemma length_ring [simp]: "length (ring d s n) = n"
  by (simp add: ring_def)

lemma nth_ring [simp]: "i < n \<Longrightarrow> ring d s n ! i = d ! ((s + i) mod length d)"
  by (simp add: ring_def)

lemma ring_0 [simp]: "ring d s 0 = []"
  by (simp add: ring_def)

lemma ring_mod: "ring d (s mod length d) n = ring d s n"
  by (simp add: ring_def mod_simps)

lemma take_ring: "take m (ring d s n) = ring d s (min m n)"
  by (intro nth_equalityI) simp_all

lemma drop_ring: "drop m (ring d s n) = ring d (s + m) (n - m)"
  by (intro nth_equalityI) (simp_all add: add.assoc)

lemma ring_append: "ring d s (m + n) = ring d s m @ ring d (s + m) n"
  by (intro nth_equalityI) (auto simp: nth_append add.assoc)

text \<open>The two copies of a region that goes round the end.\<close>

lemma ring_split:
  assumes "s < length d" "n \<le> length d"
  shows "ring d s n = take (min n (length d - s)) (drop s d) @ take (n - min n (length d - s)) d"
proof (intro nth_equalityI)
  show "length (ring d s n) = length (take (min n (length d - s)) (drop s d) @ take (n - min n (length d - s)) d)"
    using assms by simp
next
  fix i assume i: "i < length (ring d s n)"
  show "ring d s n ! i = (take (min n (length d - s)) (drop s d) @ take (n - min n (length d - s)) d) ! i"
  proof (cases "s + i < length d")
    case True
    then have "i < length d - s"
      by simp
    with True i show ?thesis
      by (simp add: nth_append)
  next
    case False
    then have "(s + i) mod length d = s + i - length d"
      using assms i by (simp add: le_mod_geq)
    moreover have "min n (length d - s) = length d - s" "\<not> i < length d - s" "i - (length d - s) = s + i - length d"
      using False assms i by simp_all
    ultimately show ?thesis
      using assms i by (simp add: nth_append)
  qed
qed

lemma length_memcpy_at [simp]: "off + length bs \<le> length d \<Longrightarrow> length (memcpy_at d off bs) = length d"
  by (simp add: memcpy_at_def)

lemma nth_memcpy_at:
  "off + length bs \<le> length d \<Longrightarrow> i < length d \<Longrightarrow>
   memcpy_at d off bs ! i = (if off \<le> i \<and> i < off + length bs then bs ! (i - off) else d ! i)"
  by (auto simp: memcpy_at_def nth_append)

lemma memcpy_at_nil [simp]: "memcpy_at d off [] = d"
  by (simp add: memcpy_at_def)

definition ring_store :: "octet list \<Rightarrow> nat \<Rightarrow> octet list \<Rightarrow> octet list" where
  "ring_store d s bs =
     memcpy_at (memcpy_at d s (take (length d - s) bs)) 0 (drop (length d - s) bs)"

lemma length_ring_store [simp]:
  "s < length d \<Longrightarrow> length bs \<le> length d \<Longrightarrow> length (ring_store d s bs) = length d"
  by (simp add: ring_store_def)

lemma nth_ring_store:
  assumes "s < length d" "length bs \<le> length d" "i < length d"
  shows "ring_store d s bs ! ((s + i) mod length d) = (if i < length bs then bs ! i else d ! ((s + i) mod length d))"
proof -
  have t: "length (take (length d - s) bs) = min (length bs) (length d - s)"
    by (simp add: min.commute)
  show ?thesis
  proof (cases "s + i < length d")
    case True
    then have "i < length d - s" "\<not> s + i < length bs + s - length d"
      using assms(2) by auto
    with True assms t show ?thesis
      by (simp add: ring_store_def nth_memcpy_at)
  next
    case False
    then have "(s + i) mod length d = s + i - length d"
      using assms by (simp add: le_mod_geq)
    moreover have "s + i - length d < length d" "s + i - length d < s"
        "s + i - length d < length bs + s - length d \<longleftrightarrow> i < length bs"
        "i < length bs \<Longrightarrow> drop (length d - s) bs ! (s + i - length d) = bs ! i"
      using False assms by auto
    ultimately show ?thesis
      using False assms t by (simp add: ring_store_def nth_memcpy_at)
  qed
qed

lemma ring_ring_store:
  assumes "s < length d" "(a + n) mod length d = s" "n + length bs \<le> length d"
  shows "ring (ring_store d s bs) a (n + length bs) = ring d a n @ bs"
proof (intro nth_equalityI)
  fix i assume i: "i < length (ring (ring_store d s bs) a (n + length bs))"
  have d: "length bs \<le> length d"
    using assms(3) by simp
  define j where "j = (if i < n then i + length d - n else i - n)"
  have j: "j < length d" "j < length bs \<longleftrightarrow> n \<le> i"
    using i assms by (auto simp: j_def)
  have "(a + i) mod length d = (s + j) mod length d"
  proof (cases "i < n")
    case True
    then have "a + n + j = a + i + length d"
      using assms(3) by (simp add: j_def)
    then show ?thesis
      by (metis assms(2) mod_add_left_eq mod_add_self2)
  next
    case False
    then have "a + n + j = a + i"
      by (simp add: j_def)
    then show ?thesis
      by (metis assms(2) mod_add_left_eq)
  qed
  then show "ring (ring_store d s bs) a (n + length bs) ! i = (ring d a n @ bs) ! i"
    using i j nth_ring_store [OF assms(1) d j(1)] assms(1) d by (auto simp: nth_append j_def)
qed simp

section \<open>The FIFO as a queue\<close>

text \<open>
  The contract of a bounded queue of octets that takes and gives several at once: it may
  take or give fewer than asked, but not none while it could. A queue that copies takes and
  gives all it can.
\<close>

locale octet_queue =
  fixes ok :: "'s \<Rightarrow> bool" and queued :: "'s \<Rightarrow> octet list" and bound :: "'s \<Rightarrow> nat"
    and enq :: "'s \<Rightarrow> octet list \<Rightarrow> nat \<times> 's" and deq :: "'s \<Rightarrow> nat \<Rightarrow> octet list \<times> 's"
  assumes fits: "ok s \<Longrightarrow> length (queued s) \<le> bound s"
    and enq_law: "ok s \<Longrightarrow> length bs < 2 ^ 32 \<Longrightarrow> enq s bs = (n, s') \<Longrightarrow>
      ok s' \<and> bound s' = bound s \<and> n \<le> length bs \<and> queued s' = queued s @ take n bs"
    and enq_some: "ok s \<Longrightarrow> length bs < 2 ^ 32 \<Longrightarrow> enq s bs = (0, s') \<Longrightarrow> bs = [] \<or> length (queued s) = bound s"
    and deq_law: "ok s \<Longrightarrow> n < 2 ^ 32 \<Longrightarrow> deq s n = (bs, s') \<Longrightarrow>
      ok s' \<and> bound s' = bound s \<and> length bs \<le> n \<and> queued s = bs @ queued s'"
    and deq_some: "ok s \<Longrightarrow> n < 2 ^ 32 \<Longrightarrow> deq s n = ([], s') \<Longrightarrow> n = 0 \<or> queued s = []"
begin

text \<open>A run of calls: what was taken, what was given, and what is left.\<close>

primrec run :: "(octet list + nat) list \<Rightarrow> 's \<Rightarrow> octet list \<times> octet list \<times> 's" where
  "run [] s = ([], [], s)"
| "run (c # cs) s =
     (case c of
        Inl bs \<Rightarrow> let (n, s) = enq s bs; (taken, given, s) = run cs s in (take n bs @ taken, given, s)
      | Inr n \<Rightarrow> let (bs, s) = deq s n; (taken, given, s) = run cs s in (taken, bs @ given, s))"

lemma run_in_order:
  assumes "ok s" "\<forall>c \<in> set cs. (case c of Inl bs \<Rightarrow> length bs < 2 ^ 32 | Inr n \<Rightarrow> n < 2 ^ 32)" "run cs s = (taken, given, s')"
  shows "ok s' \<and> bound s' = bound s \<and> queued s @ taken = given @ queued s'"
  using assms
proof (induction cs arbitrary: s taken given)
  case (Cons c cs)
  show ?case
  proof (cases c)
    case (Inl bs)
    obtain n t where e: "enq s bs = (n, t)"
      by (cases "enq s bs")
    obtain tk gv u where r: "run cs t = (tk, gv, u)"
      by (cases "run cs t")
    have t: "ok t" "bound t = bound s" "queued t = queued s @ take n bs"
      using enq_law [OF Cons.prems(1) _ e] Cons.prems(2) Inl by auto
    have u: "taken = take n bs @ tk" "given = gv" "s' = u"
      using Cons.prems(3) Inl e r by simp_all
    show ?thesis
      using Cons.IH [of t tk gv] Cons.prems(2) t r u by simp
  next
    case (Inr n)
    obtain bs t where e: "deq s n = (bs, t)"
      by (cases "deq s n")
    obtain tk gv u where r: "run cs t = (tk, gv, u)"
      by (cases "run cs t")
    have t: "ok t" "bound t = bound s" "queued s = bs @ queued t"
      using deq_law [OF Cons.prems(1) _ e] Cons.prems(2) Inr by auto
    have u: "taken = tk" "given = bs @ gv" "s' = u"
      using Cons.prems(3) Inr e r by simp_all
    show ?thesis
      using Cons.IH [of t tk gv] Cons.prems(2) t r u by simp
  qed
qed simp

end

locale whole_queue = octet_queue +
  assumes enq_all: "ok s \<Longrightarrow> length bs < 2 ^ 32 \<Longrightarrow> enq s bs = (n, s') \<Longrightarrow> n = min (length bs) (bound s - length (queued s))"
    and deq_all: "ok s \<Longrightarrow> n < 2 ^ 32 \<Longrightarrow> deq s n = (bs, s') \<Longrightarrow> bs = take n (queued s)"
begin

text \<open>What fits is given back whole.\<close>

lemma through:
  assumes "ok s" "queued s = []" "length bs \<le> bound s" "length bs < 2 ^ 32"
    and "enq s bs = (n, t)" "deq t (length bs) = (cs, u)"
  shows "n = length bs \<and> cs = bs \<and> queued u = []"
proof -
  have n: "n = length bs"
    using enq_all [OF assms(1,4,5)] assms(2,3) by simp
  then have t: "ok t" "queued t = bs"
    using enq_law [OF assms(1,4,5)] assms(2) by simp_all
  have cs: "cs = bs"
    using deq_all [OF t(1) assms(4,6)] unfolding t(2) by simp
  have "bs = cs @ queued u"
    using deq_law [OF t(1) assms(4,6)] unfolding t(2) by blast
  then show ?thesis
    unfolding cs using n by simp
qed

end

text \<open>The octets the FIFO holds, oldest first, and what makes it a FIFO.\<close>

definition kfifo_ok :: "kfifo \<Rightarrow> bool" where
  "kfifo_ok f \<longleftrightarrow> (\<exists>k<32. unat (kf_size f) = 2 ^ k) \<and> length (kf_data f) = unat (kf_size f) \<and>
     unat (kfifo_len f) \<le> unat (kf_size f)"

definition held :: "kfifo \<Rightarrow> octet list" where
  "held f = ring (kf_data f) (unat (kf_out f)) (unat (kfifo_len f))"

definition room :: "kfifo \<Rightarrow> nat" where
  "room f = unat (kf_size f) - unat (kfifo_len f)"

lemma unat_min: "unat (min a b) = min (unat a) (unat b)"
  by (simp add: min_def word_le_nat_alt)

lemma unat_32_less [simp]: "unat (x :: uint32) < 4294967296"
  using unsigned_less [of x] by simp

lemma kfifo_ok_dest:
  assumes "kfifo_ok f"
  shows "length (kf_data f) = unat (kf_size f)" "unat (kfifo_len f) \<le> unat (kf_size f)"
    "0 < unat (kf_size f)" "unat (kf_size f) dvd 2 ^ 32"
    "unat (kf_place f i) = unat i mod unat (kf_size f)"
proof -
  obtain k where k: "k < 32" "unat (kf_size f) = 2 ^ k"
    using assms by (auto simp: kfifo_ok_def)
  show "length (kf_data f) = unat (kf_size f)" "unat (kfifo_len f) \<le> unat (kf_size f)"
    using assms by (simp_all add: kfifo_ok_def)
  show "0 < unat (kf_size f)"
    by (simp add: k(2))
  show "unat (kf_size f) dvd 2 ^ 32"
    unfolding k(2) by (rule le_imp_power_dvd) (use k(1) in simp)
  show "unat (kf_place f i) = unat i mod unat (kf_size f)"
    by (simp only: kf_place_def unat_and_pow2_mask [OF k(2)])
qed

lemma kf_in_mod:
  assumes "kfifo_ok f"
  shows "unat (kf_in f) mod unat (kf_size f) = (unat (kf_out f) + unat (kfifo_len f)) mod unat (kf_size f)"
proof -
  have "kf_in f = kf_out f + kfifo_len f"
    by (simp add: kfifo_len_def)
  then have "unat (kf_in f) = (unat (kf_out f) + unat (kfifo_len f)) mod 2 ^ 32"
    by (simp add: unat_word_ariths)
  then show ?thesis
    using kfifo_ok_dest(4) [OF assms] by (simp only: mod_mod_cancel)
qed

lemma length_held [simp]: "length (held f) = unat (kfifo_len f)"
  by (simp add: held_def)

text \<open>What publishing a stored region, and giving one back, do to the queue.\<close>

lemma kfifo_grow:
  assumes ok: "kfifo_ok f" and bs: "length bs \<le> room f"
  defines "g \<equiv> f\<lparr>kf_data := ring_store (kf_data f) (unat (kf_place f (kf_in f))) bs, kf_in := kf_in f + of_nat (length bs)\<rparr>"
  shows "kfifo_ok g" "held g = held f @ bs" "kf_size g = kf_size f" "unat (kfifo_len g) = unat (kfifo_len f) + length bs"
proof -
  note d = kfifo_ok_dest [OF ok]
  have n: "unat (kfifo_len f) + length bs \<le> unat (kf_size f)"
    using bs d(2) by (simp add: room_def)
  then have small: "unat (kfifo_len f) + length bs < 4294967296"
    using unat_32_less [of "kf_size f"] by linarith
  then have u: "unat (of_nat (length bs) :: uint32) = length bs"
    by (simp add: unat_of_nat)
  have "kfifo_len g = kfifo_len f + of_nat (length bs)"
    by (simp add: kfifo_len_def g_def)
  then show l: "unat (kfifo_len g) = unat (kfifo_len f) + length bs"
    using small u by (simp add: unat_word_ariths)
  have p: "unat (kf_place f (kf_in f)) < length (kf_data f)"
    using d by simp
  have "length bs \<le> length (kf_data f)"
    using n d(1) by simp
  then show "kfifo_ok g"
    using ok l n p by (simp add: kfifo_ok_def g_def)
  show "held g = held f @ bs"
    using ring_ring_store [OF p, of "unat (kf_out f)" "unat (kfifo_len f)" bs] kf_in_mod [OF ok] n d l
    by (simp add: held_def g_def)
  show "kf_size g = kf_size f"
    by (simp add: g_def)
qed

lemma kfifo_shrink:
  assumes ok: "kfifo_ok f" and m: "unat m \<le> unat (kfifo_len f)"
  defines "g \<equiv> f\<lparr>kf_out := kf_out f + m\<rparr>"
  shows "kfifo_ok g" "held g = drop (unat m) (held f)" "kf_size g = kf_size f" "unat (kfifo_len g) = unat (kfifo_len f) - unat m"
proof -
  note d = kfifo_ok_dest [OF ok]
  have "kfifo_len g = kfifo_len f - m"
    by (simp add: kfifo_len_def g_def)
  then show l: "unat (kfifo_len g) = unat (kfifo_len f) - unat m"
    using m by (simp add: unat_sub word_le_nat_alt)
  then show "kfifo_ok g"
    using ok by (auto simp: kfifo_ok_def g_def)
  have "unat (kf_out g) mod length (kf_data f) = (unat (kf_out f) + unat m) mod length (kf_data f)"
    using d(4) unfolding d(1) by (simp add: g_def unat_word_ariths mod_mod_cancel)
  then have "ring (kf_data f) (unat (kf_out g)) n = ring (kf_data f) (unat (kf_out f) + unat m) n" for n
    by (metis ring_mod)
  then show "held g = drop (unat m) (held f)"
    by (simp add: held_def drop_ring l) (simp add: g_def)
  show "kf_size g = kf_size f"
    by (simp add: g_def)
qed

lemma unat_room: "kfifo_ok f \<Longrightarrow> unat (kf_size f - (kf_in f - kf_out f)) = room f"
  using kfifo_ok_dest(2) [of f] by (simp add: room_def kfifo_len_def unat_sub word_le_nat_alt)

lemma unat_to_end:
  "kfifo_ok f \<Longrightarrow> unat (kf_size f - kf_place f i) = unat (kf_size f) - unat (kf_place f i)"
  using kfifo_ok_dest(3) [of f] kfifo_ok_dest(5) [of f i] by (simp add: unat_sub word_le_nat_alt)

lemma kfifo_in_eq:
  assumes ok: "kfifo_ok f" and src: "unat len \<le> length src"
  defines "n \<equiv> min (unat len) (room f)"
  shows "kfifo_in f src len =
    (of_nat n, f\<lparr>kf_data := ring_store (kf_data f) (unat (kf_place f (kf_in f))) (take n src), kf_in := kf_in f + of_nat n\<rparr>)"
proof -
  note d = kfifo_ok_dest [OF ok]
  define l32 where "l32 = min len (kf_size f - (kf_in f - kf_out f))"
  define h where "h = kf_place f (kf_in f)"
  define e where "e = min l32 (kf_size f - h)"
  have n: "unat l32 = n"
    by (simp add: l32_def unat_min unat_room [OF ok] n_def)
  then have n': "l32 = of_nat n"
    by auto
  have h: "unat h < unat (kf_size f)"
    using d(3,5) by (simp add: h_def)
  have e: "unat e = min n (unat (kf_size f) - unat h)"
    by (simp add: e_def unat_min n unat_to_end [OF ok] h_def)
  have r: "unat (l32 - e) = n - unat e" "l32 - e = 0 \<longleftrightarrow> n \<le> unat e"
    using e n by (simp_all add: unat_sub word_le_nat_alt e_def word_unat_eq_iff)
  have a: "take (unat e) src = take (length (kf_data f) - unat h) (take n src)"
    by (simp add: e d(1) min.commute)
  have b: "take (n - unat e) (drop (unat e) src) = drop (length (kf_data f) - unat h) (take n src)"
    by (cases "n \<le> unat (kf_size f) - unat h") (simp_all add: e d(1) drop_take)
  have "(l32, f\<lparr>kf_data := (if l32 - e \<noteq> 0
        then memcpy_at (memcpy_at (kf_data f) (unat h) (take (unat e) src)) 0 (take (unat (l32 - e)) (drop (unat e) src))
        else memcpy_at (kf_data f) (unat h) (take (unat e) src)), kf_in := kf_in f + l32\<rparr>) =
      (of_nat n, f\<lparr>kf_data := ring_store (kf_data f) (unat h) (take n src), kf_in := kf_in f + of_nat n\<rparr>)"
    using r b unfolding ring_store_def a [symmetric] n' [symmetric] by auto
  then show ?thesis
    unfolding kfifo_in_def Let_def l32_def h_def e_def .
qed

lemma kfifo_out_eq:
  assumes ok: "kfifo_ok f"
  shows "kfifo_out f sz =
    (min sz (kfifo_len f), take (unat sz) (held f), f\<lparr>kf_out := kf_out f + min sz (kfifo_len f)\<rparr>)"
proof -
  note d = kfifo_ok_dest [OF ok]
  define m where "m = min sz (kfifo_len f)"
  define t where "t = kf_place f (kf_out f)"
  define e where "e = min m (kf_size f - t)"
  have t: "unat t < length (kf_data f)" "unat t = unat (kf_out f) mod length (kf_data f)"
    using d(1,3,5) by (simp_all add: t_def)
  have m: "unat m = min (unat sz) (unat (kfifo_len f))" "unat m \<le> length (kf_data f)"
    using d(1,2) by (simp_all add: m_def unat_min)
  have e: "unat e = min (unat m) (length (kf_data f) - unat t)"
    by (simp add: e_def unat_min unat_to_end [OF ok] t_def d(1))
  have r: "unat (m - e) = unat m - unat e" "m - e = 0 \<longleftrightarrow> unat m \<le> unat e"
    using e by (simp_all add: unat_sub word_le_nat_alt e_def word_unat_eq_iff)
  have "take (unat sz) (held f) = ring (kf_data f) (unat t) (unat m)"
    by (simp add: held_def take_ring m(1) t(2) ring_mod min.commute)
  also have "\<dots> = take (unat e) (drop (unat t) (kf_data f)) @ take (unat m - unat e) (kf_data f)"
    using ring_split [OF t(1) m(2)] by (simp add: e)
  finally have "(if m - e \<noteq> 0 then take (unat e) (drop (unat t) (kf_data f)) @ take (unat (m - e)) (kf_data f)
      else take (unat e) (drop (unat t) (kf_data f))) = take (unat sz) (held f)"
    using r by auto
  then have "(m, if m - e \<noteq> 0 then take (unat e) (drop (unat t) (kf_data f)) @ take (unat (m - e)) (kf_data f)
      else take (unat e) (drop (unat t) (kf_data f)), f\<lparr>kf_out := kf_out f + m\<rparr>) =
      (m, take (unat sz) (held f), f\<lparr>kf_out := kf_out f + m\<rparr>)"
    by simp
  then show ?thesis
    unfolding kfifo_out_def Let_def m_def t_def e_def kfifo_len_def .
qed

definition kfifo_enq :: "kfifo \<Rightarrow> octet list \<Rightarrow> nat \<times> kfifo" where
  "kfifo_enq f bs = (let (n, f) = kfifo_in f bs (of_nat (length bs)) in (unat n, f))"

definition kfifo_deq :: "kfifo \<Rightarrow> nat \<Rightarrow> octet list \<times> kfifo" where
  "kfifo_deq f n = (let (m, bs, f) = kfifo_out f (of_nat n) in (bs, f))"

lemma kfifo_in_spec:
  assumes ok: "kfifo_ok f" and src: "unat len \<le> length src" and r: "kfifo_in f src len = (n, g)"
  shows "kfifo_ok g" "kf_size g = kf_size f" "unat n = min (unat len) (room f)" "held g = held f @ take (unat n) src"
proof -
  define m where "m = min (unat len) (room f)"
  have "m < 4294967296"
    using unat_32_less [of len] unfolding m_def by linarith
  then have m: "n = of_nat m" "unat n = m" "length (take m src) = m" "m \<le> room f"
      "g = f\<lparr>kf_data := ring_store (kf_data f) (unat (kf_place f (kf_in f))) (take m src), kf_in := kf_in f + of_nat m\<rparr>"
    using r kfifo_in_eq [OF ok src] src by (auto simp: m_def unat_of_nat)
  then show "kfifo_ok g" "kf_size g = kf_size f" "unat n = min (unat len) (room f)" "held g = held f @ take (unat n) src"
    using kfifo_grow [OF ok, of "take m src"] by (simp_all add: m_def)
qed

lemma kfifo_out_spec:
  assumes ok: "kfifo_ok f" and r: "kfifo_out f sz = (n, dst, g)"
  shows "kfifo_ok g" "kf_size g = kf_size f" "unat n = length dst" "dst = take (unat sz) (held f)" "held f = dst @ held g"
proof -
  have g: "n = min sz (kfifo_len f)" "dst = take (unat sz) (held f)" "g = f\<lparr>kf_out := kf_out f + n\<rparr>"
    using r by (auto simp: kfifo_out_eq [OF ok])
  have n: "unat n \<le> unat (kfifo_len f)" "take (unat n) (held f) = dst"
    by (auto simp: g(1,2) unat_min min_def word_le_nat_alt)
  show "kfifo_ok g" "kf_size g = kf_size f" "unat n = length dst" "dst = take (unat sz) (held f)" "held f = dst @ held g"
    using kfifo_shrink [OF ok n(1), folded g(3)] n g(2) append_take_drop_id [of "unat n" "held f"]
    by (simp_all add: g(1) unat_min min.commute)
qed

lemma kfifo_enq_spec:
  assumes ok: "kfifo_ok s" and l: "length bs < 2 ^ 32" and r: "kfifo_enq s bs = (n, s')"
  shows "kfifo_ok s'" "kf_size s' = kf_size s" "n = min (length bs) (room s)" "held s' = held s @ take n bs"
proof -
  have u: "unat (of_nat (length bs) :: uint32) = length bs"
    using l by (simp add: unat_of_nat)
  obtain k where k: "kfifo_in s bs (of_nat (length bs)) = (k, s')" "n = unat k"
    using r by (auto simp: kfifo_enq_def split: prod.splits)
  show "kfifo_ok s'" "kf_size s' = kf_size s" "n = min (length bs) (room s)" "held s' = held s @ take n bs"
    using kfifo_in_spec [OF ok _ k(1)] by (simp_all add: u k(2))
qed

lemma kfifo_deq_spec:
  assumes ok: "kfifo_ok s" and l: "n < 2 ^ 32" and r: "kfifo_deq s n = (bs, s')"
  shows "kfifo_ok s'" "kf_size s' = kf_size s" "bs = take n (held s)" "held s = bs @ held s'"
proof -
  have u: "unat (of_nat n :: uint32) = n"
    using l by (simp add: unat_of_nat)
  obtain k where k: "kfifo_out s (of_nat n) = (k, bs, s')"
    using r by (auto simp: kfifo_deq_def split: prod.splits)
  note p = kfifo_out_spec [OF ok k, unfolded u]
  show "kfifo_ok s'" "kf_size s' = kf_size s" "bs = take n (held s)" "held s = bs @ held s'"
    by (fact p(1) p(2) p(4) p(5))+
qed

interpretation kq: whole_queue kfifo_ok held "\<lambda>f. unat (kf_size f)" kfifo_enq kfifo_deq
proof
  fix s bs n s'
  assume s: "kfifo_ok s"
  show "length (held s) \<le> unat (kf_size s)"
    using kfifo_ok_dest(2) [OF s] by simp
  assume l: "length bs < 2 ^ 32" and e: "kfifo_enq s bs = (n, s')"
  note p = kfifo_enq_spec [OF s l e]
  show "n = min (length bs) (unat (kf_size s) - length (held s))"
    using p(3) by (simp add: room_def)
  show "kfifo_ok s' \<and> unat (kf_size s') = unat (kf_size s) \<and> n \<le> length bs \<and> held s' = held s @ take n bs"
    using p by simp
next
  fix s bs s'
  assume s: "kfifo_ok s" and l: "length bs < 2 ^ 32" and e: "kfifo_enq s bs = (0, s')"
  show "bs = [] \<or> length (held s) = unat (kf_size s)"
    using kfifo_enq_spec(3) [OF s l e] kfifo_ok_dest(2) [OF s] by (auto simp: room_def min_def split: if_splits)
next
  fix s n bs s'
  assume s: "kfifo_ok s" and l: "n < 2 ^ 32" and e: "kfifo_deq s n = (bs, s')"
  note p = kfifo_deq_spec [OF s l e]
  have "length bs \<le> n"
    unfolding p(3) by simp
  note p = p this
  show "bs = take n (held s)"
    by (rule p(3))
  show "kfifo_ok s' \<and> unat (kf_size s') = unat (kf_size s) \<and> length bs \<le> n \<and> held s = bs @ held s'"
    using p by simp
next
  fix s n s'
  assume s: "kfifo_ok s" and l: "n < 2 ^ 32" and e: "kfifo_deq s n = ([], s')"
  show "n = 0 \<or> held s = []"
    using kfifo_deq_spec(3) [OF s l e] by auto
qed

text \<open>Filling in place what a claim gave, and emptying what the other one gave.\<close>

definition kfifo_fill :: "kfifo \<Rightarrow> octet list \<Rightarrow> nat \<times> kfifo" where
  "kfifo_fill f bs =
     (let (off, m) = kfifo_put_claim f (of_nat (length bs)); bs = take (unat m) bs
      in (length bs, kfifo_put_finish (f\<lparr>kf_data := memcpy_at (kf_data f) (unat off) bs\<rparr>) (of_nat (length bs))))"

definition kfifo_drain :: "kfifo \<Rightarrow> nat \<Rightarrow> octet list \<times> kfifo" where
  "kfifo_drain f n =
     (let (off, m) = kfifo_get_claim f (of_nat n)
      in (take (unat m) (drop (unat off) (kf_data f)), kfifo_get_finish f m))"

lemma put_claim_spec:
  assumes ok: "kfifo_ok f" and c: "kfifo_put_claim f n = (off, m)"
  shows "unat m = min (min (unat n) (room f)) (length (kf_data f) - unat off)" "unat off < length (kf_data f)"
    "m = 0 \<longleftrightarrow> n = 0 \<or> room f = 0" "off = kf_place f (kf_in f)"
proof -
  note d = kfifo_ok_dest [OF ok]
  have o: "off = kf_place f (kf_in f)" and m: "m = min (min n (kf_size f - (kf_in f - kf_out f))) (kf_size f - off)"
    using c by (auto simp: kfifo_put_claim_def Let_def)
  show u: "unat m = min (min (unat n) (room f)) (length (kf_data f) - unat off)"
    unfolding m by (simp only: unat_min unat_room [OF ok] unat_to_end [OF ok] o d(1))
  show l: "unat off < length (kf_data f)"
    using d(1,3,5) by (simp add: o)
  show "m = 0 \<longleftrightarrow> n = 0 \<or> room f = 0"
    using u l by (auto simp: word_unat_eq_iff min_def split: if_splits)
  show "off = kf_place f (kf_in f)"
    by (rule o)
qed

lemma put_finish_spec:
  assumes ok: "kfifo_ok f" and c: "kfifo_put_claim f n = (off, m)" and bs: "length bs \<le> unat m"
  defines "g \<equiv> kfifo_put_finish (f\<lparr>kf_data := memcpy_at (kf_data f) (unat off) bs\<rparr>) (of_nat (length bs))"
  shows "kfifo_ok g" "held g = held f @ bs" "kf_size g = kf_size f"
proof -
  note p = put_claim_spec [OF ok c]
  have "ring_store (kf_data f) (unat off) bs = memcpy_at (kf_data f) (unat off) bs"
    using bs p(1) by (simp add: ring_store_def)
  then have g: "g = f\<lparr>kf_data := ring_store (kf_data f) (unat (kf_place f (kf_in f))) bs, kf_in := kf_in f + of_nat (length bs)\<rparr>"
    by (simp add: g_def kfifo_put_finish_def p(4))
  have "length bs \<le> room f"
    using bs p(1) by simp
  from kfifo_grow [OF ok this, folded g]
  show "kfifo_ok g" "held g = held f @ bs" "kf_size g = kf_size f" by blast+
qed

lemma get_claim_spec:
  assumes ok: "kfifo_ok f" and c: "kfifo_get_claim f n = (off, m)"
  shows "take (unat m) (drop (unat off) (kf_data f)) = take (unat m) (held f)" "unat m \<le> unat n"
    "unat m \<le> length (held f)" "m = 0 \<longleftrightarrow> n = 0 \<or> held f = []" "unat off + unat m \<le> length (kf_data f)"
proof -
  note d = kfifo_ok_dest [OF ok]
  have o: "off = kf_place f (kf_out f)" and m: "m = min (min n (kfifo_len f)) (kf_size f - off)"
    using c by (auto simp: kfifo_get_claim_def Let_def kfifo_len_def)
  have u: "unat m = min (min (unat n) (length (held f))) (length (kf_data f) - unat off)"
    unfolding m by (simp only: unat_min unat_to_end [OF ok] o d(1) length_held)
  have l: "unat off < length (kf_data f)" "unat off = unat (kf_out f) mod length (kf_data f)"
    using d(1,3,5) by (simp_all add: o)
  show "unat m \<le> unat n" "unat m \<le> length (held f)" "unat off + unat m \<le> length (kf_data f)"
    using u l by auto
  have "m = 0 \<longleftrightarrow> n = 0 \<or> length (held f) = 0"
    using u l(1) by (auto simp: word_unat_eq_iff min_def split: if_splits)
  then show "m = 0 \<longleftrightarrow> n = 0 \<or> held f = []"
    unfolding length_0_conv .
  have "unat m \<le> length (kf_data f)" "min (unat m) (length (kf_data f) - unat off) = unat m"
    using u by simp_all
  then have "ring (kf_data f) (unat off) (unat m) = take (unat m) (drop (unat off) (kf_data f))"
    using ring_split [OF l(1), of "unat m"] by simp
  moreover have "take (unat m) (held f) = ring (kf_data f) (unat off) (unat m)"
    using u by (simp add: held_def take_ring l(2) ring_mod min_def)
  ultimately show "take (unat m) (drop (unat off) (kf_data f)) = take (unat m) (held f)"
    by simp
qed

lemma get_finish_spec:
  assumes "kfifo_ok f" "unat m \<le> length (held f)"
  shows "kfifo_ok (kfifo_get_finish f m)" "held (kfifo_get_finish f m) = drop (unat m) (held f)"
    "kf_size (kfifo_get_finish f m) = kf_size f"
  using kfifo_shrink [OF assms(1), of m] assms(2) by (simp_all add: kfifo_get_finish_def)

lemma kfifo_fill_spec:
  assumes ok: "kfifo_ok s" and l: "length bs < 2 ^ 32" and r: "kfifo_fill s bs = (n, s')"
  shows "kfifo_ok s'" "kf_size s' = kf_size s" "n \<le> length bs" "held s' = held s @ take n bs"
    "n = 0 \<longleftrightarrow> bs = [] \<or> room s = 0"
proof -
  obtain off m where c: "kfifo_put_claim s (of_nat (length bs)) = (off, m)"
    by (cases "kfifo_put_claim s (of_nat (length bs))")
  have u: "unat (of_nat (length bs) :: uint32) = length bs"
    using l by (simp add: unat_of_nat)
  have m: "unat m \<le> length bs"
    using put_claim_spec(1) [OF ok c] by (simp add: u)
  have n: "n = unat m" and s': "s' = kfifo_put_finish (s\<lparr>kf_data := memcpy_at (kf_data s) (unat off) (take (unat m) bs)\<rparr>)
      (of_nat (length (take (unat m) bs)))"
    using r m by (auto simp: kfifo_fill_def c Let_def)
  have "length (take (unat m) bs) \<le> unat m"
    by simp
  note p = put_finish_spec [OF ok c this, folded s']
  show "kfifo_ok s'" "kf_size s' = kf_size s" "n \<le> length bs" "held s' = held s @ take n bs"
    using p m by (simp_all add: n)
  have "of_nat (length bs) = (0 :: uint32) \<longleftrightarrow> bs = []"
    by (simp add: word_unat_eq_iff u)
  then show "n = 0 \<longleftrightarrow> bs = [] \<or> room s = 0"
    using put_claim_spec(3) [OF ok c] by (simp add: n word_unat_eq_iff)
qed

lemma kfifo_drain_spec:
  assumes ok: "kfifo_ok s" and l: "n < 2 ^ 32" and r: "kfifo_drain s n = (bs, s')"
  shows "kfifo_ok s'" "kf_size s' = kf_size s" "length bs \<le> n" "held s = bs @ held s'"
    "bs = [] \<longleftrightarrow> n = 0 \<or> held s = []"
proof -
  obtain off m where c: "kfifo_get_claim s (of_nat n) = (off, m)"
    by (cases "kfifo_get_claim s (of_nat n)")
  note p = get_claim_spec [OF ok c]
  have u: "unat (of_nat n :: uint32) = n"
    using l by (simp add: unat_of_nat)
  have bs: "bs = take (unat m) (held s)" and s': "s' = kfifo_get_finish s m"
    using r p(1) by (auto simp: kfifo_drain_def c)
  note q = get_finish_spec [OF ok p(3), folded s']
  show "kfifo_ok s'" "kf_size s' = kf_size s" "held s = bs @ held s'"
    using q by (simp_all add: bs)
  show "length bs \<le> n"
    using p(2) by (simp add: bs u)
  have "of_nat n = (0 :: uint32) \<longleftrightarrow> n = 0"
    by (simp add: word_unat_eq_iff u)
  then show "bs = [] \<longleftrightarrow> n = 0 \<or> held s = []"
    using p(4) by (auto simp: bs word_unat_eq_iff)
qed

interpretation kp: octet_queue kfifo_ok held "\<lambda>f. unat (kf_size f)" kfifo_fill kfifo_drain
proof
  fix s bs n s'
  assume s: "kfifo_ok s"
  show "length (held s) \<le> unat (kf_size s)"
    by (rule kq.fits [OF s])
  assume l: "length bs < 2 ^ 32" and e: "kfifo_fill s bs = (n, s')"
  show "kfifo_ok s' \<and> unat (kf_size s') = unat (kf_size s) \<and> n \<le> length bs \<and> held s' = held s @ take n bs"
    using kfifo_fill_spec [OF s l e] by simp
next
  fix s bs s'
  assume s: "kfifo_ok s" and l: "length bs < 2 ^ 32" and e: "kfifo_fill s bs = (0, s')"
  show "bs = [] \<or> length (held s) = unat (kf_size s)"
    using kfifo_fill_spec(5) [OF s l e] kq.fits [OF s] by (auto simp: room_def)
next
  fix s n bs s'
  assume s: "kfifo_ok s" and l: "n < 2 ^ 32" and e: "kfifo_drain s n = (bs, s')"
  show "kfifo_ok s' \<and> unat (kf_size s') = unat (kf_size s) \<and> length bs \<le> n \<and> held s = bs @ held s'"
    using kfifo_drain_spec [OF s l e] by simp
next
  fix s n s'
  assume s: "kfifo_ok s" and l: "n < 2 ^ 32" and e: "kfifo_drain s n = ([], s')"
  show "n = 0 \<or> held s = []"
    using kfifo_drain_spec(5) [OF s l e] by simp
qed

section \<open>Properties\<close>

lemma kfifo_put_spec:
  assumes ok: "kfifo_ok f"
  shows "kfifo_put f v = (r, g) \<Longrightarrow> kfifo_ok g \<and> (r \<longleftrightarrow> length (held f) < unat (kf_size f)) \<and>
    held g = (if r then held f @ [v] else held f)"
proof -
  assume p: "kfifo_put f v = (r, g)"
  note d = kfifo_ok_dest [OF ok]
  have full: "kf_in f - kf_out f \<ge> kf_size f \<longleftrightarrow> \<not> length (held f) < unat (kf_size f)"
    unfolding kfifo_len_def [symmetric] length_held word_le_nat_alt by linarith
  show ?thesis
  proof (cases "length (held f) < unat (kf_size f)")
    case True
    have place: "unat (kf_place f (kf_in f)) < length (kf_data f)"
      using d by simp
    then have "ring_store (kf_data f) (unat (kf_place f (kf_in f))) [v] = (kf_data f)[unat (kf_place f (kf_in f)) := v]"
      by (simp add: ring_store_def memcpy_at_def upd_conv_take_nth_drop)
    then show ?thesis
      using p True full kfifo_grow [OF ok, of "[v]"] by (auto simp: kfifo_put_def room_def)
  next
    case False
    then show ?thesis
      using p full ok by (auto simp: kfifo_put_def)
  qed
qed

lemma kfifo_get_spec:
  assumes ok: "kfifo_ok f"
  shows "kfifo_get f = (x, g) \<Longrightarrow> kfifo_ok g \<and> (case x of None \<Rightarrow> held f = [] \<and> g = f | Some v \<Rightarrow> held f = v # held g)"
proof -
  assume p: "kfifo_get f = (x, g)"
  note d = kfifo_ok_dest [OF ok]
  have e: "kf_in f = kf_out f \<longleftrightarrow> unat (kfifo_len f) = 0"
    by (simp add: kfifo_len_def unat_eq_0)
  show ?thesis
  proof (cases "kf_in f = kf_out f")
    case True
    then have "held f = []"
      using e length_held [of f] by (simp del: length_held) 
    then show ?thesis
      using p True ok by (auto simp: kfifo_get_def)
  next
    case False
    have "held f \<noteq> []"
      using False e unfolding length_0_conv [symmetric] length_held by simp
    then obtain v vs where h: "held f = v # vs"
      by (cases "held f") auto
    moreover have "held f ! 0 = kf_data f ! unat (kf_place f (kf_out f))"
      using False e d by (simp add: held_def)
    moreover have "g = f\<lparr>kf_out := kf_out f + 1\<rparr>" "x = Some (kf_data f ! unat (kf_place f (kf_out f)))"
      using p False by (auto simp: kfifo_get_def)
    ultimately show ?thesis
      using False e kfifo_shrink [OF ok, of 1] by simp
  qed
qed

lemma kfifo_init_spec:
  assumes "length buf = unat sz" "k < 32" "unat sz = 2 ^ k"
  shows "kfifo_ok (kfifo_init f buf sz)" "held (kfifo_init f buf sz) = []" "kf_size (kfifo_init f buf sz) = sz"
  using assms by (auto simp: kfifo_init_def kfifo_reset_def kfifo_ok_def held_def kfifo_len_def)

text \<open>C24: the ring buffer is a bounded queue of octets. Reading its contents from the oldest to the
  newest: the tests and the length agree with them, putting appends what there is room for
  and says how much, getting takes from the front and says how much, whether by copying, one
  octet at a time or in place, and no operation harms the buffer or the indices, however
  often these have wrapped.\<close>

theorem kfifo_refines_queue:
  assumes ok: "kfifo_ok f"
  shows "(kfifo_is_empty f \<longleftrightarrow> held f = []) \<and> unat (kfifo_len f) = length (held f) \<and>
    (kfifo_is_full f \<longleftrightarrow> length (held f) = unat (kf_size f)) \<and>
    (\<forall>v r g. kfifo_put f v = (r, g) \<longrightarrow>
       kfifo_ok g \<and> (r \<longleftrightarrow> length (held f) < unat (kf_size f)) \<and> held g = (if r then held f @ [v] else held f)) \<and>
    (\<forall>x g. kfifo_get f = (x, g) \<longrightarrow>
       kfifo_ok g \<and> (case x of None \<Rightarrow> held f = [] \<and> g = f | Some v \<Rightarrow> held f = v # held g)) \<and>
    (\<forall>src len n g. kfifo_in f src len = (n, g) \<longrightarrow> unat len \<le> length src \<longrightarrow>
       kfifo_ok g \<and> unat n = min (unat len) (unat (kf_size f) - length (held f)) \<and> held g = held f @ take (unat n) src) \<and>
    (\<forall>sz n dst g. kfifo_out f sz = (n, dst, g) \<longrightarrow>
       kfifo_ok g \<and> unat n = length dst \<and> dst = take (unat sz) (held f) \<and> held f = dst @ held g) \<and>
    (\<forall>n off m bs. kfifo_put_claim f n = (off, m) \<longrightarrow> length bs \<le> unat m \<longrightarrow>
       (let g = kfifo_put_finish (f\<lparr>kf_data := memcpy_at (kf_data f) (unat off) bs\<rparr>) (of_nat (length bs))
        in kfifo_ok g \<and> held g = held f @ bs)) \<and>
    (\<forall>n off m k. kfifo_get_claim f n = (off, m) \<longrightarrow> k \<le> m \<longrightarrow>
       kfifo_ok (kfifo_get_finish f k) \<and>
       held f = take (unat k) (drop (unat off) (kf_data f)) @ held (kfifo_get_finish f k))"
proof (intro conjI allI impI)
  have z: "kfifo_len f = 0 \<longleftrightarrow> held f = []"
    unfolding word_unat_eq_iff unat_0 length_held [symmetric] length_0_conv ..
  show "kfifo_is_empty f \<longleftrightarrow> held f = []"
    by (simp add: kfifo_is_empty_def flip: z) (simp add: kfifo_len_def)
  show "unat (kfifo_len f) = length (held f)" "kfifo_is_full f \<longleftrightarrow> length (held f) = unat (kf_size f)"
    by (simp_all add: kfifo_is_full_def word_unat_eq_iff)
next
  fix v r g assume "kfifo_put f v = (r, g)"
  from kfifo_put_spec [OF ok this]
  show "kfifo_ok g" "r \<longleftrightarrow> length (held f) < unat (kf_size f)" "held g = (if r then held f @ [v] else held f)"
    by blast+
next
  fix x g assume "kfifo_get f = (x, g)"
  from kfifo_get_spec [OF ok this]
  show "kfifo_ok g" "case x of None \<Rightarrow> held f = [] \<and> g = f | Some v \<Rightarrow> held f = v # held g"
    by blast+
next
  fix src len n g assume i: "kfifo_in f src len = (n, g)" and l: "unat len \<le> length src"
  note p = kfifo_in_spec [OF ok l i]
  show "kfifo_ok g" "unat n = min (unat len) (unat (kf_size f) - length (held f))" "held g = held f @ take (unat n) src"
    using p(1,4) p(3) [unfolded room_def, folded length_held] by blast+
next
  fix sz n dst g assume "kfifo_out f sz = (n, dst, g)"
  from kfifo_out_spec [OF ok this]
  show "kfifo_ok g" "unat n = length dst" "dst = take (unat sz) (held f)" "held f = dst @ held g"
    by blast+
next
  fix n off m and bs :: "octet list" assume "kfifo_put_claim f n = (off, m)" "length bs \<le> unat m"
  from put_finish_spec [OF ok this]
  show "let g = kfifo_put_finish (f\<lparr>kf_data := memcpy_at (kf_data f) (unat off) bs\<rparr>) (of_nat (length bs))
      in kfifo_ok g \<and> held g = held f @ bs"
    by (simp add: Let_def)
next
  fix n off m k assume c: "kfifo_get_claim f n = (off, m)" and k: "k \<le> m"
  note p = get_claim_spec [OF ok c]
  have k: "unat k \<le> unat m"
    using k by (simp add: word_le_nat_alt)
  then have t: "take (unat k) (drop (unat off) (kf_data f)) = take (unat k) (held f)"
    using arg_cong [OF p(1), of "take (unat k)"] by (simp add: min_def)
  have "unat k \<le> length (held f)"
    using k p(3) by simp
  note q = get_finish_spec [OF ok this]
  show "kfifo_ok (kfifo_get_finish f k)"
    by (rule q(1))
  show "held f = take (unat k) (drop (unat off) (kf_data f)) @ held (kfifo_get_finish f k)"
    unfolding t q(2) append_take_drop_id ..
qed

definition sample_fifo :: kfifo where
  "sample_fifo = \<lparr>kf_data = [12, 0, 10, 11], kf_size = 4, kf_in = 1, kf_out = 0xfffffffe\<rparr>"

lemma sample_fifo_ok: "kfifo_ok sample_fifo" "held sample_fifo = [10, 11, 12]"
proof -
  have "(4 :: nat) = 2 ^ 2"
    by simp
  then show "kfifo_ok sample_fifo"
    by (auto simp: kfifo_ok_def sample_fifo_def kfifo_len_def intro: exI [of _ 2])
  show "held sample_fifo = [10, 11, 12]"
    by (simp add: held_def ring_def sample_fifo_def kfifo_len_def upt_rec)
qed

theorem kfifo_refines_queue_witness:
  "\<exists>n g. kfifo_in sample_fifo [13, 14] 2 = (n, g) \<and> unat n = 1 \<and> held g = [10, 11, 12, 13]"
proof -
  obtain n g where i: "kfifo_in sample_fifo [13, 14] 2 = (n, g)"
    by (cases "kfifo_in sample_fifo [13, 14] 2")
  have "kf_size sample_fifo = 4"
    by (simp add: sample_fifo_def)
  then have "unat n = 1 \<and> held g = held sample_fifo @ take (unat n) [13, 14]"
    using kfifo_refines_queue [OF sample_fifo_ok(1)] i sample_fifo_ok(2) by simp
  then show ?thesis
    using i by (simp add: sample_fifo_ok(2))
qed

end
