(* ===== verification/Ludlc_Kfifo_Threads.thy ===== *)
theory Ludlc_Kfifo_Threads
  imports Ludlc_Kfifo
begin

text \<open>
  The two threads of a FIFO of \<open>kfifo.h\<close>, interleaved. A call that puts octets loads the
  two indices, writes its octets one by one and stores its index; a call that gets octets
  loads the indices, reads its octets one by one and stores its index. Between any two of
  these accesses the other thread may make any number of its own. Each store of an index is
  seen after the octets written before it, which is what the release stores and acquire
  loads of the code buy.
\<close>

section \<open>The accesses\<close>

datatype producer = P_idle | P_copy (p_src: "octet list") (p_done: nat)
datatype consumer = C_idle | C_copy (c_want: nat) (c_read: "octet list")

record spsc =
  sp_fifo :: kfifo
  sp_prod :: producer
  sp_cons :: consumer
  sp_put :: "octet list"
  sp_got :: "octet list"

text \<open>\<open>sp_put\<close> is what was published, \<open>sp_got\<close> what calls of the consumer returned.\<close>

inductive spsc_step :: "spsc \<Rightarrow> spsc \<Rightarrow> bool" where
  p_load: "sp_prod s = P_idle \<Longrightarrow> n \<le> length src \<Longrightarrow> n \<le> unat (kf_size (sp_fifo s) - (kf_in (sp_fifo s) - kf_out (sp_fifo s))) \<Longrightarrow>
    spsc_step s (s\<lparr>sp_prod := P_copy (take n src) 0\<rparr>)"
| p_write: "sp_prod s = P_copy src k \<Longrightarrow> k < length src \<Longrightarrow>
    spsc_step s (s\<lparr>sp_prod := P_copy src (Suc k),
      sp_fifo := (sp_fifo s)\<lparr>kf_data := (kf_data (sp_fifo s))
        [unat (kf_place (sp_fifo s) (kf_in (sp_fifo s) + of_nat k)) := src ! k]\<rparr>\<rparr>)"
| p_publish: "sp_prod s = P_copy src (length src) \<Longrightarrow>
    spsc_step s (s\<lparr>sp_prod := P_idle, sp_fifo := kfifo_put_finish (sp_fifo s) (of_nat (length src)),
      sp_put := sp_put s @ src\<rparr>)"
| c_load: "sp_cons s = C_idle \<Longrightarrow> n \<le> unat (kf_in (sp_fifo s) - kf_out (sp_fifo s)) \<Longrightarrow>
    spsc_step s (s\<lparr>sp_cons := C_copy n []\<rparr>)"
| c_read: "sp_cons s = C_copy n bs \<Longrightarrow> length bs < n \<Longrightarrow>
    spsc_step s (s\<lparr>sp_cons := C_copy n (bs @
      [kf_data (sp_fifo s) ! unat (kf_place (sp_fifo s) (kf_out (sp_fifo s) + of_nat (length bs)))])\<rparr>)"
| c_release: "sp_cons s = C_copy n bs \<Longrightarrow> length bs = n \<Longrightarrow>
    spsc_step s (s\<lparr>sp_cons := C_idle, sp_fifo := kfifo_get_finish (sp_fifo s) (of_nat n),
      sp_got := sp_got s @ bs\<rparr>)"

definition spsc_start :: "kfifo \<Rightarrow> spsc" where
  "spsc_start f = \<lparr>sp_fifo = f, sp_prod = P_idle, sp_cons = C_idle, sp_put = [], sp_got = []\<rparr>"

section \<open>What both threads keep\<close>

definition spsc_inv :: "spsc \<Rightarrow> bool" where
  "spsc_inv s \<longleftrightarrow>
     kfifo_ok (sp_fifo s) \<and> sp_put s = sp_got s @ held (sp_fifo s) \<and>
     (\<forall>src k. sp_prod s = P_copy src k \<longrightarrow>
        k \<le> length src \<and> length src \<le> room (sp_fifo s) \<and>
        ring (kf_data (sp_fifo s)) (unat (kf_in (sp_fifo s))) k = take k src) \<and>
     (\<forall>n bs. sp_cons s = C_copy n bs \<longrightarrow>
        length bs \<le> n \<and> n \<le> length (held (sp_fifo s)) \<and> bs = take (length bs) (held (sp_fifo s)))"

text \<open>Writing at a distance from an index leaves the region before it alone.\<close>

lemma kf_place_plus:
  assumes "kfifo_ok f" "k < unat (kf_size f)"
  shows "unat (kf_place f (i + of_nat k)) = (unat i + k) mod unat (kf_size f)"
proof -
  have "k < 4294967296"
    using assms(2) unat_32_less [of "kf_size f"] by linarith
  then have "unat (i + of_nat k) = (unat i + k) mod 2 ^ 32"
    by (simp add: unat_word_ariths unat_of_nat)
  then show ?thesis
    using kfifo_ok_dest(4,5) [OF assms(1)] by (simp only: mod_mod_cancel)
qed

lemma ring_update_other:
  assumes "n \<le> k" "k < length d"
  shows "ring (d[(s + k) mod length d := v]) s n = ring d s n"
proof (intro nth_equalityI)
  fix i assume i: "i < length (ring (d[(s + k) mod length d := v]) s n)"
  then have "(s + i) mod length d \<noteq> (s + k) mod length d"
    using assms by (intro ring_index_inj) auto
  then show "ring (d[(s + k) mod length d := v]) s n ! i = ring d s n ! i"
    using i by simp
qed simp

lemma ring_update_last:
  assumes "k < length d"
  shows "ring (d[(s + k) mod length d := v]) s (Suc k) = ring d s k @ [v]"
  using ring_update_other [OF order.refl assms, of s v] ring_append [of "d[(s + k) mod length d := v]" s k 1]
  by (simp add: ring_def) (use assms in \<open>metis mod_less_divisor gr_implies_not0 neq0_conv nth_list_update_eq\<close>)

lemma ring_in_mod:
  assumes "kfifo_ok f"
  shows "ring (kf_data f) (unat (kf_in f)) n = ring (kf_data f) (unat (kf_out f) + unat (kfifo_len f)) n"
  using kf_in_mod [OF assms] kfifo_ok_dest(1) [OF assms] ring_mod by metis

lemma kfifo_publish:
  assumes ok: "kfifo_ok f" and n: "n \<le> room f"
  shows "kfifo_ok (kfifo_put_finish f (of_nat n))"
    "held (kfifo_put_finish f (of_nat n)) = held f @ ring (kf_data f) (unat (kf_in f)) n"
    "kf_in (kfifo_put_finish f (of_nat n)) = kf_in f + of_nat n"
proof -
  have small: "unat (kfifo_len f) + n \<le> unat (kf_size f)" "unat (kfifo_len f) + n < 4294967296"
    using n kfifo_ok_dest(2) [OF ok] unat_32_less [of "kf_size f"] unfolding room_def by linarith+
  then have "unat (of_nat n :: uint32) = n"
    by (simp add: unat_of_nat)
  moreover have "kfifo_len (kfifo_put_finish f (of_nat n)) = kfifo_len f + of_nat n"
    by (simp add: kfifo_len_def kfifo_put_finish_def)
  ultimately have l: "unat (kfifo_len (kfifo_put_finish f (of_nat n))) = unat (kfifo_len f) + n"
    using small(2) by (simp add: unat_word_ariths)
  then show "kfifo_ok (kfifo_put_finish f (of_nat n))"
    using ok small by (simp add: kfifo_ok_def kfifo_put_finish_def)
  show "held (kfifo_put_finish f (of_nat n)) = held f @ ring (kf_data f) (unat (kf_in f)) n"
    unfolding held_def l ring_in_mod [OF ok] by (simp add: kfifo_put_finish_def ring_append)
qed (simp add: kfifo_put_finish_def)

lemma kfifo_store:
  fixes v :: octet
  assumes ok: "kfifo_ok f" and k: "k < room f"
  defines "g \<equiv> f\<lparr>kf_data := (kf_data f)[unat (kf_place f (kf_in f + of_nat k)) := v]\<rparr>"
  shows "kfifo_ok g" "held g = held f" "room g = room f" "kf_in g = kf_in f"
    "ring (kf_data g) (unat (kf_in f)) (Suc k) = ring (kf_data f) (unat (kf_in f)) k @ [v]"
proof -
  note d = kfifo_ok_dest [OF ok]
  have kl: "unat (kfifo_len f) + k < length (kf_data f)" "k < length (kf_data f)" "k < unat (kf_size f)"
    using k d(1) unfolding room_def by linarith+
  then have p: "unat (kf_place f (kf_in f + of_nat k)) = (unat (kf_in f) + k) mod length (kf_data f)"
    using kf_place_plus [OF ok] d(1) by simp
  have p': "(unat (kf_in f) + k) mod length (kf_data f) = (unat (kf_out f) + (unat (kfifo_len f) + k)) mod length (kf_data f)"
    using kf_in_mod [OF ok] unfolding d(1) by (metis add.assoc mod_add_left_eq)
  show "kfifo_ok g" "room g = room f" "kf_in g = kf_in f"
    using ok by (simp_all add: g_def kfifo_ok_def room_def kfifo_len_def)
  show "held g = held f"
    unfolding held_def g_def p p' using ring_update_other [of "unat (kfifo_len f)" "unat (kfifo_len f) + k" "kf_data f" "unat (kf_out f)" v] kl
    by (simp add: kfifo_len_def)
  show "ring (kf_data g) (unat (kf_in f)) (Suc k) = ring (kf_data f) (unat (kf_in f)) k @ [v]"
    unfolding g_def p using ring_update_last [OF kl(2)] by simp
qed

lemma kfifo_fetch:
  assumes ok: "kfifo_ok f" and k: "k < length (held f)"
  shows "kf_data f ! unat (kf_place f (kf_out f + of_nat k)) = held f ! k"
proof -
  have "k < unat (kf_size f)"
    using k kfifo_ok_dest(2) [OF ok] by simp
  then show ?thesis
    using k kf_place_plus [OF ok] kfifo_ok_dest(1) [OF ok] by (simp add: held_def)
qed

lemma spsc_inv_step:
  assumes "spsc_step s t" "spsc_inv s"
  shows "spsc_inv t"
  using assms
proof cases
  case (p_load n src)
  then show ?thesis
    using assms(2) unat_room [of "sp_fifo s"] by (auto simp: spsc_inv_def)
next
  case (p_write src k)
  have i: "kfifo_ok (sp_fifo s)" "length src \<le> room (sp_fifo s)" "ring (kf_data (sp_fifo s)) (unat (kf_in (sp_fifo s))) k = take k src"
    using assms(2) p_write by (auto simp: spsc_inv_def)
  then have "k < room (sp_fifo s)"
    using p_write by simp
  note st = kfifo_store [OF i(1) this, of "src ! k"]
  show ?thesis
    using assms(2) p_write i st by (auto simp: spsc_inv_def take_Suc_conv_app_nth)
next
  case (p_publish src)
  have i: "kfifo_ok (sp_fifo s)" "length src \<le> room (sp_fifo s)" "ring (kf_data (sp_fifo s)) (unat (kf_in (sp_fifo s))) (length src) = src"
    using assms(2) p_publish by (auto simp: spsc_inv_def)
  note st = kfifo_publish [OF i(1,2), unfolded i(3)]
  have "length (held (sp_fifo t)) = length (held (sp_fifo s)) + length src"
    using st(2) p_publish by (simp del: length_held)
  moreover have "take j (held (sp_fifo t)) = take j (held (sp_fifo s))" if "j \<le> length (held (sp_fifo s))" for j
    using st(2) p_publish that by simp
  ultimately show ?thesis
    using assms(2) p_publish st by (auto simp: spsc_inv_def)
next
  case (c_load n)
  then show ?thesis
    using assms(2) by (auto simp: spsc_inv_def kfifo_len_def)
next
  case (c_read n bs)
  have i: "kfifo_ok (sp_fifo s)" "n \<le> length (held (sp_fifo s))" "bs = take (length bs) (held (sp_fifo s))"
    using assms(2) c_read by (auto simp: spsc_inv_def)
  have b: "length bs < length (held (sp_fifo s))"
    using i(2) c_read by simp
  have "bs @ [held (sp_fifo s) ! length bs] = take (Suc (length bs)) (held (sp_fifo s))"
    using b i(3) by (simp add: take_Suc_conv_app_nth)
  then show ?thesis
    using assms(2) c_read kfifo_fetch [OF i(1) b] by (auto simp: spsc_inv_def)
next
  case (c_release n bs)
  have i: "kfifo_ok (sp_fifo s)" "n \<le> length (held (sp_fifo s))" "bs = take n (held (sp_fifo s))"
    using assms(2) c_release by (auto simp: spsc_inv_def)
  have "n < 4294967296"
    using i(2) unat_32_less [of "kfifo_len (sp_fifo s)"] unfolding length_held by linarith
  then have u: "unat (of_nat n :: uint32) = n"
    by (simp add: unat_of_nat)
  note st = get_finish_spec [OF i(1), of "of_nat n", unfolded u, OF i(2)]
  have "room (sp_fifo s) \<le> room (sp_fifo t)"
    using st(2,3) c_release unfolding room_def length_held [symmetric] by (simp del: length_held)
  moreover have "held (sp_fifo s) = bs @ held (sp_fifo t)"
    using st(2) append_take_drop_id [of n "held (sp_fifo s)"] unfolding i(3) [symmetric] c_release by simp
  then have "sp_put t = sp_got t @ held (sp_fifo t)"
    using assms(2) unfolding spsc_inv_def c_release by simp
  moreover have "kf_data (sp_fifo t) = kf_data (sp_fifo s)" "kf_in (sp_fifo t) = kf_in (sp_fifo s)"
      "sp_prod t = sp_prod s" "sp_cons t = C_idle" "kfifo_ok (sp_fifo t)"
    using st(1) by (simp_all add: c_release kfifo_get_finish_def)
  ultimately show ?thesis
    using assms(2) by (auto simp: spsc_inv_def)
qed

section \<open>A call alone\<close>

text \<open>Accesses of one call with none of the other thread between them are the call's function.\<close>

lemma ring_place:
  assumes "s < N" "j < N"
  obtains i where "i < N" "(s + i) mod N = (j :: nat)"
proof
  show "(j + N - s) mod N < N"
    using assms by simp
  have "s + (j + N - s) = j + N"
    using assms by simp
  then show "(s + (j + N - s) mod N) mod N = j"
    using assms by (metis mod_add_right_eq mod_add_self2 mod_less)
qed

lemma ring_store_snoc:
  assumes "s < length d" "length bs < length d"
  shows "ring_store d s (bs @ [v]) = (ring_store d s bs)[(s + length bs) mod length d := v]"
proof (intro nth_equalityI)
  fix j assume "j < length (ring_store d s (bs @ [v]))"
  then have "j < length d"
    using assms by simp
  then obtain i where i: "i < length d" "(s + i) mod length d = j"
    by (rule ring_place [OF assms(1)])
  have "(s + i) mod length d \<noteq> (s + length bs) mod length d" if "i \<noteq> length bs"
  proof (cases "i < length bs")
    case True
    moreover have "length bs - i < length d"
      using assms(2) by simp
    ultimately show ?thesis
      by (rule ring_index_inj)
  next
    case False
    with that have "length bs < i" by simp
    moreover have "i - length bs < length d"
      using i by simp
    ultimately show ?thesis
      by (rule ring_index_inj [THEN not_sym])
  qed
  moreover have "(s + length bs) mod length d < length (ring_store d s bs)"
    unfolding length_ring_store [OF assms(1) less_imp_le [OF assms(2)]]
    by (rule mod_less_divisor) (use assms in linarith)
  ultimately show "ring_store d s (bs @ [v]) ! j = (ring_store d s bs)[(s + length bs) mod length d := v] ! j"
    using nth_ring_store [OF assms(1) _ i(1), of "bs @ [v]"] nth_ring_store [OF assms(1) _ i(1), of bs] assms i
    by (cases "i = length bs") (auto simp: nth_append nth_list_update)
qed (use assms in simp)

lemma sp_prod_same [simp]: "sp_prod s = x \<Longrightarrow> s\<lparr>sp_prod := x\<rparr> = s"
  by (cases s) simp

lemma put_call_writes:
  assumes ok: "kfifo_ok (sp_fifo s)" and p: "sp_prod s = P_copy src 0" and k: "k \<le> length src" "length src \<le> room (sp_fifo s)"
  shows "spsc_step\<^sup>*\<^sup>* s (s\<lparr>sp_prod := P_copy src k, sp_fifo := (sp_fifo s)\<lparr>kf_data :=
    ring_store (kf_data (sp_fifo s)) (unat (kf_place (sp_fifo s) (kf_in (sp_fifo s)))) (take k src)\<rparr>\<rparr>)"
  using k(1)
proof (induction k)
  case 0
  then show ?case
    using p by (simp add: ring_store_def)
next
  case (Suc k)
  let ?f = "sp_fifo s"
  let ?h = "unat (kf_place ?f (kf_in ?f))"
  let ?g = "?f\<lparr>kf_data := ring_store (kf_data ?f) ?h (take k src)\<rparr>"
  let ?t = "s\<lparr>sp_prod := P_copy src k, sp_fifo := ?g\<rparr>"
  note d = kfifo_ok_dest [OF ok]
  have kr: "k < room ?f" "k < unat (kf_size ?f)" "?h < length (kf_data ?f)" "length (take k src) < length (kf_data ?f)"
    using Suc.prems k(2) d(1,2,3,5) unfolding room_def by auto
  have "unat (kf_place ?f (kf_in ?f + of_nat k)) = (?h + k) mod length (kf_data ?f)"
    using kf_place_plus [OF ok kr(2)] d(1,5) by (simp add: mod_simps)
  then have "ring_store (kf_data ?f) ?h (take (Suc k) src) = (kf_data ?g)[unat (kf_place ?g (kf_in ?g + of_nat k)) := src ! k]"
    using ring_store_snoc [OF kr(3,4), of "src ! k"] Suc.prems by (simp add: take_Suc_conv_app_nth kf_place_def min_def)
  then have "spsc_step ?t (s\<lparr>sp_prod := P_copy src (Suc k), sp_fifo := ?f\<lparr>kf_data := ring_store (kf_data ?f) ?h (take (Suc k) src)\<rparr>\<rparr>)"
    using spsc_step.p_write [of ?t src k] Suc.prems by simp
  then show ?case
    using Suc by (simp add: rtranclp.rtrancl_into_rtrancl)
qed

lemma kfifo_in_steps:
  assumes ok: "kfifo_ok (sp_fifo s)" and p: "sp_prod s = P_idle" and l: "unat len \<le> length src"
    and i: "kfifo_in (sp_fifo s) src len = (n, g)"
  shows "spsc_step\<^sup>*\<^sup>* s (s\<lparr>sp_fifo := g, sp_put := sp_put s @ take (unat n) src\<rparr>)"
proof -
  let ?f = "sp_fifo s"
  note sp = kfifo_in_spec [OF ok l i]
  have g: "g = ?f\<lparr>kf_data := ring_store (kf_data ?f) (unat (kf_place ?f (kf_in ?f))) (take (unat n) src), kf_in := kf_in ?f + n\<rparr>"
    using i kfifo_in_eq [OF ok l] sp(3) by auto
  have n: "unat n \<le> length src" "unat n \<le> room ?f" "length (take (unat n) src) = unat n"
    using sp(3) l by simp_all
  let ?a = "s\<lparr>sp_prod := P_copy (take (unat n) src) 0\<rparr>"
  let ?b = "?a\<lparr>sp_prod := P_copy (take (unat n) src) (unat n), sp_fifo := ?f\<lparr>kf_data :=
      ring_store (kf_data ?f) (unat (kf_place ?f (kf_in ?f))) (take (unat n) src)\<rparr>\<rparr>"
  have "spsc_step s ?a"
    using p n unat_room [OF ok] by (intro spsc_step.p_load) auto
  moreover have "spsc_step\<^sup>*\<^sup>* ?a ?b"
    using put_call_writes [of ?a "take (unat n) src" "unat n"] ok n by simp
  moreover have "s\<lparr>sp_prod := P_idle, sp_fifo := g, sp_put := sp_put s @ take (unat n) src\<rparr> =
      s\<lparr>sp_fifo := g, sp_put := sp_put s @ take (unat n) src\<rparr>"
    using p by simp
  then have "spsc_step ?b (s\<lparr>sp_fifo := g, sp_put := sp_put s @ take (unat n) src\<rparr>)"
    using spsc_step.p_publish [of ?b "take (unat n) src"] n(3) by (simp add: g kfifo_put_finish_def)
  ultimately show ?thesis
    by (meson converse_rtranclp_into_rtranclp rtranclp.rtrancl_into_rtrancl)
qed

section \<open>Properties\<close>

text \<open>C36: on two threads without a lock, the FIFO loses, repeats and reorders nothing. However the
  loads, octet copies and stores of a putting and a getting thread interleave, what the
  getting calls returned, followed by what the buffer holds, is what the putting calls
  published, a call underway has read the next octets in order, and the buffer never
  holds more than its size.\<close>

theorem fifo_threads_in_order:
  assumes "kfifo_ok f" "held f = []" "spsc_step\<^sup>*\<^sup>* (spsc_start f) s"
  shows "sp_put s = sp_got s @ held (sp_fifo s) \<and> length (held (sp_fifo s)) \<le> unat (kf_size (sp_fifo s)) \<and>
    (\<forall>n bs. sp_cons s = C_copy n bs \<longrightarrow> prefix (sp_got s @ bs) (sp_put s))"
proof -
  have "spsc_inv s"
    using assms(3)
  proof (induction rule: rtranclp_induct)
    case base
    show ?case
      using assms(1,2) by (simp add: spsc_inv_def spsc_start_def)
  next
    case (step t u)
    then show ?case
      by (auto intro: spsc_inv_step)
  qed
  moreover have "prefix bs xs" if "bs = take (length bs) xs" for bs xs :: "octet list"
    using take_is_prefix [of "length bs" xs] unfolding that [symmetric] .
  ultimately show ?thesis
    using kq.fits [of "sp_fifo s"] by (auto simp: spsc_inv_def)
qed

theorem fifo_threads_in_order_witness:
  "\<exists>s. spsc_step\<^sup>*\<^sup>* (spsc_start \<lparr>kf_data = [0, 0], kf_size = 2, kf_in = 0, kf_out = 0\<rparr>) s \<and>
     sp_cons s = C_copy 1 [7] \<and> prefix [7] (sp_put s)"
proof -
  let ?f = "\<lparr>kf_data = [0, 0], kf_size = 2, kf_in = 0, kf_out = 0\<rparr>"
  let ?s0 = "spsc_start ?f"
  let ?s1 = "?s0\<lparr>sp_prod := P_copy [7] 0\<rparr>"
  let ?s2 = "?s1\<lparr>sp_prod := P_copy [7] 1, sp_fifo := ?f\<lparr>kf_data := [7, 0]\<rparr>\<rparr>"
  let ?s3 = "?s2\<lparr>sp_prod := P_idle, sp_fifo := ?f\<lparr>kf_data := [7, 0], kf_in := 1\<rparr>, sp_put := [7]\<rparr>"
  let ?s4 = "?s3\<lparr>sp_cons := C_copy 1 []\<rparr>"
  let ?s5 = "?s3\<lparr>sp_cons := C_copy 1 [7]\<rparr>"
  have "spsc_step ?s0 ?s1"
    using spsc_step.p_load [of ?s0 1 "[7]"] by (simp add: spsc_start_def)
  moreover have "spsc_step ?s1 ?s2"
    using spsc_step.p_write [of ?s1 "[7]" 0] by (simp add: spsc_start_def kf_place_def)
  moreover have "spsc_step ?s2 ?s3"
    using spsc_step.p_publish [of ?s2 "[7]"] by (simp add: spsc_start_def kfifo_put_finish_def)
  moreover have "spsc_step ?s3 ?s4"
    using spsc_step.c_load [of ?s3 1] by (simp add: spsc_start_def)
  moreover have "spsc_step ?s4 ?s5"
    using spsc_step.c_read [of ?s4 1 "[]"] by (simp add: spsc_start_def kf_place_def)
  ultimately have r: "spsc_step\<^sup>*\<^sup>* ?s0 ?s5"
    by (meson converse_rtranclp_into_rtranclp r_into_rtranclp)
  have "2 = (2 :: nat) ^ 1"
    by simp
  then have "kfifo_ok ?f" "held ?f = []"
    by (auto simp: kfifo_ok_def kfifo_len_def held_def intro: exI [of _ 1])
  from fifo_threads_in_order [OF this r] have "prefix [7] (sp_put ?s5)"
    by (simp add: spsc_start_def)
  then show ?thesis
    using r by (intro exI [of _ ?s5]) simp
qed

end
