(* ===== verification/Ludlc_Serial.thy ===== *)
theory Ludlc_Serial
  imports Ludlc_Framings Ludlc_Kfifo Ludlc_Transmit
begin

text \<open>
  The serial transport of the POSIX port (\<open>src/src/lib/platform/posix/ludlc_posix_serial.c\<close>
  with the wakeups of \<open>ludlc_posix_platform.c\<close>): what its two threads do with the octets and
  the connection, and how a link is set up and torn down. A system call is what it returned,
  given to the step that makes it; the terminal settings are left to the system. The core's
  requests to transmit set the flag the TX thread looks at. Loops that run as long as the
  system or a framing lets them are partial functions.
\<close>

section \<open>State\<close>

abbreviation (input) TX_THREAD_OK :: uint32 where "TX_THREAD_OK \<equiv> 1"
abbreviation (input) RX_THREAD_OK :: uint32 where "RX_THREAD_OK \<equiv> 2"
abbreviation (input) LUDLC_CONN_FORCE_TX_F :: nat where "LUDLC_CONN_FORCE_TX_F \<equiv> 0"
abbreviation (input) UINT_MAX :: uint32 where "UINT_MAX \<equiv> - 1"
abbreviation (input) LUDLC_TX_FIFO_SIZE :: nat where "LUDLC_TX_FIFO_SIZE \<equiv> 64"

record 'r ludlc_serial_connection =
  s_flags :: uint32
  s_open :: bool
  s_fifo :: kfifo
  s_conn :: ludlc_connection
  tx_events :: uint32
  s_fs :: "'r framing_state"
  s_ticks :: nat

text \<open>
  \<open>s_open\<close> tells whether the descriptor of the UART is open, and \<open>s_ticks\<close> counts the
  readings of the link's clock.
\<close>

section \<open>The terminal\<close>

text \<open>
  The rates a case exists for, in hundreds of baud, and the ones of them a platform may
  lack. A speed is named by its rate.
\<close>

definition baud_cases :: "nat list" where
  "baud_cases = [0, 3, 6, 12, 24, 48, 96, 192, 384]"

definition baud_optional :: "nat list" where
  "baud_optional = [576, 1152, 2304, 4608, 5000, 5760, 9216, 10000, 11520, 15000, 20000, 25000, 30000, 35000, 40000]"

definition baud2speed :: "nat list \<Rightarrow> nat \<Rightarrow> nat option" where
  "baud2speed present baud =
     (let h = baud div 100 in
      if h \<in> set baud_cases then
        Some (if h \<in> {192, 384} \<and> h \<notin> set present then 9600 else 100 * h)
      else if h \<in> set baud_optional \<and> h \<in> set present then Some (100 * h) else None)"

text \<open>What reading the terminal settings and writing them back returned, an \<open>errno\<close> or success.\<close>

definition set_interface_attribs :: "nat list \<Rightarrow> int \<Rightarrow> int \<Rightarrow> nat \<Rightarrow> int" where
  "set_interface_attribs present get_errno set_errno baud =
     (if get_errno \<noteq> 0 then - get_errno
      else if baud2speed present baud = None then - EINVAL
      else if set_errno \<noteq> 0 then - set_errno else 0)"

section \<open>Reading\<close>

datatype poll_result = Poll_error int | Poll_timeout | Poll_ready (poll_pipe: bool) (poll_uart: bool)

text \<open>A read returned octets or an \<open>errno\<close>.\<close>

type_synonym read_result = "int + octet list"

definition ludlc_serial_read :: "poll_result \<Rightarrow> read_result \<Rightarrow> int \<times> octet list" where
  "ludlc_serial_read p r =
     (case p of
        Poll_error e \<Rightarrow> (- e, [])
      | Poll_timeout \<Rightarrow> (- EAGAIN, [])
      | Poll_ready pipe uart \<Rightarrow>
          if uart then case r of Inl e \<Rightarrow> (- e, []) | Inr bs \<Rightarrow> (int (length bs), bs)
          else (- int (unat EPIPE), []))"

section \<open>Wakeups\<close>

definition ludlc_platform_request_tx :: "'r ludlc_serial_connection \<Rightarrow> 'r ludlc_serial_connection" where
  "ludlc_platform_request_tx s =
     s\<lparr>tx_events := ludlc_platform_set_bit LUDLC_CONN_FORCE_TX_F (tx_events s)\<rparr>"

text \<open>The core's operations ask for a transmission through their effects.\<close>

definition with_requests :: "ludlc_event list \<Rightarrow> 'r ludlc_serial_connection \<Rightarrow> 'r ludlc_serial_connection" where
  "with_requests evs s = (if RequestTx \<in> set evs then ludlc_platform_request_tx s else s)"

section \<open>The receiving thread\<close>

text \<open>
  A completed packet is handed to the core with the time it was completed at, or dropped
  when the clock fails, and the decoder gets its buffer back. \<open>tick\<close> is the link's clock:
  what its readings return, in order.
\<close>

definition rx_complete ::
    "config \<Rightarrow> ('c::len) csum_alg \<Rightarrow> (nat \<Rightarrow> nat option) \<Rightarrow> ludlc_frame_size_t \<Rightarrow>
     'c word ludlc_serial_connection \<Rightarrow> ('c word ludlc_serial_connection \<times> ludlc_event list) option" where
  "rx_complete cf alg tick cap s =
     do {
       (s, evs) \<leftarrow>
         (case tick (s_ticks s) of
            Some ts \<Rightarrow> do {
              (conn, evs) \<leftarrow> ludlc_receive cf (s_conn s) (dec_buffer (s_fs s)) (unat (ludlc_dec_size (s_fs s))) ts;
              Some (with_requests evs (s\<lparr>s_conn := conn\<rparr>), evs)
            }
          | None \<Rightarrow> Some (s, []));
       Some (s\<lparr>s_ticks := s_ticks s + 1, s_fs := ludlc_dec_prep (s_fs s) alg (dec_buffer (s_fs s)) cap\<rparr>, evs)
     }"

partial_function (option) rx_feed ::
    "config \<Rightarrow> framing_config \<Rightarrow> ('c::len) csum_alg \<Rightarrow> (nat \<Rightarrow> nat option) \<Rightarrow> ludlc_frame_size_t \<Rightarrow>
     octet list \<Rightarrow> 'c word ludlc_serial_connection \<Rightarrow> ('c word ludlc_serial_connection \<times> ludlc_event list) option" where
  "rx_feed cf fcf alg tick cap buf s =
     (if buf = [] then Some (s, [])
      else
        let r = ludlc_dec_feed fcf alg (s_fs s, conn_stats (s_conn s)) buf;
            s = s\<lparr>s_fs := fst (fst r), s_conn := (s_conn s)\<lparr>conn_stats := snd (fst r)\<rparr>\<rparr>
        in if \<not> snd (snd r) then rx_feed cf fcf alg tick cap (drop (fst (snd r)) buf) s
           else do {
             (s, evs) \<leftarrow> rx_complete cf alg tick cap s;
             (s, evs') \<leftarrow> rx_feed cf fcf alg tick cap (drop (fst (snd r)) buf) s;
             Some (s, evs @ evs')
           })"

declare rx_feed.simps [code]

text \<open>The decoder as the thread starts it, and starts it again after a break in the line.\<close>

definition rx_restart ::
    "('c::len) csum_alg \<Rightarrow> octet list \<Rightarrow> ludlc_frame_size_t \<Rightarrow>
     'c word ludlc_serial_connection \<Rightarrow> 'c word ludlc_serial_connection" where
  "rx_restart alg buf cap s = s\<lparr>s_fs := ludlc_dec_prep (ludlc_dec_init (s_fs s)) alg buf cap\<rparr>"

text \<open>One pass of the thread's loop, entered while the connection is not terminated.\<close>

definition rx_pass ::
    "config \<Rightarrow> framing_config \<Rightarrow> ('c::len) csum_alg \<Rightarrow> (nat \<Rightarrow> nat option) \<Rightarrow> ludlc_frame_size_t \<Rightarrow>
     poll_result \<Rightarrow> read_result \<Rightarrow>
     'c word ludlc_serial_connection \<Rightarrow> ('c word ludlc_serial_connection \<times> ludlc_event list) option" where
  "rx_pass cf fcf alg tick cap p r s =
     (let (ret, bs) = ludlc_serial_read p r in
      if ret < 0 then
        if ret \<noteq> - EAGAIN then do {
          (conn, evs) \<leftarrow> ludlc_handle_disconnect cf (s_conn s);
          Some (rx_restart alg (dec_buffer (s_fs s)) cap (with_requests evs (s\<lparr>s_conn := conn\<rparr>)), evs)
        }
        else Some (s, [])
      else rx_feed cf fcf alg tick cap bs s)"

section \<open>The transmitting thread\<close>

text \<open>What a write of so many octets returned.\<close>

datatype write_result = Written nat | Write_again | Write_error int

definition send_tx_fifo ::
    "(nat \<Rightarrow> write_result) \<Rightarrow> 'r ludlc_serial_connection \<Rightarrow> int \<times> octet list \<times> 'r ludlc_serial_connection" where
  "send_tx_fifo wr s =
     (let (off, len) = kfifo_get_claim (s_fifo s) UINT_MAX in
      if len = 0 then (0, [], s)
      else
        case wr (unat len) of
          Written n \<Rightarrow> (int n, take n (drop (unat off) (kf_data (s_fifo s))),
            if 0 < n then s\<lparr>s_fifo := kfifo_get_finish (s_fifo s) (of_nat n)\<rparr> else s)
        | Write_again \<Rightarrow> (0, [], s)
        | Write_error e \<Rightarrow> (- e, [], s))"

definition ludlc_posix_enc_load ::
    "config \<Rightarrow> 'r ludlc_serial_connection \<Rightarrow> ('r ludlc_serial_connection \<times> ludlc_event list) option" where
  "ludlc_posix_enc_load cf s =
     (if ludlc_enc_busy (s_fs s) then Some (s, [])
      else
        let (forced, evw) = ludlc_platform_test_and_clear_bit LUDLC_CONN_FORCE_TX_F (tx_events s);
            s = s\<lparr>tx_events := evw\<rparr>
        in if \<not> forced then Some (s, [])
           else do {
             (pending, fr, conn, evs) \<leftarrow> ludlc_get_packet_to_send cf (s_conn s) True;
             let s = with_requests evs (s\<lparr>s_conn := conn\<rparr>);
             case fr of
               Some fr \<Rightarrow>
                 if 0 \<le> pending then
                   let s = s\<lparr>s_fs := ludlc_enc_prep (s_fs s) (Some (hdr_octets (frame_hdr fr))) (of_nat (frame_hdr_sz fr))
                               (frame_payload fr) (frame_pay_sz fr) (pending \<noteq> 0)\<rparr>
                   in Some (if pending = 0 then ludlc_platform_request_tx s else s, evs)
                 else Some (s, evs)
             | None \<Rightarrow> Some (s, evs)
           })"

partial_function (option) tx_fill ::
    "framing_config \<Rightarrow> ('c::len) csum_alg \<Rightarrow> 'c word ludlc_serial_connection \<Rightarrow> 'c word ludlc_serial_connection option" where
  "tx_fill fcf alg s =
     (if \<not> ludlc_enc_busy (s_fs s) then Some s
      else
        let (off, room) = kfifo_put_claim (s_fifo s) UINT_MAX in
        if room = 0 then Some s
        else do {
          (fs, bs) \<leftarrow> ludlc_enc_fill fcf alg (s_fs s) (unat room);
          let s = s\<lparr>s_fs := fs, s_fifo := kfifo_put_finish
                     ((s_fifo s)\<lparr>kf_data := memcpy_at (kf_data (s_fifo s)) (unat off) bs\<rparr>) (of_nat (length bs))\<rparr>;
          let s = (if \<not> ludlc_enc_busy fs
                   then s\<lparr>s_conn := (s_conn s)\<lparr>conn_stats := (conn_stats (s_conn s))
                            \<lparr>tx_packet := tx_packet (conn_stats (s_conn s)) + 1\<rparr>\<rparr>\<rparr>
                   else s);
          tx_fill fcf alg s
        })"

declare tx_fill.simps [code]

text \<open>What the thread keeps between passes: whether it may sleep and what it polls the UART for.\<close>

record tx_thread =
  can_sleep :: bool
  poll_out :: bool

definition forced_tx :: "'r ludlc_serial_connection \<Rightarrow> bool" where
  "forced_tx s = ludlc_platform_test_bit LUDLC_CONN_FORCE_TX_F (tx_events s)"

definition tx_sleeps :: "tx_thread \<Rightarrow> 'r ludlc_serial_connection \<Rightarrow> bool" where
  "tx_sleeps th s \<longleftrightarrow> can_sleep th \<and> \<not> forced_tx s \<and> \<not> ludlc_enc_busy (s_fs s) \<and> kfifo_is_empty (s_fifo s)"

text \<open>The end of a pass that failed to write, in its two places.\<close>

definition tx_drop :: "'r ludlc_serial_connection \<Rightarrow> 'r ludlc_serial_connection" where
  "tx_drop s = s\<lparr>s_fs := ludlc_enc_init (s_fs s), s_conn := inc_dropped (s_conn s)\<rparr>"

text \<open>What poll answered while the thread slept, and what the UART then took.\<close>

datatype tx_poll = Tx_interrupted | Tx_poll_failed | Tx_ready bool

datatype tx_next = Tx_exit | Tx_again | Tx_send

text \<open>
  The first part of a pass: sleeping. It says whether the thread ends, starts over, or goes
  on to send, with the octets written on the way.
\<close>

definition tx_wait ::
    "config \<Rightarrow> tx_poll \<Rightarrow> (nat \<Rightarrow> write_result) \<Rightarrow> tx_thread \<Rightarrow> 'r ludlc_serial_connection \<Rightarrow>
     (tx_next \<times> octet list \<times> tx_thread \<times> 'r ludlc_serial_connection \<times> ludlc_event list) option" where
  "tx_wait cf p wr th s =
     (if \<not> tx_sleeps th s then Some (Tx_send, [], th, s, [])
      else case p of
        Tx_interrupted \<Rightarrow> Some (Tx_again, [], th, s, [])
      | Tx_poll_failed \<Rightarrow> Some (Tx_exit, [], th, s, [])
      | Tx_ready out \<Rightarrow>
          if conn_state (s_conn s) = LUDLC_STATE_TERMINATE then Some (Tx_exit, [], th, s, [])
          else do {
            (bs, th, s, evs) \<leftarrow>
              (if out then
                 let (ret, bs, s) = send_tx_fifo wr s in
                 if ret < 0 then do {
                   (conn, evs) \<leftarrow> ludlc_handle_disconnect cf (s_conn (tx_drop s));
                   Some (bs, th, with_requests evs ((tx_drop s)\<lparr>s_conn := conn\<rparr>), evs)
                 }
                 else Some (bs, th\<lparr>poll_out := \<not> kfifo_is_empty (s_fifo s)\<rparr>, s, [])
               else Some ([], th, s, []));
            if kfifo_is_full (s_fifo s) then Some (Tx_again, bs, th\<lparr>poll_out := True\<rparr>, s, evs)
            else Some (Tx_send, bs, th, s, evs)
          })"

text \<open>The second part: load, encode into the FIFO, write.\<close>

definition tx_work ::
    "config \<Rightarrow> framing_config \<Rightarrow> ('c::len) csum_alg \<Rightarrow> (nat \<Rightarrow> write_result) \<Rightarrow> tx_thread \<Rightarrow>
     'c word ludlc_serial_connection \<Rightarrow>
     (octet list \<times> tx_thread \<times> 'c word ludlc_serial_connection \<times> ludlc_event list) option" where
  "tx_work cf fcf alg wr th s =
     do {
       (s, evs) \<leftarrow> ludlc_posix_enc_load cf s;
       s \<leftarrow> tx_fill fcf alg s;
       let th = th\<lparr>can_sleep := kfifo_is_full (s_fifo s) \<and> ludlc_enc_busy (s_fs s) \<or>
                   \<not> ludlc_enc_busy (s_fs s) \<and> kfifo_is_empty (s_fifo s) \<and> \<not> forced_tx s\<rparr>;
       let (ret, bs, s) = send_tx_fifo wr s;
       Some (if ret < 0 then (bs, th\<lparr>can_sleep := True\<rparr>, tx_drop s, evs)
             else if \<not> kfifo_is_empty (s_fifo s) then (bs, th\<lparr>poll_out := True, can_sleep := True\<rparr>, s, evs)
             else (bs, th\<lparr>poll_out := False\<rparr>, s, evs))
     }"

text \<open>A pass of the thread's loop, and whether another follows.\<close>

definition tx_pass ::
    "config \<Rightarrow> framing_config \<Rightarrow> ('c::len) csum_alg \<Rightarrow> tx_poll \<Rightarrow> (nat \<Rightarrow> write_result) \<Rightarrow> (nat \<Rightarrow> write_result) \<Rightarrow>
     tx_thread \<Rightarrow> 'c word ludlc_serial_connection \<Rightarrow>
     (bool \<times> octet list \<times> tx_thread \<times> 'c word ludlc_serial_connection \<times> ludlc_event list) option" where
  "tx_pass cf fcf alg p wr wr' th s =
     (if conn_state (s_conn s) = LUDLC_STATE_TERMINATE then Some (False, [], th, s, [])
      else do {
        (next, bs, th, s, evs) \<leftarrow> tx_wait cf p wr th s;
        (case next of
           Tx_exit \<Rightarrow> Some (False, bs, th, s, evs)
         | Tx_again \<Rightarrow> Some (True, bs, th, s, evs)
         | Tx_send \<Rightarrow> do {
             (bs', th, s, evs') \<leftarrow> tx_work cf fcf alg wr' th s;
             Some (True, bs @ bs', th, s, evs @ evs')
           })
      })"

text \<open>The thread as it starts: asleep unless there is something to do, with the encoder set up.\<close>

definition tx_thread_start :: "'r ludlc_serial_connection \<Rightarrow> tx_thread \<times> 'r ludlc_serial_connection" where
  "tx_thread_start s = (\<lparr>can_sleep = True, poll_out = False\<rparr>, s\<lparr>s_fs := ludlc_enc_init (s_fs s)\<rparr>)"

section \<open>Setting a link up and tearing it down\<close>

text \<open>What a link takes from the system, and the calls that take it and give it back.\<close>

datatype resource = Conn_memory | Framing_object | Uart | Rx_thread | Tx_thread
datatype life_call = Take resource | Give resource

text \<open>
  \<open>meanwhile\<close> is what the threads of the link do to it while the caller waits for the
  DISCONNECT to go out, and \<open>has_fs\<close> tells whether there is a framing object to give back.
\<close>

definition ludlc_serial_connection_destroy ::
    "config \<Rightarrow> ('r ludlc_serial_connection \<Rightarrow> 'r ludlc_serial_connection) \<Rightarrow> bool \<Rightarrow> 'r ludlc_serial_connection \<Rightarrow>
     ('r ludlc_serial_connection \<times> life_call list \<times> ludlc_event list) option" where
  "ludlc_serial_connection_destroy cf meanwhile has_fs s =
     do {
       (s, evs) \<leftarrow>
         (if has_flag LUDLC_CONN_INITED_F (s_conn s) then do {
            (ret, conn, evs) \<leftarrow> ludlc_send_disconnect cf (s_conn s);
            let s = with_requests evs (s\<lparr>s_conn := conn\<rparr>);
            Some (if ret = 0 then meanwhile s else s, evs)
          }
          else Some (s, []));
       let s = s\<lparr>s_conn := (s_conn s)\<lparr>conn_state := LUDLC_STATE_TERMINATE\<rparr>\<rparr>;
       let joins = (if s_flags s AND TX_THREAD_OK \<noteq> 0 then [Give Tx_thread] else []) @
                   (if s_flags s AND RX_THREAD_OK \<noteq> 0 then [Give Rx_thread] else []);
       let s = s\<lparr>s_flags := 0\<rparr>;
       (s, closes, evs') \<leftarrow>
         (if s_open s then do {
            (conn, evs') \<leftarrow> ludlc_connection_cleanup cf (s_conn s);
            Some (s\<lparr>s_conn := conn, s_open := False\<rparr>, [Give Uart], evs')
          }
          else Some (s, [], []));
       Some (s, joins @ closes @ (if has_fs then [Give Framing_object] else []) @ [Give Conn_memory], evs @ evs')
     }"

text \<open>
  What the caller asks for. A descriptor of a checksum may come without its function, which
  \<open>arg_csum_fn\<close> tells.
\<close>

record 'r serial_args =
  arg_baudrate :: nat
  arg_csum :: "'r ludlc_csum option"
  arg_csum_fn :: bool
  arg_framing :: "ludlc_framing option"
  arg_cfg :: ludlc_conn_cfg

text \<open>What the system answers on the way: zero, or an \<open>errno\<close>.\<close>

record serial_env =
  env_memory_ok :: bool
  env_framing_ok :: bool
  env_open :: int
  env_platform :: platform_env
  env_speeds :: "nat list"
  env_tcget :: int
  env_tcset :: int
  env_rx_thread :: int
  env_tx_thread :: int

definition args_refused :: "('c::len) word serial_args \<Rightarrow> bool" where
  "args_refused a \<longleftrightarrow>
     (case arg_csum a of None \<Rightarrow> False
      | Some c \<Rightarrow> \<not> arg_csum_fn a \<or> csum_octets c = 0 \<or> unat (csum_octets c) > LENGTH('c) div 8) \<or>
     (case arg_framing a of None \<Rightarrow> False | Some f \<Rightarrow> needs_wire_len f)"

text \<open>A link just allocated, with its FIFO set up.\<close>

definition serial_zero :: "config \<Rightarrow> framings_built \<Rightarrow> ludlc_framing option \<Rightarrow> ('c::len) word ludlc_serial_connection" where
  "serial_zero cf b f =
     \<lparr>s_flags = 0, s_open = False,
      s_fifo = \<lparr>kf_data = [], kf_size = 0, kf_in = 0, kf_out = 0\<rparr>,
      s_conn = conn_zero cf, tx_events = 0, s_fs = ludlc_framing_create b f, s_ticks = 0\<rparr>"

text \<open>
  The steps after the memory and the framing object are there, up to the first that fails:
  the result, the link as it is then, and what was taken.
\<close>

definition serial_open ::
    "config \<Rightarrow> serial_env \<Rightarrow> ('c::len) word serial_args \<Rightarrow> ludlc_conn_cb option \<Rightarrow> 'c word ludlc_serial_connection \<Rightarrow>
     (int \<times> 'c word ludlc_serial_connection \<times> life_call list \<times> ludlc_event list) option" where
  "serial_open cf env a cb s =
     (if env_open env \<noteq> 0 then Some (- env_open env, s, [], [])
      else
        let s = s\<lparr>s_open := True, s_fifo := kfifo_init (s_fifo s) (replicate LUDLC_TX_FIFO_SIZE 0) (of_nat LUDLC_TX_FIFO_SIZE)\<rparr>;
            (ret, conn) = ludlc_connection_init cf (env_platform env) (Some (arg_cfg a)) cb;
            s = s\<lparr>s_conn := conn\<rparr>
        in if ret \<noteq> 0 then Some (ret, s, [Take Uart], [])
        else
          let ret = set_interface_attribs (env_speeds env) (env_tcget env) (env_tcset env) (arg_baudrate a)
          in if ret \<noteq> 0 then Some (ret, s, [Take Uart], [])
          else if env_rx_thread env \<noteq> 0 then Some (- env_rx_thread env, s, [Take Uart], [])
          else
            let s = s\<lparr>s_flags := s_flags s OR RX_THREAD_OK\<rparr>
            in if env_tx_thread env \<noteq> 0 then Some (- env_tx_thread env, s, [Take Uart, Take Rx_thread], [])
            else do {
              let s = s\<lparr>s_flags := s_flags s OR TX_THREAD_OK\<rparr>;
              (ret, conn, evs) \<leftarrow> ludlc_connect cf (s_conn s);
              Some (ret, with_requests evs (s\<lparr>s_conn := conn\<rparr>), [Take Uart, Take Rx_thread, Take Tx_thread], evs)
            })"

definition ludlc_serial_connection_create ::
    "config \<Rightarrow> framings_built \<Rightarrow> serial_env \<Rightarrow> ('c::len) word serial_args \<Rightarrow> ludlc_conn_cb option \<Rightarrow>
     (int \<times> 'c word ludlc_serial_connection option \<times> life_call list \<times> ludlc_event list) option" where
  "ludlc_serial_connection_create cf b env a cb =
     (if args_refused a then Some (- EINVAL, None, [], [])
      else if \<not> env_memory_ok env then Some (- ENOMEM, None, [], [])
      else do {
        let s = serial_zero cf b (arg_framing a);
        (ret, s, taken, evs) \<leftarrow>
          (if \<not> env_framing_ok env then Some (- ENOMEM, s, [], [])
           else do {
             (ret, s, taken, evs) \<leftarrow> serial_open cf env a cb s;
             Some (ret, s, Take Framing_object # taken, evs)
           });
        if ret = 0 then Some (0, Some s, Take Conn_memory # taken, evs)
        else do {
          (s, given, evs') \<leftarrow> ludlc_serial_connection_destroy cf id (env_framing_ok env) s;
          Some (ret, None, Take Conn_memory # taken @ given, evs @ evs')
        }
      })"

end
