(* ===== verification/Ludlc_Serial_Tx.thy ===== *)
theory Ludlc_Serial_Tx
  imports Ludlc_Serial Ludlc_Peers
begin

text \<open>
  What the transmitting thread of the serial transport puts on the line: the frames the core
  hands out, encoded, in order and without a gap, in whatever pieces the FIFO and the UART
  take them.
\<close>

section \<open>The encoder behind the wrappers\<close>

definition fs_rest :: "framing_config \<Rightarrow> ('c::len) csum_alg \<Rightarrow> 'c word framing_state \<Rightarrow> octet list" where
  "fs_rest fcf alg fs =
     (case fs of Hdlc_fs s \<Rightarrow> hdlc_rest fcf alg s | Cobs_fs s \<Rightarrow> cobs_rest fcf alg s | Raw_fs s \<Rightarrow> raw_rest alg s)"

definition fs_ok :: "framing_config \<Rightarrow> ('c::len) csum_alg \<Rightarrow> 'c word framing_state \<Rightarrow> bool" where
  "fs_ok fcf alg fs \<longleftrightarrow>
     (case fs of Hdlc_fs s \<Rightarrow> hdlc_enc_ok alg s | Cobs_fs s \<Rightarrow> cobs_enc_ok fcf alg s | Raw_fs s \<Rightarrow> raw_enc_ok alg s)"

text \<open>A frame on the wire; only the escaping leaves its closing octet out when asked.\<close>

definition fs_wire :: "framing_config \<Rightarrow> ('c::len) csum_alg \<Rightarrow> ludlc_framing \<Rightarrow> octet list \<times> bool \<Rightarrow> octet list" where
  "fs_wire fcf alg f = (\<lambda>(pkt, eof).
     case f of Hdlc \<Rightarrow> hdlc_wire fcf alg eof pkt | Cobs \<Rightarrow> cobs_wire fcf alg pkt | Raw \<Rightarrow> frame_of alg pkt)"

lemma enc_fill_some: "fs_ok fcf alg fs \<Longrightarrow> ludlc_enc_fill fcf alg fs n = Some (any_fill fcf alg fs n)"
  by (cases fs) (simp_all add: any_fill_def ludlc_enc_fill_def fs_ok_def cobs_fill_spec(1))

interpretation wrapped: encoder "any_fill fcf alg" ludlc_enc_busy "fs_rest fcf alg" "fs_ok fcf alg" for fcf alg
proof
  fix s :: "'a word framing_state" and n
  assume ok: "fs_ok fcf alg s"
  show "snd (any_fill fcf alg s n) = take n (fs_rest fcf alg s)"
      "fs_rest fcf alg (fst (any_fill fcf alg s n)) = drop n (fs_rest fcf alg s)"
      "fs_ok fcf alg (fst (any_fill fcf alg s n))"
    using ok by (cases s; simp add: any_fill_def ludlc_enc_fill_def fs_ok_def fs_rest_def cobs_fill_spec
        hdlc.fill_out hdlc.fill_rest hdlc.fill_ok raw.fill_out raw.fill_rest raw.fill_ok)+
  show "\<not> ludlc_enc_busy (fst (any_fill fcf alg s n))" if "length (fs_rest fcf alg s) < n"
    using ok that by (cases s; simp add: any_fill_def ludlc_enc_fill_def fs_ok_def fs_rest_def cobs_fill_spec ludlc_enc_busy_def
        hdlc.fill_ends raw.fill_ends)
next
  fix s :: "'a word framing_state" and n
  assume "\<not> ludlc_enc_busy s"
  then show "any_fill fcf alg s n = (s, [])"
    by (cases s; simp add: any_fill_def ludlc_enc_fill_def ludlc_enc_busy_def hdlc.fill_idle raw.fill_idle)
       (simp add: cobs_fill_idle)
qed

lemma prep_wire:
  assumes "csum_ok alg" "fs_ok fcf alg fs" "\<not> ludlc_enc_busy fs" "hsz \<noteq> 0" "has_octets hdr hsz" "has_octets pay psz"
  shows "fs_ok fcf alg (ludlc_enc_prep fs hdr hsz pay psz eof)"
    "fs_rest fcf alg (ludlc_enc_prep fs hdr hsz pay psz eof) =
       fs_wire fcf alg (LUDLC_FS_FRAMING fs) (segment hdr hsz @ segment pay psz, eof)"
  using assms
  by (cases fs;
      simp add: fs_ok_def fs_rest_def fs_wire_def ludlc_enc_prep_def ludlc_enc_busy_def LUDLC_FS_FRAMING_def
        hdlc_enc_ok_def henc_ok_def hdlc_rest_def henc_rest_def ludlc_hdlc_enc_prep_def ludlc_hdlc_enc_busy_def flag_simps
        cobs_enc_ok_def cobs_rest_def ludlc_cobs_enc_prep_def ludlc_cobs_enc_busy_def cobs_busy_def cobs_wire_def cobs_flag_def Let_def
        raw_enc_ok_def raw_rest_def ludlc_raw_enc_prep_def ludlc_raw_enc_busy_def)+

lemma init_ok: "csum_ok alg \<Longrightarrow> fs_ok fcf alg (ludlc_enc_init fs)" "\<not> ludlc_enc_busy (ludlc_enc_init fs)"
  by (cases fs; simp add: fs_ok_def ludlc_enc_init_def hdlc_enc_ok_def henc_ok_def ludlc_hdlc_enc_init_def has_octets_def
        cobs_enc_ok_def ludlc_cobs_enc_init_def cobs_flag_def flag_simps CENC_FLAGS_MASK_def bit_simps
        raw_enc_ok_def ludlc_raw_enc_init_def ludlc_enc_busy_def ludlc_hdlc_enc_busy_def ludlc_cobs_enc_busy_def cobs_busy_def
        ludlc_raw_enc_busy_def Let_def)+

lemma framing_fixed [simp]:
  "LUDLC_FS_FRAMING (ludlc_enc_init fs) = LUDLC_FS_FRAMING fs"
  "LUDLC_FS_FRAMING (ludlc_enc_prep fs hdr hsz pay psz eof) = LUDLC_FS_FRAMING fs"
  "fs_ok fcf alg fs \<Longrightarrow> LUDLC_FS_FRAMING (fst (any_fill fcf alg fs n)) = LUDLC_FS_FRAMING fs"
  by (cases fs; simp add: LUDLC_FS_FRAMING_def ludlc_enc_init_def ludlc_enc_prep_def any_fill_def ludlc_enc_fill_def fs_ok_def
      cobs_fill_spec(1) split: prod.split)+

section \<open>Encoding into the FIFO\<close>

definition tx_ok :: "framing_config \<Rightarrow> ('c::len) csum_alg \<Rightarrow> 'c word ludlc_serial_connection \<Rightarrow> bool" where
  "tx_ok fcf alg s \<longleftrightarrow> csum_ok alg \<and> kfifo_ok (s_fifo s) \<and> fs_ok fcf alg (s_fs s)"

text \<open>What is still to go out: what the FIFO holds and what the encoder has yet to write.\<close>

definition tx_pending :: "framing_config \<Rightarrow> ('c::len) csum_alg \<Rightarrow> 'c word ludlc_serial_connection \<Rightarrow> octet list" where
  "tx_pending fcf alg s = held (s_fifo s) @ fs_rest fcf alg (s_fs s)"

text \<open>A step of the thread that leaves the connection, its statistics apart, and the requests alone.\<close>

definition tx_same :: "'c word ludlc_serial_connection \<Rightarrow> ('c::len) word ludlc_serial_connection \<Rightarrow> bool" where
  "tx_same s t \<longleftrightarrow> (\<exists>st. s_conn t = (s_conn s)\<lparr>conn_stats := st\<rparr>) \<and> tx_events t = tx_events s \<and>
     LUDLC_FS_FRAMING (s_fs t) = LUDLC_FS_FRAMING (s_fs s) \<and> kf_size (s_fifo t) = kf_size (s_fifo s)"

lemma same_but_stats: "\<exists>st. c = (c :: ludlc_connection)\<lparr>conn_stats := st\<rparr>"
  by (rule exI [of _ "conn_stats c"]) simp

lemma tx_same_refl [simp]: "tx_same s s"
  by (simp add: tx_same_def same_but_stats)

lemma tx_same_trans: "tx_same s t \<Longrightarrow> tx_same t u \<Longrightarrow> tx_same s u"
  by (auto simp: tx_same_def)

lemma tx_fill_spec:
  assumes "tx_ok fcf alg s"
  shows "\<exists>t. tx_fill fcf alg s = Some t \<and> tx_ok fcf alg t \<and> tx_pending fcf alg t = tx_pending fcf alg s \<and>
    tx_same s t \<and> (ludlc_enc_busy (s_fs t) \<longrightarrow> room (s_fifo t) = 0) \<and>
    length (held (s_fifo s)) \<le> length (held (s_fifo t))"
  using assms
proof (induction "room (s_fifo s)" arbitrary: s rule: less_induct)
  case less
  note ok = less.prems [unfolded tx_ok_def]
  show ?case
  proof (cases "ludlc_enc_busy (s_fs s)")
    case False
    then show ?thesis
      using less.prems by (simp add: tx_fill.simps [of fcf alg s])
  next
    case True
    obtain off m where c: "kfifo_put_claim (s_fifo s) UINT_MAX = (off, m)"
      by (cases "kfifo_put_claim (s_fifo s) UINT_MAX")
    have k: "kfifo_ok (s_fifo s)"
      using ok by simp
    note p = put_claim_spec [OF k c]
    show ?thesis
    proof (cases "m = 0")
      case m: True
      then show ?thesis
        using True less.prems c p(3) by (simp add: tx_fill.simps [of fcf alg s])
    next
      case m: False
      obtain fs' bs where f: "any_fill fcf alg (s_fs s) (unat m) = (fs', bs)"
        by (cases "any_fill fcf alg (s_fs s) (unat m)")
      have fo: "fs_ok fcf alg (s_fs s)"
        using ok by simp
      note w = wrapped.fill_out [OF fo, of "unat m", unfolded f] wrapped.fill_rest [OF fo, of "unat m", unfolded f]
        wrapped.fill_ok [OF fo, of "unat m", unfolded f] wrapped.fill_ends [OF fo, of "unat m", unfolded f]
        framing_fixed(3) [OF fo, of "unat m", unfolded f]
      have l: "length bs \<le> unat m"
        using w(1) by simp
      note q = put_finish_spec [OF k c l]
      let ?g = "kfifo_put_finish ((s_fifo s)\<lparr>kf_data := memcpy_at (kf_data (s_fifo s)) (unat off) bs\<rparr>) (of_nat (length bs))"
      define u where "u = (if \<not> ludlc_enc_busy fs'
          then (s\<lparr>s_fs := fs', s_fifo := ?g\<rparr>)\<lparr>s_conn := (s_conn s)\<lparr>conn_stats := (conn_stats (s_conn s))
                 \<lparr>tx_packet := tx_packet (conn_stats (s_conn s)) + 1\<rparr>\<rparr>\<rparr>
          else s\<lparr>s_fs := fs', s_fifo := ?g\<rparr>)"
      have step: "tx_fill fcf alg s = tx_fill fcf alg u"
        using True m c f by (simp add: tx_fill.simps [of fcf alg s] enc_fill_some [OF fo] u_def)
      have u: "s_fs u = fs'" "s_fifo u = ?g"
        by (simp_all add: u_def)
      have ou: "tx_ok fcf alg u"
        using ok q(1) w(3) by (simp add: tx_ok_def u)
      have pu: "tx_pending fcf alg u = tx_pending fcf alg s"
        using q(2) w(1,2) append_take_drop_id [of "unat m" "fs_rest fcf alg (s_fs s)"] by (simp add: tx_pending_def u)
      have su: "tx_same s u"
        using w(5) q(3) same_but_stats [of "s_conn s"] by (auto simp: tx_same_def u_def)
      have lu: "length (held (s_fifo s)) \<le> length (held (s_fifo u))"
        unfolding u q(2) by simp
      show ?thesis
      proof (cases "ludlc_enc_busy fs'")
        case b: True
        then have "unat m \<le> length (fs_rest fcf alg (s_fs s))"
          using w(4) by fastforce
        then have "length bs = unat m" "0 < unat m"
          using w(1) m by (simp_all add: unat_gt_0)
        moreover have "length (held (s_fifo u)) = length (held (s_fifo s)) + length bs"
          unfolding u q(2) by simp
        moreover have "room (s_fifo u) = unat (kf_size (s_fifo u)) - length (held (s_fifo u))"
            "room (s_fifo s) = unat (kf_size (s_fifo s)) - length (held (s_fifo s))"
          by (simp_all add: room_def)
        moreover have "unat m \<le> room (s_fifo s)" "unat (kf_size (s_fifo u)) = unat (kf_size (s_fifo s))"
          using p(1) q(3) by (simp_all add: u)
        ultimately have "room (s_fifo u) < room (s_fifo s)"
          by linarith
        from less.hyps [OF this ou] obtain t where t: "tx_fill fcf alg u = Some t" "tx_ok fcf alg t"
            "tx_pending fcf alg t = tx_pending fcf alg u" "tx_same u t" "ludlc_enc_busy (s_fs t) \<longrightarrow> room (s_fifo t) = 0"
            "length (held (s_fifo u)) \<le> length (held (s_fifo t))"
          by blast
        then show ?thesis
          using step pu tx_same_trans [OF su t(4)] lu by auto
      next
        case False
        then have "tx_fill fcf alg u = Some u"
          by (simp add: tx_fill.simps [of fcf alg u] u)
        then show ?thesis
          using step ou pu su False u lu by auto
      qed
    qed
  qed
qed

section \<open>Loading a frame\<close>

text \<open>An application announces no more than it provides.\<close>

definition caps_fit :: "ludlc_conn_cb option \<Rightarrow> bool" where
  "caps_fit cb \<longleftrightarrow> (case cb of Some b \<Rightarrow> has_octets (caps b) (caps_size b) | None \<Rightarrow> True)"

definition frame_ok :: "tx_frame \<Rightarrow> bool" where
  "frame_ok fr \<longleftrightarrow> (frame_hdr_sz fr = 2 \<or> frame_hdr_sz fr = 3) \<and> has_octets (frame_payload fr) (frame_pay_sz fr)"

lemma frame_ok_segments:
  assumes "frame_ok fr"
  shows "segment (Some (hdr_octets (frame_hdr fr))) (of_nat (frame_hdr_sz fr)) @ segment (frame_payload fr) (frame_pay_sz fr) = frame_octets fr"
    "has_octets (Some (hdr_octets (frame_hdr fr))) (of_nat (frame_hdr_sz fr))" "(of_nat (frame_hdr_sz fr) :: 8 word) \<noteq> 0"
  using assms by (auto simp: frame_ok_def segment_def frame_octets_def has_octets_def hdr_octets_def split: option.splits)

lemma tx_connected_ok:
  assumes inv: "conn_inv cf c" and st: "conn_state c = LUDLC_STATE_CONNECTED" and r: "tx_connected cf c u_done = (ret, fr, d, evs)"
  shows "frame_ok fr"
proof -
  obtain e it hs ping num ret' evs' where ch: "tx_choose cf c u_done = (e, it, hs, ping, num, ret', evs')"
    by (metis surj_pair)
  have hs: "hs = 2 \<or> hs = 3"
    using tx_choose_frame [OF inv ch] by auto
  have ok: "conn_inv cf e" "conn_cfg e = conn_cfg c" "case it of None \<Rightarrow> True | Some p \<Rightarrow> payload_ok cf c p"
    using tx_choose_inv [OF inv st, of u_done] ch by (simp_all add: tx_choice_ok_def)
  let ?f = "tx_ack_field e ping num"
  have fr: "frame_hdr_sz fr = hs" "frame_payload fr = (case it of Some p \<Rightarrow> Some (tx_payload (copy_payload ?f p)) | None \<Rightarrow> None)"
      "frame_pay_sz fr = (case it of Some p \<Rightarrow> pq_size p | None \<Rightarrow> 0)"
    using r ch by (auto simp: tx_connected_def Let_def split: option.splits)
  have "unat (pq_size p) \<le> length (tx_payload (copy_payload ?f p))" if "it = Some p" for p
  proof -
    have p: "payload_ok cf ?f p"
      using ok(2,3) that tx_ack_field_inv [of cf e ping num] cfg_cong(3) [of ?f c] by simp
    have "unat (ludlc_conn_payload_lim cf ?f) = length (tx_payload ?f)"
      using conn_inv_buffers(4) [of cf ?f] ok(1) tx_ack_field_inv [of cf e ping num] by simp
    then show ?thesis
      using copy_payload_length(1) [of cf ?f p] p by (simp add: payload_ok_def word_le_nat_alt)
  qed
  then show ?thesis
    using hs by (auto simp: frame_ok_def fr has_octets_def split: option.splits)
qed

definition link_ok :: "config \<Rightarrow> ludlc_connection \<Rightarrow> bool" where
  "link_ok cf c \<longleftrightarrow> conn_inv cf c \<and> 1 \<le> CONFIG_LUDLC_CONFIRM_BATCH cf \<and> caps_fit (conn_cb c)"

lemma get_packet_frame_ok:
  assumes c: "link_ok cf c" and r: "ludlc_get_packet_to_send cf c True = Some (ret, Some fr, d, evs)"
  shows "frame_ok fr"
proof -
  define drained where "drained = (\<not> has_flag LUDLC_CONN_U_DONE_F c)"
  define disc where "disc = (drained \<and> has_flag LUDLC_CONN_DISC_AFTER_TX_F c)"
  define u_done where "u_done = (drained \<and> \<not> disc)"
  define e where "e = u_sent_mark c u_done"
  have e: "conn_inv cf e" "conn_cb e = conn_cb c"
    using u_sent_mark_inv [of cf c u_done] c by (simp_all add: e_def u_done_def drained_def link_ok_def)
  obtain ret' d' evs' where l: "get_packet_lock cf e u_done = (ret', fr, d', evs')"
    using r unfolding ludlc_get_packet_to_send_def Let_def e_def u_sent_mark_def u_done_def disc_def drained_def
    by (auto split: if_splits prod.splits Option.bind_splits)
  show ?thesis
  proof (cases "conn_state e = LUDLC_STATE_CONNECTED")
    case True
    then show ?thesis
      using l tx_connected_ok [OF e(1) True] by (auto simp: get_packet_lock_def split: prod.splits)
  next
    case False
    then show ?thesis
      using l c e(2) by (auto simp: get_packet_lock_def tx_handshake_step_def frame_ok_def caps_fit_def link_ok_def has_octets_def Let_def
          split: prod.splits option.splits if_splits)
  qed
qed

text \<open>The frame a pass takes from the core, with the octets and whether the encoder closes it.\<close>

definition load_frames :: "config \<Rightarrow> 'r ludlc_serial_connection \<Rightarrow> (octet list \<times> bool) list" where
  "load_frames cf s =
     (if ludlc_enc_busy (s_fs s) \<or> \<not> forced_tx s then []
      else case ludlc_get_packet_to_send cf (s_conn s) True of
        Some (pending, Some fr, _, _) \<Rightarrow> if 0 \<le> pending then [(frame_octets fr, pending \<noteq> 0)] else []
      | _ \<Rightarrow> [])"

definition frames_wire :: "framing_config \<Rightarrow> ('c::len) csum_alg \<Rightarrow> ludlc_framing \<Rightarrow> (octet list \<times> bool) list \<Rightarrow> octet list" where
  "frames_wire fcf alg f frs = concat (map (fs_wire fcf alg f) frs)"

lemma frames_wire_simps [simp]:
  "frames_wire fcf alg f [] = []" "frames_wire fcf alg f (frs @ frs') = frames_wire fcf alg f frs @ frames_wire fcf alg f frs'"
  "frames_wire fcf alg f [fr] = fs_wire fcf alg f fr"
  by (simp_all add: frames_wire_def)

lemma request_simps [simp]:
  "s_fifo (ludlc_platform_request_tx s) = s_fifo s" "s_fs (ludlc_platform_request_tx s) = s_fs s"
  "s_conn (ludlc_platform_request_tx s) = s_conn s" "s_fifo (with_requests evs s) = s_fifo s"
  "s_fs (with_requests evs s) = s_fs s" "s_conn (with_requests evs s) = s_conn s"
  by (simp_all add: ludlc_platform_request_tx_def with_requests_def)

lemma enc_load_spec:
  assumes ok: "tx_ok fcf alg s" and link: "link_ok cf (s_conn s)"
  shows "\<exists>t evs. ludlc_posix_enc_load cf s = Some (t, evs) \<and> tx_ok fcf alg t \<and> link_ok cf (s_conn t) \<and>
    tx_pending fcf alg t = tx_pending fcf alg s @ frames_wire fcf alg (LUDLC_FS_FRAMING (s_fs s)) (load_frames cf s) \<and>
    LUDLC_FS_FRAMING (s_fs t) = LUDLC_FS_FRAMING (s_fs s) \<and> s_fifo t = s_fifo s \<and> conn_cb (s_conn t) = conn_cb (s_conn s)"
proof (cases "ludlc_enc_busy (s_fs s) \<or> \<not> forced_tx s")
  case True
  then show ?thesis
    using assms by (auto simp: ludlc_posix_enc_load_def load_frames_def forced_tx_def ludlc_platform_test_and_clear_bit_def
        ludlc_platform_test_bit_def tx_ok_def tx_pending_def Let_def)
next
  case False
  then have forced: "\<not> ludlc_enc_busy (s_fs s)" "tx_events s AND LUDLC_ATOMIC_MASK LUDLC_CONN_FORCE_TX_F \<noteq> 0"
    by (simp_all add: forced_tx_def ludlc_platform_test_bit_def)
  have inv: "conn_inv cf (s_conn s)" "1 \<le> CONFIG_LUDLC_CONFIRM_BATCH cf"
    using link by (simp_all add: link_ok_def)
  obtain pending fr d evs where g: "ludlc_get_packet_to_send cf (s_conn s) True = Some (pending, fr, d, evs)"
      "op_effect cf (s_conn s) [] evs d"
    using get_packet_effect [OF inv] by metis
  have d: "link_ok cf d" "conn_cb d = conn_cb (s_conn s)"
    using g(2) link by (auto simp: op_effect_def link_ok_def)
  have idle: "fs_rest fcf alg (s_fs s) = []"
    using wrapped.idle_rest [of fcf alg "s_fs s"] ok False by (simp add: tx_ok_def)
  show ?thesis
  proof (cases "\<exists>f. fr = Some f \<and> 0 \<le> pending")
    case True
    then obtain f where f: "fr = Some f" "0 \<le> pending"
      by blast
    note seg = frame_ok_segments [OF get_packet_frame_ok [OF link g(1) [unfolded f(1)]]]
    note p = prep_wire [OF _ _ _ seg(3,2), of alg fcf "s_fs s" "frame_payload f" "frame_pay_sz f" "pending \<noteq> 0"]
    have hp: "has_octets (frame_payload f) (frame_pay_sz f)"
      using get_packet_frame_ok [OF link g(1) [unfolded f(1)]] by (simp add: frame_ok_def)
    show ?thesis
      using p hp ok forced f d idle g(1) seg(1)
      by (auto simp: ludlc_posix_enc_load_def load_frames_def forced_tx_def ludlc_platform_test_and_clear_bit_def
          ludlc_platform_test_bit_def tx_ok_def tx_pending_def Let_def)
  next
    case no: False
    then show ?thesis
      using ok forced d idle g(1)
      by (cases fr) (auto simp: ludlc_posix_enc_load_def load_frames_def forced_tx_def ludlc_platform_test_and_clear_bit_def
          ludlc_platform_test_bit_def tx_ok_def tx_pending_def Let_def)
  qed
qed

section \<open>A pass\<close>

text \<open>The frames a pass takes from the core.\<close>

definition pass_frames ::
    "config \<Rightarrow> tx_poll \<Rightarrow> (nat \<Rightarrow> write_result) \<Rightarrow> tx_thread \<Rightarrow> 'r ludlc_serial_connection \<Rightarrow> (octet list \<times> bool) list" where
  "pass_frames cf p wr th s =
     (if conn_state (s_conn s) = LUDLC_STATE_TERMINATE then []
      else case tx_wait cf p wr th s of Some (Tx_send, _, _, t, _) \<Rightarrow> load_frames cf t | _ \<Rightarrow> [])"

text \<open>A write takes no more than it is given.\<close>

definition writes_ok :: "(nat \<Rightarrow> write_result) \<Rightarrow> bool" where
  "writes_ok wr \<longleftrightarrow> (\<forall>len n. wr len = Written n \<longrightarrow> n \<le> len)"

definition writes_fail :: "(nat \<Rightarrow> write_result) \<Rightarrow> bool" where
  "writes_fail wr \<longleftrightarrow> (\<exists>len e. wr len = Write_error e)"

lemma send_tx_fifo_spec:
  assumes ok: "kfifo_ok (s_fifo s)" and w: "writes_ok wr" and r: "send_tx_fifo wr s = (ret, bs, t)"
  shows "kfifo_ok (s_fifo t)" "held (s_fifo s) = bs @ held (s_fifo t)" "t = s\<lparr>s_fifo := s_fifo t\<rparr>"
    "kf_size (s_fifo t) = kf_size (s_fifo s)" "ret < 0 \<Longrightarrow> writes_fail wr"
proof -
  obtain off m where c: "kfifo_get_claim (s_fifo s) UINT_MAX = (off, m)"
    by (cases "kfifo_get_claim (s_fifo s) UINT_MAX")
  note p = get_claim_spec [OF ok c]
  have "kfifo_ok (s_fifo t) \<and> held (s_fifo s) = bs @ held (s_fifo t) \<and> t = s\<lparr>s_fifo := s_fifo t\<rparr> \<and>
    kf_size (s_fifo t) = kf_size (s_fifo s) \<and> (ret < 0 \<longrightarrow> writes_fail wr)"
  proof (cases "\<exists>n. m \<noteq> 0 \<and> wr (unat m) = Written n \<and> 0 < n")
    case True
    then obtain n where n: "m \<noteq> 0" "wr (unat m) = Written n" "0 < n" "n \<le> unat m"
      using w by (auto simp: writes_ok_def)
    then have "n < 4294967296"
      using unat_32_less [of m] by linarith
    then have u: "unat (of_nat n :: uint32) = n"
      by (simp add: unat_of_nat)
    have t: "ret = int n" "bs = take n (drop (unat off) (kf_data (s_fifo s)))" "s_fifo t = kfifo_get_finish (s_fifo s) (of_nat n)"
        "t = s\<lparr>s_fifo := s_fifo t\<rparr>"
      using r n c by (auto simp: send_tx_fifo_def)
    have "unat (of_nat n :: uint32) \<le> length (held (s_fifo s))"
      using u n(4) p(3) by simp
    note q = get_finish_spec [OF ok this, folded t(3), unfolded u]
    have "take n (drop (unat off) (kf_data (s_fifo s))) = take n (held (s_fifo s))"
      using arg_cong [OF p(1), of "take n"] n(4) by (simp add: min_def)
    then have "held (s_fifo s) = bs @ held (s_fifo t)"
      unfolding q(2) t(2) by simp
    then show ?thesis
      using q(1,3) t(1,4) by simp
  next
    case False
    then have "bs = []" "t = s" "ret < 0 \<longrightarrow> writes_fail wr"
      using r c by (auto simp: send_tx_fifo_def writes_fail_def split: if_splits write_result.splits)
    then show ?thesis
      using ok by simp
  qed
  then show "kfifo_ok (s_fifo t)" "held (s_fifo s) = bs @ held (s_fifo t)" "t = s\<lparr>s_fifo := s_fifo t\<rparr>"
    "kf_size (s_fifo t) = kf_size (s_fifo s)" "ret < 0 \<Longrightarrow> writes_fail wr" by blast+
qed

text \<open>
  A thread that sleeps has an empty FIFO, so what it does when the UART turns writable
  moves no octet, fails in no way and does not fill the FIFO.
\<close>

lemma sleeping_empty: "kfifo_ok (s_fifo s) \<Longrightarrow> tx_sleeps th s \<Longrightarrow> held (s_fifo s) = []"
  by (simp add: tx_sleeps_def kfifo_is_empty_def held_def kfifo_len_def)

lemma tx_wait_idle:
  assumes ok: "kfifo_ok (s_fifo s)" and sl: "tx_sleeps th s" and st: "conn_state (s_conn s) \<noteq> LUDLC_STATE_TERMINATE"
  shows "tx_wait cf (Tx_ready out) wr th s = Some (Tx_send, [], if out then th\<lparr>poll_out := False\<rparr> else th, s, [])"
proof -
  have e: "kf_in (s_fifo s) = kf_out (s_fifo s)"
    using sl by (simp add: tx_sleeps_def kfifo_is_empty_def)
  then have "kfifo_get_claim (s_fifo s) UINT_MAX = (kf_place (s_fifo s) (kf_out (s_fifo s)), 0)"
    by (simp add: kfifo_get_claim_def Let_def)
  then have "send_tx_fifo wr s = (0, [], s)"
    by (simp add: send_tx_fifo_def)
  moreover have "\<not> kfifo_is_full (s_fifo s)"
    using e kfifo_ok_dest(3) [OF ok] by (auto simp: kfifo_is_full_def kfifo_len_def)
  ultimately show ?thesis
    using sl st e by (simp add: tx_wait_def kfifo_is_empty_def)
qed

lemma tx_wait_spec:
  assumes ok: "kfifo_ok (s_fifo s)" and r: "tx_wait cf p wr th s = Some (next, bs, th', t, evs)"
  shows "bs = [] \<and> t = s \<and> evs = []"
  using r
  by (cases "tx_sleeps th s"; cases "conn_state (s_conn s) = LUDLC_STATE_TERMINATE"; cases p)
     (auto simp: tx_wait_idle [OF ok], auto simp: tx_wait_def split: if_splits)

lemma tx_wait_returns: "kfifo_ok (s_fifo s) \<Longrightarrow> \<exists>x. tx_wait cf p wr th s = Some x"
  by (cases "tx_sleeps th s"; cases "conn_state (s_conn s) = LUDLC_STATE_TERMINATE"; cases p)
     (auto simp: tx_wait_idle, auto simp: tx_wait_def)

lemma tx_work_spec:
  assumes ok: "tx_ok fcf alg s" and link: "link_ok cf (s_conn s)" and w: "writes_ok wr"
  shows "\<exists>bs th' t evs. tx_work cf fcf alg wr th s = Some (bs, th', t, evs) \<and> tx_ok fcf alg t \<and> link_ok cf (s_conn t) \<and>
    LUDLC_FS_FRAMING (s_fs t) = LUDLC_FS_FRAMING (s_fs s) \<and>
    (\<not> writes_fail wr \<longrightarrow> tx_pending fcf alg s @ frames_wire fcf alg (LUDLC_FS_FRAMING (s_fs s)) (load_frames cf s) =
       bs @ tx_pending fcf alg t)"
proof -
  obtain t evs where l: "ludlc_posix_enc_load cf s = Some (t, evs)" "tx_ok fcf alg t" "link_ok cf (s_conn t)"
      "tx_pending fcf alg t = tx_pending fcf alg s @ frames_wire fcf alg (LUDLC_FS_FRAMING (s_fs s)) (load_frames cf s)"
      "LUDLC_FS_FRAMING (s_fs t) = LUDLC_FS_FRAMING (s_fs s)"
    using enc_load_spec [OF ok link] by blast
  obtain u where f: "tx_fill fcf alg t = Some u" "tx_ok fcf alg u" "tx_pending fcf alg u = tx_pending fcf alg t" "tx_same t u"
    using tx_fill_spec [OF l(2)] by blast
  obtain ret bs v where s: "send_tx_fifo wr u = (ret, bs, v)"
    by (cases "send_tx_fifo wr u")
  have k: "kfifo_ok (s_fifo u)"
    using f(2) by (simp add: tx_ok_def)
  note sp = send_tx_fifo_spec [OF k w s]
  have v: "s_fs v = s_fs u" "s_conn v = s_conn u"
    by (subst sp(3), simp)+
  have link_u: "link_ok cf (s_conn u)"
    using f(4) l(3) by (auto simp: tx_same_def link_ok_def)
  have fr: "LUDLC_FS_FRAMING (s_fs u) = LUDLC_FS_FRAMING (s_fs s)"
    using f(4) l(5) by (simp add: tx_same_def)
  show ?thesis
  proof (cases "ret < 0")
    case True
    have "link_ok cf (inc_dropped (s_conn u))"
      using link_u by (simp add: link_ok_def inc_dropped_def)
    then show ?thesis
      using True l(1) f(1,2) s sp(1,5) v fr init_ok(1) [of alg fcf]
      by (auto simp: tx_work_def tx_drop_def tx_ok_def Let_def)
  next
    case False
    have "tx_pending fcf alg u = bs @ tx_pending fcf alg v"
      by (simp add: tx_pending_def sp(2) v)
    then show ?thesis
      using False l f(1-3) s sp(1) v fr link_u by (auto simp: tx_work_def tx_ok_def Let_def)
  qed
qed

lemma tx_pass_spec:
  assumes ok: "tx_ok fcf alg s" and link: "link_ok cf (s_conn s)" and w: "writes_ok wr'"
  shows "\<exists>go bs th' t evs. tx_pass cf fcf alg p wr wr' th s = Some (go, bs, th', t, evs) \<and> tx_ok fcf alg t \<and>
    link_ok cf (s_conn t) \<and> LUDLC_FS_FRAMING (s_fs t) = LUDLC_FS_FRAMING (s_fs s) \<and>
    (\<not> writes_fail wr' \<longrightarrow> tx_pending fcf alg s @ frames_wire fcf alg (LUDLC_FS_FRAMING (s_fs s)) (pass_frames cf p wr th s) =
       bs @ tx_pending fcf alg t)"
proof (cases "conn_state (s_conn s) = LUDLC_STATE_TERMINATE")
  case True
  then show ?thesis
    using ok link by (auto simp: tx_pass_def pass_frames_def)
next
  case False
  have k: "kfifo_ok (s_fifo s)"
    using ok by (simp add: tx_ok_def)
  obtain nx bs th' t evs where r: "tx_wait cf p wr th s = Some (nx, bs, th', t, evs)"
    using tx_wait_returns [OF k, of cf p wr th] by auto
  have t: "bs = []" "t = s" "evs = []"
    using tx_wait_spec [OF k r] by simp_all
  show ?thesis
  proof (cases nx)
    case Tx_send
    then show ?thesis
      using tx_work_spec [OF ok link w, of th'] r t False by (auto simp: tx_pass_def pass_frames_def)
  qed (use ok link r t False in \<open>auto simp: tx_pass_def pass_frames_def\<close>)
qed

section \<open>Properties\<close>

text \<open>
  A run of the thread: before each pass after the first, the other threads did something to
  the link. It yields what was written to the UART and the frames taken from the core.
\<close>

fun tx_run ::
    "config \<Rightarrow> framing_config \<Rightarrow> ('c::len) csum_alg \<Rightarrow>
     (tx_poll \<times> (nat \<Rightarrow> write_result) \<times> (nat \<Rightarrow> write_result) \<times> ('c word ludlc_serial_connection \<Rightarrow> 'c word ludlc_serial_connection)) list \<Rightarrow>
     tx_thread \<Rightarrow> 'c word ludlc_serial_connection \<Rightarrow>
     (octet list \<times> (octet list \<times> bool) list \<times> 'c word ludlc_serial_connection) option" where
  "tx_run cf fcf alg [] th s = Some ([], [], s)"
| "tx_run cf fcf alg ((p, wr, wr', others) # ins) th s =
     do {
       (go, bs, th', t, evs) \<leftarrow> tx_pass cf fcf alg p wr wr' th s;
       (if go then do {
          (out, frs, u) \<leftarrow> tx_run cf fcf alg ins th' (others t);
          Some (bs @ out, pass_frames cf p wr th s @ frs, u)
        }
        else Some (bs, pass_frames cf p wr th s, t))
     }"

text \<open>What the other threads may do: anything to the connection and the requests, nothing to the sending side.\<close>

definition others_ok ::
    "config \<Rightarrow> framing_config \<Rightarrow> ('c::len) csum_alg \<Rightarrow> ('c word ludlc_serial_connection \<Rightarrow> 'c word ludlc_serial_connection) \<Rightarrow> bool" where
  "others_ok cf fcf alg g \<longleftrightarrow> (\<forall>s. s_fifo (g s) = s_fifo s \<and> fs_rest fcf alg (s_fs (g s)) = fs_rest fcf alg (s_fs s) \<and>
     LUDLC_FS_FRAMING (s_fs (g s)) = LUDLC_FS_FRAMING (s_fs s) \<and> (fs_ok fcf alg (s_fs s) \<longrightarrow> fs_ok fcf alg (s_fs (g s))) \<and>
     (link_ok cf (s_conn s) \<longrightarrow> link_ok cf (s_conn (g s))))"

text \<open>C25: the transmitting thread never blocks in its own loops, and what it writes to the UART is
  the frames the core handed out, encoded, one after another: nothing is lost, repeated or
  reordered on the way through the encoder and the FIFO, however the UART splits, refuses or
  delays the octets and whatever the other threads do to the connection in between. What has
  not been written yet is in the FIFO and the encoder.\<close>

theorem serial_tx_stream:
  assumes "tx_ok fcf alg s" "link_ok cf (s_conn s)"
    and "\<forall>(p, wr, wr', others) \<in> set ins. writes_ok wr' \<and> \<not> writes_fail wr' \<and> others_ok cf fcf alg others"
  shows "\<exists>out frs u. tx_run cf fcf alg ins th s = Some (out, frs, u) \<and>
    tx_pending fcf alg s @ frames_wire fcf alg (LUDLC_FS_FRAMING (s_fs s)) frs = out @ tx_pending fcf alg u"
  using assms
proof (induction ins arbitrary: th s)
  case (Cons i ins)
  obtain p wr wr' others where i: "i = (p, wr, wr', others)"
    by (cases i)
  have w: "writes_ok wr'" "\<not> writes_fail wr'" "others_ok cf fcf alg others"
    using Cons.prems(3) i by auto
  obtain go bs th' t evs where r: "tx_pass cf fcf alg p wr wr' th s = Some (go, bs, th', t, evs)" "tx_ok fcf alg t"
      "link_ok cf (s_conn t)" "LUDLC_FS_FRAMING (s_fs t) = LUDLC_FS_FRAMING (s_fs s)"
      "tx_pending fcf alg s @ frames_wire fcf alg (LUDLC_FS_FRAMING (s_fs s)) (pass_frames cf p wr th s) = bs @ tx_pending fcf alg t"
    using tx_pass_spec [OF Cons.prems(1,2) w(1)] w(2) by blast
  show ?case
  proof (cases go)
    case True
    have o: "tx_ok fcf alg (others t)" "link_ok cf (s_conn (others t))" "tx_pending fcf alg (others t) = tx_pending fcf alg t"
        "LUDLC_FS_FRAMING (s_fs (others t)) = LUDLC_FS_FRAMING (s_fs s)"
      using w(3) r(2-4) by (auto simp: others_ok_def tx_ok_def tx_pending_def)
    from Cons.IH [OF o(1,2), of th'] obtain out frs u where u: "tx_run cf fcf alg ins th' (others t) = Some (out, frs, u)"
        "tx_pending fcf alg t @ frames_wire fcf alg (LUDLC_FS_FRAMING (s_fs s)) frs = out @ tx_pending fcf alg u"
      using Cons.prems(3) o(3,4) by auto
    have "tx_pending fcf alg s @ frames_wire fcf alg (LUDLC_FS_FRAMING (s_fs s)) (pass_frames cf p wr th s @ frs) =
        (bs @ out) @ tx_pending fcf alg u"
      using arg_cong [OF r(5), of "\<lambda>x. x @ frames_wire fcf alg (LUDLC_FS_FRAMING (s_fs s)) frs"] u(2) by simp
    then show ?thesis
      using i r(1) u(1) True by auto
  next
    case False
    then show ?thesis
      using i r(1,5) by auto
  qed
qed simp


text \<open>An established link with a byte queue of 64 octets, and a UART that takes two octets at a time.\<close>

definition sample_serial :: "uint16 ludlc_serial_connection" where
  "sample_serial =
     \<lparr>s_flags = 3, s_open = True,
      s_fifo = kfifo_init \<lparr>kf_data = [], kf_size = 0, kf_in = 0, kf_out = 0\<rparr> (replicate LUDLC_TX_FIFO_SIZE 0) (of_nat LUDLC_TX_FIFO_SIZE),
      s_conn = sample_end, tx_events = 1, s_fs = Cobs_fs cobs_zero, s_ticks = 0\<rparr>"

definition two_at_a_time :: "nat \<Rightarrow> write_result" where
  "two_at_a_time n = Written (min n 2)"

lemma sample_serial_ok:
  "tx_ok default_framing_config (Some ludlc_crc16_ccitt_pr0) (snd (tx_thread_start sample_serial))"
  "link_ok small_config (s_conn (snd (tx_thread_start sample_serial)))"
  "held (s_fifo (snd (tx_thread_start sample_serial))) = []"
proof -
  have u: "unat (of_nat LUDLC_TX_FIFO_SIZE :: uint32) = 64"
    by simp
  note k = kfifo_init_spec [of "replicate LUDLC_TX_FIFO_SIZE 0" "of_nat LUDLC_TX_FIFO_SIZE" 6]
  show "tx_ok default_framing_config (Some ludlc_crc16_ccitt_pr0) (snd (tx_thread_start sample_serial))"
    "held (s_fifo (snd (tx_thread_start sample_serial))) = []"
    using k u crc16_residual by (simp_all add: tx_ok_def tx_thread_start_def sample_serial_def init_ok)
  show "link_ok small_config (s_conn (snd (tx_thread_start sample_serial)))"
    using sample_end_established
    by (simp add: link_ok_def tx_thread_start_def sample_serial_def established_def caps_fit_def)
       (simp add: sample_end_def small_config_def default_config_def all_callbacks_def has_octets_def)
qed

lemma sample_others_ok: "others_ok cf fcf alg ludlc_platform_request_tx"
  by (simp add: others_ok_def ludlc_platform_request_tx_def)

theorem serial_tx_stream_witness:
  "\<exists>out frs u. (case tx_thread_start sample_serial of (th, s) \<Rightarrow>
      tx_run small_config default_framing_config (Some ludlc_crc16_ccitt_pr0)
        (replicate 3 (Tx_ready True, two_at_a_time, two_at_a_time, ludlc_platform_request_tx)) th s) = Some (out, frs, u) \<and>
    frames_wire default_framing_config (Some ludlc_crc16_ccitt_pr0) Cobs frs =
      out @ tx_pending default_framing_config (Some ludlc_crc16_ccitt_pr0) u"
proof -
  obtain th s where s: "tx_thread_start sample_serial = (th, s)"
    by (cases "tx_thread_start sample_serial")
  have w: "writes_ok two_at_a_time" "\<not> writes_fail two_at_a_time"
    by (simp_all add: writes_ok_def writes_fail_def two_at_a_time_def)
  have r: "fs_rest default_framing_config (Some ludlc_crc16_ccitt_pr0) (s_fs s) = []" "LUDLC_FS_FRAMING (s_fs s) = Cobs"
    using s by (auto simp: tx_thread_start_def sample_serial_def fs_rest_def LUDLC_FS_FRAMING_def ludlc_enc_init_def cobs_rest_def
        ludlc_cobs_enc_init_def cobs_flag_def flag_simps CENC_FLAGS_MASK_def bit_simps)
  show ?thesis
    using serial_tx_stream [OF sample_serial_ok(1,2), of
        "replicate 3 (Tx_ready True, two_at_a_time, two_at_a_time, ludlc_platform_request_tx)" th]
      w sample_serial_ok(3) r by (simp add: s tx_pending_def sample_others_ok)
qed

end
