(* ===== verification/Ludlc_Serial_Rx.thy ===== *)
theory Ludlc_Serial_Rx
  imports Ludlc_Serial_Tx
begin

text \<open>
  What the receiving thread of the serial transport makes of the octets on the line: each
  packet of a stream of frames reaches the core once and in order, whatever pieces the
  reads return.
\<close>

section \<open>What the core reads of a packet\<close>

lemma octet_at_take [simp]: "i < n \<Longrightarrow> octet_at (take n p) i = octet_at p i"
  by (simp add: octet_at_def)

lemma pkt_take [simp]:
  "2 \<le> n \<Longrightarrow> pkt_tx_id (take n p) = pkt_tx_id p" "2 \<le> n \<Longrightarrow> pkt_ack_id (take n p) = pkt_ack_id p"
  "sizeof_hdr \<le> n \<Longrightarrow> pkt_chan (take n p) = pkt_chan p" "pkt_payload (take n p) n = pkt_payload p n"
  by (simp_all add: pkt_tx_id_def pkt_ack_id_def pkt_chan_def pkt_payload_def)

lemma seq_ping_no_accept: "snd (rx_handle_seq cf c i True False) AND HANDLE_RX_ACCEPT_F = 0"
  by (simp add: rx_handle_seq_def rx_gap_def LUDLC_ATOMIC_MASK_def LUDLC_BITS_PER_WORD_def Let_def split: prod.split)

text \<open>Only a packet's own octets matter, not what lies behind them in the buffer.\<close>

lemma handle_packet_take:
  assumes "2 \<le> n"
  shows "rx_handle_packet cf c (take n p) n = rx_handle_packet cf c p n"
proof -
  have h: "rx_handle_handshake conn (take n p) step = rx_handle_handshake conn p step" for conn step
    using assms by (simp add: rx_handle_handshake_def)
  have u: "rx_connected cf conn (take n p) ping False is_hshake ret = rx_connected cf conn p ping False is_hshake ret"
    for conn ping is_hshake ret
    using assms by (simp add: rx_connected_def Let_def)
  have c: "rx_connected cf conn (take n p) ping is_u is_hshake ret = rx_connected cf conn p ping is_u is_hshake ret"
    if "sizeof_hdr < n" for conn ping is_u is_hshake ret
    using that by (simp add: rx_connected_def Let_def)
  have ch: "pkt_chan (take n p) = pkt_chan p" if "sizeof_hdr \<le> n"
    using that by simp
  have id: "pkt_tx_id (take n p) = pkt_tx_id p"
    using assms by simp
  consider "sizeof_hdr < n" | "\<not> sizeof_hdr < n" "\<not> n < sizeof_hdr" | "n < sizeof_hdr" "\<not> sizeof_hdr < n"
    by linarith
  then show ?thesis
  proof cases
    case 1
    show ?thesis
      unfolding rx_handle_packet_def h id c [OF 1] ch [OF less_imp_le [OF 1]] by (rule refl)
  next
    case 2
    then show ?thesis
      unfolding rx_handle_packet_def h id ch [OF leI [OF 2(2)]] Let_def by (simp only: u simp_thms 2(1))
  next
    case 3
    then show ?thesis
      unfolding rx_handle_packet_def h id by (cases "is_ping (pkt_tx_id p)") (simp_all only: u Let_def simp_thms if_True if_False 3)
  qed
qed

lemma ack_no_accept: "rx_handle_ack cf c a = (d, expired, ret, evs) \<Longrightarrow> ret AND HANDLE_RX_ACCEPT_F = 0"
  by (auto simp: rx_handle_ack_def rx_handle_nak_def LUDLC_ATOMIC_MASK_def LUDLC_BITS_PER_WORD_def Let_def
      split: prod.splits if_splits)

lemma short_no_accept:
  assumes "rx_handle_packet cf c p 2 = (d, expired, ret, evs)"
  shows "ret AND HANDLE_RX_ACCEPT_F = 0"
proof (cases "is_ping (pkt_tx_id p)")
  case True
  have conn: "ret AND HANDLE_RX_ACCEPT_F = 0"
    if r: "ret' AND HANDLE_RX_ACCEPT_F = 0" and c: "rx_connected cf c' p True False False ret' = (d, expired, ret, evs)" for c' ret'
  proof -
    obtain e ex ra ea where a: "rx_handle_ack cf (ludlc_watchdog_restart cf c') (pkt_ack_id p) = (e, ex, ra, ea)"
      by (metis surj_pair)
    obtain f rs where s: "rx_handle_seq cf e (pkt_tx_id p AND LUDLC_ID_MASK) True False = (f, rs)"
      by (cases "rx_handle_seq cf e (pkt_tx_id p AND LUDLC_ID_MASK) True False")
    have "ret = ret' OR ra OR rs"
      using c a s by (simp add: rx_connected_def Let_def)
    then show ?thesis
      using r ack_no_accept [OF a] seq_ping_no_accept [of cf e "pkt_tx_id p AND LUDLC_ID_MASK"] s
      by (simp add: bit.conj_disj_distrib2)
  qed
  have "ret' AND HANDLE_RX_ACCEPT_F = 0" if "rx_handle_handshake c p False = (c', ret')" for c' ret'
    using that by (auto simp: rx_handle_handshake_def LUDLC_ATOMIC_MASK_def LUDLC_BITS_PER_WORD_def Let_def split: if_splits)
  then show ?thesis
    using True assms conn [of 0 c] conn by (auto simp: rx_handle_packet_def Let_def split: prod.splits if_splits)
qed (use assms in \<open>simp add: rx_handle_packet_def inc_dropped_def\<close>)

lemma receive_take:
  assumes "2 \<le> n"
  shows "ludlc_receive cf c (take n p) n ts = ludlc_receive cf c p n ts"
proof -
  obtain d expired ret evs where h: "rx_handle_packet cf c p n = (d, expired, ret, evs)"
    by (metis surj_pair)
  have "rx_call_recv e ret (take n p) n ts = rx_call_recv e ret p n ts" for e
    using assms h short_no_accept [of cf c p d expired ret evs] by (cases "n = 2") (auto simp: rx_call_recv_def split: option.split)
  moreover have "rx_call_caps e ret (take n p) n = rx_call_caps e ret p n" for e
    by (simp add: rx_call_caps_def split: option.split)
  ultimately show ?thesis
    using h by (simp add: ludlc_receive_def handle_packet_take [OF assms])
qed

section \<open>Feeding in pieces\<close>

definition dec_count :: "'r framing_state \<Rightarrow> nat" where
  "dec_count fs = (case fs of Hdlc_fs s \<Rightarrow> unat (hdec_size (hdlc_dec s)) | Cobs_fs s \<Rightarrow> unat (cdec_size (cobs_dec s)) | Raw_fs s \<Rightarrow> 0)"

lemma feed_append:
  assumes "LUDLC_FS_FRAMING (fst ds) \<noteq> Raw"
  shows "ludlc_dec_feed fcf alg ds (xs @ ys) =
     (let (ds', n, d) = ludlc_dec_feed fcf alg ds xs in
      if d then (ds', n, True)
      else let (ds'', m, e) = ludlc_dec_feed fcf alg ds' ys in (ds'', n + m, e))"
  using assms
  by (cases "fst ds") (auto simp: ludlc_dec_feed_def ludlc_hdlc_dec_feed_def hdlc_loop_append cobs_feed_append LUDLC_FS_FRAMING_def
      split_beta Let_def)

lemma feed_count:
  assumes "LUDLC_FS_FRAMING (fst ds) \<noteq> Raw" "ludlc_dec_feed fcf alg ds xs = (ds', n, d)"
  shows "n \<le> length xs" "\<not> d \<Longrightarrow> n = length xs" "LUDLC_FS_FRAMING (fst ds') = LUDLC_FS_FRAMING (fst ds)"
proof -
  obtain fs st where ds: "ds = (fs, st)" by (cases ds)
  have "n \<le> length xs \<and> (\<not> d \<longrightarrow> n = length xs) \<and> LUDLC_FS_FRAMING (fst ds') = LUDLC_FS_FRAMING fs"
    using assms
  proof (cases fs)
    case (Hdlc_fs h)
    then show ?thesis
      using assms(2) hdlc_loop_count [of fcf alg "(hdlc_dec h, st)" xs]
      by (cases "hdlc_dec_loop fcf alg (hdlc_dec h, st) xs") (auto simp: ds ludlc_dec_feed_def ludlc_hdlc_dec_feed_def LUDLC_FS_FRAMING_def split_beta Let_def)
  next
    case (Cobs_fs c)
    then show ?thesis
      using assms(2) cobs_feed_count [of fcf alg "(c, st)" xs]
      by (cases "ludlc_cobs_dec_feed fcf alg (c, st) xs") (auto simp: ds ludlc_dec_feed_def LUDLC_FS_FRAMING_def split_beta Let_def split: if_splits)
  qed (simp add: ds LUDLC_FS_FRAMING_def)
  then show "n \<le> length xs" "\<not> d \<Longrightarrow> n = length xs" "LUDLC_FS_FRAMING (fst ds') = LUDLC_FS_FRAMING (fst ds)"
    by (auto simp: ds)
qed

lemma feed_progress:
  assumes "LUDLC_FS_FRAMING (fst ds) \<noteq> Raw" "ludlc_dec_feed fcf alg ds (x # xs) = (ds', 0, d)"
  shows "dec_count (fst ds) \<noteq> 0 \<and> d"
proof -
  obtain fs st where ds: "ds = (fs, st)" by (cases ds)
  show ?thesis
  proof (cases fs)
    case (Hdlc_fs h)
    then show ?thesis
      using assms(2) by (auto simp: ds ludlc_dec_feed_def ludlc_hdlc_dec_feed_def split_beta Let_def split: if_splits)
  next
    case (Cobs_fs c)
    then show ?thesis
      using assms(2) by (auto simp: ds ludlc_dec_feed_def dec_count_def cobs_dec_end_def frame_min_sz split_beta Let_def
          split: if_splits)
  qed (use assms(1) in \<open>simp add: ds LUDLC_FS_FRAMING_def\<close>)
qed

lemma prep_count: "LUDLC_FS_FRAMING fs \<noteq> Raw \<Longrightarrow> dec_count (ludlc_dec_prep fs alg buf cap) = 0"
  "LUDLC_FS_FRAMING (ludlc_dec_prep fs alg buf cap) = LUDLC_FS_FRAMING fs"
  by (cases fs; simp add: dec_count_def ludlc_dec_prep_def ludlc_hdlc_dec_prep_def ludlc_cobs_dec_prep_def cobs_dec_reset_def
      LUDLC_FS_FRAMING_def Let_def)+

lemma rx_complete_framing:
  assumes "rx_complete cf alg tick cap s = Some (t, evs)"
  shows "LUDLC_FS_FRAMING (s_fs t) = LUDLC_FS_FRAMING (s_fs s)" "LUDLC_FS_FRAMING (s_fs s) \<noteq> Raw \<Longrightarrow> dec_count (s_fs t) = 0"
  using assms
  by (auto simp: rx_complete_def with_requests_def ludlc_platform_request_tx_def prep_count split: option.splits prod.splits
      Option.bind_splits if_splits)

text \<open>The loop over the octets read does not see where one read ended and the next began.\<close>

lemma rx_feed_append:
  assumes "LUDLC_FS_FRAMING (s_fs s) \<noteq> Raw"
  shows "rx_feed cf fcf alg tick cap (xs @ ys) s =
    do { (s, evs) \<leftarrow> rx_feed cf fcf alg tick cap xs s;
         (s, evs') \<leftarrow> rx_feed cf fcf alg tick cap ys s;
         Some (s, evs @ evs') }"
  using assms
proof (induction "2 * length xs + (if dec_count (s_fs s) = 0 then 0 else 1)" arbitrary: xs s rule: less_induct)
  case less
  show ?case
  proof (cases "xs = []")
    case True
    then show ?thesis
      by (simp add: rx_feed.simps [of cf fcf alg tick cap "[]"])
  next
    case ne: False
    obtain ds n d where f: "ludlc_dec_feed fcf alg (s_fs s, conn_stats (s_conn s)) xs = (ds, n, d)"
      by (metis surj_pair)
    note fc = feed_count [OF _ f, simplified, OF less.prems]
    have fa: "ludlc_dec_feed fcf alg (s_fs s, conn_stats (s_conn s)) (xs @ ys) =
        (if d then (ds, n, True) else let (ds'', m, e) = ludlc_dec_feed fcf alg ds ys in (ds'', n + m, e))"
      using feed_append [of "(s_fs s, conn_stats (s_conn s))" fcf alg xs ys] less.prems f by simp
    define t where "t = s\<lparr>s_fs := fst ds, s_conn := (s_conn s)\<lparr>conn_stats := snd ds\<rparr>\<rparr>"
    have fr: "LUDLC_FS_FRAMING (s_fs t) \<noteq> Raw"
      using fc(3) less.prems by (simp add: t_def)
    note unfold = rx_feed.simps [of cf fcf alg tick cap xs s] rx_feed.simps [of cf fcf alg tick cap "xs @ ys" s]
    show ?thesis
    proof (cases d)
      case True
      have IH: "rx_feed cf fcf alg tick cap (drop n xs @ ys) u =
          do { (s, evs) \<leftarrow> rx_feed cf fcf alg tick cap (drop n xs) u; (s, evs') \<leftarrow> rx_feed cf fcf alg tick cap ys s; Some (s, evs @ evs') }"
        if u: "rx_complete cf alg tick cap t = Some (u, e)" for u e
      proof (rule less.hyps)
        show "LUDLC_FS_FRAMING (s_fs u) \<noteq> Raw"
          using rx_complete_framing(1) [OF u] fr by simp
        have "n \<noteq> 0 \<or> dec_count (s_fs s) \<noteq> 0"
          using feed_progress [of "(s_fs s, conn_stats (s_conn s))" fcf alg "hd xs" "tl xs" ds d] f ne less.prems by (cases n) auto
        then show "2 * length (drop n xs) + (if dec_count (s_fs u) = 0 then 0 else 1) < 2 * length xs + (if dec_count (s_fs s) = 0 then 0 else 1)"
          using rx_complete_framing(2) [OF u fr] fc(1) ne by auto
      qed
      show ?thesis
        using ne True fc(1) unfolding unfold f fa
        by (simp add: t_def [symmetric] Let_def) (auto simp: IH split: Option.bind_split prod.split)
    next
      case False
      show ?thesis
      proof (cases "ys = []")
        case True
        then show ?thesis
          by (simp add: rx_feed.simps [of cf fcf alg tick cap "[]"] split: Option.bind_split)
      next
        case False
        obtain dy m e where y: "ludlc_dec_feed fcf alg ds ys = (dy, m, e)"
          by (metis surj_pair)
        have t: "(s_fs t, conn_stats (s_conn t)) = ds" "t\<lparr>s_fs := fs, s_conn := (s_conn t)\<lparr>conn_stats := st\<rparr>\<rparr> =
            s\<lparr>s_fs := fs, s_conn := (s_conn s)\<lparr>conn_stats := st\<rparr>\<rparr>" for fs st
          by (simp_all add: t_def)
        have "rx_feed cf fcf alg tick cap xs s = Some (t, [])"
          using ne \<open>\<not> d\<close> fc(2) rx_feed.simps [of cf fcf alg tick cap "[]"] unfolding unfold f by (simp add: t_def)
        moreover have "rx_feed cf fcf alg tick cap (xs @ ys) s = rx_feed cf fcf alg tick cap ys t"
          using ne \<open>\<not> d\<close> fc(2) False unfolding unfold f fa rx_feed.simps [of cf fcf alg tick cap ys t] t y Let_def by simp
        ultimately show ?thesis
          by (simp split: Option.bind_split)
      qed
    qed
  qed
qed

section \<open>Packets into the core\<close>

text \<open>
  What the thread changes of a link beside the decoder: the connection, the requests to
  transmit and the readings of the clock.
\<close>

type_synonym rx_core = "ludlc_connection \<times> uint32 \<times> nat"

definition rx_view :: "'r ludlc_serial_connection \<Rightarrow> rx_core" where
  "rx_view s = (s_conn s, tx_events s, s_ticks s)"

definition rx_put :: "'r ludlc_serial_connection \<Rightarrow> 'r framing_state \<Rightarrow> rx_core \<Rightarrow> 'r ludlc_serial_connection" where
  "rx_put s fs = (\<lambda>(c, ev, k). s\<lparr>s_fs := fs, s_conn := c, tx_events := ev, s_ticks := k\<rparr>)"

lemma rx_put_simps [simp]:
  "rx_put (rx_put s fs v) fs' v' = rx_put s fs' v'" "rx_view (rx_put s fs v) = v" "s_fs (rx_put s fs v) = fs"
  "s_fifo (rx_put s fs v) = s_fifo s" "s_conn (rx_put s fs v) = fst v" "rx_put s (s_fs s) (rx_view s) = s"
  by (cases v; cases v'; simp add: rx_put_def rx_view_def)+

text \<open>
  The reference: packets handed to the core one after another, each counted and each with
  the time the clock gives for it, or dropped where the clock fails.
\<close>

definition rx_one :: "config \<Rightarrow> (nat \<Rightarrow> nat option) \<Rightarrow> octet list \<Rightarrow> rx_core \<Rightarrow> (rx_core \<times> ludlc_event list) option" where
  "rx_one cf tick p = (\<lambda>(c, ev, k).
     let c = c\<lparr>conn_stats := (conn_stats c)\<lparr>rx_packet := rx_packet (conn_stats c) + 1\<rparr>\<rparr> in
     case tick k of
       None \<Rightarrow> Some ((c, ev, k + 1), [])
     | Some ts \<Rightarrow> do {
         (c, evs) \<leftarrow> ludlc_receive cf c p (length p) ts;
         Some ((c, if RequestTx \<in> set evs then ludlc_platform_set_bit LUDLC_CONN_FORCE_TX_F ev else ev, k + 1), evs)
       })"

fun rx_all :: "config \<Rightarrow> (nat \<Rightarrow> nat option) \<Rightarrow> octet list list \<Rightarrow> rx_core \<Rightarrow> (rx_core \<times> ludlc_event list) option" where
  "rx_all cf tick [] v = Some (v, [])"
| "rx_all cf tick (p # ps) v = do {
     (v, evs) \<leftarrow> rx_one cf tick p v;
     (v, evs') \<leftarrow> rx_all cf tick ps v;
     Some (v, evs @ evs')
   }"

lemma rx_all_append:
  "rx_all cf tick (ps @ qs) v = do { (v, evs) \<leftarrow> rx_all cf tick ps v; (v, evs') \<leftarrow> rx_all cf tick qs v; Some (v, evs @ evs') }"
  by (induction ps arbitrary: v) (auto split: Option.bind_split prod.split)

text \<open>
  A decoder in the state \<open>fs\<close> turns the octets \<open>xs\<close> into the packets \<open>ps\<close> and is in the state
  \<open>fs'\<close> then, whatever the rest of the link.
\<close>

definition feeds ::
    "framing_config \<Rightarrow> ('c::len) csum_alg \<Rightarrow> ludlc_frame_size_t \<Rightarrow> 'c word framing_state \<Rightarrow> octet list \<Rightarrow>
     'c word framing_state \<Rightarrow> octet list list \<Rightarrow> bool" where
  "feeds fcf alg cap fs xs fs' ps \<longleftrightarrow> LUDLC_FS_FRAMING fs' = LUDLC_FS_FRAMING fs \<and>
     (\<forall>cf tick s. s_fs s = fs \<longrightarrow>
        rx_feed cf fcf alg tick cap xs s = map_option (\<lambda>(v, evs). (rx_put s fs' v, evs)) (rx_all cf tick ps (rx_view s)))"

lemma feeds_nil: "feeds fcf alg cap fs [] fs []"
  by (auto simp: feeds_def rx_feed.simps [of _ _ _ _ _ "[]"])

lemma feeds_append:
  assumes "feeds fcf alg cap fs xs fs1 ps" "feeds fcf alg cap fs1 ys fs2 qs" "LUDLC_FS_FRAMING fs \<noteq> Raw"
  shows "feeds fcf alg cap fs (xs @ ys) fs2 (ps @ qs)"
  using assms
  by (auto simp: feeds_def rx_feed_append rx_all_append option.map_comp split: Option.bind_split option.splits prod.split)

lemma feeds_quiet:
  assumes "\<And>st. ludlc_dec_feed fcf alg (fs, st) xs = ((fs', st), length xs, False)" "xs \<noteq> []"
    and "LUDLC_FS_FRAMING fs' = LUDLC_FS_FRAMING fs"
  shows "feeds fcf alg cap fs xs fs' []"
  using assms by (auto simp: feeds_def rx_feed.simps [of _ _ _ _ _ "[]"] rx_feed.simps [of _ _ _ _ _ xs] rx_put_def rx_view_def)

lemma rx_complete_one:
  assumes "unat (ludlc_dec_size fs') = length p" "take (length p) (dec_buffer fs') = p" "2 \<le> length p"
  shows "rx_complete cf alg tick cap (s\<lparr>s_fs := fs', s_conn := (s_conn s)\<lparr>conn_stats := (conn_stats (s_conn s))
        \<lparr>rx_packet := rx_packet (conn_stats (s_conn s)) + 1\<rparr>\<rparr>\<rparr>) =
    map_option (\<lambda>(v, evs). (rx_put s (ludlc_dec_prep fs' alg (dec_buffer fs') cap) v, evs)) (rx_one cf tick p (rx_view s))"
  using receive_take [OF assms(3), of cf _ "dec_buffer fs'"] assms(1,2)
  by (simp add: rx_complete_def rx_one_def rx_view_def rx_put_def with_requests_def ludlc_platform_request_tx_def Let_def
      split: option.split Option.bind_split prod.split)

lemma feeds_done:
  assumes f: "\<And>st. ludlc_dec_feed fcf alg (fs, st) xs = ((fs', st\<lparr>rx_packet := rx_packet st + 1\<rparr>), n, True)"
    and p: "unat (ludlc_dec_size fs') = length p" "take (length p) (dec_buffer fs') = p" "2 \<le> length p"
    and k: "feeds fcf alg cap (ludlc_dec_prep fs' alg (dec_buffer fs') cap) (drop n xs) fs'' qs"
    and ne: "xs \<noteq> []" "LUDLC_FS_FRAMING fs' = LUDLC_FS_FRAMING fs"
  shows "feeds fcf alg cap fs xs fs'' (p # qs)"
  unfolding feeds_def
proof (intro conjI allI impI)
  show "LUDLC_FS_FRAMING fs'' = LUDLC_FS_FRAMING fs"
    using k ne(2) by (simp add: feeds_def prep_count)
  fix cf tick and s :: "'a word ludlc_serial_connection"
  assume s: "s_fs s = fs"
  have r: "rx_feed cf fcf alg tick cap (drop n xs) (rx_put s (ludlc_dec_prep fs' alg (dec_buffer fs') cap) v) =
      map_option (\<lambda>(v, evs). (rx_put s fs'' v, evs)) (rx_all cf tick qs v)" for v
    using k by (simp add: feeds_def)
  show "rx_feed cf fcf alg tick cap xs s = map_option (\<lambda>(v, evs). (rx_put s fs'' v, evs)) (rx_all cf tick (p # qs) (rx_view s))"
    unfolding rx_feed.simps [of cf fcf alg tick cap xs s]
    using ne(1) by (simp add: s f rx_complete_one [OF p] Let_def)
       (auto simp: r option.map_comp split: Option.bind_split option.split prod.split)
qed

section \<open>Frames into packets\<close>

text \<open>What a decoder makes of octets does not depend on the statistics.\<close>

lemma hdlc_loop_indep:
  "fst (fst (hdlc_dec_loop fcf alg (dec, st) xs)) = fst (fst (hdlc_dec_loop fcf alg (dec, st') xs)) \<and>
   snd (hdlc_dec_loop fcf alg (dec, st) xs) = snd (hdlc_dec_loop fcf alg (dec, st') xs)"
proof (induction xs arbitrary: dec st st')
  case (Cons x xs)
  have t: "fst (fst (hdlc_dec_turn fcf alg (dec, st) x)) = fst (fst (hdlc_dec_turn fcf alg (dec, st') x))"
      "snd (hdlc_dec_turn fcf alg (dec, st) x) = snd (hdlc_dec_turn fcf alg (dec, st') x)"
    by (simp_all add: hdlc_dec_turn_def hdlc_dec_end_def hdlc_dec_store_def Let_def split: hdlc_dec_fsm_state.split)
  obtain d s b where d: "hdlc_dec_turn fcf alg (dec, st) x = ((d, s), b)"
    by (metis surj_pair)
  obtain s' where d': "hdlc_dec_turn fcf alg (dec, st') x = ((d, s'), b)"
    using t d by (cases "hdlc_dec_turn fcf alg (dec, st') x") auto
  show ?case
    using Cons.IH [of d s s'] d d' by (auto simp: split_beta Let_def)
qed simp

lemma cobs_feed_indep:
  "fst (fst (ludlc_cobs_dec_feed fcf alg (fs, st) xs)) = fst (fst (ludlc_cobs_dec_feed fcf alg (fs, st') xs)) \<and>
   snd (ludlc_cobs_dec_feed fcf alg (fs, st) xs) = snd (ludlc_cobs_dec_feed fcf alg (fs, st') xs)"
proof (induction xs arbitrary: fs st st')
  case (Cons x xs)
  have t: "fst (fst (cobs_dec_end alg (fs, st))) = fst (fst (cobs_dec_end alg (fs, st')))"
      "snd (cobs_dec_end alg (fs, st)) = snd (cobs_dec_end alg (fs, st'))"
    by (simp_all add: cobs_dec_end_def Let_def)
  obtain d s b where d: "cobs_dec_end alg (fs, st) = ((d, s), b)"
    by (metis surj_pair)
  obtain s' where d': "cobs_dec_end alg (fs, st') = ((d, s'), b)"
    using t d by (cases "cobs_dec_end alg (fs, st')") auto
  show ?case
    using Cons.IH [of "cobs_dec_octet fcf alg fs x" st st'] Cons.IH [of d s s'] d d' by (auto simp: split_beta Let_def)
qed simp

lemma feed_uniform:
  assumes "LUDLC_FS_FRAMING fs \<noteq> Raw" "\<And>st. \<exists>fs' n. ludlc_dec_feed fcf alg (fs, st) xs = ((fs', g st), n, d) \<and> P fs' n"
  obtains fs' n where "\<And>st. ludlc_dec_feed fcf alg (fs, st) xs = ((fs', g st), n, d)" "P fs' n"
proof -
  obtain fs' n where f: "ludlc_dec_feed fcf alg (fs, undefined) xs = ((fs', g undefined), n, d)" "P fs' n"
    using assms(2) [of undefined] by blast
  have i: "fst (fst (ludlc_dec_feed fcf alg (fs, st) xs)) = fst (fst (ludlc_dec_feed fcf alg (fs, undefined) xs))"
      "snd (ludlc_dec_feed fcf alg (fs, st) xs) = snd (ludlc_dec_feed fcf alg (fs, undefined) xs)" for st
    using assms(1) hdlc_loop_indep [of fcf alg _ st xs undefined] cobs_feed_indep [of fcf alg _ st xs undefined]
    by (cases fs; auto simp: ludlc_dec_feed_def ludlc_hdlc_dec_feed_def LUDLC_FS_FRAMING_def split_beta)+
  have "ludlc_dec_feed fcf alg (fs, st) xs = ((fs', g st), n, d)" for st
    using assms(2) [of st] i [of st] f(1) by auto
  then show ?thesis
    using that f(2) by blast
qed

text \<open>A frame short enough for the decoder, and a framing whose octets can be told apart.\<close>

definition fits :: "('c::len) csum_alg \<Rightarrow> ludlc_frame_size_t \<Rightarrow> octet list \<Rightarrow> bool" where
  "fits alg cap p \<longleftrightarrow> 2 \<le> length p \<and> length p < 256 \<and> length (frame_of alg p) \<le> unat cap"

definition marks_ok :: "framing_config \<Rightarrow> ludlc_framing \<Rightarrow> bool" where
  "marks_ok fcf f \<longleftrightarrow> (case f of Hdlc \<Rightarrow> hdlc_marks_ok fcf | Cobs \<Rightarrow> LUDLC_COBS_DELIMITER fcf = 0 | Raw \<Rightarrow> False)"

text \<open>
  A decoder that waits for a frame, and an escaping decoder that has gathered the octets of
  one and waits for the octet that ends it.
\<close>

definition rx_idle :: "('c::len) csum_alg \<Rightarrow> ludlc_frame_size_t \<Rightarrow> 'c word framing_state \<Rightarrow> bool" where
  "rx_idle alg cap fs \<longleftrightarrow>
     (case fs of
        Hdlc_fs h \<Rightarrow> hdec_size (hdlc_dec h) = 0 \<and> hdec_payload_cap (hdlc_dec h) = cap \<and> unat cap \<le> length (hdec_payload (hdlc_dec h))
      | Cobs_fs c \<Rightarrow> cdec_between alg [] False c \<and> cdec_payload_cap (cobs_dec c) = cap
      | Raw_fs r \<Rightarrow> False)"

definition rx_open :: "('c::len) csum_alg \<Rightarrow> ludlc_frame_size_t \<Rightarrow> octet list \<Rightarrow> 'c word framing_state \<Rightarrow> bool" where
  "rx_open alg cap xs fs \<longleftrightarrow> (\<exists>h. fs = Hdlc_fs h \<and> gathered alg xs (hdlc_dec h) \<and> hdec_payload_cap (hdlc_dec h) = cap)"

lemma dec_end_buffer:
  "hdec_payload (fst (fst (hdlc_dec_turn fcf alg (dec, st) (LUDLC_SOF fcf)))) = hdec_payload dec"
  "hdec_payload_cap (fst (fst (hdlc_dec_turn fcf alg (dec, st) (LUDLC_SOF fcf)))) = hdec_payload_cap dec"
  "cdec_payload (cobs_dec (fst (fst (cobs_dec_end alg (fs, st))))) = cdec_payload (cobs_dec fs)"
  by (simp_all add: hdlc_dec_turn_def hdlc_dec_end_def cobs_dec_end_def cobs_dec_reset_def Let_def)

text \<open>The start octet, before a first frame and at the end of one.\<close>

lemma start_octet:
  assumes "rx_idle alg cap fs" "LUDLC_FS_FRAMING fs = Hdlc"
  shows "\<exists>fs'. feeds fcf alg cap fs [LUDLC_SOF fcf] fs' [] \<and> rx_open alg cap [] fs'"
proof -
  obtain h where h: "fs = Hdlc_fs h" "hdec_size (hdlc_dec h) = 0" "hdec_payload_cap (hdlc_dec h) = cap"
      "unat cap \<le> length (hdec_payload (hdlc_dec h))"
    using assms by (cases fs) (simp_all add: rx_idle_def LUDLC_FS_FRAMING_def)
  have "\<exists>fs' n. ludlc_dec_feed fcf alg (fs, st) [LUDLC_SOF fcf] = ((fs', st), n, False) \<and> n = 1 \<and> rx_open alg cap [] fs'" for st
    using h hdlc_sync [of "hdlc_dec h" fcf alg st]
    by (auto simp: ludlc_dec_feed_def ludlc_hdlc_dec_feed_def rx_open_def)
  then obtain fs' n where "\<And>st. ludlc_dec_feed fcf alg (fs, st) [LUDLC_SOF fcf] = ((fs', st), n, False)" "n = 1 \<and> rx_open alg cap [] fs'"
    using feed_uniform [of fs fcf alg "[LUDLC_SOF fcf]" "\<lambda>st. st" False "\<lambda>fs' n. n = 1 \<and> rx_open alg cap [] fs'"] assms(2) by auto
  then show ?thesis
    using h(1) by (intro exI [of _ fs']) (auto intro!: feeds_quiet simp: rx_open_def LUDLC_FS_FRAMING_def)
qed

lemma end_octet:
  assumes "rx_open alg cap (frame_of alg p) fs" "csum_ok alg" "fits alg cap p"
  shows "\<exists>fs'. feeds fcf alg cap fs [LUDLC_SOF fcf] fs' [p] \<and> rx_open alg cap [] fs' \<and> rx_idle alg cap fs'"
proof -
  obtain h where h: "fs = Hdlc_fs h" "gathered alg (frame_of alg p) (hdlc_dec h)" "hdec_payload_cap (hdlc_dec h) = cap"
    using assms(1) by (auto simp: rx_open_def)
  let ?P = "\<lambda>fs' n. n = 1 \<and> unat (ludlc_dec_size fs') = length p \<and> take (length p) (dec_buffer fs') = p \<and>
      (\<exists>h'. fs' = Hdlc_fs h' \<and> hdec_state (hdlc_dec h') = dec_payload \<and> unat cap \<le> length (hdec_payload (hdlc_dec h')))"
  have "\<exists>fs' n. ludlc_dec_feed fcf alg (fs, st) [LUDLC_SOF fcf] = ((fs', st\<lparr>rx_packet := rx_packet st + 1\<rparr>), n, True) \<and> ?P fs' n" for st
  proof -
    obtain d where d: "hdlc_dec_turn fcf alg (hdlc_dec h, st) (LUDLC_SOF fcf) = ((d, st\<lparr>rx_packet := rx_packet st + 1\<rparr>), True)"
        "unat (hdec_size d) = length p" "take (length p) (hdec_payload d) = p" "hdec_state d = dec_payload"
      using hdlc_complete [OF h(2) assms(2), of fcf st] assms(3) by (auto simp: fits_def)
    then have "unat cap \<le> length (hdec_payload d)"
      using h(2,3) dec_end_buffer(1) [of fcf alg "hdlc_dec h" st] by (simp add: gathered_def)
    moreover have "unat (ucast (hdec_size d) :: octet) = length p"
      using d(2) assms(3) by (simp add: fits_def unsigned_ucast_eq take_bit_eq_mod)
    ultimately show ?thesis
      using h(1) d by (simp add: ludlc_dec_feed_def ludlc_hdlc_dec_feed_def ludlc_dec_size_def dec_buffer_def ludlc_hdlc_dec_size_def)
  qed
  then obtain fs' n where f: "\<And>st. ludlc_dec_feed fcf alg (fs, st) [LUDLC_SOF fcf] = ((fs', st\<lparr>rx_packet := rx_packet st + 1\<rparr>), n, True)"
      and q: "?P fs' n"
    using feed_uniform [of fs fcf alg "[LUDLC_SOF fcf]" "\<lambda>st. st\<lparr>rx_packet := rx_packet st + 1\<rparr>" True ?P] h(1)
    by (auto simp: LUDLC_FS_FRAMING_def)
  let ?n = "ludlc_dec_prep fs' alg (dec_buffer fs') cap"
  have "feeds fcf alg cap fs [LUDLC_SOF fcf] ?n [p]"
    using q h(1) assms(3) feeds_nil [of fcf alg cap ?n]
    by (intro feeds_done [OF f]) (auto simp: fits_def LUDLC_FS_FRAMING_def)
  moreover have "rx_open alg cap [] ?n" "rx_idle alg cap ?n"
    using q by (auto simp: rx_open_def rx_idle_def ludlc_dec_prep_def ludlc_hdlc_dec_prep_def gathered_def dec_buffer_def Let_def)
  ultimately show ?thesis by blast
qed

lemma frame_body:
  assumes "rx_open alg cap [] fs" "hdlc_marks_ok fcf" "fits alg cap p"
  shows "\<exists>fs'. feeds fcf alg cap fs (escape fcf (frame_of alg p)) fs' [] \<and> rx_open alg cap (frame_of alg p) fs'"
proof -
  obtain h where h: "fs = Hdlc_fs h" "gathered alg [] (hdlc_dec h)" "hdec_payload_cap (hdlc_dec h) = cap"
    using assms(1) by (auto simp: rx_open_def)
  let ?xs = "escape fcf (frame_of alg p)"
  have "\<exists>fs' n. ludlc_dec_feed fcf alg (fs, st) ?xs = ((fs', st), n, False) \<and> n = length ?xs \<and> rx_open alg cap (frame_of alg p) fs'" for st
    using h gathered_escaped [OF assms(2) h(2), of "frame_of alg p" st] assms(3) hdlc_loop_count [of fcf alg "(hdlc_dec h, st)" ?xs]
    by (auto simp: ludlc_dec_feed_def ludlc_hdlc_dec_feed_def rx_open_def fits_def)
  then obtain fs' n where "\<And>st. ludlc_dec_feed fcf alg (fs, st) ?xs = ((fs', st), n, False)" "n = length ?xs \<and> rx_open alg cap (frame_of alg p) fs'"
    using feed_uniform [of fs fcf alg ?xs "\<lambda>st. st" False "\<lambda>fs' n. n = length ?xs \<and> rx_open alg cap (frame_of alg p) fs'"] h(1)
    by (auto simp: LUDLC_FS_FRAMING_def)
  moreover have "?xs \<noteq> []"
    using escape_length [of "frame_of alg p" fcf] assms(3) by (auto simp: fits_def frame_of_def)
  ultimately show ?thesis
    using h(1) by (intro exI [of _ fs']) (auto intro!: feeds_quiet simp: rx_open_def LUDLC_FS_FRAMING_def)
qed

text \<open>Behind a completed frame the decoder is handed its delimiter again, which a fresh decoder skips.\<close>

lemma cobs_delimiter_again:
  assumes "LUDLC_COBS_DELIMITER fcf = 0" "unat cap \<le> length buf"
  shows "\<exists>fs'. feeds fcf alg cap (Cobs_fs (ludlc_cobs_dec_prep c alg buf cap)) [0] fs' [] \<and> rx_idle alg cap fs' \<and> LUDLC_FS_FRAMING fs' = Cobs"
proof -
  let ?c = "cobs_dec_reset (ludlc_cobs_dec_prep c alg buf cap) alg"
  have "cobs_dec_end alg (ludlc_cobs_dec_prep c alg buf cap, st) = ((?c, st), False)" for st
    by (simp add: cobs_dec_end_def ludlc_cobs_dec_prep_def cobs_dec_reset_def frame_min_sz cobs_flag_def flag_simps CDEC_FLAGS_MASK_def
        bit_simps Let_def)
  then have "feeds fcf alg cap (Cobs_fs (ludlc_cobs_dec_prep c alg buf cap)) [0] (Cobs_fs ?c) []"
    using assms(1) by (intro feeds_quiet) (simp_all add: ludlc_dec_feed_def LUDLC_FS_FRAMING_def)
  moreover have "rx_idle alg cap (Cobs_fs ?c)"
    using assms(2) by (simp add: rx_idle_def cdec_between_def cdec_holds_def ludlc_cobs_dec_prep_def cobs_dec_reset_def cobs_flag_def
        flag_simps CDEC_FLAGS_MASK_def bit_simps Let_def)
  ultimately show ?thesis
    by (auto simp: LUDLC_FS_FRAMING_def)
qed

lemma cobs_frame_in:
  assumes "rx_idle alg cap fs" "LUDLC_FS_FRAMING fs = Cobs" "csum_ok alg" "LUDLC_COBS_DELIMITER fcf = 0" "fits alg cap p"
  shows "\<exists>fs'. feeds fcf alg cap fs (cobs_wire fcf alg p) fs' [p] \<and> rx_idle alg cap fs' \<and> LUDLC_FS_FRAMING fs' = Cobs"
proof -
  obtain c where c: "fs = Cobs_fs c" "cdec_between alg [] False c" "cdec_payload_cap (cobs_dec c) = cap"
    using assms(1,2) by (cases fs) (simp_all add: rx_idle_def LUDLC_FS_FRAMING_def)
  let ?xs = "cobs_wire fcf alg p"
  have r: "cobs_ready fcf alg (c, st) p" for st
    using assms(3-5) c by (simp add: cobs_ready_def fits_def)
  let ?P = "\<lambda>fs' n. n = length ?xs - 1 \<and> unat (ludlc_dec_size fs') = length p \<and> take (length p) (dec_buffer fs') = p \<and>
      (\<exists>c'. fs' = Cobs_fs c' \<and> unat cap \<le> length (cdec_payload (cobs_dec c')))"
  have "\<exists>fs' n. ludlc_dec_feed fcf alg (fs, st) ?xs = ((fs', st\<lparr>rx_packet := rx_packet st + 1\<rparr>), n, True) \<and> ?P fs' n" for st
    using cobs_decodes [OF r, of st] c by (auto simp: ludlc_dec_feed_def ludlc_dec_size_def dec_buffer_def)
  then obtain fs' n where f: "\<And>st. ludlc_dec_feed fcf alg (fs, st) ?xs = ((fs', st\<lparr>rx_packet := rx_packet st + 1\<rparr>), n, True)"
      and q: "?P fs' n"
    using feed_uniform [of fs fcf alg ?xs "\<lambda>st. st\<lparr>rx_packet := rx_packet st + 1\<rparr>" True ?P] assms(2) by auto
  obtain c' where c': "fs' = Cobs_fs c'" "unat cap \<le> length (cdec_payload (cobs_dec c'))"
    using q by blast
  obtain g where g: "feeds fcf alg cap (Cobs_fs (ludlc_cobs_dec_prep c' alg (cdec_payload (cobs_dec c')) cap)) [0] g []"
      "rx_idle alg cap g" "LUDLC_FS_FRAMING g = Cobs"
    using cobs_delimiter_again [OF assms(4) c'(2)] by blast
  obtain body where b: "?xs = body @ [0]"
    using stuff_decodes [OF assms(4) c(2), of "frame_of alg p"] assms(4,5) c(3) by (auto simp: cobs_wire_def fits_def)
  have "feeds fcf alg cap fs ?xs g [p]"
    using q g(1) c' assms(2,5) b by (intro feeds_done [OF f]) (auto simp: fits_def LUDLC_FS_FRAMING_def ludlc_dec_prep_def dec_buffer_def)
  then show ?thesis
    using g by blast
qed

section \<open>Streams of frames\<close>

text \<open>
  Between two frames: nothing gathered, or, where the escaping left the closing octet out, a
  whole frame that the start of the next will end.
\<close>

definition rx_holds :: "('c::len) csum_alg \<Rightarrow> ludlc_frame_size_t \<Rightarrow> octet list option \<Rightarrow> 'c word framing_state \<Rightarrow> bool" where
  "rx_holds alg cap q fs \<longleftrightarrow>
     (case q of None \<Rightarrow> rx_idle alg cap fs | Some p \<Rightarrow> rx_open alg cap (frame_of alg p) fs \<and> fits alg cap p)"

definition closes :: "ludlc_framing \<Rightarrow> bool \<Rightarrow> bool" where
  "closes f eof \<longleftrightarrow> f \<noteq> Hdlc \<or> eof"

lemma frame_in:
  assumes h: "rx_holds alg cap q fs" and ok: "csum_ok alg" "marks_ok fcf (LUDLC_FS_FRAMING fs)" "fits alg cap p"
  defines "f \<equiv> LUDLC_FS_FRAMING fs"
  shows "\<exists>fs'. feeds fcf alg cap fs (fs_wire fcf alg f (p, eof)) fs' (case_option [] (\<lambda>p. [p]) q @ (if closes f eof then [p] else [])) \<and>
    rx_holds alg cap (if closes f eof then None else Some p) fs'"
proof (cases fs)
  case (Cobs_fs c)
  then have "q = None"
    using h by (cases q) (auto simp: rx_holds_def rx_open_def)
  then show ?thesis
    using cobs_frame_in [of alg cap fs fcf p] h ok Cobs_fs
    by (auto simp: rx_holds_def f_def LUDLC_FS_FRAMING_def marks_ok_def fs_wire_def closes_def)
next
  case (Hdlc_fs d)
  then have f: "f = Hdlc" "LUDLC_FS_FRAMING fs \<noteq> Raw" "hdlc_marks_ok fcf"
    using ok(2) by (simp_all add: f_def LUDLC_FS_FRAMING_def marks_ok_def)
  obtain fs1 where s1: "feeds fcf alg cap fs [LUDLC_SOF fcf] fs1 (case_option [] (\<lambda>p. [p]) q)" "rx_open alg cap [] fs1"
  proof (cases q)
    case None
    then show ?thesis
      using start_octet [of alg cap fs fcf] h f(1) that by (auto simp: rx_holds_def f_def)
  next
    case (Some p0)
    then show ?thesis
      using end_octet [of alg cap p0 fs fcf] h ok(1) that by (auto simp: rx_holds_def)
  qed
  obtain fs2 where s2: "feeds fcf alg cap fs1 (escape fcf (frame_of alg p)) fs2 []" "rx_open alg cap (frame_of alg p) fs2"
    using frame_body [OF s1(2) f(3) ok(3)] by blast
  have nr: "LUDLC_FS_FRAMING fs1 \<noteq> Raw" "LUDLC_FS_FRAMING fs2 \<noteq> Raw"
    using s1(1) s2(1) f(2) by (simp_all add: feeds_def)
  have s12: "feeds fcf alg cap fs (LUDLC_SOF fcf # escape fcf (frame_of alg p)) fs2 (case_option [] (\<lambda>p. [p]) q)"
    using feeds_append [OF s1(1) s2(1) f(2)] by simp
  show ?thesis
  proof (cases eof)
    case False
    then show ?thesis
      using s12 s2(2) f(1) ok(3) by (auto simp: fs_wire_def hdlc_wire_def hdlc_eof_def closes_def rx_holds_def)
  next
    case True
    obtain fs3 where "feeds fcf alg cap fs2 [LUDLC_SOF fcf] fs3 [p]" "rx_idle alg cap fs3"
      using end_octet [OF s2(2) ok(1,3)] by blast
    then show ?thesis
      using feeds_append [OF s12 _ f(2)] f(1) True by (auto simp: fs_wire_def hdlc_wire_def hdlc_eof_def closes_def rx_holds_def)
  qed
next
  case (Raw_fs r)
  then show ?thesis
    using ok(2) by (simp add: marks_ok_def LUDLC_FS_FRAMING_def)
qed

text \<open>The packets a stream of frames brings to the core, and the one it may leave in the decoder.\<close>

definition arrived :: "ludlc_framing \<Rightarrow> (octet list \<times> bool) list \<Rightarrow> octet list list" where
  "arrived f frs = (if frs = [] \<or> closes f (snd (last frs)) then map fst frs else butlast (map fst frs))"

definition unclosed :: "ludlc_framing \<Rightarrow> (octet list \<times> bool) list \<Rightarrow> octet list option" where
  "unclosed f frs = (if frs = [] \<or> closes f (snd (last frs)) then None else Some (fst (last frs)))"

lemma frames_in:
  assumes "rx_holds alg cap q fs" "csum_ok alg" "marks_ok fcf (LUDLC_FS_FRAMING fs)" "\<forall>(p, eof) \<in> set frs. fits alg cap p"
    and "frs \<noteq> []"
  shows "\<exists>fs'. feeds fcf alg cap fs (frames_wire fcf alg (LUDLC_FS_FRAMING fs) frs) fs'
      (case_option [] (\<lambda>p. [p]) q @ arrived (LUDLC_FS_FRAMING fs) frs) \<and>
    rx_holds alg cap (unclosed (LUDLC_FS_FRAMING fs) frs) fs'"
  using assms
proof (induction frs arbitrary: q fs)
  case (Cons fr frs)
  obtain p eof where fr: "fr = (p, eof)"
    by (cases fr)
  let ?f = "LUDLC_FS_FRAMING fs" and ?q = "if closes (LUDLC_FS_FRAMING fs) eof then None else Some p"
  obtain fs1 where one: "feeds fcf alg cap fs (fs_wire fcf alg ?f (p, eof)) fs1
        (case_option [] (\<lambda>p. [p]) q @ (if closes ?f eof then [p] else []))" "rx_holds alg cap ?q fs1"
    using frame_in [OF Cons.prems(1-3), of p eof] Cons.prems(4) fr by auto
  have fs1: "LUDLC_FS_FRAMING fs1 = ?f" "?f \<noteq> Raw"
    using one(1) Cons.prems(3) by (auto simp: feeds_def marks_ok_def)
  show ?case
  proof (cases "frs = []")
    case True
    then show ?thesis
      using one fr by (auto simp: frames_wire_def arrived_def unclosed_def)
  next
    case False
    obtain fs2 where "feeds fcf alg cap fs1 (frames_wire fcf alg ?f frs) fs2 (case_option [] (\<lambda>p. [p]) ?q @ arrived ?f frs)"
        "rx_holds alg cap (unclosed ?f frs) fs2"
      using Cons.IH [OF one(2) Cons.prems(2)] Cons.prems(3,4) fs1(1) False by auto
    then show ?thesis
      using feeds_append [OF one(1) _ fs1(2)] False fr
      by (auto simp: frames_wire_def arrived_def unclosed_def split: if_splits)
  qed
qed simp

text \<open>A wakeup through the pipe is lost when the UART is readable too.\<close>

lemma timeout_swallowed:
  "rx_pass cf fcf alg tick cap (Poll_ready True True) (Inr bs) s = rx_pass cf fcf alg tick cap (Poll_ready False True) (Inr bs) s"
  by (simp add: rx_pass_def ludlc_serial_read_def)

section \<open>Properties\<close>

text \<open>A run of the thread, a pass for each poll and read, and the octets it reads.\<close>

fun rx_run ::
    "config \<Rightarrow> framing_config \<Rightarrow> ('c::len) csum_alg \<Rightarrow> (nat \<Rightarrow> nat option) \<Rightarrow> ludlc_frame_size_t \<Rightarrow>
     (poll_result \<times> read_result) list \<Rightarrow> 'c word ludlc_serial_connection \<Rightarrow>
     ('c word ludlc_serial_connection \<times> ludlc_event list) option" where
  "rx_run cf fcf alg tick cap [] s = Some (s, [])"
| "rx_run cf fcf alg tick cap ((p, r) # ins) s =
     do {
       (s, evs) \<leftarrow> rx_pass cf fcf alg tick cap p r s;
       (s, evs') \<leftarrow> rx_run cf fcf alg tick cap ins s;
       Some (s, evs @ evs')
     }"

definition line_reads :: "(poll_result \<times> read_result) list \<Rightarrow> octet list" where
  "line_reads ins = concat (map (\<lambda>(p, r). snd (ludlc_serial_read p r)) ins)"

definition line_up :: "(poll_result \<times> read_result) list \<Rightarrow> bool" where
  "line_up ins \<longleftrightarrow> (\<forall>(p, r) \<in> set ins. fst (ludlc_serial_read p r) < 0 \<longrightarrow> fst (ludlc_serial_read p r) = - EAGAIN)"

lemma failed_read: "fst (ludlc_serial_read p r) < 0 \<Longrightarrow> snd (ludlc_serial_read p r) = []"
  by (auto simp: ludlc_serial_read_def split: poll_result.splits sum.splits if_splits)

lemma rx_feed_framing:
  assumes "rx_feed cf fcf alg tick cap xs s = Some (t, evs)" "LUDLC_FS_FRAMING (s_fs s) \<noteq> Raw"
  shows "LUDLC_FS_FRAMING (s_fs t) = LUDLC_FS_FRAMING (s_fs s)"
  using assms
proof (induction "2 * length xs + (if dec_count (s_fs s) = 0 then 0 else 1)" arbitrary: xs s t evs rule: less_induct)
  case less
  show ?case
  proof (cases "xs = []")
    case True
    then show ?thesis
      using less.prems(1) by (simp add: rx_feed.simps [of cf fcf alg tick cap "[]"])
  next
    case ne: False
    obtain ds n d where f: "ludlc_dec_feed fcf alg (s_fs s, conn_stats (s_conn s)) xs = (ds, n, d)"
      by (metis surj_pair)
    note fc = feed_count [OF _ f, simplified, OF less.prems(2)]
    have fr: "LUDLC_FS_FRAMING (fst ds) = LUDLC_FS_FRAMING (s_fs s)"
      using fc(3) by simp
    note r = less.prems(1) [unfolded rx_feed.simps [of cf fcf alg tick cap xs s] f Let_def]
    show ?thesis
    proof (cases d)
      case True
      then obtain u e e' where u: "rx_complete cf alg tick cap (s\<lparr>s_fs := fst ds, s_conn := (s_conn s)\<lparr>conn_stats := snd ds\<rparr>\<rparr>) = Some (u, e)"
          "rx_feed cf fcf alg tick cap (drop n xs) u = Some (t, e')"
        using r ne by (auto split: Option.bind_splits)
      have uf: "LUDLC_FS_FRAMING (s_fs u) = LUDLC_FS_FRAMING (s_fs s)" "dec_count (s_fs u) = 0"
        using rx_complete_framing [OF u(1)] fr less.prems(2) by simp_all
      have "n \<noteq> 0 \<or> dec_count (s_fs s) \<noteq> 0"
        using feed_progress [of "(s_fs s, conn_stats (s_conn s))" fcf alg "hd xs" "tl xs" ds d] f ne less.prems(2) by (cases n) auto
      then show ?thesis
        using less.hyps [OF _ u(2)] uf fc(1) ne less.prems(2) by auto
    next
      case False
      then show ?thesis
        using r ne fc(2) fr by (auto simp: rx_feed.simps [of cf fcf alg tick cap "[]"])
    qed
  qed
qed

lemma rx_run_feed:
  assumes "line_up ins" "LUDLC_FS_FRAMING (s_fs s) \<noteq> Raw"
  shows "rx_run cf fcf alg tick cap ins s = rx_feed cf fcf alg tick cap (line_reads ins) s"
  using assms
proof (induction ins arbitrary: s)
  case Nil
  then show ?case
    by (simp add: line_reads_def rx_feed.simps [of _ _ _ _ _ "[]"])
next
  case (Cons i ins)
  obtain p r where i: "i = (p, r)"
    by (cases i)
  obtain ret bs where b: "ludlc_serial_read p r = (ret, bs)"
    by (cases "ludlc_serial_read p r")
  have pass: "rx_pass cf fcf alg tick cap p r s = rx_feed cf fcf alg tick cap bs s"
    using Cons.prems(1) b i failed_read [of p r]
    by (auto simp: rx_pass_def line_up_def rx_feed.simps [of _ _ _ _ _ "[]"])
  have l: "line_reads (i # ins) = bs @ line_reads ins"
    using b i by (simp add: line_reads_def)
  have "rx_run cf fcf alg tick cap ins u = rx_feed cf fcf alg tick cap (line_reads ins) u"
    if "rx_feed cf fcf alg tick cap bs s = Some (u, evs)" for u evs
    using Cons.IH [of u] Cons.prems rx_feed_framing [OF that] by (auto simp: line_up_def)
  then show ?case
    unfolding l rx_feed_append [OF Cons.prems(2)]
    by (simp add: i pass) (auto split: Option.bind_split)
qed

lemma rx_one_returns:
  assumes "link_ok cf (fst v)"
  obtains v' evs where "rx_one cf tick p v = Some (v', evs)" "link_ok cf (fst v')"
proof -
  obtain c ev k where v: "v = (c, ev, k)"
    by (cases v)
  let ?c = "c\<lparr>conn_stats := (conn_stats c)\<lparr>rx_packet := rx_packet (conn_stats c) + 1\<rparr>\<rparr>"
  have c: "link_ok cf ?c"
    using assms by (simp add: v link_ok_def)
  show thesis
  proof (cases "tick k")
    case None
    then show ?thesis
      using that [of "(?c, ev, k + 1)" "[]"] c by (simp add: rx_one_def v Let_def)
  next
    case (Some ts)
    obtain d evs where d: "ludlc_receive cf ?c p (length p) ts = Some (d, evs)" "op_effect cf ?c [] evs d"
      using receive_effect [of cf ?c p "length p" ts] c by (auto simp: link_ok_def)
    then have "link_ok cf d"
      using c by (simp add: link_ok_def op_effect_def)
    then show ?thesis
      using that Some d(1) by (simp add: rx_one_def v Let_def)
  qed
qed

lemma rx_all_returns:
  assumes "link_ok cf (fst v)"
  shows "\<exists>v' evs. rx_all cf tick ps v = Some (v', evs) \<and> link_ok cf (fst v')"
  using assms
proof (induction ps arbitrary: v)
  case (Cons p ps)
  obtain v1 evs where "rx_one cf tick p v = Some (v1, evs)" "link_ok cf (fst v1)"
    using rx_one_returns [OF Cons.prems] by blast
  then show ?case
    using Cons.IH [of v1] by auto
qed simp

text \<open>C26: the receiving thread hands the core the packets of the frames on the line, each once and in
  the order they were sent, whatever pieces the reads cut the stream into and however often
  they return empty-handed: the link is left as it would be by the packets handed over one
  by one. A frame the sender left open, which the escaping does when another is to follow,
  stays in the decoder until that one starts. The thread's loops return, and what is being
  sent is not touched.\<close>

theorem serial_rx_stream:
  fixes s :: "('c::len) word ludlc_serial_connection"
  defines "f \<equiv> LUDLC_FS_FRAMING (s_fs s)"
  assumes "csum_ok alg" "marks_ok fcf f" "rx_idle alg cap (s_fs s)" "link_ok cf (s_conn s)"
    and "\<forall>(p, eof) \<in> set frs. fits alg cap p" "line_up ins" "line_reads ins = frames_wire fcf alg f frs"
  shows "\<exists>t evs. rx_run cf fcf alg tick cap ins s = Some (t, evs) \<and>
    rx_all cf tick (arrived f frs) (rx_view s) = Some (rx_view t, evs) \<and>
    rx_holds alg cap (unclosed f frs) (s_fs t) \<and> link_ok cf (s_conn t) \<and> s_fifo t = s_fifo s"
proof -
  have "LUDLC_FS_FRAMING (s_fs s) \<noteq> Raw"
    using assms(3) by (auto simp: marks_ok_def f_def)
  then have run: "rx_run cf fcf alg tick cap ins s = rx_feed cf fcf alg tick cap (frames_wire fcf alg f frs) s"
    using rx_run_feed assms(7,8) by metis
  obtain v evs where v: "rx_all cf tick (arrived f frs) (rx_view s) = Some (v, evs)" "link_ok cf (fst v)"
    using rx_all_returns [of cf "rx_view s" tick "arrived f frs"] assms(5) by (auto simp: rx_view_def)
  obtain fs' where "feeds fcf alg cap (s_fs s) (frames_wire fcf alg f frs) fs' (arrived f frs)"
      "rx_holds alg cap (unclosed f frs) fs'"
  proof (cases "frs = []")
    case True
    then show ?thesis
      using that [of "s_fs s"] assms(4) feeds_nil [of fcf alg cap "s_fs s"] by (simp add: arrived_def unclosed_def rx_holds_def)
  next
    case False
    then show ?thesis
      using that frames_in [of alg cap None "s_fs s" fcf frs] assms(2-6) by (auto simp: rx_holds_def f_def)
  qed
  then show ?thesis
    using v run by (auto simp: feeds_def rx_view_def [symmetric])
qed

text \<open>Two escaped frames, the first left open, in two reads with an empty poll between them.\<close>

definition sample_frames :: "(octet list \<times> bool) list" where
  "sample_frames = [([1, 0, 9, 42], False), ([2, 0, 9, 0x55], True)]"

definition sample_line :: "octet list" where
  "sample_line = frames_wire default_framing_config (Some ludlc_crc16_ccitt_pr0) Hdlc sample_frames"

definition sample_receiver :: "uint16 ludlc_serial_connection" where
  "sample_receiver = rx_restart (Some ludlc_crc16_ccitt_pr0) (replicate 9 0) 7 (sample_serial\<lparr>s_fs := Hdlc_fs hdlc_zero\<rparr>)"

theorem serial_rx_stream_witness:
  "\<exists>t evs. rx_run small_config default_framing_config (Some ludlc_crc16_ccitt_pr0) (\<lambda>k. Some k) 7
      [(Poll_ready False True, Inr (take 5 sample_line)), (Poll_timeout, Inl 0), (Poll_ready False True, Inr (drop 5 sample_line))]
      sample_receiver = Some (t, evs) \<and>
    rx_all small_config (\<lambda>k. Some k) [[1, 0, 9, 42], [2, 0, 9, 0x55]] (sample_end, 1, 0) = Some (rx_view t, evs)"
proof -
  let ?ins = "[(Poll_ready False True, Inr (take 5 sample_line)), (Poll_timeout, Inl 0), (Poll_ready False True, Inr (drop 5 sample_line))]"
  have r: "rx_view sample_receiver = (sample_end, 1, 0)" "s_conn sample_receiver = sample_end"
      "LUDLC_FS_FRAMING (s_fs sample_receiver) = Hdlc" "rx_idle (Some ludlc_crc16_ccitt_pr0) 7 (s_fs sample_receiver)"
    by (simp_all add: sample_receiver_def rx_restart_def sample_serial_def rx_view_def LUDLC_FS_FRAMING_def ludlc_dec_init_def
        ludlc_dec_prep_def rx_idle_def ludlc_hdlc_dec_prep_def Let_def)
  have m: "marks_ok default_framing_config Hdlc"
    by (simp add: marks_ok_def hdlc_marks_ok_def default_framing_config_def)
  have f: "\<forall>(p, eof) \<in> set sample_frames. fits (Some ludlc_crc16_ccitt_pr0) 7 p"
    by (simp add: sample_frames_def fits_def ludlc_csum_octets_def ludlc_crc16_ccitt_pr0_def)
  have l: "line_reads ?ins = sample_line" "line_up ?ins"
    by (simp_all add: line_reads_def line_up_def ludlc_serial_read_def)
  have a: "arrived Hdlc sample_frames = [[1, 0, 9, 42], [2, 0, 9, 0x55]]"
    by (simp add: arrived_def sample_frames_def closes_def)
  show ?thesis
    using serial_rx_stream [of "Some ludlc_crc16_ccitt_pr0" default_framing_config sample_receiver 7 small_config sample_frames ?ins "\<lambda>k. Some k"]
      crc16_residual m f l a r sample_serial_ok(2) by (auto simp: sample_line_def tx_thread_start_def sample_serial_def)
qed

end
