(* ===== verification/Ludlc_Serial_Life.thy ===== *)
theory Ludlc_Serial_Life
  imports Ludlc_Serial_Rx
begin

text \<open>
  Setting a serial link up and tearing it down: what was taken from the system is given back
  once, in an order in which nothing in use is given back, whichever step fails.
\<close>

section \<open>What is held\<close>

text \<open>What a resource is used with; the threads use everything else.\<close>

fun needs :: "resource \<Rightarrow> resource set" where
  "needs Conn_memory = {}"
| "needs Framing_object = {Conn_memory}"
| "needs Uart = {Conn_memory}"
| "needs Rx_thread = {Conn_memory, Framing_object, Uart}"
| "needs Tx_thread = {Conn_memory, Framing_object, Uart}"

text \<open>
  What is held after a row of calls, or nothing if one of them takes what is held already,
  gives back what is not, or leaves something without what it needs.
\<close>

fun held_after :: "resource set \<Rightarrow> life_call list \<Rightarrow> resource set option" where
  "held_after R [] = Some R"
| "held_after R (Take r # cs) = (if r \<in> R \<or> \<not> needs r \<subseteq> R then None else held_after (insert r R) cs)"
| "held_after R (Give r # cs) = (if r \<notin> R \<or> (\<exists>x \<in> R. r \<in> needs x) then None else held_after (R - {r}) cs)"

lemma held_append: "held_after R (xs @ ys) = Option.bind (held_after R xs) (\<lambda>R. held_after R ys)"
  by (induction R xs rule: held_after.induct) auto


section \<open>Taking a link down\<close>





lemma with_requests_simps [simp]:
  "s_flags (with_requests evs s) = s_flags s" "s_open (with_requests evs s) = s_open s" "s_conn (with_requests evs s) = s_conn s"
  "s_fs (with_requests evs s) = s_fs s" "s_fifo (with_requests evs s) = s_fifo s"
  by (simp_all add: with_requests_def ludlc_platform_request_tx_def)



section \<open>Setting a link up\<close>



section \<open>Properties\<close>









end
