(* ===== verification/Ludlc_Posix.thy ===== *)
theory Ludlc_Posix
  imports Ludlc_Session
begin

text \<open>
  The platform services of the POSIX port (\<open>src/src/lib/platform/posix/ludlc_posix_platform.c\<close>):
  timers, whose expiries run on threads of their own beside the calls that start and stop
  them, the request to transmit as the thread it wakes sees it, and the pipes of a
  connection. An access to a shared flag is one step; between two steps of one thread the
  others may make any number of theirs.
\<close>

section \<open>Timers\<close>

text \<open>
  The timer of the system: armed or not, and whether it comes again after an expiry. The
  flags are those of \<open>ludlc_platform_timer_t\<close>.
\<close>

record posix_timer =
  tm_armed :: "bool option"
  tm_pending :: bool
  tm_periodic :: bool
  handler_running :: bool

definition ludlc_platform_init_timer :: "int \<Rightarrow> int \<times> posix_timer" where
  "ludlc_platform_init_timer create_errno =
     (let tm = \<lparr>tm_armed = None, tm_pending = False, tm_periodic = False, handler_running = False\<rparr>
      in if create_errno \<noteq> 0 then (- create_errno, tm) else (0, tm))"

text \<open>Seconds and nanoseconds of a time in microseconds.\<close>

definition timer_spec :: "uint32 \<Rightarrow> nat \<times> nat" where
  "timer_spec us = (unat us div 1000000, unat us mod 1000000 * 1000)"

text \<open>A time of zero disarms.\<close>

definition ludlc_platform_start_timer :: "int \<Rightarrow> posix_timer \<Rightarrow> uint32 \<Rightarrow> uint32 \<Rightarrow> int \<times> posix_timer" where
  "ludlc_platform_start_timer settime_errno tm delay period =
     (let tm = tm\<lparr>tm_periodic := period \<noteq> 0, tm_pending := True\<rparr>
      in if settime_errno \<noteq> 0 then (- settime_errno, tm\<lparr>tm_pending := False\<rparr>)
         else (0, tm\<lparr>tm_armed := (if timer_spec delay = (0, 0) then None else Some (timer_spec period \<noteq> (0, 0)))\<rparr>))"

lemma timer_spec_exact:
  "snd (timer_spec us) < 1000000000" "fst (timer_spec us) * 1000000000 + snd (timer_spec us) = unat us * 1000"
proof -
  show "snd (timer_spec us) < 1000000000"
    using mod_less_divisor [of 1000000 "unat us"] unfolding timer_spec_def snd_conv by linarith
  have "unat us div 1000000 * 1000000 + unat us mod 1000000 = unat us"
    by (rule div_mult_mod_eq)
  then show "fst (timer_spec us) * 1000000000 + snd (timer_spec us) = unat us * 1000"
    unfolding timer_spec_def fst_conv snd_conv by linarith
qed

subsection \<open>A stop among expiries\<close>

text \<open>
  The threads an expiry runs \<open>posix_timer_handler\<close> on, and the call of
  \<open>ludlc_platform_stop_timer\<close>, step by step. A thread that is gone stays in the list.
\<close>

datatype handler = H_entered | H_marked | H_loaded bool | H_calling | H_called | H_gone
datatype stopper = Stop_begin | Stop_cleared | Stop_waiting | Stop_returned | Stop_failed

record timer_run =
  tr_timer :: posix_timer
  tr_handlers :: "handler list"
  tr_stop :: stopper

definition set_handler :: "nat \<Rightarrow> handler \<Rightarrow> timer_run \<Rightarrow> timer_run" where
  "set_handler i h s = s\<lparr>tr_handlers := (tr_handlers s)[i := h]\<rparr>"

inductive timer_step :: "timer_run \<Rightarrow> timer_run \<Rightarrow> bool" where
  t_expire: "tm_armed (tr_timer s) = Some again \<Longrightarrow>
    timer_step s (s\<lparr>tr_handlers := tr_handlers s @ [H_entered],
      tr_timer := (tr_timer s)\<lparr>tm_armed := if again then Some True else None\<rparr>\<rparr>)"
| t_mark: "i < length (tr_handlers s) \<Longrightarrow> tr_handlers s ! i = H_entered \<Longrightarrow>
    timer_step s (set_handler i H_marked (s\<lparr>tr_timer := (tr_timer s)\<lparr>handler_running := True\<rparr>\<rparr>))"
| t_load: "i < length (tr_handlers s) \<Longrightarrow> tr_handlers s ! i = H_marked \<Longrightarrow>
    timer_step s (set_handler i (H_loaded (tm_periodic (tr_timer s))) s)"
| t_exchange: "i < length (tr_handlers s) \<Longrightarrow> tr_handlers s ! i = H_loaded p \<Longrightarrow>
    timer_step s (set_handler i (if tm_pending (tr_timer s) then H_calling else H_called)
      (s\<lparr>tr_timer := (tr_timer s)\<lparr>tm_pending := p\<rparr>\<rparr>))"
| t_callback: "i < length (tr_handlers s) \<Longrightarrow> tr_handlers s ! i = H_calling \<Longrightarrow>
    timer_step s (set_handler i H_called s)"
| t_leave: "i < length (tr_handlers s) \<Longrightarrow> tr_handlers s ! i = H_called \<Longrightarrow>
    timer_step s (set_handler i H_gone (s\<lparr>tr_timer := (tr_timer s)\<lparr>handler_running := False\<rparr>\<rparr>))"
| t_clear: "tr_stop s = Stop_begin \<Longrightarrow>
    timer_step s (s\<lparr>tr_stop := Stop_cleared, tr_timer := (tr_timer s)\<lparr>tm_pending := False\<rparr>\<rparr>)"
| t_disarm: "tr_stop s = Stop_cleared \<Longrightarrow>
    timer_step s (s\<lparr>tr_stop := Stop_waiting, tr_timer := (tr_timer s)\<lparr>tm_armed := None\<rparr>\<rparr>)"
| t_disarm_fails: "tr_stop s = Stop_cleared \<Longrightarrow> timer_step s (s\<lparr>tr_stop := Stop_failed\<rparr>)"
| t_waited: "tr_stop s = Stop_waiting \<Longrightarrow> \<not> handler_running (tr_timer s) \<Longrightarrow>
    timer_step s (s\<lparr>tr_stop := Stop_returned\<rparr>)"

inductive_cases timer_stepE: "timer_step s t"

text \<open>Where a stop may begin: each handler where its thread is, the flag set while one is inside.\<close>

definition inside :: "handler \<Rightarrow> bool" where
  "inside h \<longleftrightarrow> h \<notin> {H_entered, H_gone}"

definition stop_begins :: "timer_run \<Rightarrow> bool" where
  "stop_begins s \<longleftrightarrow> tr_stop s = Stop_begin \<and> (handler_running (tr_timer s) \<longleftrightarrow> (\<exists>h \<in> set (tr_handlers s). inside h))"

text \<open>With one expiry at the most, the stop closes the race with it.\<close>

definition before_exchange :: "handler \<Rightarrow> bool" where
  "before_exchange h \<longleftrightarrow> h = H_entered \<or> h = H_marked \<or> (\<exists>p. h = H_loaded p)"

definition one_handler_inv :: "timer_run \<Rightarrow> bool" where
  "one_handler_inv s \<longleftrightarrow> length (tr_handlers s) \<le> 1 \<longrightarrow>
     (handler_running (tr_timer s) \<longleftrightarrow> (\<exists>h \<in> set (tr_handlers s). inside h)) \<and>
     (tr_stop s \<noteq> Stop_begin \<longrightarrow> (\<forall>h \<in> set (tr_handlers s). before_exchange h \<longrightarrow> \<not> tm_pending (tr_timer s)) \<and>
        (tr_handlers s = [] \<longrightarrow> \<not> tm_pending (tr_timer s))) \<and>
     (tr_stop s \<in> {Stop_waiting, Stop_returned} \<longrightarrow> tm_armed (tr_timer s) = None) \<and>
     (tr_stop s = Stop_returned \<longrightarrow> H_calling \<notin> set (tr_handlers s))"

lemma le_one_cases: "length xs \<le> 1 \<Longrightarrow> (xs = [] \<Longrightarrow> P) \<Longrightarrow> (\<And>x. xs = [x] \<Longrightarrow> P) \<Longrightarrow> P"
  by (cases xs) auto

lemma one_handler_step:
  assumes "timer_step s t" "one_handler_inv s"
  shows "one_handler_inv t"
  unfolding one_handler_inv_def
proof
  assume l: "length (tr_handlers t) \<le> 1"
  have "length (tr_handlers s) \<le> length (tr_handlers t)"
    using assms(1) by cases (simp_all add: set_handler_def)
  then have inv: "length (tr_handlers s) \<le> 1"
    using l by linarith
  then show "(handler_running (tr_timer t) \<longleftrightarrow> (\<exists>h \<in> set (tr_handlers t). inside h)) \<and>
     (tr_stop t \<noteq> Stop_begin \<longrightarrow> (\<forall>h \<in> set (tr_handlers t). before_exchange h \<longrightarrow> \<not> tm_pending (tr_timer t)) \<and>
        (tr_handlers t = [] \<longrightarrow> \<not> tm_pending (tr_timer t))) \<and>
     (tr_stop t \<in> {Stop_waiting, Stop_returned} \<longrightarrow> tm_armed (tr_timer t) = None) \<and>
     (tr_stop t = Stop_returned \<longrightarrow> H_calling \<notin> set (tr_handlers t))"
  proof (rule le_one_cases)
    assume e: "tr_handlers s = []"
    show ?thesis
      using assms(1) by cases (use e l assms(2) in \<open>auto simp: one_handler_inv_def set_handler_def inside_def before_exchange_def\<close>)
  next
    fix h assume e: "tr_handlers s = [h]"
    show ?thesis
      using assms(1) by cases (use e l assms(2) in \<open>auto simp: one_handler_inv_def set_handler_def inside_def before_exchange_def less_Suc_eq\<close>)
  qed
qed

text \<open>A run written out state by state.\<close>

definition run_state :: "bool option \<Rightarrow> bool \<Rightarrow> bool \<Rightarrow> bool \<Rightarrow> handler list \<Rightarrow> stopper \<Rightarrow> timer_run" where
  "run_state armed pending periodic running hs st =
     \<lparr>tr_timer = \<lparr>tm_armed = armed, tm_pending = pending, tm_periodic = periodic, handler_running = running\<rparr>,
      tr_handlers = hs, tr_stop = st\<rparr>"

lemma run_state_steps:
  "timer_step\<^sup>*\<^sup>* s (run_state a p per r hs Stop_begin) \<Longrightarrow> timer_step\<^sup>*\<^sup>* s (run_state a False per r hs Stop_cleared)"
  "timer_step\<^sup>*\<^sup>* s (run_state a p per r hs Stop_cleared) \<Longrightarrow> timer_step\<^sup>*\<^sup>* s (run_state None p per r hs Stop_waiting)"
  "timer_step\<^sup>*\<^sup>* s (run_state a p per False hs Stop_waiting) \<Longrightarrow> timer_step\<^sup>*\<^sup>* s (run_state a p per False hs Stop_returned)"
  "timer_step\<^sup>*\<^sup>* s (run_state (Some True) p per r hs st) \<Longrightarrow> timer_step\<^sup>*\<^sup>* s (run_state (Some True) p per r (hs @ [H_entered]) st)"
  "timer_step\<^sup>*\<^sup>* s (run_state a p per r hs st) \<Longrightarrow> i < length hs \<Longrightarrow> hs ! i = H_entered \<Longrightarrow>
     timer_step\<^sup>*\<^sup>* s (run_state a p per True (hs[i := H_marked]) st)"
  "timer_step\<^sup>*\<^sup>* s (run_state a p per r hs st) \<Longrightarrow> i < length hs \<Longrightarrow> hs ! i = H_marked \<Longrightarrow>
     timer_step\<^sup>*\<^sup>* s (run_state a p per r (hs[i := H_loaded per]) st)"
  "timer_step\<^sup>*\<^sup>* s (run_state a p per r hs st) \<Longrightarrow> i < length hs \<Longrightarrow> hs ! i = H_loaded q \<Longrightarrow>
     timer_step\<^sup>*\<^sup>* s (run_state a q per r (hs[i := if p then H_calling else H_called]) st)"
  "timer_step\<^sup>*\<^sup>* s (run_state a p per r hs st) \<Longrightarrow> i < length hs \<Longrightarrow> hs ! i = H_called \<Longrightarrow>
     timer_step\<^sup>*\<^sup>* s (run_state a p per False (hs[i := H_gone]) st)"
  using t_clear [of "run_state a p per r hs Stop_begin"] t_disarm [of "run_state a p per r hs Stop_cleared"]
    t_waited [of "run_state a p per False hs Stop_waiting"] t_expire [of "run_state (Some True) p per r hs st" True]
    t_mark [of i "run_state a p per r hs st"] t_load [of i "run_state a p per r hs st"]
    t_exchange [of i "run_state a p per r hs st" q] t_leave [of i "run_state a p per r hs st"]
  by (auto simp: run_state_def set_handler_def elim!: rtranclp.rtrancl_into_rtrancl)

text \<open>
  A second expiry is one too many. A handler of a periodic timer that exchanges the flag
  after the stop has cleared it sets it again, so that an expiry before the timer is
  disarmed runs its callback after the stop has returned; and a handler that leaves clears
  the mark of one whose callback is running, which the stop then does not wait for.
\<close>

lemma periodic_stop_undone:
  "\<exists>t. timer_step\<^sup>*\<^sup>* (run_state (Some True) True True True [H_loaded True] Stop_begin) t \<and>
     tr_stop t = Stop_returned \<and> H_calling \<in> set (tr_handlers t)"
proof -
  let ?s = "run_state (Some True) True True True [H_loaded True] Stop_begin"
  have "timer_step\<^sup>*\<^sup>* ?s (run_state (Some True) False True True [H_loaded True] Stop_cleared)"
    by (rule run_state_steps(1)) (rule rtranclp.rtrancl_refl)
  from run_state_steps(7) [OF this, of 0 True] have "timer_step\<^sup>*\<^sup>* ?s (run_state (Some True) True True True [H_called] Stop_cleared)"
    by simp
  from run_state_steps(8) [OF this, of 0] have "timer_step\<^sup>*\<^sup>* ?s (run_state (Some True) True True False [H_gone] Stop_cleared)"
    by simp
  from run_state_steps(4) [OF this] have "timer_step\<^sup>*\<^sup>* ?s (run_state (Some True) True True False [H_gone, H_entered] Stop_cleared)"
    by simp
  from run_state_steps(3) [OF run_state_steps(2) [OF this]]
  have "timer_step\<^sup>*\<^sup>* ?s (run_state None True True False [H_gone, H_entered] Stop_returned)" .
  from run_state_steps(5) [OF this, of 1] have "timer_step\<^sup>*\<^sup>* ?s (run_state None True True True [H_gone, H_marked] Stop_returned)"
    by simp
  from run_state_steps(6) [OF this, of 1] have "timer_step\<^sup>*\<^sup>* ?s (run_state None True True True [H_gone, H_loaded True] Stop_returned)"
    by simp
  from run_state_steps(7) [OF this, of 1 True] have "timer_step\<^sup>*\<^sup>* ?s (run_state None True True True [H_gone, H_calling] Stop_returned)"
    by simp
  then show ?thesis
    by (auto simp: run_state_def)
qed

lemma shared_mark_cleared:
  "\<exists>t. timer_step\<^sup>*\<^sup>* (run_state None False False True [H_calling, H_called] Stop_begin) t \<and>
     tr_stop t = Stop_returned \<and> H_calling \<in> set (tr_handlers t)"
proof -
  let ?s = "run_state None False False True [H_calling, H_called] Stop_begin"
  have "timer_step\<^sup>*\<^sup>* ?s (run_state None False False True [H_calling, H_called] Stop_waiting)"
    by (rule run_state_steps(2) [OF run_state_steps(1)]) (rule rtranclp.rtrancl_refl)
  from run_state_steps(8) [OF this, of 1] have "timer_step\<^sup>*\<^sup>* ?s (run_state None False False False [H_calling, H_gone] Stop_waiting)"
    by simp
  from run_state_steps(3) [OF this] show ?thesis
    by (auto simp: run_state_def)
qed

section \<open>Waking the transmitting thread\<close>

text \<open>
  A request sets the flag and then writes to the pipe, which keeps the octet unless it is
  full. The thread looks at the flag before it sleeps; woken, it empties the pipe, and then
  takes the flag. \<open>w_writing\<close> counts the calls between their two steps.
\<close>

datatype tx_pc = W_look | W_sleep | W_drain | W_take

record tx_wakeup =
  w_events :: uint32
  w_pipe :: nat
  w_writing :: nat
  w_pc :: tx_pc

inductive wakeup_step :: "tx_wakeup \<Rightarrow> tx_wakeup \<Rightarrow> bool" where
  w_request: "wakeup_step s (s\<lparr>w_events := ludlc_platform_set_bit 0 (w_events s), w_writing := w_writing s + 1\<rparr>)"
| w_write: "0 < w_writing s \<Longrightarrow> wakeup_step s (s\<lparr>w_pipe := w_pipe s + 1, w_writing := w_writing s - 1\<rparr>)"
| w_full: "0 < w_writing s \<Longrightarrow> 0 < w_pipe s \<Longrightarrow> wakeup_step s (s\<lparr>w_writing := w_writing s - 1\<rparr>)"
| w_look: "w_pc s = W_look \<Longrightarrow>
    wakeup_step s (s\<lparr>w_pc := if ludlc_platform_test_bit 0 (w_events s) then W_take else W_sleep\<rparr>)"
| w_awake: "w_pc s = W_look \<Longrightarrow> wakeup_step s (s\<lparr>w_pc := W_take\<rparr>)"
| w_wake: "w_pc s = W_sleep \<Longrightarrow> 0 < w_pipe s \<Longrightarrow> wakeup_step s (s\<lparr>w_pc := W_drain\<rparr>)"
| w_other: "w_pc s = W_sleep \<Longrightarrow> wakeup_step s (s\<lparr>w_pc := pc\<rparr>)" if "pc \<in> {W_look, W_take}"
| w_drain: "w_pc s = W_drain \<Longrightarrow> wakeup_step s (s\<lparr>w_pipe := 0, w_pc := W_take\<rparr>)"
| w_take: "w_pc s = W_take \<Longrightarrow>
    wakeup_step s (s\<lparr>w_events := snd (ludlc_platform_test_and_clear_bit 0 (w_events s)), w_pc := W_look\<rparr>)"
| w_busy: "w_pc s = W_take \<Longrightarrow> wakeup_step s (s\<lparr>w_pc := W_look\<rparr>)"

definition wakeup_inv :: "tx_wakeup \<Rightarrow> bool" where
  "wakeup_inv s \<longleftrightarrow> (w_pc s = W_sleep \<and> ludlc_platform_test_bit 0 (w_events s) \<longrightarrow> 0 < w_pipe s \<or> 0 < w_writing s)"

lemma wakeup_step_inv: "wakeup_step s t \<Longrightarrow> wakeup_inv s \<Longrightarrow> wakeup_inv t"
  by (induction rule: wakeup_step.induct) (auto simp: wakeup_inv_def)

section \<open>The pipes of a connection\<close>

text \<open>
  Which of the two pipes is open. A pipe is made and its ends are told not to block, the
  receiving one first; each call answers with zero or an \<open>errno\<close>.
\<close>

record conn_pipes =
  rx_pipe_open :: bool
  tx_pipe_open :: bool

definition ludlc_platform_conn_destroy :: "conn_pipes \<Rightarrow> conn_pipes" where
  "ludlc_platform_conn_destroy p = p\<lparr>rx_pipe_open := False, tx_pipe_open := False\<rparr>"

definition ludlc_platform_conn_init :: "int \<Rightarrow> int \<Rightarrow> int \<Rightarrow> int \<Rightarrow> int \<times> conn_pipes" where
  "ludlc_platform_conn_init rx_pipe rx_fcntl tx_pipe tx_fcntl =
     (let p = \<lparr>rx_pipe_open = False, tx_pipe_open = False\<rparr> in
      if rx_pipe \<noteq> 0 then (- rx_pipe, p)
      else
        let p = p\<lparr>rx_pipe_open := True\<rparr> in
        if rx_fcntl \<noteq> 0 then (- rx_fcntl, ludlc_platform_conn_destroy p)
        else if tx_pipe \<noteq> 0 then (- tx_pipe, ludlc_platform_conn_destroy p)
        else
          let p = p\<lparr>tx_pipe_open := True\<rparr> in
          if tx_fcntl \<noteq> 0 then (- tx_fcntl, ludlc_platform_conn_destroy p) else (0, p))"

lemma conn_init_pipes:
  "ludlc_platform_conn_init a b c d = (ret, p) \<Longrightarrow> (rx_pipe_open p \<longleftrightarrow> ret = 0) \<and> (tx_pipe_open p \<longleftrightarrow> ret = 0)"
  by (auto simp: ludlc_platform_conn_init_def ludlc_platform_conn_destroy_def Let_def split: if_splits)

text \<open>
  What \<open>ludlc_connection_init\<close> takes from the port and gives back. A timer that cannot be
  made leaves the pipes behind: the error path frees the queue only, and a connection that
  is not initialised is not cleaned up later.
\<close>

datatype port_resource = Port_pipes | Port_ping_timer | Port_wd_timer
datatype port_call = Port_take port_resource | Port_give port_resource

definition init_port_calls :: "platform_env \<Rightarrow> port_call list" where
  "init_port_calls env =
     (if env_conn_init env \<noteq> 0 then []
      else Port_take Port_pipes #
        (if env_init_ping_timer env \<noteq> 0 then []
         else Port_take Port_ping_timer #
           (if env_init_wd_timer env \<noteq> 0 then [Port_give Port_ping_timer] else [Port_take Port_wd_timer])))"

lemma init_leaves_pipes:
  assumes "ludlc_connection_init cf env cfg cb = (ret, c)" "env_conn_init env = 0" "env_init_ping_timer env \<noteq> 0"
  shows "Port_take Port_pipes \<in> set (init_port_calls env) \<and> Port_give Port_pipes \<notin> set (init_port_calls env) \<and>
    (ret \<noteq> 0 \<longrightarrow> \<not> has_flag LUDLC_CONN_INITED_F c)"
  using assms
  by (auto simp: init_port_calls_def ludlc_connection_init_def conn_zero_def ludlc_conn_queue_alloc_def ludlc_conn_queue_free_def
      has_flag_bit flag_simps bit_simps Let_def split: if_splits)

section \<open>Properties\<close>

text \<open>C37: stopping a timer closes the race with an expiry. When the stop returns, the callback is
  not running and will not run, however the accesses of the stop and of the expiry were
  interleaved and wherever the expiry was when the stop began, as long as one expiry at the
  most was in flight or happened during the stop.\<close>

theorem stop_timer_quiet:
  assumes "stop_begins s" "timer_step\<^sup>*\<^sup>* s t" "tr_stop t = Stop_returned" "length (tr_handlers t) \<le> 1"
  shows "H_calling \<notin> set (tr_handlers t) \<and> tm_armed (tr_timer t) = None"
proof -
  have "one_handler_inv s"
    using assms(1) by (auto simp: one_handler_inv_def stop_begins_def)
  with assms(2) have "one_handler_inv t"
    by (induction rule: rtranclp_induct) (auto intro: one_handler_step)
  then show ?thesis
    using assms(3,4) by (simp add: one_handler_inv_def)
qed

theorem stop_timer_quiet_witness:
  "H_calling \<notin> set (tr_handlers (run_state None True True False [H_gone] Stop_returned)) \<and>
   timer_step\<^sup>*\<^sup>* (run_state (Some True) True True True [H_marked] Stop_begin) (run_state None True True False [H_gone] Stop_returned)"
proof -
  let ?s = "run_state (Some True) True True True [H_marked] Stop_begin"
  have "timer_step\<^sup>*\<^sup>* ?s (run_state None False True True [H_marked] Stop_waiting)"
    by (rule run_state_steps(2) [OF run_state_steps(1)]) (rule rtranclp.rtrancl_refl)
  from run_state_steps(6) [OF this, of 0] have "timer_step\<^sup>*\<^sup>* ?s (run_state None False True True [H_loaded True] Stop_waiting)"
    by simp
  from run_state_steps(7) [OF this, of 0 True] have "timer_step\<^sup>*\<^sup>* ?s (run_state None True True True [H_called] Stop_waiting)"
    by simp
  from run_state_steps(8) [OF this, of 0] have "timer_step\<^sup>*\<^sup>* ?s (run_state None True True False [H_gone] Stop_waiting)"
    by simp
  from run_state_steps(3) [OF this] have r: "timer_step\<^sup>*\<^sup>* ?s (run_state None True True False [H_gone] Stop_returned)" .
  have "stop_begins ?s"
    by (simp add: stop_begins_def run_state_def inside_def)
  from stop_timer_quiet [OF this r] r show ?thesis
    by (simp add: run_state_def)
qed

text \<open>C38: no request to transmit is lost. Whatever the order in which calls set the flag and write
  to the pipe and the thread looks at the flag, sleeps, empties the pipe and takes the flag,
  the thread never sleeps on an empty pipe with the flag set, unless a call is on its way to
  write to the pipe and so to wake it.\<close>

theorem no_lost_wakeup:
  assumes "wakeup_step\<^sup>*\<^sup>* \<lparr>w_events = w, w_pipe = 0, w_writing = 0, w_pc = W_look\<rparr> s" "w_pc s = W_sleep"
    and "ludlc_platform_test_bit 0 (w_events s)" "w_writing s = 0"
  shows "0 < w_pipe s"
proof -
  have "wakeup_inv s"
    using assms(1)
  proof (induction rule: rtranclp_induct)
    case base
    show ?case by (simp add: wakeup_inv_def)
  next
    case (step y z)
    then show ?case by (blast intro: wakeup_step_inv)
  qed
  then show ?thesis
    using assms(2-4) by (simp add: wakeup_inv_def)
qed

theorem no_lost_wakeup_witness:
  "0 < w_pipe \<lparr>w_events = 1, w_pipe = 1, w_writing = 0, w_pc = W_sleep\<rparr>"
proof -
  let ?s = "\<lparr>w_events = 0, w_pipe = 0, w_writing = 0, w_pc = W_look\<rparr>"
  have "wakeup_step\<^sup>*\<^sup>* ?s \<lparr>w_events = 0, w_pipe = 0, w_writing = 0, w_pc = W_sleep\<rparr>"
    using w_look [of ?s] by (auto simp: ludlc_platform_test_bit_def)
  moreover have "wakeup_step \<lparr>w_events = 0, w_pipe = 0, w_writing = 0, w_pc = W_sleep\<rparr> \<lparr>w_events = 1, w_pipe = 0, w_writing = 1, w_pc = W_sleep\<rparr>"
    using w_request [of "\<lparr>w_events = 0, w_pipe = 0, w_writing = 0, w_pc = W_sleep\<rparr>"]
    by (simp add: ludlc_platform_set_bit_def LUDLC_ATOMIC_MASK_def)
  moreover have "wakeup_step \<lparr>w_events = 1, w_pipe = 0, w_writing = 1, w_pc = W_sleep\<rparr> \<lparr>w_events = 1, w_pipe = 1, w_writing = 0, w_pc = W_sleep\<rparr>"
    using w_write [of "\<lparr>w_events = 1, w_pipe = 0, w_writing = 1, w_pc = W_sleep\<rparr>"] by simp
  ultimately have "wakeup_step\<^sup>*\<^sup>* ?s \<lparr>w_events = 1, w_pipe = 1, w_writing = 0, w_pc = W_sleep\<rparr>"
    by (meson rtranclp.rtrancl_into_rtrancl)
  from no_lost_wakeup [OF this] show ?thesis
    by (simp add: ludlc_platform_test_bit_def LUDLC_ATOMIC_MASK_def)
qed

end
