(* ===== verification/Ludlc_Spi_Proto.thy ===== *)
theory Ludlc_Spi_Proto
  imports Ludlc_Config
begin

text \<open>
  The announcement that opens an exchange over SPI
  (\<open>src/src/lib/include/ludlc_spi_proto.h\<close>): \<open>struct ludlc_spi_hdr\<close>, how it is written and
  how it is read. A length travels as four octets, least significant first, under a check
  octet that is the exclusive or of the magic, the length octets and 0xff. The lemmas show
  that a length survives the trip, that nothing longer than the link carries is accepted,
  and that an octet changed anywhere, or a line stuck at zeros or ones, is refused.
\<close>

section \<open>The announcement\<close>

definition LUDLC_SPI_MAGIC :: octet where
  "LUDLC_SPI_MAGIC = 0x5a"

definition LUDLC_SPI_PAD :: octet where
  "LUDLC_SPI_PAD = 0"

record ludlc_spi_hdr =
  hdr_magic :: octet
  hdr_check :: octet
  hdr_len :: "octet list"

definition LUDLC_SPI_HDR_LEN :: nat where
  "LUDLC_SPI_HDR_LEN = 6"

definition spi_hdr_octets :: "ludlc_spi_hdr \<Rightarrow> octet list" where
  "spi_hdr_octets h = hdr_magic h # hdr_check h # hdr_len h"

definition spi_hdr_of_octets :: "octet list \<Rightarrow> ludlc_spi_hdr" where
  "spi_hdr_of_octets os = \<lparr>hdr_magic = os ! 0, hdr_check = os ! 1, hdr_len = drop 2 os\<rparr>"

fun spi_put_loop :: "uint32 \<Rightarrow> nat \<Rightarrow> nat \<Rightarrow> ludlc_spi_hdr \<Rightarrow> ludlc_spi_hdr" where
  "spi_put_loop len i 0 h = h"
| "spi_put_loop len i (Suc n) h =
     (let o1 = ucast (drop_bit (8 * i) len);
          h = h\<lparr>hdr_len := (hdr_len h)[i := o1]\<rparr>;
          h = h\<lparr>hdr_check := hdr_check h XOR hdr_len h ! i\<rparr>
      in spi_put_loop len (i + 1) n h)"

definition ludlc_spi_hdr_put :: "ludlc_spi_hdr \<Rightarrow> uint32 \<Rightarrow> ludlc_spi_hdr" where
  "ludlc_spi_hdr_put hdr len =
     (let hdr = hdr\<lparr>hdr_magic := LUDLC_SPI_MAGIC\<rparr>;
          hdr = hdr\<lparr>hdr_check := LUDLC_SPI_MAGIC XOR 0xff\<rparr>
      in spi_put_loop len 0 4 hdr)"

fun spi_get_loop :: "ludlc_spi_hdr \<Rightarrow> nat \<Rightarrow> nat \<Rightarrow> uint32 \<Rightarrow> octet \<Rightarrow> uint32 \<times> octet" where
  "spi_get_loop h i 0 len check = (len, check)"
| "spi_get_loop h i (Suc n) len check =
     spi_get_loop h (i + 1) n (len OR push_bit (8 * i) (ucast (hdr_len h ! i))) (check XOR hdr_len h ! i)"

definition ludlc_spi_hdr_get :: "ludlc_spi_hdr \<Rightarrow> ludlc_frame_size_t \<Rightarrow> int" where
  "ludlc_spi_hdr_get hdr max_frame =
     (let check = LUDLC_SPI_MAGIC XOR 0xff;
          len = 0
      in if hdr_magic hdr \<noteq> LUDLC_SPI_MAGIC then - 1
         else let (len, check) = spi_get_loop hdr 0 4 len check
              in if hdr_check hdr \<noteq> check then - 1
                 else if len > ucast max_frame then - 1
                 else uint len)"

section \<open>What the loops compute\<close>

lemma list4_cases:
  assumes "length xs = 4"
  shows "\<exists>a b c d. xs = [a, b, c, d]"
  using assms by (auto simp: numeral_eq_Suc length_Suc_conv)

lemma four: "(4::nat) = Suc (Suc (Suc (Suc 0)))"
  by simp

lemma spi_put_loop_4:
  "length (hdr_len h) = 4 \<Longrightarrow>
   spi_put_loop len 0 4 h =
     h\<lparr>hdr_len := [ucast len, ucast (drop_bit 8 len), ucast (drop_bit 16 len), ucast (drop_bit 24 len)],
       hdr_check := hdr_check h XOR ucast len XOR ucast (drop_bit 8 len) XOR ucast (drop_bit 16 len)
                      XOR ucast (drop_bit 24 len)\<rparr>"
  using list4_cases [of "hdr_len h"] by (auto simp: four Let_def ac_simps)

lemma spi_get_loop_4:
  "spi_get_loop h 0 4 0 c =
     (ucast (hdr_len h ! 0) OR push_bit 8 (ucast (hdr_len h ! 1)) OR push_bit 16 (ucast (hdr_len h ! 2))
        OR push_bit 24 (ucast (hdr_len h ! 3)),
      c XOR hdr_len h ! 0 XOR hdr_len h ! 1 XOR hdr_len h ! 2 XOR hdr_len h ! 3)"
  by (simp add: four numeral_eq_Suc ac_simps)

lemma octets_of_32:
  "ucast (ucast len :: octet) OR push_bit 8 (ucast (ucast (drop_bit 8 len) :: octet))
     OR push_bit 16 (ucast (ucast (drop_bit 16 len) :: octet))
     OR push_bit 24 (ucast (ucast (drop_bit 24 len) :: octet)) = (len :: uint32)"
proof (rule bit_word_eqI)
  fix n assume n: "n < LENGTH(32)"
  consider "n < 8" | "8 \<le> n" "n < 16" | "16 \<le> n" "n < 24" | "24 \<le> n" "n < 32"
    using n by fastforce
  then show "bit (ucast (ucast len :: octet) OR push_bit 8 (ucast (ucast (drop_bit 8 len) :: octet))
     OR push_bit 16 (ucast (ucast (drop_bit 16 len) :: octet))
     OR push_bit 24 (ucast (ucast (drop_bit 24 len) :: octet)) :: uint32) n \<longleftrightarrow> bit len n"
    by cases (auto simp: bit_or_iff bit_push_bit_iff bit_ucast_iff bit_drop_bit_eq)
qed

lemma spi_hdr_get_eq:
  assumes "length l = 4"
  shows "ludlc_spi_hdr_get \<lparr>hdr_magic = m, hdr_check = c, hdr_len = l\<rparr> maxf =
     (if m = LUDLC_SPI_MAGIC \<and> c = LUDLC_SPI_MAGIC XOR 0xff XOR l ! 0 XOR l ! 1 XOR l ! 2 XOR l ! 3
      then (let len = ucast (l ! 0) OR push_bit 8 (ucast (l ! 1)) OR push_bit 16 (ucast (l ! 2))
                        OR push_bit 24 (ucast (l ! 3)) :: uint32
            in if len > ucast maxf then - 1 else uint len)
      else - 1)"
  by (simp add: ludlc_spi_hdr_get_def spi_get_loop_4 Let_def xor.assoc)

lemma spi_put_octets:
  assumes "length (hdr_len h) = 4"
  shows "ludlc_spi_hdr_put h len =
     \<lparr>hdr_magic = LUDLC_SPI_MAGIC,
      hdr_check = LUDLC_SPI_MAGIC XOR 0xff XOR ucast len XOR ucast (drop_bit 8 len) XOR ucast (drop_bit 16 len)
                    XOR ucast (drop_bit 24 len),
      hdr_len = [ucast len, ucast (drop_bit 8 len), ucast (drop_bit 16 len), ucast (drop_bit 24 len)]\<rparr>"
  using assms by (cases h) (simp add: ludlc_spi_hdr_put_def spi_put_loop_4 xor.assoc)

lemma spi_get_put:
  assumes "length (hdr_len h) = 4"
  shows "ludlc_spi_hdr_get (ludlc_spi_hdr_put h len) maxf =
           (if unat len \<le> unat maxf then int (unat len) else - 1)"
proof -
  have "(len > (ucast maxf :: uint32)) = (\<not> unat len \<le> unat maxf)"
    by (auto simp: word_less_nat_alt unsigned_ucast_eq take_bit_nat_eq_self unat_16_less less_trans [OF unat_16_less])
  then show ?thesis
    using octets_of_32 [of len]
    by (simp add: spi_put_octets [OF assms] spi_hdr_get_eq Let_def)
qed

text \<open>The six octets on the wire and the structure.\<close>

lemma spi_hdr_of_octets_of: "spi_hdr_of_octets (spi_hdr_octets h) = h"
  by (cases h) (simp add: spi_hdr_of_octets_def spi_hdr_octets_def)

lemma length_spi_hdr_octets:
  "length (hdr_len h) = 4 \<Longrightarrow> length (spi_hdr_octets (ludlc_spi_hdr_put h len)) = LUDLC_SPI_HDR_LEN"
  by (simp add: spi_hdr_octets_def spi_put_octets LUDLC_SPI_HDR_LEN_def)

lemma length6_cases: "length e = 6 \<Longrightarrow> \<exists>a b c d f g. e = [a, b, c, d, f, g]"
  by (auto simp: numeral_eq_Suc length_Suc_conv)

lemma xor_left_self: "x XOR (x XOR y) = (y :: 'a::len word)"
  by (simp flip: xor.assoc)

lemma xor_eq_self: "x XOR y = x \<longleftrightarrow> y = (0 :: 'a::len word)"
  by (metis xor_left_self xor.right_neutral)

text \<open>Octets the damage \<open>e\<close> has changed: refused as soon as it touches the magic or does not cancel out.\<close>

lemma spi_get_damaged:
  assumes "length (hdr_len h) = 4" and "length e = 6" and "e ! 0 \<noteq> 0 \<or> foldr (XOR) (tl e) 0 \<noteq> 0"
  shows "ludlc_spi_hdr_get (spi_hdr_of_octets (map2 (XOR) (spi_hdr_octets (ludlc_spi_hdr_put h len)) e)) maxf = - 1"
proof -
  obtain m c x0 x1 x2 x3 where e: "e = [m, c, x0, x1, x2, x3]"
    using length6_cases [OF assms(2)] by blast
  define a0 a1 a2 a3 :: octet where
    a: "a0 = ucast len" "a1 = ucast (drop_bit 8 len)" "a2 = ucast (drop_bit 16 len)" "a3 = ucast (drop_bit 24 len)"
  define k :: octet where "k = LUDLC_SPI_MAGIC XOR 0xff"
  have put: "ludlc_spi_hdr_put h len =
      \<lparr>hdr_magic = LUDLC_SPI_MAGIC, hdr_check = k XOR a0 XOR a1 XOR a2 XOR a3, hdr_len = [a0, a1, a2, a3]\<rparr>"
    by (simp add: spi_put_octets [OF assms(1)] a k_def xor.assoc)
  have d: "LUDLC_SPI_MAGIC XOR m \<noteq> LUDLC_SPI_MAGIC \<or>
           (k XOR a0 XOR a1 XOR a2 XOR a3) XOR c \<noteq>
             k XOR (a0 XOR x0) XOR (a1 XOR x1) XOR (a2 XOR x2) XOR (a3 XOR x3)"
  proof (cases "m = 0")
    case True
    then have n: "c XOR x0 XOR x1 XOR x2 XOR x3 \<noteq> 0"
      using assms(3) by (simp add: e)
    let ?l = "(k XOR a0 XOR a1 XOR a2 XOR a3) XOR c"
    let ?r = "k XOR (a0 XOR x0) XOR (a1 XOR x1) XOR (a2 XOR x2) XOR (a3 XOR x3)"
    have "?l XOR ?r = c XOR x0 XOR x1 XOR x2 XOR x3"
      by (simp add: ac_simps xor_left_self)
    then have "?l \<noteq> ?r"
      using n by (metis xor_self_eq)
    then show ?thesis by blast
  qed (simp add: xor_eq_self)
  show ?thesis
    using d by (auto simp: e put spi_hdr_octets_def spi_hdr_of_octets_def spi_hdr_get_eq xor.assoc k_def)
qed

lemma spi_get_bounds:
  "ludlc_spi_hdr_get h maxf = - 1 \<or> (0 \<le> ludlc_spi_hdr_get h maxf \<and> ludlc_spi_hdr_get h maxf \<le> int (unat maxf))"
proof -
  have le: "\<not> (ucast maxf :: uint32) < l \<Longrightarrow> uint l \<le> uint maxf" for l :: uint32
  proof -
    assume "\<not> (ucast maxf :: uint32) < l"
    then have "unat l \<le> unat maxf"
      by (auto simp: word_less_nat_alt not_less unsigned_ucast_eq take_bit_nat_eq_self less_trans [OF unat_16_less])
    then show ?thesis
      by (simp only: uint_nat of_nat_le_iff)
  qed
  obtain l c where "spi_get_loop h 0 4 0 (LUDLC_SPI_MAGIC XOR 0xff) = (l, c)"
    by fastforce
  then show ?thesis
    by (auto simp: ludlc_spi_hdr_get_def Let_def le)
qed

lemma stuck_line:
  "b \<noteq> LUDLC_SPI_MAGIC \<Longrightarrow> ludlc_spi_hdr_get (spi_hdr_of_octets (replicate LUDLC_SPI_HDR_LEN b)) maxf = - 1"
  by (simp add: LUDLC_SPI_HDR_LEN_def ludlc_spi_hdr_get_def spi_hdr_of_octets_def Let_def numeral_eq_Suc)

lemma magic_not_stuck: "0 \<noteq> LUDLC_SPI_MAGIC" "0xff \<noteq> LUDLC_SPI_MAGIC"
  by (simp_all add: LUDLC_SPI_MAGIC_def)

section \<open>Properties\<close>

text \<open>C29: A length announced over SPI arrives as it was: the six octets ludlc_spi_hdr_put writes
  are read back by ludlc_spi_hdr_get as the same length, and refused exactly when it is longer
  than the receiving link carries.\<close>

theorem spi_announcement_roundtrip:
  assumes "length (hdr_len h) = 4"
  shows "length (spi_hdr_octets (ludlc_spi_hdr_put h len)) = LUDLC_SPI_HDR_LEN \<and>
         ludlc_spi_hdr_get (spi_hdr_of_octets (spi_hdr_octets (ludlc_spi_hdr_put h len))) maxf =
           (if unat len \<le> unat maxf then int (unat len) else - 1)"
  using assms by (simp add: length_spi_hdr_octets spi_hdr_of_octets_of spi_get_put)

theorem spi_announcement_roundtrip_witness:
  "ludlc_spi_hdr_get (spi_hdr_of_octets (spi_hdr_octets
     (ludlc_spi_hdr_put \<lparr>hdr_magic = 0, hdr_check = 0, hdr_len = [0, 0, 0, 0]\<rparr> 0x1234))) 0x2000 = 0x1234"
  using spi_announcement_roundtrip [of "\<lparr>hdr_magic = 0, hdr_check = 0, hdr_len = [0, 0, 0, 0]\<rparr>" "0x1234" "0x2000"]
  by simp

text \<open>C30: A damaged announcement is refused: octets changed on the wire, given as the pattern e
  they were changed by, make ludlc_spi_hdr_get return -1 when the magic is among them or the
  changes do not cancel out, so a single changed octet always does; a line stuck at zeros or
  at ones is refused too; and nothing is ever accepted that is longer than the link carries.\<close>

theorem spi_damage_refused:
  assumes "length (hdr_len h) = 4" and "length e = LUDLC_SPI_HDR_LEN"
    and "e ! 0 \<noteq> 0 \<or> foldr (XOR) (tl e) 0 \<noteq> 0"
  shows "ludlc_spi_hdr_get (spi_hdr_of_octets (map2 (XOR) (spi_hdr_octets (ludlc_spi_hdr_put h len)) e)) maxf = - 1 \<and>
         ludlc_spi_hdr_get (spi_hdr_of_octets (replicate LUDLC_SPI_HDR_LEN 0)) maxf = - 1 \<and>
         ludlc_spi_hdr_get (spi_hdr_of_octets (replicate LUDLC_SPI_HDR_LEN 0xff)) maxf = - 1 \<and>
         ludlc_spi_hdr_get g maxf \<in> {- 1 .. int (unat maxf)}"
proof (intro conjI)
  show "ludlc_spi_hdr_get (spi_hdr_of_octets (map2 (XOR) (spi_hdr_octets (ludlc_spi_hdr_put h len)) e)) maxf = - 1"
    using assms by (intro spi_get_damaged) (auto simp: LUDLC_SPI_HDR_LEN_def)
  show "ludlc_spi_hdr_get g maxf \<in> {- 1 .. int (unat maxf)}"
    using spi_get_bounds [of g maxf] by (elim disjE conjE) (simp_all add: order_trans [of _ 0])
qed (simp_all add: stuck_line magic_not_stuck)

theorem spi_damage_refused_witness:
  "ludlc_spi_hdr_get (spi_hdr_of_octets (map2 (XOR) (spi_hdr_octets
     (ludlc_spi_hdr_put \<lparr>hdr_magic = 0, hdr_check = 0, hdr_len = [0, 0, 0, 0]\<rparr> 5)) [0, 0, 0, 1, 0, 0])) 300 = - 1"
  using spi_damage_refused [of "\<lparr>hdr_magic = 0, hdr_check = 0, hdr_len = [0, 0, 0, 0]\<rparr>" "[0, 0, 0, 1, 0, 0]" 5 300]
  by (simp add: LUDLC_SPI_HDR_LEN_def)

end
