(* ===== verification/Ludlc_Spi.thy ===== *)
theory Ludlc_Spi
  imports Ludlc_Spi_Proto Ludlc_Serial_Rx
begin

text \<open>
  The two ends of a link over SPI: the controller of the Linux port
  (\<open>src/src/lib/platform/linux/ludlc_spi_master_drv.c\<close>) and the peripheral of the Zephyr port
  (\<open>src/src/lib/platform/zephyr/ludlc_zephyr_spi_slave.c\<close>). An exchange is an announcement
  each way followed by the frames in chunks of half a FIFO. The bus is a function of the
  number of the transfer within the exchange: an error, or the octets that came back. The
  operations return the octets they put on the bus, transfer by transfer. The work queue,
  the lock held over an exchange and the pins of the bus are left to the kernel; of the
  data-ready line the state is kept.
\<close>

section \<open>State\<close>

abbreviation (input) LUDLC_CONN_SUSPENDED_F :: nat where "LUDLC_CONN_SUSPENDED_F \<equiv> 2"
abbreviation (input) LUDLC_CONN_RX_TOUT_EVT :: nat where "LUDLC_CONN_RX_TOUT_EVT \<equiv> 0"
abbreviation (input) LUDLC_SPI_BUDGET :: nat where "LUDLC_SPI_BUDGET \<equiv> 8"

definition LUDLC_SPI_CHUNK :: nat where
  "LUDLC_SPI_CHUNK = LUDLC_TX_FIFO_SIZE div 2"

text \<open>
  \<open>sp_flags\<close> holds the connection's flags of the Linux port, or the transmit events of the
  Zephyr port; the last three fields are of the peripheral only: whether its board has a
  data-ready line, the level of that line and the receive events.
\<close>

record 'r ludlc_spi_connection =
  sp_conn :: ludlc_connection
  sp_flags :: uint32
  sp_fs :: "'r framing_state"
  frame_cap :: ludlc_frame_size_t
  tx_hdr :: ludlc_spi_hdr
  rx_hdr :: ludlc_spi_hdr
  rx_chunk :: "octet list"
  rx_pkt :: "octet list"
  sp_ticks :: nat
  sp_has_line :: bool
  sp_line :: bool
  sp_rx_event :: uint32

definition spi_dropped :: "'r ludlc_spi_connection \<Rightarrow> 'r ludlc_spi_connection" where
  "spi_dropped s = s\<lparr>sp_conn := (sp_conn s)\<lparr>conn_stats := (conn_stats (sp_conn s))
     \<lparr>dropped := dropped (conn_stats (sp_conn s)) + 1\<rparr>\<rparr>\<rparr>"

definition spi_tx_counted :: "'r ludlc_spi_connection \<Rightarrow> 'r ludlc_spi_connection" where
  "spi_tx_counted s = s\<lparr>sp_conn := (sp_conn s)\<lparr>conn_stats := (conn_stats (sp_conn s))
     \<lparr>tx_packet := tx_packet (conn_stats (sp_conn s)) + 1\<rparr>\<rparr>\<rparr>"

text \<open>
  The data-ready line, and a request to transmit, which raises it. The request of the
  controller schedules its work, which is the work that runs already.
\<close>

definition ludlc_spi_data_ready :: "bool \<Rightarrow> 'r ludlc_spi_connection \<Rightarrow> 'r ludlc_spi_connection" where
  "ludlc_spi_data_ready on s = (if sp_has_line s then s\<lparr>sp_line := on\<rparr> else s)"

definition spi_request_tx :: "'r ludlc_spi_connection \<Rightarrow> 'r ludlc_spi_connection" where
  "spi_request_tx s =
     ludlc_spi_data_ready True (s\<lparr>sp_flags := ludlc_platform_set_bit LUDLC_CONN_FORCE_TX_F (sp_flags s)\<rparr>)"

definition spi_requests :: "ludlc_event list \<Rightarrow> 'r ludlc_spi_connection \<Rightarrow> 'r ludlc_spi_connection" where
  "spi_requests evs s = (if RequestTx \<in> set evs then spi_request_tx s else s)"

text \<open>The core's disconnect, as both ends call it.\<close>

definition spi_disconnect ::
    "config \<Rightarrow> 'r ludlc_spi_connection \<Rightarrow> ('r ludlc_spi_connection \<times> ludlc_event list) option" where
  "spi_disconnect cf s =
     do {
       (conn, evs) \<leftarrow> ludlc_handle_disconnect cf (sp_conn s);
       Some (spi_requests evs (s\<lparr>sp_conn := conn\<rparr>), evs)
     }"

section \<open>What both ends do with the octets\<close>

definition ludlc_spi_on_packet ::
    "config \<Rightarrow> (nat \<Rightarrow> nat option) \<Rightarrow> nat \<Rightarrow> 'r ludlc_spi_connection \<Rightarrow>
     ('r ludlc_spi_connection \<times> ludlc_event list) option" where
  "ludlc_spi_on_packet cf tick sz s =
     (case tick (sp_ticks s) of
        Some ts \<Rightarrow> do {
          (conn, evs) \<leftarrow> ludlc_receive cf (sp_conn s) (rx_pkt s) sz ts;
          Some (spi_requests evs (s\<lparr>sp_conn := conn, sp_ticks := sp_ticks s + 1\<rparr>), evs)
        }
      | None \<Rightarrow> Some (s\<lparr>sp_ticks := sp_ticks s + 1\<rparr>, []))"

text \<open>The octets of a chunk into the decoder. Nothing prepares it again within an exchange.\<close>

partial_function (option) spi_feed ::
    "config \<Rightarrow> framing_config \<Rightarrow> ('c::len) csum_alg \<Rightarrow> (nat \<Rightarrow> nat option) \<Rightarrow>
     octet list \<Rightarrow> 'c word ludlc_spi_connection \<Rightarrow> ('c word ludlc_spi_connection \<times> ludlc_event list) option" where
  "spi_feed cf fcf alg tick src s =
     (if src = [] then Some (s, [])
      else
        let r = ludlc_dec_feed fcf alg (sp_fs s, conn_stats (sp_conn s)) src;
            s = s\<lparr>sp_fs := fst (fst r), rx_pkt := dec_buffer (fst (fst r)),
                   sp_conn := (sp_conn s)\<lparr>conn_stats := snd (fst r)\<rparr>\<rparr>
        in if \<not> snd (snd r) then spi_feed cf fcf alg tick (drop (fst (snd r)) src) s
           else do {
             (s, evs) \<leftarrow> ludlc_spi_on_packet cf tick (unat (ludlc_dec_size (sp_fs s))) s;
             (s, evs') \<leftarrow> spi_feed cf fcf alg tick (drop (fst (snd r)) src) s;
             Some (s, evs @ evs')
           })"

declare spi_feed.simps [code]

definition ludlc_spi_fill_tx ::
    "framing_config \<Rightarrow> ('c::len) csum_alg \<Rightarrow> nat \<Rightarrow> 'c word ludlc_spi_connection \<Rightarrow>
     ('c word ludlc_spi_connection \<times> octet list) option" where
  "ludlc_spi_fill_tx fcf alg want s =
     do {
       (fs, out) \<leftarrow> ludlc_enc_fill fcf alg (sp_fs s) want;
       Some (s\<lparr>sp_fs := fs\<rparr>, out @ replicate (want - length out) LUDLC_SPI_PAD)
     }"

text \<open>
  What a transfer brought lies in the buffer, over what was there before. The bus is a
  function of the number of the transfer.
\<close>

type_synonym spi_bus = "nat \<Rightarrow> int + octet list"

definition spi_landed :: "octet list \<Rightarrow> nat \<Rightarrow> octet list \<Rightarrow> octet list" where
  "spi_landed buf len bs = take len bs @ drop (length (take len bs)) buf"

text \<open>
  The second half of an exchange: transfer number \<open>k\<close> of it onwards, with \<open>moved\<close> of \<open>len\<close> octets
  clocked and \<open>recvd\<close> of the peer's \<open>rx_len\<close> decoded. It ends with 0, or with what a transfer failed with.
\<close>

function spi_frame_loop ::
    "config \<Rightarrow> framing_config \<Rightarrow> ('c::len) csum_alg \<Rightarrow> (nat \<Rightarrow> nat option) \<Rightarrow> spi_bus \<Rightarrow>
     nat \<Rightarrow> nat \<Rightarrow> nat \<Rightarrow> nat \<Rightarrow> nat \<Rightarrow> 'c word ludlc_spi_connection \<Rightarrow>
     (int \<times> octet list list \<times> 'c word ludlc_spi_connection \<times> ludlc_event list) option" where
  "spi_frame_loop cf fcf alg tick bus k len rx_len moved recvd s =
     (if moved < len then
        let chunk = min (len - moved) LUDLC_SPI_CHUNK in
        do {
          (s, tx) \<leftarrow> ludlc_spi_fill_tx fcf alg chunk s;
          case bus k of
            Inl e \<Rightarrow> Some (e, [tx], s, [])
          | Inr bs \<Rightarrow>
              let s = s\<lparr>rx_chunk := spi_landed (rx_chunk s) chunk bs\<rparr>;
                  rx_feed = (if recvd < rx_len then min chunk (rx_len - recvd) else 0)
              in do {
                (s, evs) \<leftarrow> spi_feed cf fcf alg tick (take rx_feed (rx_chunk s)) s;
                (ret, txs, s, evs') \<leftarrow>
                  spi_frame_loop cf fcf alg tick bus (k + 1) len rx_len (moved + chunk) (recvd + rx_feed) s;
                Some (ret, tx # txs, s, evs @ evs')
              }
        }
      else Some (0, [], s, []))"
  by pat_completeness auto

termination
  by (relation "measure (\<lambda>(_, _, _, _, _, _, len, _, moved, _, _). len - moved)") (auto simp: LUDLC_SPI_CHUNK_def)

declare spi_frame_loop.simps [simp del]

text \<open>The decoder is told how long the peer's frame is.\<close>

definition spi_dec_prep :: "config \<Rightarrow> ('c::len) csum_alg \<Rightarrow> nat \<Rightarrow> 'c word ludlc_spi_connection \<Rightarrow> 'c word ludlc_spi_connection" where
  "spi_dec_prep cf alg rx_len s =
     s\<lparr>sp_fs := ludlc_dec_prep (sp_fs s) alg (rx_pkt s) (min (ludlc_conn_frame_sz cf (sp_conn s) alg) (of_nat rx_len))\<rparr>"

section \<open>The controller\<close>

definition spi_master_load_tx ::
    "config \<Rightarrow> ('c::len) csum_alg \<Rightarrow> 'c word ludlc_spi_connection \<Rightarrow>
     (nat \<times> 'c word ludlc_spi_connection \<times> ludlc_event list) option" where
  "spi_master_load_tx cf alg s =
     (let (forced, flags) = ludlc_platform_test_and_clear_bit LUDLC_CONN_FORCE_TX_F (sp_flags s);
          s = s\<lparr>sp_flags := flags\<rparr>
      in if \<not> forced then Some (0, s, [])
         else do {
           (pending, fr, conn, evs) \<leftarrow> ludlc_get_packet_to_send cf (sp_conn s) True;
           let s = spi_requests evs (s\<lparr>sp_conn := conn\<rparr>);
           case fr of
             Some fr \<Rightarrow>
               if pending < 0 then Some (0, s, evs)
               else
                 let s = s\<lparr>sp_fs := ludlc_enc_prep (sp_fs s) (Some (hdr_octets (frame_hdr fr))) (of_nat (frame_hdr_sz fr))
                             (frame_payload fr) (frame_pay_sz fr) False\<rparr>
                 in do {
                   wire_len \<leftarrow> framing_wire_len (LUDLC_FS_FRAMING (sp_fs s));
                   let len = wire_len alg (of_nat (frame_hdr_sz fr)) (frame_pay_sz fr);
                   if of_nat len > frame_cap s then Some (0, spi_dropped s, evs)
                   else Some (len, if pending = 0 then spi_request_tx s else s, evs)
                 }
           | None \<Rightarrow> Some (0, s, evs)
         })"

text \<open>A transfer that failed ends the session.\<close>

definition spi_master_failed ::
    "config \<Rightarrow> octet list list \<Rightarrow> 'r ludlc_spi_connection \<Rightarrow> ludlc_event list \<Rightarrow>
     (bool \<times> octet list list \<times> 'r ludlc_spi_connection \<times> ludlc_event list) option" where
  "spi_master_failed cf txs s evs =
     do {
       (s, evs') \<leftarrow> spi_disconnect cf s;
       Some (False, txs, s\<lparr>sp_fs := ludlc_enc_init (sp_fs s)\<rparr>, evs @ evs')
     }"

definition spi_master_exchange ::
    "config \<Rightarrow> framing_config \<Rightarrow> ('c::len) csum_alg \<Rightarrow> (nat \<Rightarrow> nat option) \<Rightarrow> spi_bus \<Rightarrow>
     'c word ludlc_spi_connection \<Rightarrow>
     (bool \<times> octet list list \<times> 'c word ludlc_spi_connection \<times> ludlc_event list) option" where
  "spi_master_exchange cf fcf alg tick bus s =
     do {
       (tx_len, s, evs) \<leftarrow> spi_master_load_tx cf alg s;
       let s = s\<lparr>tx_hdr := ludlc_spi_hdr_put (tx_hdr s) (of_nat tx_len)\<rparr>;
       let hdr = spi_hdr_octets (tx_hdr s);
       case bus 0 of
         Inl e \<Rightarrow> spi_master_failed cf [hdr] s evs
       | Inr bs \<Rightarrow>
           let s = s\<lparr>rx_hdr := spi_hdr_of_octets (spi_landed (spi_hdr_octets (rx_hdr s)) LUDLC_SPI_HDR_LEN bs)\<rparr>;
               rx_len = ludlc_spi_hdr_get (rx_hdr s) (frame_cap s);
               s = (if rx_len < 0 then spi_dropped s else s);
               rx_len = (if rx_len < 0 then 0 else nat rx_len)
           in if tx_len = 0 \<and> rx_len = 0 then Some (False, [hdr], s, evs)
              else do {
                (ret, txs, s, evs') \<leftarrow>
                  spi_frame_loop cf fcf alg tick bus 1 (max tx_len rx_len) rx_len 0 0 (spi_dec_prep cf alg rx_len s);
                if ret \<noteq> 0 then spi_master_failed cf (hdr # txs) s (evs @ evs')
                else Some (True, hdr # txs, if tx_len \<noteq> 0 then spi_tx_counted s else s, evs @ evs')
              }
     }"

definition ludlc_spi_quiesced :: "'r ludlc_spi_connection \<Rightarrow> bool" where
  "ludlc_spi_quiesced s \<longleftrightarrow>
     ludlc_platform_test_bit LUDLC_CONN_SUSPENDED_F (sp_flags s) \<or> conn_state (sp_conn s) = LUDLC_STATE_TERMINATE"

text \<open>Exchange after exchange, each with a bus of its own, as long as the budget lasts.\<close>

fun ludlc_spi_drain ::
    "config \<Rightarrow> framing_config \<Rightarrow> ('c::len) csum_alg \<Rightarrow> (nat \<Rightarrow> nat option) \<Rightarrow> (nat \<Rightarrow> spi_bus) \<Rightarrow> nat \<Rightarrow>
     'c word ludlc_spi_connection \<Rightarrow> (bool \<times> 'c word ludlc_spi_connection \<times> ludlc_event list) option" where
  "ludlc_spi_drain cf fcf alg tick buses 0 s = Some (True, s, [])"
| "ludlc_spi_drain cf fcf alg tick buses (Suc budget) s =
     (if ludlc_spi_quiesced s then Some (False, s, [])
      else do {
        (more, _, s, evs) \<leftarrow> spi_master_exchange cf fcf alg tick (buses budget) s;
        if \<not> more then Some (False, s, evs)
        else do {
          (more, s, evs') \<leftarrow> ludlc_spi_drain cf fcf alg tick buses budget s;
          Some (more, s, evs @ evs')
        }
      })"

text \<open>
  The work and the handler of the data-ready line: an exchange run and whether, and after
  what delay, the work is queued again. \<open>poll\<close> is the poll period, zero on a link with a line.
\<close>

definition ludlc_spi_xfer_workfn ::
    "config \<Rightarrow> framing_config \<Rightarrow> ('c::len) csum_alg \<Rightarrow> (nat \<Rightarrow> nat option) \<Rightarrow> (nat \<Rightarrow> spi_bus) \<Rightarrow> nat \<Rightarrow>
     'c word ludlc_spi_connection \<Rightarrow> (nat option \<times> 'c word ludlc_spi_connection \<times> ludlc_event list) option" where
  "ludlc_spi_xfer_workfn cf fcf alg tick buses poll s =
     do {
       (more, s, evs) \<leftarrow> ludlc_spi_drain cf fcf alg tick buses LUDLC_SPI_BUDGET s;
       Some (if ludlc_spi_quiesced s then None else if more then Some 0 else if poll \<noteq> 0 then Some poll else None, s, evs)
     }"

definition ludlc_spi_ready_isr ::
    "config \<Rightarrow> framing_config \<Rightarrow> ('c::len) csum_alg \<Rightarrow> (nat \<Rightarrow> nat option) \<Rightarrow> (nat \<Rightarrow> spi_bus) \<Rightarrow>
     'c word ludlc_spi_connection \<Rightarrow> (nat option \<times> 'c word ludlc_spi_connection \<times> ludlc_event list) option" where
  "ludlc_spi_ready_isr cf fcf alg tick buses s =
     (if ludlc_spi_quiesced s then Some (None, s, [])
      else do {
        (more, s, evs) \<leftarrow> ludlc_spi_drain cf fcf alg tick buses LUDLC_SPI_BUDGET s;
        Some (if more \<and> \<not> ludlc_spi_quiesced s then Some 0 else None, s, evs)
      })"

section \<open>The peripheral\<close>

definition spi_slave_load_tx ::
    "config \<Rightarrow> ('c::len) csum_alg \<Rightarrow> 'c word ludlc_spi_connection \<Rightarrow>
     (nat \<times> 'c word ludlc_spi_connection \<times> ludlc_event list) option" where
  "spi_slave_load_tx cf alg s =
     (let s = ludlc_spi_data_ready False s;
          (forced, flags) = ludlc_platform_test_and_clear_bit LUDLC_CONN_FORCE_TX_F (sp_flags s);
          s = s\<lparr>sp_flags := flags\<rparr>
      in if \<not> forced then Some (0, s, [])
         else do {
           (pending, fr, conn, evs) \<leftarrow> ludlc_get_packet_to_send cf (sp_conn s) True;
           let s = spi_requests evs (s\<lparr>sp_conn := conn\<rparr>);
           case fr of
             Some fr \<Rightarrow>
               if pending < 0 then Some (0, s, evs)
               else do {
                 wire_len \<leftarrow> framing_wire_len (LUDLC_FS_FRAMING (sp_fs s));
                 let len = wire_len alg (of_nat (frame_hdr_sz fr)) (frame_pay_sz fr);
                 if of_nat len > frame_cap s then Some (0, spi_dropped s, evs)
                 else
                   let s = s\<lparr>sp_fs := ludlc_enc_prep (sp_fs s) (Some (hdr_octets (frame_hdr fr))) (of_nat (frame_hdr_sz fr))
                               (frame_payload fr) (frame_pay_sz fr) False\<rparr>;
                       s = ludlc_spi_data_ready True s
                   in Some (len, if pending = 0 then spi_request_tx s else s, evs)
               }
           | None \<Rightarrow> Some (0, s, evs)
         })"

text \<open>An exchange returns 0 or what a transfer failed with, and the length still to be sent.\<close>

definition spi_slave_exchange ::
    "config \<Rightarrow> framing_config \<Rightarrow> ('c::len) csum_alg \<Rightarrow> (nat \<Rightarrow> nat option) \<Rightarrow> spi_bus \<Rightarrow> nat \<Rightarrow>
     'c word ludlc_spi_connection \<Rightarrow>
     (int \<times> nat \<times> octet list list \<times> 'c word ludlc_spi_connection \<times> ludlc_event list) option" where
  "spi_slave_exchange cf fcf alg tick bus tx_len s =
     (let s = s\<lparr>tx_hdr := ludlc_spi_hdr_put (tx_hdr s) (of_nat tx_len)\<rparr>;
          hdr = spi_hdr_octets (tx_hdr s)
      in case bus 0 of
           Inl e \<Rightarrow> Some (e, tx_len, [hdr], s, [])
         | Inr bs \<Rightarrow>
             let s = s\<lparr>rx_hdr := spi_hdr_of_octets (spi_landed (replicate LUDLC_SPI_HDR_LEN 0) LUDLC_SPI_HDR_LEN bs)\<rparr>;
                 rx_len = ludlc_spi_hdr_get (rx_hdr s) (frame_cap s);
                 s = (if rx_len < 0 then spi_dropped s else s);
                 rx_len = (if rx_len < 0 then 0 else nat rx_len)
             in if tx_len = 0 \<and> rx_len = 0 then Some (0, tx_len, [hdr], s, [])
                else do {
                  (ret, txs, s, evs) \<leftarrow>
                    spi_frame_loop cf fcf alg tick bus 1 (max tx_len rx_len) rx_len 0 0 (spi_dec_prep cf alg rx_len s);
                  if ret \<noteq> 0 then Some (ret, tx_len, hdr # txs, s\<lparr>sp_fs := ludlc_enc_init (sp_fs s)\<rparr>, evs)
                  else if tx_len \<noteq> 0 then Some (0, 0, hdr # txs, spi_tx_counted s, evs)
                  else Some (0, tx_len, hdr # txs, s, evs)
                })"

text \<open>
  One pass of the thread's loop, entered while the connection is not terminated: whether the
  loop goes on, and the length of a frame loaded and not yet sent.
\<close>

definition spi_slave_pass ::
    "config \<Rightarrow> framing_config \<Rightarrow> ('c::len) csum_alg \<Rightarrow> (nat \<Rightarrow> nat option) \<Rightarrow> spi_bus \<Rightarrow> nat \<Rightarrow>
     'c word ludlc_spi_connection \<Rightarrow>
     (bool \<times> nat \<times> octet list list \<times> 'c word ludlc_spi_connection \<times> ludlc_event list) option" where
  "spi_slave_pass cf fcf alg tick bus tx_len s =
     do {
       (tx_len, s, e0) \<leftarrow> (if tx_len = 0 then spi_slave_load_tx cf alg s else Some (tx_len, s, []));
       (ret, tx_len, txs, s, e1) \<leftarrow> spi_slave_exchange cf fcf alg tick bus tx_len s;
       if ret \<noteq> 0 then do {
         (s, e2) \<leftarrow> spi_disconnect cf s;
         Some (False, tx_len, txs, ludlc_spi_data_ready False s, e0 @ e1 @ e2)
       }
       else
         let (tout, ev) = ludlc_platform_test_and_clear_bit LUDLC_CONN_RX_TOUT_EVT (sp_rx_event s);
             s = s\<lparr>sp_rx_event := ev\<rparr>
         in if tout then do {
              (s, e2) \<leftarrow> spi_disconnect cf s;
              Some (True, tx_len, txs, s, e0 @ e1 @ e2)
            }
            else Some (True, tx_len, txs, s, e0 @ e1)
     }"

end
