(* ===== verification/Ludlc_Spi_Link.thy ===== *)
theory Ludlc_Spi_Link
  imports Ludlc_Spi
begin

text \<open>
  The two ends of an SPI link against each other, with the raw framing: an exchange carries
  the frame each end announced to the other, keeps the two in step transfer by transfer, and
  does to the core of each what handing it the other's packet does. The last section shows
  what a framing that delimits its frames makes of the same loop.
\<close>

section \<open>The encoder, chunk by chunk\<close>

lemma raw_copy_dec: "raw_dec (fst (raw_enc_copy alg fs n)) = raw_dec fs"
  by (simp add: raw_enc_copy_def ludlc_raw_enc_init_def Let_def)

lemma raw_turn_dec: "raw_dec (fst (raw_enc_turn alg fs n)) = raw_dec fs"
  by (cases "renc_state (raw_enc fs)") (auto simp: raw_enc_turn_def raw_copy_dec ludlc_raw_enc_init_def Let_def)

text \<open>An encoder in the middle of a packet has octets to copy.\<close>

definition raw_tidy :: "'r raw_state \<Rightarrow> bool" where
  "raw_tidy fs \<longleftrightarrow> (renc_state (raw_enc fs) = renc_data \<longrightarrow> renc_sz (raw_enc fs) \<noteq> 0)"

lemma raw_copy_tidy: "raw_tidy (fst (raw_enc_copy alg fs n))"
  by (auto simp: raw_enc_copy_def raw_tidy_def ludlc_raw_enc_init_def Let_def unat_gt_0)

lemma raw_init_tidy: "raw_tidy (ludlc_raw_enc_init fs)"
  by (simp add: ludlc_raw_enc_init_def raw_tidy_def)

lemma raw_turn_tidy: "raw_tidy (fst (raw_enc_turn alg fs n))"
  by (cases "renc_state (raw_enc fs)") (simp_all add: raw_enc_turn_def raw_copy_tidy raw_init_tidy Let_def raw_tidy_def [of "_\<lparr>raw_enc := _\<rparr>"])

lemma raw_fill_keeps:
  "raw_dec (fst (ludlc_raw_enc_fill alg fs n)) = raw_dec fs \<and> (raw_tidy fs \<longrightarrow> raw_tidy (fst (ludlc_raw_enc_fill alg fs n)))"
proof (induction alg fs n rule: ludlc_raw_enc_fill.induct)
  case (1 alg fs n)
  obtain fs' out where t: "raw_enc_turn alg fs n = (fs', out)"
    by (cases "raw_enc_turn alg fs n")
  have k: "raw_dec fs' = raw_dec fs" "raw_tidy fs'"
    using raw_turn_dec [of alg fs n] raw_turn_tidy [of alg fs n] t by simp_all
  show ?case
    using 1 [OF _ t [symmetric]] k t by (subst (1 2) ludlc_raw_enc_fill.simps) (auto simp: split_beta)
qed

lemma raw_done_idle:
  assumes "raw_enc_ok alg fs" "raw_tidy fs" "raw_rest alg fs = []"
  shows "\<not> ludlc_raw_enc_busy fs"
proof
  assume b: "ludlc_raw_enc_busy fs"
  show False
  proof (cases "renc_state (raw_enc fs)")
    case renc_idle
    then show False
      using b assms by (auto simp: ludlc_raw_enc_busy_def raw_rest_def raw_enc_ok_def has_octets_def segment_def frame_of_def
          unat_eq_zero Let_def split: if_splits)
  next
    case renc_data
    then show False
      using assms by (auto simp: raw_rest_def raw_enc_ok_def raw_tidy_def Let_def)
  next
    case renc_csum
    then show False
      using assms by (cases "renc_sz (raw_enc fs)") (auto simp: raw_rest_def raw_enc_ok_def Let_def)
  qed
qed

lemma fill_tx_raw:
  assumes "sp_fs s = Raw_fs r" "raw_enc_ok alg r" "raw_tidy r"
  shows "\<exists>r'. ludlc_spi_fill_tx fcf alg n s =
      Some (s\<lparr>sp_fs := Raw_fs r'\<rparr>, take n (raw_rest alg r) @ replicate (n - length (raw_rest alg r)) LUDLC_SPI_PAD) \<and>
    raw_enc_ok alg r' \<and> raw_tidy r' \<and> raw_rest alg r' = drop n (raw_rest alg r) \<and> raw_dec r' = raw_dec r"
  using raw_fill_rest [OF assms(2), of n] raw_fill_keeps [of alg r n] assms
  by (intro exI [of _ "fst (ludlc_raw_enc_fill alg r n)"])
    (auto simp: ludlc_spi_fill_tx_def ludlc_enc_fill_def map_prod_def split_beta)

section \<open>The decoder, chunk by chunk\<close>

text \<open>A decoder that the octets \<open>xs\<close> will make complete the packet \<open>q\<close>.\<close>

definition raw_awaits :: "('c::len) csum_alg \<Rightarrow> 'c word ludlc_rdec_state \<Rightarrow> octet list \<Rightarrow> octet list \<Rightarrow> bool" where
  "raw_awaits alg dec xs q \<longleftrightarrow> rdec_state dec = rdec_data \<and> rdec_sz dec = length xs \<and>
     (\<forall>r st. raw_dec r = dec \<longrightarrow> raw_live (r, st) \<and>
       (\<exists>dec'. ludlc_raw_dec_feed alg (r, st) xs = ((r\<lparr>raw_dec := dec'\<rparr>, st\<lparr>rx_packet := rx_packet st + 1\<rparr>), length xs, True) \<and>
          unat (ucast (rdec_size dec') :: octet) = length q \<and> take (length q) (rdec_payload dec') = q \<and>
          length (rdec_payload dec') = length (rdec_payload dec)))"

lemma feed_sz: "ludlc_raw_dec_feed alg (r, st) xs = ((r', st'), n, d) \<Longrightarrow> raw_live (r, st) \<Longrightarrow> rdec_state (raw_dec r) = rdec_data \<Longrightarrow>
    length xs < rdec_sz (raw_dec r) \<Longrightarrow> r' = r\<lparr>raw_dec := raw_take alg (raw_dec r) xs\<rparr> \<and> st' = st \<and> n = length xs \<and> \<not> d"
  by (auto simp: raw_feed_eq Let_def)

lemma prep_awaits:
  assumes "csum_ok alg" "fits alg cap q" "length (frame_of alg q) \<le> length buf" "length (frame_of alg q) < 65536"
  shows "raw_awaits alg (raw_dec (ludlc_raw_dec_prep fs alg buf (of_nat (length (frame_of alg q))))) (frame_of alg q) q"
proof -
  have cap: "unat (of_nat (length (frame_of alg q)) :: ludlc_frame_size_t) = length (frame_of alg q)"
    using assms(4) by (simp add: unat_of_nat del: length_frame_of)
  have r: "raw_ready alg (ludlc_raw_dec_prep fs alg buf (of_nat (length (frame_of alg q))), st) q" for st
    using assms cap by (intro raw_prep_ready) (simp_all add: fits_def)
  have "raw_ready alg (r, st) q" if "raw_dec r = raw_dec (ludlc_raw_dec_prep fs alg buf (of_nat (length (frame_of alg q))))" for r st
    using r [of st] that by (simp add: raw_ready_def)
  then show ?thesis
    using raw_completes [of alg _ _ q] raw_ready_live r [unfolded raw_ready_def Let_def, simplified]
    unfolding raw_awaits_def by fastforce
qed

lemma awaits_some:
  assumes "raw_awaits alg dec xs q"
  shows "xs \<noteq> []"
proof
  assume "xs = []"
  then have "rdec_state dec = rdec_data" "rdec_sz dec = 0" "raw_live (r\<lparr>raw_dec := dec\<rparr>, st)" for r :: "'a word raw_state" and st
    using assms by (auto simp: raw_awaits_def)
  from this(1,2) this(3) [of raw_zero] show False
    by (simp add: raw_live_def)
qed

lemma awaits_part:
  assumes "raw_awaits alg dec (xs @ ys) q" "ys \<noteq> []" "raw_dec r = dec"
  shows "ludlc_raw_dec_feed alg (r, st) xs = ((r\<lparr>raw_dec := raw_take alg dec xs\<rparr>, st), length xs, False)"
    "raw_awaits alg (raw_take alg dec xs) ys q" "length (rdec_payload (raw_take alg dec xs)) = length (rdec_payload dec)"
proof -
  have sz: "rdec_state dec = rdec_data" "length xs < rdec_sz dec"
    using assms(1,2) by (auto simp: raw_awaits_def)
  have live: "raw_live (r, st)" if "raw_dec r = dec" for r st
    using assms(1) that by (auto simp: raw_awaits_def)
  show f: "ludlc_raw_dec_feed alg (r, st) xs = ((r\<lparr>raw_dec := raw_take alg dec xs\<rparr>, st), length xs, False)"
    using sz live [OF assms(3)] assms(3) by (simp add: raw_feed_eq)
  show lp: "length (rdec_payload (raw_take alg dec xs)) = length (rdec_payload dec)"
    by (simp add: raw_take_def)
  show "raw_awaits alg (raw_take alg dec xs) ys q"
    unfolding raw_awaits_def lp
  proof (intro conjI allI impI)
    show "rdec_state (raw_take alg dec xs) = rdec_data" "rdec_sz (raw_take alg dec xs) = length ys"
      using assms(1) by (auto simp: raw_awaits_def raw_take_def)
    fix u :: "'a word raw_state" and st
    assume u: "raw_dec u = raw_take alg dec xs"
    let ?v = "u\<lparr>raw_dec := dec\<rparr>"
    have lv: "raw_live (?v, st)"
      by (rule live) simp
    have fv: "ludlc_raw_dec_feed alg (?v, st) xs = ((u, st), length xs, False)"
      using sz lv u by (simp add: raw_feed_eq)
    show lu: "raw_live (u, st)"
      using raw_feed_live [OF lv, of alg xs "(u, st)"] fv by simp
    obtain dec' where d: "ludlc_raw_dec_feed alg (?v, st) (xs @ ys) =
          ((?v\<lparr>raw_dec := dec'\<rparr>, st\<lparr>rx_packet := rx_packet st + 1\<rparr>), length (xs @ ys), True)"
        "unat (ucast (rdec_size dec') :: octet) = length q" "take (length q) (rdec_payload dec') = q"
        "length (rdec_payload dec') = length (rdec_payload dec)"
      using assms(1) [unfolded raw_awaits_def, THEN conjunct2, THEN conjunct2, THEN spec [of _ ?v], THEN spec [of _ st]] by auto
    have o: "outcome (ludlc_raw_dec_feed alg (u, st) ys) = ((u\<lparr>raw_dec := dec'\<rparr>, st\<lparr>rx_packet := rx_packet st + 1\<rparr>), True)"
      using raw_feed_on [OF lv, of alg xs "(u, st)" ys] fv d(1) by simp
    moreover have "fst (snd (ludlc_raw_dec_feed alg (u, st) ys)) = length ys"
      using o lu u assms(1) by (auto simp: raw_feed_eq raw_awaits_def raw_take_def outcome_def Let_def split_beta split: if_splits)
    ultimately have "ludlc_raw_dec_feed alg (u, st) ys = ((u\<lparr>raw_dec := dec'\<rparr>, st\<lparr>rx_packet := rx_packet st + 1\<rparr>), length ys, True)"
      by (cases "ludlc_raw_dec_feed alg (u, st) ys") (auto simp: outcome_def)
    with d(2-4) show "\<exists>dec'. ludlc_raw_dec_feed alg (u, st) ys =
          ((u\<lparr>raw_dec := dec'\<rparr>, st\<lparr>rx_packet := rx_packet st + 1\<rparr>), length ys, True) \<and>
        unat (ucast (rdec_size dec') :: octet) = length q \<and> take (length q) (rdec_payload dec') = q \<and>
        length (rdec_payload dec') = length (rdec_payload dec)"
      by blast
  qed
qed

text \<open>What the core and the requests to transmit are, apart from the transport.\<close>

definition spi_view :: "'r ludlc_spi_connection \<Rightarrow> rx_core" where
  "spi_view s = (sp_conn s, sp_flags s, sp_ticks s)"

definition spi_same :: "'r ludlc_spi_connection \<Rightarrow> 'r ludlc_spi_connection \<Rightarrow> bool" where
  "spi_same s t \<longleftrightarrow> frame_cap t = frame_cap s \<and> tx_hdr t = tx_hdr s \<and> rx_hdr t = rx_hdr s \<and>
     sp_has_line t = sp_has_line s \<and> sp_rx_event t = sp_rx_event s"

lemma spi_same_trans: "spi_same s t \<Longrightarrow> spi_same t u \<Longrightarrow> spi_same s u"
  by (simp add: spi_same_def)

lemma spi_feed_nil [simp]: "spi_feed cf fcf alg tick [] s = Some (s, [])"
  by (simp add: spi_feed.simps)

lemma spi_feed_part:
  assumes "sp_fs s = Raw_fs r" "raw_awaits alg (raw_dec r) (xs @ ys) q" "xs \<noteq> []" "ys \<noteq> []"
  shows "spi_feed cf fcf alg tick xs s =
     Some (s\<lparr>sp_fs := Raw_fs (r\<lparr>raw_dec := raw_take alg (raw_dec r) xs\<rparr>), rx_pkt := rdec_payload (raw_take alg (raw_dec r) xs)\<rparr>, [])"
  using awaits_part(1) [OF assms(2,4) refl, of "conn_stats (sp_conn s)"] assms(1,3)
  by (simp add: spi_feed.simps [of cf fcf alg tick xs s] ludlc_dec_feed_def dec_buffer_def)

lemma requests_view:
  "spi_view (spi_requests evs s) =
     (sp_conn s, if RequestTx \<in> set evs then ludlc_platform_set_bit LUDLC_CONN_FORCE_TX_F (sp_flags s) else sp_flags s, sp_ticks s)"
  "sp_fs (spi_requests evs s) = sp_fs s" "rx_pkt (spi_requests evs s) = rx_pkt s" "spi_same u (spi_requests evs s) = spi_same u s"
  "sp_conn (spi_requests evs s) = sp_conn s"
  by (simp_all add: spi_requests_def spi_request_tx_def spi_view_def ludlc_spi_data_ready_def spi_same_def)

lemma spi_feed_last:
  assumes "sp_fs s = Raw_fs r" "raw_awaits alg (raw_dec r) xs q" "2 \<le> length q"
    and one: "rx_one cf tick q (spi_view s) = Some (v, evs)"
  shows "\<exists>t dec. spi_feed cf fcf alg tick xs s = Some (t, evs) \<and> spi_view t = v \<and> sp_fs t = Raw_fs (r\<lparr>raw_dec := dec\<rparr>) \<and>
    spi_same s t \<and> length (rx_pkt t) = length (rdec_payload (raw_dec r)) \<and>
    length (rdec_payload dec) = length (rdec_payload (raw_dec r))"
proof -
  obtain dec where d: "ludlc_raw_dec_feed alg (r, conn_stats (sp_conn s)) xs =
        ((r\<lparr>raw_dec := dec\<rparr>, (conn_stats (sp_conn s))\<lparr>rx_packet := rx_packet (conn_stats (sp_conn s)) + 1\<rparr>), length xs, True)"
      "unat (ucast (rdec_size dec) :: octet) = length q" "take (length q) (rdec_payload dec) = q"
      "length (rdec_payload dec) = length (rdec_payload (raw_dec r))"
    using assms(2) unfolding raw_awaits_def by blast
  let ?c = "(sp_conn s)\<lparr>conn_stats := (conn_stats (sp_conn s))\<lparr>rx_packet := rx_packet (conn_stats (sp_conn s)) + 1\<rparr>\<rparr>"
  let ?s = "s\<lparr>sp_fs := Raw_fs (r\<lparr>raw_dec := dec\<rparr>), rx_pkt := rdec_payload dec, sp_conn := ?c\<rparr>"
  have rcv: "ludlc_receive cf ?c (rdec_payload dec) (length q) ts = ludlc_receive cf ?c q (length q) ts" for ts
    using receive_take [OF assms(3), of cf ?c "rdec_payload dec" ts] d(3) by simp
  have sz: "unat (ludlc_dec_size (sp_fs ?s)) = length q"
    using d(2) by (simp add: ludlc_dec_size_def ludlc_raw_dec_size_def)
  have feed: "spi_feed cf fcf alg tick xs s = ludlc_spi_on_packet cf tick (length q) ?s"
    using d(1) awaits_some [OF assms(2)] assms(1) sz
    by (simp add: spi_feed.simps [of cf fcf alg tick xs s] ludlc_dec_feed_def dec_buffer_def split: Option.bind_split)
  have "\<exists>t. ludlc_spi_on_packet cf tick (length q) ?s = Some (t, evs) \<and> spi_view t = v \<and> sp_fs t = sp_fs ?s \<and>
      spi_same s t \<and> rx_pkt t = rx_pkt ?s"
  proof (cases "tick (sp_ticks s)")
    case None
    then show ?thesis
      using one by (auto simp: ludlc_spi_on_packet_def rx_one_def spi_view_def spi_same_def Let_def)
  next
    case (Some ts)
    obtain c evs' where r: "ludlc_receive cf ?c q (length q) ts = Some (c, evs')"
      using one Some by (auto simp: rx_one_def spi_view_def Let_def split: Option.bind_splits)
    have "evs' = evs" "v = spi_view (spi_requests evs (?s\<lparr>sp_conn := c, sp_ticks := sp_ticks s + 1\<rparr>))"
      using one Some r by (auto simp: rx_one_def spi_view_def [of s] requests_view Let_def)
    then show ?thesis
      using Some r by (simp add: ludlc_spi_on_packet_def rcv requests_view) (simp add: spi_same_def)
  qed
  then show ?thesis
    using feed d(4) by auto
qed

section \<open>The frames of an exchange\<close>

function spi_chunks :: "octet list \<Rightarrow> octet list list" where
  "spi_chunks xs = (if xs = [] then [] else take LUDLC_SPI_CHUNK xs # spi_chunks (drop LUDLC_SPI_CHUNK xs))"
  by pat_completeness auto

termination
  by (relation "measure length") (auto simp: LUDLC_SPI_CHUNK_def)

declare spi_chunks.simps [simp del]

lemma chunks_step:
  assumes "length xs = n" "0 < n"
  shows "spi_chunks xs = take (min n LUDLC_SPI_CHUNK) xs # spi_chunks (drop (min n LUDLC_SPI_CHUNK) xs)"
  using assms by (auto simp: spi_chunks.simps [of xs] min_def)

lemma chunks_pad:
  assumes "length R \<le> n" "0 < n"
  shows "spi_chunks (R @ replicate (n - length R) z) =
    (take (min n LUDLC_SPI_CHUNK) R @ replicate (min n LUDLC_SPI_CHUNK - length R) z) #
    spi_chunks (drop (min n LUDLC_SPI_CHUNK) R @
      replicate (n - min n LUDLC_SPI_CHUNK - length (drop (min n LUDLC_SPI_CHUNK) R)) z)"
proof -
  have "n - l - (c - l) = n - c - (l - c)" "min (c - l) (n - l) = c - l" if "c \<le> n" for c l :: nat
    using that by auto
  then have "drop c (R @ replicate (n - length R) z) = drop c R @ replicate (n - c - length (drop c R)) z"
      "take c (R @ replicate (n - length R) z) = take c R @ replicate (c - length R) z" if "c \<le> n" for c
    using that by simp_all
  then show ?thesis
    using assms by (subst chunks_step [of _ n]) simp_all
qed

text \<open>Transfers from number \<open>k\<close> on that bring the octets \<open>X\<close>, a chunk each.\<close>

definition bus_brings :: "spi_bus \<Rightarrow> nat \<Rightarrow> octet list \<Rightarrow> bool" where
  "bus_brings bus k X \<longleftrightarrow> (\<forall>j < length (spi_chunks X). bus (k + j) = Inr (spi_chunks X ! j))"

lemma bus_brings_step:
  assumes "bus_brings bus k X" "length X = n" "0 < n"
  shows "bus k = Inr (take (min n LUDLC_SPI_CHUNK) X)" "bus_brings bus (Suc k) (drop (min n LUDLC_SPI_CHUNK) X)"
  using assms(1) unfolding bus_brings_def chunks_step [OF assms(2,3)] by (auto dest: spec [of _ 0] spec [of _ "Suc _"])

definition rx_maybe :: "config \<Rightarrow> (nat \<Rightarrow> nat option) \<Rightarrow> octet list option \<Rightarrow> rx_core \<Rightarrow> (rx_core \<times> ludlc_event list) option" where
  "rx_maybe cf tick q v = (case q of None \<Rightarrow> Some (v, []) | Some q \<Rightarrow> rx_one cf tick q v)"

lemma feed_chunk:
  fixes G :: "octet list"
  assumes "sp_fs s = Raw_fs r" "0 < c" "case q of None \<Rightarrow> G = [] | Some q \<Rightarrow> 2 \<le> length q \<and> raw_awaits alg (raw_dec r) G q"
    and "rx_maybe cf tick q (spi_view s) = Some (v, evs)" "length (rdec_payload (raw_dec r)) = length (rx_pkt s)"
  shows "\<exists>t dec q' evs1 evs2. spi_feed cf fcf alg tick (take c G) s = Some (t, evs1) \<and> evs = evs1 @ evs2 \<and>
    sp_fs t = Raw_fs (r\<lparr>raw_dec := dec\<rparr>) \<and> rx_maybe cf tick q' (spi_view t) = Some (v, evs2) \<and> spi_same s t \<and>
    length (rx_pkt t) = length (rx_pkt s) \<and> length (rdec_payload dec) = length (rx_pkt s) \<and>
    (case q' of None \<Rightarrow> drop c G = [] | Some q \<Rightarrow> 2 \<le> length q \<and> raw_awaits alg dec (drop c G) q)"
proof (cases q)
  case None
  then show ?thesis
    using assms by (intro exI [of _ s] exI [of _ "raw_dec r"] exI [of _ None] exI [of _ "[]"]) (simp add: rx_maybe_def spi_same_def)
next
  case (Some p)
  have w: "raw_awaits alg (raw_dec r) (take c G @ drop c G) p" "2 \<le> length p"
    using assms(3) Some by simp_all
  have ne: "take c G \<noteq> []"
    using awaits_some [OF w(1)] assms(2) by auto
  show ?thesis
  proof (cases "drop c G = []")
    case True
    then show ?thesis
    proof -
      have one: "rx_one cf tick p (spi_view s) = Some (v, evs)" "raw_awaits alg (raw_dec r) (take c G) p"
        using assms(4) Some w True by (simp_all add: rx_maybe_def)
      obtain t dec where t: "spi_feed cf fcf alg tick (take c G) s = Some (t, evs)" "spi_view t = v" "sp_fs t = Raw_fs (r\<lparr>raw_dec := dec\<rparr>)"
          "spi_same s t" "length (rx_pkt t) = length (rdec_payload (raw_dec r))" "length (rdec_payload dec) = length (rdec_payload (raw_dec r))"
        using spi_feed_last [OF assms(1) one(2) w(2) one(1), of fcf] by blast
      show ?thesis
        using t True assms(5)
        by (intro exI [of _ t] exI [of _ dec] exI [of _ None] exI [of _ evs] exI [of _ "[]"]) (simp add: rx_maybe_def)
    qed
  next
    case False
    let ?d = "raw_take alg (raw_dec r) (take c G)"
    show ?thesis
      using spi_feed_part [OF assms(1) w(1) ne False, of cf fcf tick] awaits_part(2,3) [OF w(1) False refl] assms(4,5) w(2) Some
      by (intro exI [of _ "s\<lparr>sp_fs := Raw_fs (r\<lparr>raw_dec := ?d\<rparr>), rx_pkt := rdec_payload ?d\<rparr>"] exI [of _ ?d]
          exI [of _ q] exI [of _ "[]"] exI [of _ evs])
        (simp add: rx_maybe_def spi_same_def spi_view_def)
  qed
qed

lemma frame_loop_step:
  assumes "m < len" "c = min (len - m) LUDLC_SPI_CHUNK" "ludlc_spi_fill_tx fcf alg c s = Some (s1, tx)" "bus k = Inr bs"
    and "s2 = s1\<lparr>rx_chunk := spi_landed (rx_chunk s1) c bs\<rparr>" "rf = (if recvd < rx_len then min c (rx_len - recvd) else 0)"
    and "spi_feed cf fcf alg tick (take rf (rx_chunk s2)) s2 = Some (t, e1)"
    and "spi_frame_loop cf fcf alg tick bus (Suc k) len rx_len (m + c) (recvd + rf) t = Some (ret, txs, u, e2)"
  shows "spi_frame_loop cf fcf alg tick bus k len rx_len m recvd s = Some (ret, tx # txs, u, e1 @ e2)"
  using assms(1,3,4,7,8) unfolding assms(5,6)
  by (subst spi_frame_loop.simps) (simp add: Let_def flip: assms(2))

lemma rf_len:
  fixes recvd rx_len c :: nat
  assumes "recvd \<le> rx_len"
  defines "rf \<equiv> (if recvd < rx_len then min c (rx_len - recvd) else 0)"
  shows "rx_len - (recvd + rf) = rx_len - recvd - c" "recvd + rf \<le> rx_len" "rx_len - recvd \<le> c \<Longrightarrow> recvd + rf = rx_len"
  using assms(1) by (auto simp: rf_def min_def)

lemma frame_loop_raw:
  assumes "sp_fs s = Raw_fs r" "raw_enc_ok alg r" "raw_tidy r" "length (raw_rest alg r) \<le> len - m" "m \<le> len"
    and "length X = len - m" "bus_brings bus k X" "recvd \<le> rx_len" "rx_len - recvd \<le> len - m"
    and "case q of None \<Rightarrow> rx_len = recvd | Some q \<Rightarrow> 2 \<le> length q \<and> raw_awaits alg (raw_dec r) (take (rx_len - recvd) X) q"
    and "rx_maybe cf tick q (spi_view s) = Some (v, evs)" "length (rdec_payload (raw_dec r)) = length (rx_pkt s)"
  shows "\<exists>t r'. spi_frame_loop cf fcf alg tick bus k len rx_len m recvd s =
      Some (0, spi_chunks (raw_rest alg r @ replicate (len - m - length (raw_rest alg r)) LUDLC_SPI_PAD), t, evs) \<and>
    spi_view t = v \<and> sp_fs t = Raw_fs r' \<and> raw_enc_ok alg r' \<and> raw_tidy r' \<and> raw_rest alg r' = [] \<and> spi_same s t \<and>
    length (rx_pkt t) = length (rx_pkt s)"
  using assms
proof (induction "len - m" arbitrary: m recvd k X q s r evs rule: less_induct)
  case less
  let ?n = "len - m"
  let ?c = "min ?n LUDLC_SPI_CHUNK" and ?R = "raw_rest alg r"
  show ?case
  proof (cases "m < len")
    case False
    then have "q = None"
      using less.prems awaits_some [of alg "raw_dec r" "[]"] by (cases q) auto
    then show ?thesis
      using less.prems False by (simp add: spi_frame_loop.simps [of _ _ _ _ _ _ len] spi_chunks.simps rx_maybe_def spi_same_def)
  next
    case True
    have c: "0 < ?c" "?c \<le> ?n"
      using True by (simp_all add: LUDLC_SPI_CHUNK_def)
    let ?tx = "take ?c ?R @ replicate (?c - length ?R) LUDLC_SPI_PAD"
    obtain r1 where f: "ludlc_spi_fill_tx fcf alg ?c s = Some (s\<lparr>sp_fs := Raw_fs r1\<rparr>, ?tx)"
        "raw_enc_ok alg r1" "raw_tidy r1" "raw_rest alg r1 = drop ?c ?R" "raw_dec r1 = raw_dec r"
      using fill_tx_raw [OF less.prems(1-3), of fcf ?c] by blast
    have n0: "0 < len - m"
      using True by simp
    note bus = bus_brings_step [OF less.prems(7,6) n0]
    let ?G = "take (rx_len - recvd) X"
    let ?rf = "if recvd < rx_len then min ?c (rx_len - recvd) else 0"
    let ?s1 = "s\<lparr>sp_fs := Raw_fs r1\<rparr>"
    let ?s = "?s1\<lparr>rx_chunk := spi_landed (rx_chunk ?s1) ?c (take ?c X)\<rparr>"
    have rf: "take ?rf (rx_chunk ?s) = take ?c ?G"
      using c less.prems(6) by (auto simp: spi_landed_def min_def)
    have q: "case q of None \<Rightarrow> ?G = [] | Some q \<Rightarrow> 2 \<le> length q \<and> raw_awaits alg (raw_dec r1) ?G q"
      using less.prems(10) f(5) by (simp split: option.splits)
    have v: "rx_maybe cf tick q (spi_view ?s) = Some (v, evs)"
      using less.prems(11) by (simp add: spi_view_def)
    obtain t dec q' evs1 evs2 where g: "spi_feed cf fcf alg tick (take ?c ?G) ?s = Some (t, evs1)" "evs = evs1 @ evs2"
        "sp_fs t = Raw_fs (r1\<lparr>raw_dec := dec\<rparr>)" "rx_maybe cf tick q' (spi_view t) = Some (v, evs2)" "spi_same ?s t"
        "length (rx_pkt t) = length (rx_pkt s)" "length (rdec_payload dec) = length (rx_pkt s)"
        "case q' of None \<Rightarrow> drop ?c ?G = [] | Some q \<Rightarrow> 2 \<le> length q \<and> raw_awaits alg dec (drop ?c ?G) q"
      using feed_chunk [OF _ c(1) q v, of fcf] f(5) less.prems(12) by auto
    have st: "spi_same s t"
      using g(5) by (simp add: spi_same_def)
    let ?r = "r1\<lparr>raw_dec := dec\<rparr>"
    have enc: "raw_enc_ok alg ?r" "raw_tidy ?r" "raw_rest alg ?r = drop ?c ?R"
      using f(2-4) by (simp_all add: raw_enc_ok_def raw_tidy_def raw_rest_def)
    have sz0: "y - x \<le> len - (m + x)" if "y \<le> len - m" for x y :: nat
      using that by linarith
    have sz1: "rx_len - (recvd + ?rf) = rx_len - recvd - ?c" "recvd + ?rf \<le> rx_len" "rx_len - recvd \<le> ?c \<Longrightarrow> recvd + ?rf = rx_len"
      using less.prems(8) rf_len [of recvd rx_len ?c] by simp_all
    have sz: "length (raw_rest alg ?r) \<le> len - (m + ?c)" "m + ?c \<le> len" "length (drop ?c X) = len - (m + ?c)"
        "rx_len - (recvd + ?rf) \<le> len - (m + ?c)"
      unfolding enc(3) sz1(1) length_drop less.prems(6) using sz0 [OF less.prems(4)] sz0 [OF less.prems(9)]
        le_diff_conv2 [OF less.prems(5), of ?c] c(2)
      by (simp_all only: add.commute [of ?c m] diff_diff_left)
    have q': "case q' of None \<Rightarrow> rx_len = recvd + ?rf
        | Some q \<Rightarrow> 2 \<le> length q \<and> raw_awaits alg (raw_dec ?r) (take (rx_len - (recvd + ?rf)) (drop ?c X)) q"
    proof (cases q')
      case None
      have "length ?G = rx_len - recvd"
        using less.prems(6,9) by (simp only: length_take min.absorb2)
      moreover have "length ?G \<le> ?c"
        using g(8) None by (simp only: option.case drop_eq_Nil)
      ultimately show ?thesis
        using sz1(3) None by (simp only: option.case)
    next
      case (Some p)
      then show ?thesis
        using g(8) unfolding sz1(1) drop_take by simp
    qed
    have "len - (m + ?c) < len - m"
      using True c by linarith
    from less.hyps [OF this g(3) enc(1,2) sz(1,2,3) bus(2) sz1(2) sz(4) q' g(4)] True g(6,7)
    obtain u r' where u: "spi_frame_loop cf fcf alg tick bus (Suc k) len rx_len (m + ?c) (recvd + ?rf) t =
        Some (0, spi_chunks (drop ?c ?R @ replicate (len - (m + ?c) - length (drop ?c ?R)) LUDLC_SPI_PAD), u, evs2)"
        "spi_view u = v" "sp_fs u = Raw_fs r'" "raw_enc_ok alg r'" "raw_tidy r'" "raw_rest alg r' = []" "spi_same t u"
        "length (rx_pkt u) = length (rx_pkt t)"
      unfolding enc(3) by auto
    have ch: "spi_chunks (?R @ replicate (?n - length ?R) LUDLC_SPI_PAD) =
        ?tx # spi_chunks (drop ?c ?R @ replicate (len - (m + ?c) - length (drop ?c ?R)) LUDLC_SPI_PAD)"
      using chunks_pad [OF less.prems(4)] True by (simp only: diff_diff_left zero_less_diff)
    have "spi_frame_loop cf fcf alg tick bus k len rx_len m recvd s =
        Some (0, spi_chunks (?R @ replicate (?n - length ?R) LUDLC_SPI_PAD), u, evs)"
      unfolding ch g(2) by (rule frame_loop_step [OF True refl f(1) bus(1) refl refl _ u(1)])
        (unfold rf, rule g(1))
    then show ?thesis
      using u(2-6,8) g(6) spi_same_trans [OF st u(7)] by auto
  qed
qed

section \<open>Announcing\<close>

definition spi_frame :: "('c::len) csum_alg \<Rightarrow> octet list option \<Rightarrow> octet list" where
  "spi_frame alg p = (case p of None \<Rightarrow> [] | Some p \<Rightarrow> frame_of alg p)"

definition spi_padded :: "('c::len) csum_alg \<Rightarrow> octet list option \<Rightarrow> octet list option \<Rightarrow> octet list" where
  "spi_padded alg p q = spi_frame alg p @
     replicate (max (length (spi_frame alg p)) (length (spi_frame alg q)) - length (spi_frame alg p)) LUDLC_SPI_PAD"

text \<open>The transfers of an end that sends \<open>p\<close> while its peer sends \<open>q\<close>.\<close>

definition spi_sends :: "('c::len) csum_alg \<Rightarrow> octet list option \<Rightarrow> octet list option \<Rightarrow> octet list list" where
  "spi_sends alg p q =
     spi_hdr_octets (ludlc_spi_hdr_put \<lparr>hdr_magic = 0, hdr_check = 0, hdr_len = [0, 0, 0, 0]\<rparr> (of_nat (length (spi_frame alg p)))) #
     spi_chunks (spi_padded alg p q)"

definition opt_fits :: "('c::len) csum_alg \<Rightarrow> ludlc_frame_size_t \<Rightarrow> octet list option \<Rightarrow> bool" where
  "opt_fits alg cap p \<longleftrightarrow> (case p of None \<Rightarrow> True | Some p \<Rightarrow> fits alg cap p)"

lemma opt_fits_length: "opt_fits alg cap p \<Longrightarrow> length (spi_frame alg p) \<le> unat cap"
  by (auto simp: opt_fits_def spi_frame_def fits_def split: option.splits)

lemma frame_some: "2 \<le> length p \<Longrightarrow> frame_of alg p \<noteq> []"
  using length_frame_of [of alg p] by (metis add_is_0 length_0_conv list.size(3) not_numeral_le_zero)

lemma spi_frame_nil: "opt_fits alg cap p \<Longrightarrow> length (spi_frame alg p) = 0 \<longleftrightarrow> p = None"
  by (auto simp: opt_fits_def spi_frame_def fits_def frame_some split: option.splits)

lemma put_same:
  "length (hdr_len h) = 4 \<Longrightarrow> ludlc_spi_hdr_put h n = ludlc_spi_hdr_put \<lparr>hdr_magic = 0, hdr_check = 0, hdr_len = [0, 0, 0, 0]\<rparr> n"
  by (simp add: spi_put_octets)

lemma put_length: "length (hdr_len h) = 4 \<Longrightarrow> length (hdr_len (ludlc_spi_hdr_put h n)) = 4"
  by (simp add: spi_put_octets)

lemma landed_all: "length bs = n \<Longrightarrow> length old = n \<Longrightarrow> spi_landed old n bs = bs"
  by (simp add: spi_landed_def)

text \<open>What an end makes of the peer's announcement.\<close>

lemma announced:
  fixes alg :: "('c::len) csum_alg" and p :: "octet list option"
  assumes "opt_fits alg cap q" "length old = LUDLC_SPI_HDR_LEN"
  defines "h \<equiv> spi_hdr_of_octets (spi_landed old LUDLC_SPI_HDR_LEN (spi_sends alg q p ! 0))"
  shows "ludlc_spi_hdr_get h cap = int (length (spi_frame alg q))" "length (hdr_len h) = 4"
proof -
  let ?z = "\<lparr>hdr_magic = 0, hdr_check = 0, hdr_len = [0, 0, 0, 0]\<rparr>"
  have n: "length (spi_frame alg q) \<le> unat cap"
    by (rule opt_fits_length [OF assms(1)])
  then have u: "unat (of_nat (length (spi_frame alg q)) :: uint32) = length (spi_frame alg q)"
    using unat_16_less [of cap] by (simp add: unat_of_nat)
  have "h = ludlc_spi_hdr_put ?z (of_nat (length (spi_frame alg q)))"
    unfolding h_def spi_sends_def
    by (simp add: landed_all [OF length_spi_hdr_octets assms(2)] spi_hdr_of_octets_of)
  then show "ludlc_spi_hdr_get h cap = int (length (spi_frame alg q))" "length (hdr_len h) = 4"
    using spi_get_put [of ?z "of_nat (length (spi_frame alg q))" cap] n u put_length [of ?z] by simp_all
qed

section \<open>Either half of an exchange\<close>

text \<open>Between two exchanges: nothing left to encode, and room for the longest frame the link carries.\<close>

definition enc_at_rest :: "('c::len) csum_alg \<Rightarrow> 'c word framing_state \<Rightarrow> octet list \<Rightarrow> bool" where
  "enc_at_rest alg fs xs \<longleftrightarrow> (case fs of Raw_fs r \<Rightarrow> raw_enc_ok alg r \<and> raw_tidy r \<and> raw_rest alg r = xs | _ \<Rightarrow> False)"

definition spi_room :: "config \<Rightarrow> ('c::len) csum_alg \<Rightarrow> 'c word ludlc_spi_connection \<Rightarrow> bool" where
  "spi_room cf alg s \<longleftrightarrow> csum_ok alg \<and> link_ok cf (sp_conn s) \<and> frame_cap s = ludlc_conn_frame_sz cf (sp_conn s) alg \<and>
     unat (frame_cap s) \<le> length (rx_pkt s) \<and> length (hdr_len (tx_hdr s)) = 4 \<and> length (hdr_len (rx_hdr s)) = 4"

definition spi_ready :: "config \<Rightarrow> ('c::len) csum_alg \<Rightarrow> 'c word ludlc_spi_connection \<Rightarrow> bool" where
  "spi_ready cf alg s \<longleftrightarrow> spi_room cf alg s \<and> enc_at_rest alg (sp_fs s) []"

lemma frame_sz_cfg: "conn_cfg c = conn_cfg d \<Longrightarrow> ludlc_conn_frame_sz cf c alg = ludlc_conn_frame_sz cf d alg"
  by (simp add: ludlc_conn_frame_sz_def ludlc_conn_payload_lim_def)

lemma data_phase:
  fixes s :: "('c::len) word ludlc_spi_connection"
  assumes "enc_at_rest alg (sp_fs s) (spi_frame alg p)" "spi_room cf alg s" "opt_fits alg (frame_cap s) p" "opt_fits alg (frame_cap s) q"
    and "bus_brings bus 1 (spi_padded alg q p)" "rx_maybe cf tick q (spi_view s) = Some (v, evs)"
  shows "\<exists>t. spi_frame_loop cf fcf alg tick bus 1 (max (length (spi_frame alg p)) (length (spi_frame alg q)))
      (length (spi_frame alg q)) 0 0 (spi_dec_prep cf alg (length (spi_frame alg q)) s) =
      Some (0, spi_chunks (spi_padded alg p q), t, evs) \<and> spi_view t = v \<and> enc_at_rest alg (sp_fs t) [] \<and> spi_same s t \<and>
    length (rx_pkt t) = length (rx_pkt s)"
proof -
  let ?F = "spi_frame alg p" and ?G = "spi_frame alg q"
  let ?n = "max (length ?F) (length ?G)"
  obtain r where r: "sp_fs s = Raw_fs r" "raw_enc_ok alg r" "raw_tidy r" "raw_rest alg r = ?F"
    using assms(1) by (auto simp: enc_at_rest_def split: framing_state.splits)
  have G: "length ?G \<le> unat (frame_cap s)" "length ?G < 65536"
    using opt_fits_length [OF assms(4)] unat_16_less [of "frame_cap s"] by simp_all
  have "unat (of_nat (length ?G) :: ludlc_frame_size_t) = length ?G"
    using G(2) by (simp add: unat_of_nat)
  then have m: "min (ludlc_conn_frame_sz cf (sp_conn s) alg) (of_nat (length ?G)) = of_nat (length ?G)"
    using assms(2) G(1) by (intro min.absorb2) (simp add: spi_room_def word_le_nat_alt)
  let ?r = "ludlc_raw_dec_prep r alg (rx_pkt s) (of_nat (length ?G))"
  let ?s = "spi_dec_prep cf alg (length ?G) s"
  have s: "?s = s\<lparr>sp_fs := Raw_fs ?r\<rparr>"
    by (simp add: spi_dec_prep_def m r(1) ludlc_dec_prep_def)
  have e: "raw_enc_ok alg ?r" "raw_tidy ?r" "raw_rest alg ?r = ?F" "length (rdec_payload (raw_dec ?r)) = length (rx_pkt s)"
    using r(2-4) by (simp_all add: raw_enc_ok_def raw_tidy_def raw_rest_def ludlc_raw_dec_prep_def Let_def)
  have q: "case q of None \<Rightarrow> length ?G = 0
      | Some p' \<Rightarrow> 2 \<le> length p' \<and> raw_awaits alg (raw_dec ?r) (take (length ?G - 0) (spi_padded alg q p)) p'"
  proof (cases q)
    case (Some p')
    then have "fits alg (frame_cap s) p'" "?G = frame_of alg p'"
      using assms(4) by (simp_all add: opt_fits_def spi_frame_def)
    then show ?thesis
      using prep_awaits [of alg "frame_cap s" p' "rx_pkt s" r] assms(2) G Some
      by (auto simp: fits_def spi_padded_def spi_room_def simp del: length_frame_of)
  qed (simp add: spi_frame_def)
  have "length (raw_rest alg ?r) \<le> ?n - 0" "length (spi_padded alg q p) = ?n - 0" "length ?G - 0 \<le> ?n - 0"
    by (simp_all add: e(3) spi_padded_def)
  then show ?thesis
    using frame_loop_raw [of ?s ?r alg ?n 0 "spi_padded alg q p" bus 1 0 "length ?G" q cf tick v evs fcf] assms(5,6) q e
    unfolding s by (auto simp: spi_view_def enc_at_rest_def spi_same_def spi_padded_def split: option.splits framing_state.split)
qed

section \<open>Loading\<close>

text \<open>What loading does to the core: the frame it gives when a transmission was asked for.\<close>

definition spi_core_load :: "config \<Rightarrow> rx_core \<Rightarrow> (octet list option \<times> rx_core \<times> ludlc_event list) option" where
  "spi_core_load cf = (\<lambda>(c, fl, k).
     let (forced, fl) = ludlc_platform_test_and_clear_bit LUDLC_CONN_FORCE_TX_F fl in
     if \<not> forced then Some (None, (c, fl, k), [])
     else do {
       (pending, fr, c, evs) \<leftarrow> ludlc_get_packet_to_send cf c True;
       let fl = (if RequestTx \<in> set evs then ludlc_platform_set_bit LUDLC_CONN_FORCE_TX_F fl else fl);
       case fr of
         Some fr \<Rightarrow>
           if pending < 0 then Some (None, (c, fl, k), evs)
           else Some (Some (frame_octets fr),
                      (c, if pending = 0 then ludlc_platform_set_bit LUDLC_CONN_FORCE_TX_F fl else fl, k), evs)
       | None \<Rightarrow> Some (None, (c, fl, k), evs)
     })"

lemma core_load_returns:
  assumes "link_ok cf (fst v)"
  shows "\<exists>p v' evs. spi_core_load cf v = Some (p, v', evs) \<and> link_ok cf (fst v') \<and> conn_cfg (fst v') = conn_cfg (fst v)"
proof -
  obtain c fl k where v: "v = (c, fl, k)" by (cases v)
  obtain pending fr d evs where g: "ludlc_get_packet_to_send cf c True = Some (pending, fr, d, evs)" "op_effect cf c [] evs d"
    using get_packet_effect assms unfolding v link_ok_def fst_conv by metis
  have "link_ok cf d" "conn_cfg d = conn_cfg c"
    using g(2) assms by (auto simp: v link_ok_def op_effect_def)
  then show ?thesis
    using g(1) assms
    by (cases fr) (auto simp: v spi_core_load_def ludlc_platform_test_and_clear_bit_def Let_def)
qed

lemma same_upd [simp]:
  "spi_same u (s\<lparr>sp_flags := fl\<rparr>) = spi_same u s" "spi_same u (s\<lparr>sp_conn := c\<rparr>) = spi_same u s"
  "spi_same u (s\<lparr>sp_fs := fs\<rparr>) = spi_same u s" "spi_same u (s\<lparr>sp_line := on\<rparr>) = spi_same u s" "spi_same s s"
  by (simp_all add: spi_same_def)

lemma line_simps [simp]:
  "sp_conn (ludlc_spi_data_ready on s) = sp_conn s" "sp_flags (ludlc_spi_data_ready on s) = sp_flags s"
  "sp_ticks (ludlc_spi_data_ready on s) = sp_ticks s" "sp_fs (ludlc_spi_data_ready on s) = sp_fs s"
  "rx_pkt (ludlc_spi_data_ready on s) = rx_pkt s" "frame_cap (ludlc_spi_data_ready on s) = frame_cap s"
  "spi_same u (ludlc_spi_data_ready on s) = spi_same u s"
  by (simp_all add: ludlc_spi_data_ready_def)

lemma spi_request_simps [simp]:
  "sp_conn (spi_request_tx s) = sp_conn s"
  "sp_flags (spi_request_tx s) = ludlc_platform_set_bit LUDLC_CONN_FORCE_TX_F (sp_flags s)"
  "sp_ticks (spi_request_tx s) = sp_ticks s" "sp_fs (spi_request_tx s) = sp_fs s" "rx_pkt (spi_request_tx s) = rx_pkt s"
  "frame_cap (spi_request_tx s) = frame_cap s" "spi_same u (spi_request_tx s) = spi_same u s"
  by (simp_all add: spi_request_tx_def)

lemma spi_requests_simps [simp]:
  "sp_conn (spi_requests evs s) = sp_conn s" "sp_ticks (spi_requests evs s) = sp_ticks s" "sp_fs (spi_requests evs s) = sp_fs s"
  "sp_flags (spi_requests evs s) =
     (if RequestTx \<in> set evs then ludlc_platform_set_bit LUDLC_CONN_FORCE_TX_F (sp_flags s) else sp_flags s)"
  "rx_pkt (spi_requests evs s) = rx_pkt s" "frame_cap (spi_requests evs s) = frame_cap s"
  "spi_same u (spi_requests evs s) = spi_same u s"
  by (simp_all add: spi_requests_def)

lemma prep_at_rest:
  fixes alg :: "('c::len) csum_alg"
  assumes "enc_at_rest alg fs []" "csum_ok alg" "frame_ok fr"
  defines "hsz \<equiv> of_nat (frame_hdr_sz fr)"
  shows "enc_at_rest alg (ludlc_enc_prep fs (Some (hdr_octets (frame_hdr fr))) hsz (frame_payload fr) (frame_pay_sz fr) False)
      (frame_of alg (frame_octets fr))"
    "framing_wire_len (LUDLC_FS_FRAMING fs) = Some (framing_raw_wire_len :: 'c csum_alg \<Rightarrow> _)"
    "framing_raw_wire_len alg hsz (frame_pay_sz fr) = length (frame_of alg (frame_octets fr))"
    "LUDLC_FS_FRAMING (ludlc_enc_prep fs (Some (hdr_octets (frame_hdr fr))) hsz (frame_payload fr) (frame_pay_sz fr) False) = LUDLC_FS_FRAMING fs"
proof -
  obtain r where r: "fs = Raw_fs r" "raw_enc_ok alg r" "raw_tidy r" "raw_rest alg r = []"
    using assms(1) by (auto simp: enc_at_rest_def split: framing_state.splits)
  have idle: "renc_state (raw_enc r) = renc_idle"
    using raw_done_idle [OF r(2-4)] by (simp add: ludlc_raw_enc_busy_def)
  note seg = frame_ok_segments [OF assms(3), folded hsz_def]
  have pay: "has_octets (frame_payload fr) (frame_pay_sz fr)"
    using assms(3) by (simp add: frame_ok_def)
  let ?r = "ludlc_raw_enc_prep r (Some (hdr_octets (frame_hdr fr))) hsz (frame_payload fr) (frame_pay_sz fr) False"
  have "raw_loaded alg ?r (frame_octets fr)"
    using seg pay idle assms(2) by (simp add: raw_loaded_def ludlc_raw_enc_prep_def)
  then show "enc_at_rest alg (ludlc_enc_prep fs (Some (hdr_octets (frame_hdr fr))) hsz (frame_payload fr) (frame_pay_sz fr) False)
      (frame_of alg (frame_octets fr))"
    using raw.loaded_ok raw.loaded_rest idle
    by (fastforce simp: enc_at_rest_def r(1) ludlc_enc_prep_def raw_tidy_def ludlc_raw_enc_prep_def)
  show "framing_wire_len (LUDLC_FS_FRAMING fs) = Some (framing_raw_wire_len :: 'c csum_alg \<Rightarrow> _)"
    by (simp add: r(1) framing_wire_len_def LUDLC_FS_FRAMING_def)
  show "framing_raw_wire_len alg hsz (frame_pay_sz fr) = length (frame_of alg (frame_octets fr))"
    unfolding seg(1) [symmetric] length_frame_of using seg(2) pay by (simp add: framing_raw_wire_len_def)
  show "LUDLC_FS_FRAMING (ludlc_enc_prep fs (Some (hdr_octets (frame_hdr fr))) hsz (frame_payload fr) (frame_pay_sz fr) False) = LUDLC_FS_FRAMING fs"
    by (simp add: r(1) ludlc_enc_prep_def LUDLC_FS_FRAMING_def)
qed

lemma no_narrowing: "n \<le> unat cap \<Longrightarrow> \<not> of_nat n > (cap :: ludlc_frame_size_t)"
  using unat_16_less [of cap] by (simp add: word_less_nat_alt unat_of_nat)

lemma load_spec:
  assumes ready: "spi_ready cf alg s" and load: "spi_core_load cf (spi_view s) = Some (p, v, evs)" and fits: "opt_fits alg (frame_cap s) p"
  shows "\<exists>t. spi_master_load_tx cf alg s = Some (length (spi_frame alg p), t, evs) \<and> spi_view t = v \<and>
      enc_at_rest alg (sp_fs t) (spi_frame alg p) \<and> spi_same s t \<and> rx_pkt t = rx_pkt s"
    "\<exists>t. spi_slave_load_tx cf alg s = Some (length (spi_frame alg p), t, evs) \<and> spi_view t = v \<and>
      enc_at_rest alg (sp_fs t) (spi_frame alg p) \<and> spi_same s t \<and> rx_pkt t = rx_pkt s"
proof -
  have link: "link_ok cf (sp_conn s)" and rest: "enc_at_rest alg (sp_fs s) []" and alg: "csum_ok alg"
    using ready by (simp_all add: spi_ready_def spi_room_def)
  have same: "spi_same s s" by (simp add: spi_same_def)
  let ?P = "\<lambda>ld. \<exists>t. ld = Some (length (spi_frame alg p), t, evs) \<and> spi_view t = v \<and>
      enc_at_rest alg (sp_fs t) (spi_frame alg p) \<and> spi_same s t \<and> rx_pkt t = rx_pkt s"
  obtain forced fl where tc: "ludlc_platform_test_and_clear_bit LUDLC_CONN_FORCE_TX_F (sp_flags s) = (forced, fl)"
    by (metis surj_pair)
  have "?P (spi_master_load_tx cf alg s) \<and> ?P (spi_slave_load_tx cf alg s)"
  proof (cases forced)
    case False
    then show ?thesis
      using load rest tc
      by (simp add: spi_core_load_def spi_view_def spi_master_load_tx_def spi_slave_load_tx_def spi_frame_def Let_def)
  next
    case forced: True
    obtain pending fr d evs' where g: "ludlc_get_packet_to_send cf (sp_conn s) True = Some (pending, fr, d, evs')"
      using load forced tc by (auto simp: spi_core_load_def spi_view_def [of s] Let_def split: Option.bind_splits)
    show ?thesis
    proof (cases "\<exists>f. fr = Some f \<and> 0 \<le> pending")
      case True
      then obtain f where f: "fr = Some f" "0 \<le> pending"
        by blast
      have fok: "frame_ok f"
        using get_packet_frame_ok [OF link] g f(1) by simp
      note pr = prep_at_rest [OF rest alg fok]
      have p: "p = Some (frame_octets f)" "evs' = evs"
        using load forced tc g f by (simp_all add: spi_core_load_def spi_view_def [of s] Let_def)
      have v: "v = (d, let fl = (if RequestTx \<in> set evs then ludlc_platform_set_bit LUDLC_CONN_FORCE_TX_F fl else fl)
          in if pending = 0 then ludlc_platform_set_bit LUDLC_CONN_FORCE_TX_F fl else fl, sp_ticks s)"
        using load forced tc g f by (auto simp: spi_core_load_def spi_view_def [of s] Let_def)
      have cap: "\<not> of_nat (length (frame_of alg (frame_octets f))) > frame_cap s"
        using opt_fits_length [OF fits] by (intro no_narrowing) (simp add: p spi_frame_def)
      have "?P (spi_master_load_tx cf alg s)"
        unfolding spi_master_load_tx_def tc p(1) v
        using forced g [unfolded p(2)] f pr cap by (simp add: spi_view_def spi_frame_def Let_def del: length_frame_of)
      moreover have "?P (spi_slave_load_tx cf alg s)"
        unfolding spi_slave_load_tx_def line_simps tc p(1) v Let_def
        using forced g [unfolded p(2)] f pr cap by (simp add: spi_view_def spi_frame_def Let_def del: length_frame_of)
      ultimately show ?thesis by blast
    next
      case no: False
      then show ?thesis
        using load forced tc g rest
        by (cases fr) (auto simp: spi_core_load_def spi_view_def spi_master_load_tx_def spi_slave_load_tx_def spi_frame_def Let_def)
    qed
  qed
  then show "?P (spi_master_load_tx cf alg s)" "?P (spi_slave_load_tx cf alg s)"
    by blast+
qed

section \<open>A whole exchange\<close>

lemma rx_maybe_returns:
  assumes "link_ok cf (fst v)"
  shows "\<exists>v' evs. rx_maybe cf tick q v = Some (v', evs) \<and> link_ok cf (fst v') \<and> conn_cfg (fst v') = conn_cfg (fst v)"
proof (cases q)
  case (Some p)
  obtain c fl k where v: "v = (c, fl, k)" by (cases v)
  let ?c = "c\<lparr>conn_stats := (conn_stats c)\<lparr>rx_packet := rx_packet (conn_stats c) + 1\<rparr>\<rparr>"
  have c: "link_ok cf ?c"
    using assms by (simp add: v link_ok_def)
  show ?thesis
  proof (cases "tick k")
    case None
    then show ?thesis
      using c Some by (simp add: rx_maybe_def rx_one_def v Let_def)
  next
    case (Some ts)
    obtain d evs where "ludlc_receive cf ?c p (length p) ts = Some (d, evs)" "op_effect cf ?c [] evs d"
      using receive_effect [of cf ?c p "length p" ts] c by (auto simp: link_ok_def)
    then show ?thesis
      using \<open>q = Some p\<close> Some c by (simp add: rx_maybe_def rx_one_def v Let_def link_ok_def op_effect_def)
  qed
qed (use assms in \<open>simp add: rx_maybe_def\<close>)

definition spi_counted :: "octet list option \<Rightarrow> rx_core \<Rightarrow> rx_core" where
  "spi_counted p = (\<lambda>(c, fl, k).
     (if p = None then c else c\<lparr>conn_stats := (conn_stats c)\<lparr>tx_packet := tx_packet (conn_stats c) + 1\<rparr>\<rparr>, fl, k))"

definition spi_done :: "octet list option \<Rightarrow> 'r ludlc_spi_connection \<Rightarrow> 'r ludlc_spi_connection" where
  "spi_done p t = (if p = None then t else spi_tx_counted t)"

lemma exchange_ready:
  assumes "spi_room cf alg s" "link_ok cf (sp_conn t)" "conn_cfg (sp_conn t) = conn_cfg (sp_conn s)" "spi_same s t"
    and "length (rx_pkt t) = length (rx_pkt s)" "enc_at_rest alg (sp_fs t) []"
  shows "spi_ready cf alg (spi_done p t)" "spi_view (spi_done p t) = spi_counted p (spi_view t)"
  using assms frame_sz_cfg [of "sp_conn (spi_done p t)" "sp_conn s" cf alg]
  by (auto simp: spi_done_def spi_tx_counted_def spi_counted_def spi_view_def spi_ready_def spi_room_def spi_same_def link_ok_def)

lemma announce_phase:
  fixes s t :: "('c::len) word ludlc_spi_connection" and p q :: "octet list option"
  assumes ready: "spi_ready cf alg s" and t: "spi_same s t" "rx_pkt t = rx_pkt s" "sp_conn t = fst v"
    and link: "link_ok cf (fst v)" "conn_cfg (fst v) = conn_cfg (sp_conn s)"
    and fits: "opt_fits alg (frame_cap s) q" and old: "length old = LUDLC_SPI_HDR_LEN"
  defines "u \<equiv> t\<lparr>tx_hdr := ludlc_spi_hdr_put (tx_hdr t) (of_nat (length (spi_frame alg p))),
      rx_hdr := spi_hdr_of_octets (spi_landed old LUDLC_SPI_HDR_LEN (spi_sends alg q p ! 0))\<rparr>"
  shows "spi_hdr_octets (tx_hdr u) = spi_sends alg p q ! 0" "ludlc_spi_hdr_get (rx_hdr u) (frame_cap u) = int (length (spi_frame alg q))"
    "spi_room cf alg u" "frame_cap u = frame_cap s" "sp_rx_event u = sp_rx_event s"
proof -
  have cap: "frame_cap t = frame_cap s" and len: "length (hdr_len (tx_hdr t)) = 4"
    using t(1) ready by (simp_all add: spi_same_def spi_ready_def spi_room_def)
  show "frame_cap u = frame_cap s" "sp_rx_event u = sp_rx_event s"
    using t(1) by (simp_all add: u_def spi_same_def)
  show "spi_hdr_octets (tx_hdr u) = spi_sends alg p q ! 0"
    by (simp add: u_def spi_sends_def put_same [OF len])
  show "ludlc_spi_hdr_get (rx_hdr u) (frame_cap u) = int (length (spi_frame alg q))"
    using announced(1) [OF fits old] by (simp add: u_def cap)
  show "spi_room cf alg u"
    using ready t link announced(2) [OF fits old] frame_sz_cfg [OF link(2), of cf alg] put_length [OF len]
    by (auto simp: u_def spi_ready_def spi_room_def spi_same_def)
qed

lemma sends_brings: "bus_brings (\<lambda>k. Inr (spi_sends alg q p ! k)) 1 (spi_padded alg q p)"
  by (simp add: bus_brings_def spi_sends_def)

lemma sends_eq: "spi_sends alg p q = spi_sends alg p q ! 0 # spi_chunks (spi_padded alg p q)"
  by (simp add: spi_sends_def)

lemma sends_none: "spi_chunks (spi_padded alg None None) = []"
  by (simp add: spi_padded_def spi_frame_def spi_chunks.simps)

lemma master_spec:
  fixes s :: "('c::len) word ludlc_spi_connection"
  assumes ready: "spi_ready cf alg s" and load: "spi_core_load cf (spi_view s) = Some (p, v, e0)"
    and fits: "opt_fits alg (frame_cap s) p" "opt_fits alg (frame_cap s) q"
    and rx: "rx_maybe cf tick q v = Some (w, e1)" and w: "link_ok cf (fst v)" "conn_cfg (fst v) = conn_cfg (sp_conn s)"
      "link_ok cf (fst w)" "conn_cfg (fst w) = conn_cfg (fst v)"
  shows "\<exists>t. spi_master_exchange cf fcf alg tick (\<lambda>k. Inr (spi_sends alg q p ! k)) s =
      Some (p \<noteq> None \<or> q \<noteq> None, spi_sends alg p q, t, e0 @ e1) \<and> spi_view t = spi_counted p w \<and> spi_ready cf alg t"
proof -
  let ?bus = "\<lambda>k. Inr (spi_sends alg q p ! k) :: int + octet list"
  obtain t where l: "spi_master_load_tx cf alg s = Some (length (spi_frame alg p), t, e0)" "spi_view t = v"
      "enc_at_rest alg (sp_fs t) (spi_frame alg p)" "spi_same s t" "rx_pkt t = rx_pkt s"
    using load_spec(1) [OF ready load fits(1)] by blast
  have ct: "sp_conn t = fst v"
    using l(2) by (auto simp: spi_view_def)
  have old: "length (spi_hdr_octets (rx_hdr t)) = LUDLC_SPI_HDR_LEN"
    using l(4) ready by (simp add: spi_same_def spi_ready_def spi_room_def spi_hdr_octets_def LUDLC_SPI_HDR_LEN_def)
  note a = announce_phase [OF ready l(4,5) ct w(1,2) fits(2) old, of p]
  let ?u = "t\<lparr>tx_hdr := ludlc_spi_hdr_put (tx_hdr t) (of_nat (length (spi_frame alg p))),
      rx_hdr := spi_hdr_of_octets (spi_landed (spi_hdr_octets (rx_hdr t)) LUDLC_SPI_HDR_LEN (spi_sends alg q p ! 0))\<rparr>"
  have u: "enc_at_rest alg (sp_fs ?u) (spi_frame alg p)" "spi_view ?u = v" "rx_pkt ?u = rx_pkt s" "sp_conn ?u = fst v"
    using l ct by (simp_all add: spi_view_def)
  show ?thesis
  proof (cases "p = None \<and> q = None")
    case True
    then have e: "e1 = []" "w = v" "spi_frame alg p = []" "spi_frame alg q = []"
      using rx by (simp_all add: rx_maybe_def spi_frame_def)
    have "spi_master_exchange cf fcf alg tick ?bus s = Some (False, [spi_sends alg p q ! 0], ?u, e0)"
      using l(1) a(1,2) e by (simp add: spi_master_exchange_def Let_def)
    moreover have "spi_ready cf alg (spi_done p ?u)" "spi_view (spi_done p ?u) = spi_counted p (spi_view ?u)"
      using exchange_ready [OF a(3), of ?u p] w u True l(3) e(3) by (simp_all add: spi_same_def)
    ultimately show ?thesis
      using True u(2) e sends_eq [of alg p q] sends_none [of alg] by (simp add: spi_done_def)
  next
    case False
    have ne: "\<not> (length (spi_frame alg p) = 0 \<and> int (length (spi_frame alg q)) = 0)"
      using False spi_frame_nil [OF fits(1)] spi_frame_nil [OF fits(2)] by auto
    have f: "opt_fits alg (frame_cap ?u) p" "opt_fits alg (frame_cap ?u) q"
      using fits a(4) by simp_all
    obtain x where x: "spi_frame_loop cf fcf alg tick ?bus 1 (max (length (spi_frame alg p)) (length (spi_frame alg q)))
          (length (spi_frame alg q)) 0 0 (spi_dec_prep cf alg (length (spi_frame alg q)) ?u) =
          Some (0, spi_chunks (spi_padded alg p q), x, e1)" "spi_view x = w" "enc_at_rest alg (sp_fs x) []" "spi_same ?u x"
        "length (rx_pkt x) = length (rx_pkt ?u)"
      using data_phase [OF u(1) a(3) f sends_brings, of tick w e1 fcf] rx u(2) by metis
    have "spi_master_exchange cf fcf alg tick ?bus s = Some (True, spi_sends alg p q, spi_done p x, e0 @ e1)"
      using l(1) a(1,2) x(1) ne sends_eq [of alg p q] spi_frame_nil [OF fits(1)]
      by (cases p) (simp_all add: spi_master_exchange_def spi_done_def Let_def)
    moreover have "spi_ready cf alg (spi_done p x)" "spi_view (spi_done p x) = spi_counted p (spi_view x)"
      using exchange_ready [OF a(3) _ _ x(4,5,3), of p] w u(4) x(2) by (auto simp: spi_view_def)
    ultimately show ?thesis
      using False x(2) by simp
  qed
qed


lemma slave_spec:
  fixes s :: "('c::len) word ludlc_spi_connection"
  assumes ready: "spi_ready cf alg s" and load: "spi_core_load cf (spi_view s) = Some (p, v, e0)"
    and fits: "opt_fits alg (frame_cap s) p" "opt_fits alg (frame_cap s) q"
    and rx: "rx_maybe cf tick q v = Some (w, e1)" and w: "link_ok cf (fst v)" "conn_cfg (fst v) = conn_cfg (sp_conn s)"
      "link_ok cf (fst w)" "conn_cfg (fst w) = conn_cfg (fst v)"
    and tout: "\<not> ludlc_platform_test_bit LUDLC_CONN_RX_TOUT_EVT (sp_rx_event s)"
  shows "\<exists>t. spi_slave_pass cf fcf alg tick (\<lambda>k. Inr (spi_sends alg q p ! k)) 0 s =
      Some (True, 0, spi_sends alg p q, t, e0 @ e1) \<and> spi_view t = spi_counted p w \<and> spi_ready cf alg t"
proof -
  let ?bus = "\<lambda>k. Inr (spi_sends alg q p ! k) :: int + octet list"
  obtain t where l: "spi_slave_load_tx cf alg s = Some (length (spi_frame alg p), t, e0)" "spi_view t = v"
      "enc_at_rest alg (sp_fs t) (spi_frame alg p)" "spi_same s t" "rx_pkt t = rx_pkt s"
    using load_spec(2) [OF ready load fits(1)] by blast
  have ct: "sp_conn t = fst v"
    using l(2) by (auto simp: spi_view_def)
  note a = announce_phase [OF ready l(4,5) ct w(1,2) fits(2), of "replicate LUDLC_SPI_HDR_LEN 0" p, OF length_replicate]
  let ?u = "t\<lparr>tx_hdr := ludlc_spi_hdr_put (tx_hdr t) (of_nat (length (spi_frame alg p))),
      rx_hdr := spi_hdr_of_octets (spi_landed (replicate LUDLC_SPI_HDR_LEN 0) LUDLC_SPI_HDR_LEN (spi_sends alg q p ! 0))\<rparr>"
  have u: "enc_at_rest alg (sp_fs ?u) (spi_frame alg p)" "spi_view ?u = v" "rx_pkt ?u = rx_pkt s" "sp_conn ?u = fst v"
    using l ct by (simp_all add: spi_view_def)
  have "\<exists>x. spi_slave_exchange cf fcf alg tick ?bus (length (spi_frame alg p)) t =
      Some (0, 0, spi_sends alg p q, spi_done p x, e1) \<and> spi_view x = w \<and> enc_at_rest alg (sp_fs x) [] \<and> spi_same ?u x \<and>
      length (rx_pkt x) = length (rx_pkt ?u)"
  proof (cases "p = None \<and> q = None")
    case True
    then have e: "e1 = []" "w = v" "spi_frame alg p = []" "spi_frame alg q = []"
      using rx by (simp_all add: rx_maybe_def spi_frame_def)
    have "spi_slave_exchange cf fcf alg tick ?bus (length (spi_frame alg p)) t = Some (0, 0, [spi_sends alg p q ! 0], ?u, [])"
      using a(1,2) e by (simp add: spi_slave_exchange_def Let_def)
    then show ?thesis
      using True u(1,2) e sends_eq [of alg p q] sends_none [of alg] by (intro exI [of _ ?u]) (simp add: spi_done_def spi_same_def)
  next
    case False
    have ne: "\<not> (length (spi_frame alg p) = 0 \<and> int (length (spi_frame alg q)) = 0)"
      using False spi_frame_nil [OF fits(1)] spi_frame_nil [OF fits(2)] by auto
    have f: "opt_fits alg (frame_cap ?u) p" "opt_fits alg (frame_cap ?u) q"
      using fits a(4) by simp_all
    obtain x where x: "spi_frame_loop cf fcf alg tick ?bus 1 (max (length (spi_frame alg p)) (length (spi_frame alg q)))
          (length (spi_frame alg q)) 0 0 (spi_dec_prep cf alg (length (spi_frame alg q)) ?u) =
          Some (0, spi_chunks (spi_padded alg p q), x, e1)" "spi_view x = w" "enc_at_rest alg (sp_fs x) []" "spi_same ?u x"
        "length (rx_pkt x) = length (rx_pkt ?u)"
      using data_phase [OF u(1) a(3) f sends_brings, of tick w e1 fcf] rx u(2) by metis
    have "spi_slave_exchange cf fcf alg tick ?bus (length (spi_frame alg p)) t = Some (0, 0, spi_sends alg p q, spi_done p x, e1)"
      using a(1,2) x(1) ne sends_eq [of alg p q] spi_frame_nil [OF fits(1)]
      by (cases p) (simp_all add: spi_slave_exchange_def spi_done_def Let_def)
    then show ?thesis
      using x(2-5) by blast
  qed
  then obtain x where x: "spi_slave_exchange cf fcf alg tick ?bus (length (spi_frame alg p)) t =
      Some (0, 0, spi_sends alg p q, spi_done p x, e1)" "spi_view x = w" "enc_at_rest alg (sp_fs x) []" "spi_same ?u x"
      "length (rx_pkt x) = length (rx_pkt ?u)"
    by blast
  have r: "spi_ready cf alg (spi_done p x)" "spi_view (spi_done p x) = spi_counted p (spi_view x)"
    using exchange_ready [OF a(3) _ _ x(4,5,3), of p] w u(4) x(2) by (auto simp: spi_view_def)
  have ev: "sp_rx_event (spi_done p x) = sp_rx_event s"
    using x(4) a(5) by (simp add: spi_done_def spi_tx_counted_def spi_same_def)
  have "spi_slave_pass cf fcf alg tick ?bus 0 s = Some (True, 0, spi_sends alg p q,
      spi_done p x\<lparr>sp_rx_event := snd (ludlc_platform_test_and_clear_bit LUDLC_CONN_RX_TOUT_EVT (sp_rx_event s))\<rparr>, e0 @ e1)"
    using l(1) x(1) ev tout
    by (simp add: spi_slave_pass_def ludlc_platform_test_bit_def ludlc_platform_test_and_clear_bit_def Let_def)
  then show ?thesis
    using r x(2) by (auto simp: spi_ready_def spi_room_def spi_view_def)
qed

lemma chunks_in_step: "length xs = length ys \<Longrightarrow> map length (spi_chunks xs) = map length (spi_chunks ys)"
proof (induction xs arbitrary: ys rule: spi_chunks.induct)
  case (1 xs)
  show ?case
  proof (cases "xs = []")
    case False
    then show ?thesis
      using 1 by (subst (1 2) spi_chunks.simps) auto
  qed (use 1 in \<open>simp add: spi_chunks.simps [of "[]"]\<close>)
qed

section \<open>A framing that marks the end itself\<close>

text \<open>
  The COBS decoder returns before the delimiter that completed a packet, and the loop of an
  exchange does not prepare it again: the next feed starts at the same delimiter and
  completes a packet once more, as long as enough octets are left of it.
\<close>

definition cobs_complete :: "('c::len) csum_alg \<Rightarrow> 'c word cobs_state \<Rightarrow> bool" where
  "cobs_complete alg fs \<longleftrightarrow> \<not> cobs_flag CDEC_OVER_F fs \<and> cdec_left (cobs_dec fs) = 0 \<and>
     (ludlc_csum_on alg \<longrightarrow> ludlc_csum_rx_ok alg (cdec_csum (cobs_dec fs)))"

lemma cobs_stops_before:
  assumes "ludlc_cobs_dec_feed fcf alg (fs, st) src = ((fs', st'), n, True)"
  shows "cobs_complete alg fs' \<and> (\<exists>rest. drop n src = LUDLC_COBS_DELIMITER fcf # rest) \<and>
    (\<not> ludlc_csum_on alg \<longrightarrow> ludlc_frame_min_sz alg \<le> unat (cdec_size (cobs_dec fs')))"
  using assms
proof (induction src arbitrary: fs st n)
  case (Cons c src)
  show ?case
  proof (cases "c = LUDLC_COBS_DELIMITER fcf \<and> snd (cobs_dec_end alg (fs, st))")
    case True
    then show ?thesis
      using Cons.prems
      by (auto simp: cobs_dec_end_def cobs_complete_def cobs_flag_def Let_def split: if_splits)
  next
    case False
    then show ?thesis
      using Cons by (auto simp: split_beta Let_def split: if_splits prod.splits) (metis prod.collapse)+
  qed
qed simp

lemma cobs_completes_again:
  assumes "cobs_complete alg fs" "ludlc_frame_min_sz alg \<le> unat (cdec_size (cobs_dec fs))"
  shows "ludlc_cobs_dec_feed fcf alg (fs, st) (LUDLC_COBS_DELIMITER fcf # rest) =
    ((if ludlc_csum_on alg
      then fs\<lparr>cobs_dec := (cobs_dec fs)\<lparr>cdec_size := cdec_size (cobs_dec fs) - ucast (ludlc_csum_octets alg)\<rparr>\<rparr> else fs,
      st\<lparr>rx_packet := rx_packet st + 1\<rparr>), 0, True)"
  using assms by (simp add: cobs_complete_def cobs_dec_end_def Let_def)

lemma on_packet_keeps: "ludlc_spi_on_packet cf tick n s = Some (t, evs) \<Longrightarrow> sp_fs t = sp_fs s"
  by (auto simp: ludlc_spi_on_packet_def split: option.splits Option.bind_splits)

lemma spi_feed_stuck:
  assumes "spi_feed cf fcf alg tick src s = Some r"
  shows "\<not> (\<exists>fs rest. sp_fs s = Cobs_fs fs \<and> src = LUDLC_COBS_DELIMITER fcf # rest \<and> cobs_complete alg fs \<and>
    \<not> ludlc_csum_on alg \<and> ludlc_frame_min_sz alg \<le> unat (cdec_size (cobs_dec fs)))"
proof (rule spi_feed.raw_induct [OF _ assms])
  fix f cf fcf and alg :: "('c::len) csum_alg" and tick src s r
  assume IH: "\<And>cf fcf alg tick src s r. f cf fcf alg tick src s = Some r \<Longrightarrow>
      \<not> (\<exists>fs rest. sp_fs s = Cobs_fs fs \<and> src = LUDLC_COBS_DELIMITER fcf # rest \<and> cobs_complete alg fs \<and>
        \<not> ludlc_csum_on (alg :: 'c csum_alg) \<and> ludlc_frame_min_sz alg \<le> unat (cdec_size (cobs_dec fs)))"
    and eq: "(if src = [] then Some (s, [])
      else
        let r = ludlc_dec_feed fcf alg (sp_fs s, conn_stats (sp_conn s)) src;
            s = s\<lparr>sp_fs := fst (fst r), rx_pkt := dec_buffer (fst (fst r)),
                   sp_conn := (sp_conn s)\<lparr>conn_stats := snd (fst r)\<rparr>\<rparr>
        in if \<not> snd (snd r) then f cf fcf alg tick (drop (fst (snd r)) src) s
           else do {
             (s, evs) \<leftarrow> ludlc_spi_on_packet cf tick (unat (ludlc_dec_size (sp_fs s))) s;
             (s, evs') \<leftarrow> f cf fcf alg tick (drop (fst (snd r)) src) s;
             Some (s, evs @ evs')
           }) = Some r"
  show "\<not> (\<exists>fs rest. sp_fs s = Cobs_fs fs \<and> src = LUDLC_COBS_DELIMITER fcf # rest \<and> cobs_complete alg fs \<and>
    \<not> ludlc_csum_on alg \<and> ludlc_frame_min_sz alg \<le> unat (cdec_size (cobs_dec fs)))"
  proof (intro notI, elim exE conjE)
    fix fs rest
    assume a: "sp_fs s = Cobs_fs fs" "src = LUDLC_COBS_DELIMITER fcf # rest" "cobs_complete alg fs" "\<not> ludlc_csum_on alg"
      "ludlc_frame_min_sz alg \<le> unat (cdec_size (cobs_dec fs))"
    have "ludlc_dec_feed fcf alg (sp_fs s, conn_stats (sp_conn s)) src =
        ((Cobs_fs fs, (conn_stats (sp_conn s))\<lparr>rx_packet := rx_packet (conn_stats (sp_conn s)) + 1\<rparr>), 0, True)"
      unfolding ludlc_dec_feed_def using cobs_completes_again [OF a(3,5)] a(4) by (simp add: a(1,2) del: ludlc_cobs_dec_feed.simps)
    then obtain t evs u where "sp_fs t = Cobs_fs fs" "f cf fcf alg tick src t = Some u"
      using eq a(2) by (auto simp: Let_def dest!: on_packet_keeps split: Option.bind_splits)
    then show False
      using IH a by blast
  qed
qed

section \<open>Properties\<close>

text \<open>C27: One exchange over SPI carries a frame each way, with the raw framing. When the cores of the
  controller and of the peripheral give the packets p and q (or nothing), and each end reads on
  the bus what the other puts there, both sides return; the transfers are those of the wire
  format and pairwise as long, so the ends stay in step; the core of each end is as if it had
  been handed the packet of the other once, with the packet it sent counted; and both ends
  are ready for the next exchange.\<close>

theorem spi_exchange_delivers:
  fixes m s :: "('c::len) word ludlc_spi_connection"
  assumes "spi_ready cf alg m" "spi_ready cf' alg s"
    and "spi_core_load cf (spi_view m) = Some (p, vm, em)" "spi_core_load cf' (spi_view s) = Some (q, vs, es)"
    and "\<forall>x \<in> {p, q}. opt_fits alg (frame_cap m) x \<and> opt_fits alg (frame_cap s) x"
    and "\<not> ludlc_platform_test_bit LUDLC_CONN_RX_TOUT_EVT (sp_rx_event s)"
  shows "\<exists>m' wm em' s' ws es'.
    spi_master_exchange cf fcf alg tick (\<lambda>k. Inr (spi_sends alg q p ! k)) m =
      Some (p \<noteq> None \<or> q \<noteq> None, spi_sends alg p q, m', em @ em') \<and>
    spi_slave_pass cf' fcf' alg tick' (\<lambda>k. Inr (spi_sends alg p q ! k)) 0 s =
      Some (True, 0, spi_sends alg q p, s', es @ es') \<and>
    map length (spi_sends alg p q) = map length (spi_sends alg q p) \<and>
    rx_maybe cf tick q vm = Some (wm, em') \<and> spi_view m' = spi_counted p wm \<and> spi_ready cf alg m' \<and>
    rx_maybe cf' tick' p vs = Some (ws, es') \<and> spi_view s' = spi_counted q ws \<and> spi_ready cf' alg s'"
proof -
  have link: "link_ok cf (sp_conn m)" "link_ok cf' (sp_conn s)"
    using assms(1,2) by (simp_all add: spi_ready_def spi_room_def)
  have vm: "link_ok cf (fst vm)" "conn_cfg (fst vm) = conn_cfg (sp_conn m)"
    using core_load_returns [of cf "spi_view m"] link(1) assms(3) by (auto simp: spi_view_def)
  have vs: "link_ok cf' (fst vs)" "conn_cfg (fst vs) = conn_cfg (sp_conn s)"
    using core_load_returns [of cf' "spi_view s"] link(2) assms(4) by (auto simp: spi_view_def)
  obtain wm em' where wm: "rx_maybe cf tick q vm = Some (wm, em')" "link_ok cf (fst wm)" "conn_cfg (fst wm) = conn_cfg (fst vm)"
    using rx_maybe_returns [OF vm(1)] by blast
  obtain ws es' where ws: "rx_maybe cf' tick' p vs = Some (ws, es')" "link_ok cf' (fst ws)" "conn_cfg (fst ws) = conn_cfg (fst vs)"
    using rx_maybe_returns [OF vs(1)] by blast
  have "map length (spi_sends alg p q) = map length (spi_sends alg q p)"
    using chunks_in_step [of "spi_padded alg p q" "spi_padded alg q p"] length_spi_hdr_octets
    by (simp add: spi_sends_def) (simp add: spi_padded_def max.commute)
  then show ?thesis
    using master_spec [OF assms(1,3) _ _ wm(1) vm wm(2,3), of fcf] slave_spec [OF assms(2,4) _ _ ws(1) vs ws(2,3) assms(6), of fcf']
      assms(5) wm(1) ws(1) by blast
qed


text \<open>An end of an established link, asked to transmit.\<close>

definition sample_spi :: "uint16 ludlc_spi_connection" where
  "sample_spi =
     \<lparr>sp_conn = sample_end, sp_flags = 1, sp_fs = Raw_fs raw_zero,
      frame_cap = ludlc_conn_frame_sz small_config sample_end (Some ludlc_crc16_ccitt_pr0),
      tx_hdr = \<lparr>hdr_magic = 0, hdr_check = 0, hdr_len = [0, 0, 0, 0]\<rparr>,
      rx_hdr = \<lparr>hdr_magic = 0, hdr_check = 0, hdr_len = [0, 0, 0, 0]\<rparr>,
      rx_chunk = replicate 32 0, rx_pkt = replicate 300 0, sp_ticks = 0,
      sp_has_line = True, sp_line = False, sp_rx_event = 0\<rparr>"

lemma sample_spi_ready: "spi_ready small_config (Some ludlc_crc16_ccitt_pr0) sample_spi"
  using sample_serial_ok(2) crc16_residual
  by (simp add: spi_ready_def spi_room_def sample_spi_def enc_at_rest_def raw_enc_ok_def raw_tidy_def raw_rest_def raw_zero_def
      has_octets_def sample_serial_def tx_thread_start_def)
    (simp add: ludlc_conn_frame_sz_def ludlc_conn_payload_lim_def small_config_def default_config_def LUDLC_FRAME_SIZE_def
      LUDLC_PACKET_SIZE_def ludlc_csum_octets_def ludlc_crc16_ccitt_pr0_def)


text \<open>The same end with a packet queued.\<close>

definition sample_spi_sender :: "uint16 ludlc_spi_connection" where
  "sample_spi_sender = sample_spi\<lparr>sp_conn := fst (snd (ludlc_enqueue_data small_config sample_end 5 (Some [1, 2]) 2 3))\<rparr>"

lemma sample_sender_ready: "spi_ready small_config (Some ludlc_crc16_ccitt_pr0) sample_spi_sender"
proof -
  have e: "link_ok small_config sample_end"
    using sample_serial_ok(2) by (simp add: sample_serial_def tx_thread_start_def)
  have inv: "conn_inv small_config sample_end" "buf_ok (Some [1, 2 :: octet]) 2"
    using e by (simp_all add: link_ok_def buf_ok_def)
  obtain ret d evs where d: "ludlc_enqueue_data small_config sample_end 5 (Some [1, 2]) 2 3 = (ret, d, evs)"
      "op_effect small_config sample_end (if ret = 0 then [(5, Some [1, 2], 2)] else []) evs d"
    using enqueue_effect [OF inv] by metis
  then have "link_ok small_config d" "conn_cfg d = conn_cfg sample_end"
    using e by (simp_all add: link_ok_def op_effect_def)
  then show ?thesis
    using sample_spi_ready d(1) frame_sz_cfg [of d sample_end small_config "Some ludlc_crc16_ccitt_pr0"]
    by (auto simp: sample_spi_sender_def spi_ready_def spi_room_def sample_spi_def)
qed

lemma sample_loads:
  "\<exists>v e. spi_core_load small_config (spi_view sample_spi) = Some (Some [129, 0], v, e)"
  "\<exists>v e. spi_core_load small_config (spi_view sample_spi_sender) = Some (Some [1, 0, 5, 1, 2], v, e)"
   by (simp_all add: spi_core_load_def spi_view_def sample_spi_sender_def sample_spi_def run_defs step_defs sample_end_def
      ludlc_platform_test_and_clear_bit_def frame_octets_def hdr_octets_def cong: run_weak)

theorem spi_exchange_delivers_witness:
  "\<exists>m' em s' es. spi_master_exchange small_config default_framing_config (Some ludlc_crc16_ccitt_pr0) Some
      (\<lambda>k. Inr (spi_sends (Some ludlc_crc16_ccitt_pr0) (Some [129, 0]) (Some [1, 0, 5, 1, 2]) ! k)) sample_spi_sender =
      Some (True, spi_sends (Some ludlc_crc16_ccitt_pr0) (Some [1, 0, 5, 1, 2]) (Some [129, 0]), m', em) \<and>
    spi_slave_pass small_config default_framing_config (Some ludlc_crc16_ccitt_pr0) Some
      (\<lambda>k. Inr (spi_sends (Some ludlc_crc16_ccitt_pr0) (Some [1, 0, 5, 1, 2]) (Some [129, 0]) ! k)) 0 sample_spi =
      Some (True, 0, spi_sends (Some ludlc_crc16_ccitt_pr0) (Some [129, 0]) (Some [1, 0, 5, 1, 2]), s', es) \<and>
    spi_ready small_config (Some ludlc_crc16_ccitt_pr0) m' \<and> spi_ready small_config (Some ludlc_crc16_ccitt_pr0) s'"
proof -
  let ?alg = "Some ludlc_crc16_ccitt_pr0"
  obtain vm em where m: "spi_core_load small_config (spi_view sample_spi_sender) = Some (Some [1, 0, 5, 1, 2], vm, em)"
    using sample_loads(2) by blast
  obtain vs es where s: "spi_core_load small_config (spi_view sample_spi) = Some (Some [129, 0], vs, es)"
    using sample_loads(1) by blast
  have cap: "frame_cap sample_spi_sender = 7" "frame_cap sample_spi = 7"
    by (simp_all add: sample_spi_sender_def sample_spi_def ludlc_conn_frame_sz_def ludlc_conn_payload_lim_def small_config_def
        default_config_def LUDLC_FRAME_SIZE_def LUDLC_PACKET_SIZE_def ludlc_csum_octets_def ludlc_crc16_ccitt_pr0_def)
  have f: "\<forall>x \<in> {Some [1, 0, 5, 1, 2 :: octet], Some [129, 0]}. opt_fits ?alg (frame_cap sample_spi_sender) x \<and>
      opt_fits ?alg (frame_cap sample_spi) x"
    by (simp add: cap opt_fits_def fits_def ludlc_csum_octets_def ludlc_crc16_ccitt_pr0_def)
  have t: "\<not> ludlc_platform_test_bit LUDLC_CONN_RX_TOUT_EVT (sp_rx_event sample_spi)"
    by (simp add: sample_spi_def ludlc_platform_test_bit_def)
  show ?thesis
    using spi_exchange_delivers [OF sample_sender_ready sample_spi_ready m s f t, of default_framing_config Some default_framing_config Some]
    by auto
qed


text \<open>C28: A link over SPI that runs the COBS framing without a checksum, a choice both ends accept, does
  not survive its first packet: once the octets of a chunk complete a packet, the loop that
  feeds them never returns, because it neither passes the delimiter nor prepares the decoder
  again.\<close>

theorem spi_cobs_hangs:
  fixes s :: "('c::len) word ludlc_spi_connection"
  assumes "LUDLC_FS_FRAMING (sp_fs s) = Cobs"
    and "ludlc_dec_feed fcf None (sp_fs s, conn_stats (sp_conn s)) src = (ds, n, True)"
  shows "spi_feed cf fcf (None :: 'c csum_alg) tick src s = None"
proof -
  obtain fs where fs: "sp_fs s = Cobs_fs fs"
    using assms(1) by (cases "sp_fs s") (auto simp: LUDLC_FS_FRAMING_def)
  obtain fs' st' where f: "ludlc_cobs_dec_feed fcf (None :: 'c csum_alg) (fs, conn_stats (sp_conn s)) src = ((fs', st'), n, True)"
      "ds = (Cobs_fs fs', st')"
    using assms(2) by (cases "ludlc_cobs_dec_feed fcf (None :: 'c csum_alg) (fs, conn_stats (sp_conn s)) src")
      (auto simp: ludlc_dec_feed_def fs)
  have off: "\<not> ludlc_csum_on (None :: 'c csum_alg)"
    by (simp add: ludlc_csum_on_def)
  obtain rest where c: "cobs_complete (None :: 'c csum_alg) fs'" "drop n src = LUDLC_COBS_DELIMITER fcf # rest"
      "ludlc_frame_min_sz (None :: 'c csum_alg) \<le> unat (cdec_size (cobs_dec fs'))"
    using cobs_stops_before [OF f(1)] off by auto
  then have ne: "src \<noteq> []"
    by auto
  have "spi_feed cf fcf (None :: 'c csum_alg) tick (drop n src) t = None" if "sp_fs t = Cobs_fs fs'" for t
    using spi_feed_stuck [of cf fcf "None :: 'c csum_alg" tick "drop n src" t] that c off by (cases "spi_feed cf fcf None tick (drop n src) t") auto
  then show ?thesis
    using assms(2) ne f(2) unfolding spi_feed.simps [of cf fcf _ tick src s]
    by (auto simp: Let_def dest!: on_packet_keeps split: Option.bind_split)
qed

theorem spi_cobs_hangs_witness:
  "spi_feed small_config default_framing_config (None :: 16 csum_alg) Some [2, 129, 1, 0]
     (sample_spi\<lparr>sp_fs := Cobs_fs (ludlc_cobs_dec_prep cobs_zero None (replicate 5 0) 5)\<rparr>) = None"
proof -
  have d: "\<exists>ds n. ludlc_dec_feed default_framing_config None (Cobs_fs (ludlc_cobs_dec_prep cobs_zero (None :: 16 csum_alg) (replicate 5 0) 5), stats_zero)
      [2, 129, 1, 0] = (ds, n, True)"
    by (simp add: ludlc_dec_feed_def ludlc_cobs_dec_prep_def cobs_dec_reset_def cobs_zero_def ludlc_csum_on_def default_framing_config_def
        cobs_dec_octet_def cobs_dec_end_def cobs_store_byte_def cobs_put_flag_def cobs_flag_def frame_min_sz ludlc_platform_clear_mask_def
        ludlc_platform_set_bit_def ludlc_platform_clear_bit_def ludlc_platform_test_bit_def LUDLC_ATOMIC_MASK_def LUDLC_BITS_PER_WORD_def
        Let_def)
  then show ?thesis
    using spi_cobs_hangs [of "sample_spi\<lparr>sp_fs := Cobs_fs (ludlc_cobs_dec_prep cobs_zero None (replicate 5 0) 5)\<rparr>" default_framing_config
        "[2, 129, 1, 0]"]
    by (auto simp: sample_spi_def LUDLC_FS_FRAMING_def sample_end_def)
qed

end
