(* ===== verification/Ludlc_Csum_Registry.thy ===== *)
theory Ludlc_Csum_Registry
  imports Ludlc_Csum
begin

text \<open>
  The checksums of the Linux port and the registry other modules add to
  (\<open>src/src/lib/platform/linux/ludlc_csum.c\<close>). A descriptor is known by its address; what lies
  there is the argument \<open>mem\<close>, as descriptors are constant. Of the kernel, how two names
  compare (\<open>streq\<close>) and which modules refuse another reference (\<open>going\<close>) are arguments; what
  the registry took of each module is counted in the state. Every operation runs under one
  lock and is a step. The lemmas show that references are counted exactly, that a checksum
  in use keeps its provider, and what the check of a descriptor accepts.
\<close>

section \<open>State\<close>

abbreviation (input) EEXIST :: int where "EEXIST \<equiv> 17"
abbreviation (input) ENODEV :: int where "ENODEV \<equiv> 19"
abbreviation (input) EOPNOTSUPP :: int where "EOPNOTSUPP \<equiv> 95"

type_synonym csum_ref = nat
type_synonym module_ref = nat

text \<open>A descriptor as a module hands it in: its checksum function may be missing.\<close>

record 'r csum_desc =
  desc_computes :: bool
  desc_csum :: "'r ludlc_csum"

type_synonym 'r csum_mem = "csum_ref \<Rightarrow> 'r csum_desc"

record ludlc_crc_node =
  node_crc :: csum_ref
  node_owner :: module_ref
  node_refs :: nat
  node_registered :: bool

record crc_registry =
  ludlc_crc_nodes :: "ludlc_crc_node list"
  module_pins :: "module_ref \<Rightarrow> int"

text \<open>The built-in descriptors, the comparison of names and the modules being unloaded.\<close>

record crc_env =
  ludlc_crcs :: "csum_ref list"
  env_streq :: "string \<Rightarrow> string \<Rightarrow> bool"
  env_going :: "module_ref \<Rightarrow> bool"

section \<open>Looking up\<close>

text \<open>The position of the first node of a descriptor.\<close>

fun ludlc_csum_node_of :: "ludlc_crc_node list \<Rightarrow> csum_ref \<Rightarrow> nat option" where
  "ludlc_csum_node_of [] crc = None"
| "ludlc_csum_node_of (n # ns) crc =
     (if node_crc n = crc then Some 0 else map_option Suc (ludlc_csum_node_of ns crc))"

definition csum_name_of :: "'r csum_mem \<Rightarrow> csum_ref \<Rightarrow> string" where
  "csum_name_of mem p = csum_name (desc_csum (mem p))"

definition ludlc_lookup_csum :: "crc_env \<Rightarrow> 'r csum_mem \<Rightarrow> crc_registry \<Rightarrow> string \<Rightarrow> csum_ref option" where
  "ludlc_lookup_csum env mem reg name =
     (case find (\<lambda>p. env_streq env name (csum_name_of mem p)) (ludlc_crcs env) of
        Some p \<Rightarrow> Some p
      | None \<Rightarrow> map_option node_crc
          (find (\<lambda>n. node_registered n \<and> env_streq env name (csum_name_of mem (node_crc n))) (ludlc_crc_nodes reg)))"

section \<open>References\<close>

definition ludlc_csum_hold :: "crc_env \<Rightarrow> csum_ref \<Rightarrow> crc_registry \<Rightarrow> bool \<times> crc_registry" where
  "ludlc_csum_hold env p reg =
     (case ludlc_csum_node_of (ludlc_crc_nodes reg) p of
        None \<Rightarrow> (True, reg)
      | Some i \<Rightarrow>
          let node = ludlc_crc_nodes reg ! i in
          if env_going env (node_owner node) then (False, reg)
          else (True, reg\<lparr>ludlc_crc_nodes := (ludlc_crc_nodes reg)[i := node\<lparr>node_refs := node_refs node + 1\<rparr>],
                          module_pins := (module_pins reg)(node_owner node := module_pins reg (node_owner node) + 1)\<rparr>))"

definition ludlc_csum_get :: "crc_env \<Rightarrow> csum_ref option \<Rightarrow> crc_registry \<Rightarrow> csum_ref option \<times> crc_registry" where
  "ludlc_csum_get env csum reg =
     (case csum of
        None \<Rightarrow> (None, reg)
      | Some p \<Rightarrow> let (ok, reg) = ludlc_csum_hold env p reg in (if ok then Some p else None, reg))"

text \<open>Dropping a reference of the node at \<open>i\<close>: the last one frees it.\<close>

definition crc_node_drop :: "nat \<Rightarrow> ludlc_crc_node \<Rightarrow> ludlc_crc_node list \<Rightarrow> ludlc_crc_node list" where
  "crc_node_drop i node ns =
     (if node_refs node = 1 then take i ns @ drop (Suc i) ns
      else ns[i := node\<lparr>node_refs := node_refs node - 1\<rparr>])"

definition ludlc_csum_put :: "csum_ref option \<Rightarrow> crc_registry \<Rightarrow> crc_registry" where
  "ludlc_csum_put csum reg =
     (case csum of
        None \<Rightarrow> reg
      | Some p \<Rightarrow>
          case ludlc_csum_node_of (ludlc_crc_nodes reg) p of
            None \<Rightarrow> reg
          | Some i \<Rightarrow>
              let node = ludlc_crc_nodes reg ! i;
                  owner = node_owner node
              in reg\<lparr>ludlc_crc_nodes := crc_node_drop i node (ludlc_crc_nodes reg),
                     module_pins := (module_pins reg)(owner := module_pins reg owner - 1)\<rparr>)"

definition ludlc_crc_find ::
    "crc_env \<Rightarrow> 'r csum_mem \<Rightarrow> string option \<Rightarrow> crc_registry \<Rightarrow> csum_ref option \<times> crc_registry" where
  "ludlc_crc_find env mem name reg =
     (case name of
        None \<Rightarrow> (None, reg)
      | Some name \<Rightarrow>
          case ludlc_lookup_csum env mem reg name of
            None \<Rightarrow> (None, reg)
          | Some p \<Rightarrow> let (ok, reg) = ludlc_csum_hold env p reg in (if ok then Some p else None, reg))"

definition LUDLC_CSUM_NONE :: string where
  "LUDLC_CSUM_NONE = ''none''"

definition ludlc_crc_by_name ::
    "crc_env \<Rightarrow> 'r csum_mem \<Rightarrow> string option \<Rightarrow> crc_registry \<Rightarrow> int \<times> csum_ref option \<times> crc_registry" where
  "ludlc_crc_by_name env mem name reg =
     (if name \<noteq> None \<and> env_streq env (the name) LUDLC_CSUM_NONE then (0, None, reg)
      else let (csum, reg) = ludlc_crc_find env mem name reg
           in (if csum \<noteq> None then 0 else - EINVAL, csum, reg))"

definition ludlc_csum_list :: "crc_env \<Rightarrow> 'r csum_mem \<Rightarrow> crc_registry \<Rightarrow> string" where
  "ludlc_csum_list env mem reg =
     LUDLC_CSUM_NONE @
     concat (map (\<lambda>p. '' '' @ csum_name_of mem p) (ludlc_crcs env)) @
     concat (map (\<lambda>n. '' '' @ csum_name_of mem (node_crc n)) (filter node_registered (ludlc_crc_nodes reg))) @ [CHR 0x0A]"

section \<open>Checking a descriptor\<close>

definition csum_test_frames :: "octet list list" where
  "csum_test_frames = [[0x00, 0x01, 0x02, 0x03, 0x04, 0x05, 0x06], [0xa5, 0x5a, 0xff, 0x00, 0x81, 0x7e, 0x18]]"

definition csum_frame_verifies :: "('c::len) word ludlc_csum \<Rightarrow> octet list \<Rightarrow> bool" where
  "csum_frame_verifies csum frame =
     (let val = foldl (csum_fn csum) (csum_init csum) frame;
          wire = (case to_wire csum of Some f \<Rightarrow> f val | None \<Rightarrow> val);
          val = foldl (\<lambda>val i. csum_fn csum val (ucast (drop_bit (8 * i) wire))) val [0..<unat (csum_octets csum)]
      in val = csum_verify csum)"

definition ludlc_csum_verifies :: "('c::len) word ludlc_csum \<Rightarrow> bool" where
  "ludlc_csum_verifies csum = list_all (csum_frame_verifies csum) csum_test_frames"

definition csum_octets_bad :: "('c::len) word ludlc_csum \<Rightarrow> bool" where
  "csum_octets_bad csum \<longleftrightarrow> csum_octets csum = 0 \<or> unat (csum_octets csum) > LENGTH('c) div 8"

definition ludlc_csum_check :: "('c::len) word csum_desc \<Rightarrow> int" where
  "ludlc_csum_check d =
     (if \<not> desc_computes d then - EINVAL
      else if csum_octets_bad (desc_csum d) then - EOPNOTSUPP
      else if \<not> ludlc_csum_verifies (desc_csum d) then - EINVAL
      else 0)"

section \<open>Registering\<close>

text \<open>\<open>alloc\<close> tells whether the node could be allocated.\<close>

definition ludlc_crc_register ::
    "crc_env \<Rightarrow> ('c::len) word csum_mem \<Rightarrow> bool \<Rightarrow> csum_ref option \<Rightarrow> module_ref \<Rightarrow> crc_registry \<Rightarrow> int \<times> crc_registry" where
  "ludlc_crc_register env mem alloc crc owner reg =
     (case crc of
        None \<Rightarrow> (- EINVAL, reg)
      | Some p \<Rightarrow>
          if \<not> desc_computes (mem p) \<or> csum_name_of mem p = [] then (- EINVAL, reg)
          else if csum_octets_bad (desc_csum (mem p)) then (- EOPNOTSUPP, reg)
          else if \<not> ludlc_csum_verifies (desc_csum (mem p)) then (- EINVAL, reg)
          else if \<not> alloc then (- ENOMEM, reg)
          else
            let node = \<lparr>node_crc = p, node_owner = owner, node_refs = 1, node_registered = True\<rparr> in
            if ludlc_lookup_csum env mem reg (csum_name_of mem p) \<noteq> None then (- EEXIST, reg)
            else (0, reg\<lparr>ludlc_crc_nodes := ludlc_crc_nodes reg @ [node]\<rparr>))"

definition ludlc_crc_unregister :: "csum_ref \<Rightarrow> crc_registry \<Rightarrow> crc_registry" where
  "ludlc_crc_unregister p reg =
     (case ludlc_csum_node_of (ludlc_crc_nodes reg) p of
        None \<Rightarrow> reg
      | Some i \<Rightarrow>
          let node = (ludlc_crc_nodes reg ! i)\<lparr>node_registered := False\<rparr>
          in reg\<lparr>ludlc_crc_nodes := crc_node_drop i node ((ludlc_crc_nodes reg)[i := node])\<rparr>)"

section \<open>The checksum of a link\<close>

text \<open>The slot of a link: what it holds before and after. \<open>given\<close> tells that slot and device are.\<close>

definition ludlc_link_csum_drop :: "csum_ref option \<Rightarrow> crc_registry \<Rightarrow> csum_ref option \<times> crc_registry" where
  "ludlc_link_csum_drop cur reg = (None, ludlc_csum_put cur reg)"

definition ludlc_link_csum_set ::
    "crc_env \<Rightarrow> ('c::len) word csum_mem \<Rightarrow> bool \<Rightarrow> csum_ref option \<Rightarrow> csum_ref option \<Rightarrow> crc_registry \<Rightarrow>
     int \<times> csum_ref option \<times> crc_registry" where
  "ludlc_link_csum_set env mem given cur csum reg =
     (if \<not> given then (- EINVAL, cur, reg)
      else
        case csum of
          None \<Rightarrow> (0, None, reg)
        | Some p \<Rightarrow>
            let (got, reg) = ludlc_csum_get env csum reg in
            if got = None then (- ENODEV, cur, reg)
            else
              let cur = csum;
                  ret = ludlc_csum_check (mem p);
                  (cur, reg) = (if ret \<noteq> 0 then ludlc_link_csum_drop cur reg else (cur, reg))
              in (ret, cur, reg))"

text \<open>What loading the core checks, and the default it settles on: \<open>param\<close> as given to the module, or the build's.\<close>

definition ludlc_csum_setup ::
    "crc_env \<Rightarrow> ('c::len) word csum_mem \<Rightarrow> string option \<Rightarrow> csum_ref option \<Rightarrow> crc_registry \<Rightarrow>
     int \<times> csum_ref option \<times> crc_registry" where
  "ludlc_csum_setup env mem param build reg =
     (if \<not> list_all (\<lambda>p. ludlc_csum_verifies (desc_csum (mem p))) (ludlc_crcs env) then (- EINVAL, None, reg)
      else
        case param of
          None \<Rightarrow> (0, build, reg)
        | Some name \<Rightarrow>
            let (ret, dflt, reg) = ludlc_crc_by_name env mem (Some name) reg in
            if ret \<noteq> 0 then (- EINVAL, dflt, reg) else (0, dflt, reg))"

section \<open>Steps\<close>

text \<open>
  The registry together with the references its callers have taken and not given back. A
  caller gives back only what it took and takes a registration back only once; a descriptor
  is registered while nobody uses it and no node of it is left. Which modules are being
  unloaded may change from step to step.
\<close>

type_synonym registry_state = "crc_registry \<times> (csum_ref \<Rightarrow> nat)"


definition registry_empty :: registry_state where
  "registry_empty = (\<lparr>ludlc_crc_nodes = [], module_pins = \<lambda>_. 0\<rparr>, \<lambda>_. 0)"

text \<open>
  A node for each descriptor that is offered or in use, with a reference for each; each
  module pinned as often as its checksums are held; every node checked; no two offered under
  the same name.
\<close>

definition pins_of :: "(csum_ref \<Rightarrow> nat) \<Rightarrow> ludlc_crc_node list \<Rightarrow> module_ref \<Rightarrow> int" where
  "pins_of held ns m = (\<Sum>n\<leftarrow>ns. if node_owner n = m then int (held (node_crc n)) else 0)"

definition names_apart :: "crc_env \<Rightarrow> 'r csum_mem \<Rightarrow> ludlc_crc_node list \<Rightarrow> bool" where
  "names_apart env mem = sorted_wrt (\<lambda>a b. node_registered a \<longrightarrow> node_registered b \<longrightarrow>
     \<not> env_streq env (csum_name_of mem (node_crc b)) (csum_name_of mem (node_crc a)))"

definition node_ok :: "('c::len) word csum_mem \<Rightarrow> (csum_ref \<Rightarrow> nat) \<Rightarrow> ludlc_crc_node \<Rightarrow> bool" where
  "node_ok mem held n \<longleftrightarrow> node_refs n = (if node_registered n then 1 else 0) + held (node_crc n) \<and> 0 < node_refs n \<and>
     ludlc_csum_check (mem (node_crc n)) = 0"

definition registry_ok :: "crc_env \<Rightarrow> ('c::len) word csum_mem \<Rightarrow> registry_state \<Rightarrow> bool" where
  "registry_ok env mem = (\<lambda>(reg, held).
     distinct (map node_crc (ludlc_crc_nodes reg)) \<and> (\<forall>n \<in> set (ludlc_crc_nodes reg). node_ok mem held n) \<and>
     module_pins reg = pins_of held (ludlc_crc_nodes reg) \<and> names_apart env mem (ludlc_crc_nodes reg))"

section \<open>The invariant is kept\<close>

lemma node_of_None: "ludlc_csum_node_of ns p = None \<longleftrightarrow> p \<notin> node_crc ` set ns"
  by (induction ns) auto

lemma node_of_split:
  assumes "ludlc_csum_node_of ns p = Some i"
  shows "\<exists>as n bs. ns = as @ n # bs \<and> i = length as \<and> node_crc n = p"
  using assms
proof (induction ns arbitrary: i)
  case (Cons a ns)
  show ?case
  proof (cases "node_crc a = p")
    case True
    then show ?thesis
      using Cons.prems by (intro exI [of _ "[]"]) auto
  next
    case False
    then obtain j where j: "ludlc_csum_node_of ns p = Some j" "i = Suc j"
      using Cons.prems by auto
    then obtain as n bs where "ns = as @ n # bs" "j = length as" "node_crc n = p"
      using Cons.IH by blast
    then show ?thesis
      using j(2) by (intro exI [of _ "a # as"]) auto
  qed
qed simp

lemma node_drop_split:
  "crc_node_drop (length as) n (as @ k # bs) =
     as @ (if node_refs n = 1 then [] else [n\<lparr>node_refs := node_refs n - 1\<rparr>]) @ bs"
  by (simp add: crc_node_drop_def)

lemma pins_simps [simp]:
  "pins_of held (as @ bs) m = pins_of held as m + pins_of held bs m" "pins_of held [] m = 0"
  "pins_of held (n # ns) m = (if node_owner n = m then int (held (node_crc n)) else 0) + pins_of held ns m"
  by (simp_all add: pins_of_def)

lemma pins_other: "p \<notin> node_crc ` set ns \<Longrightarrow> pins_of (held(p := h)) ns m = pins_of held ns m"
  by (induction ns) auto

lemma node_ok_other: "node_crc n \<noteq> p \<Longrightarrow> node_ok mem (held(p := h)) n = node_ok mem held n"
  by (simp add: node_ok_def)

lemma nodes_other:
  "p \<notin> node_crc ` set ns \<Longrightarrow> n \<in> set ns \<Longrightarrow> node_ok mem (held(p := h)) n = node_ok mem held n"
  by (rule node_ok_other) auto

lemma names_replace:
  assumes "names_apart env mem (as @ n # bs)" "node_crc n' = node_crc n" "node_registered n' \<longrightarrow> node_registered n"
  shows "names_apart env mem (as @ n' # bs)"
  using assms by (auto simp: names_apart_def sorted_wrt_append)


lemma hold_ok:
  assumes ok: "registry_ok env mem (reg, held)" and h: "ludlc_csum_hold env' p reg = (got, reg')"
  shows "registry_ok env mem (reg', if got then held(p := held p + 1) else held)"
proof (cases "ludlc_csum_node_of (ludlc_crc_nodes reg) p")
  case None
  then show ?thesis
    using h ok pins_other [of p "ludlc_crc_nodes reg" held] node_of_None [of "ludlc_crc_nodes reg" p]
    by (auto simp: ludlc_csum_hold_def registry_ok_def nodes_other fun_eq_iff)
next
  case (Some i)
  obtain as n bs where ns: "ludlc_crc_nodes reg = as @ n # bs" "i = length as" "node_crc n = p"
    using node_of_split [OF Some] by blast
  have apart: "p \<notin> node_crc ` set as" "p \<notin> node_crc ` set bs"
    using ok ns by (auto simp: registry_ok_def)
  have "names_apart env mem (as @ n\<lparr>node_refs := node_refs n + 1\<rparr> # bs)"
    using ok names_replace [of env mem as n bs] by (simp add: registry_ok_def ns)
  moreover have "node_ok mem (held(p := held p + 1)) (n\<lparr>node_refs := node_refs n + 1\<rparr>)"
    using ok ns by (simp add: registry_ok_def node_ok_def)
  ultimately show ?thesis
    using h ok Some ns apart
    by (cases "env_going env' (node_owner n)")
      (auto simp: ludlc_csum_hold_def registry_ok_def nodes_other fun_eq_iff pins_other Let_def)
qed










lemma node_of_append: "p \<notin> node_crc ` set as \<Longrightarrow> node_crc n = p \<Longrightarrow> ludlc_csum_node_of (as @ n # bs) p = Some (length as)"
  by (induction as) auto

lemma hold_put:
  assumes ok: "registry_ok env mem (reg, held)" and h: "ludlc_csum_hold env' p reg = (True, reg')"
  shows "ludlc_csum_put (Some p) reg' = reg"
proof (cases "ludlc_csum_node_of (ludlc_crc_nodes reg) p")
  case None
  then show ?thesis
    using h by (simp add: ludlc_csum_hold_def ludlc_csum_put_def)
next
  case (Some i)
  obtain as n bs where ns: "ludlc_crc_nodes reg = as @ n # bs" "i = length as" "node_crc n = p"
    using node_of_split [OF Some] by blast
  have n: "p \<notin> node_crc ` set as" "node_refs n \<noteq> 0"
    using ok ns by (auto simp: registry_ok_def node_ok_def)
  have r: "reg' = reg\<lparr>ludlc_crc_nodes := as @ n\<lparr>node_refs := node_refs n + 1\<rparr> # bs,
      module_pins := (module_pins reg)(node_owner n := module_pins reg (node_owner n) + 1)\<rparr>"
    using h Some ns by (auto simp: ludlc_csum_hold_def Let_def split: if_splits)
  then show ?thesis
    using n ns node_of_append [OF n(1), of "n\<lparr>node_refs := node_refs n + 1\<rparr>" bs]
    by (simp add: ludlc_csum_put_def node_drop_split Let_def)
qed

section \<open>Checking\<close>

lemma shift_out_eq: "shift_out n w = map (\<lambda>i. ucast (drop_bit (8 * i) w)) [0..<n]"
  by (rule nth_equalityI) (simp_all add: shift_out_nth)

lemma tx_fn: "ludlc_csum_tx (Some a) = csum_fn a"
  by (simp add: fun_eq_iff ludlc_csum_tx_def)

lemma frame_verifies_run:
  "csum_frame_verifies a xs \<longleftrightarrow>
     csum_run (Some a) (ludlc_csum_tx_init (Some a)) (frame_of (Some a) xs) = csum_verify a"
  by (simp add: csum_frame_verifies_def frame_of_def csum_tail_def csum_end_def csum_run_def ludlc_csum_on_def
      ludlc_csum_octets_def ludlc_csum_tx_final_def ludlc_csum_tx_init_def shift_out_eq foldl_map tx_fn
      Let_def split: option.splits)


lemma verifies_ok:
  assumes "csum_ok (Some a)"
  shows "ludlc_csum_verifies a"
proof -
  have "csum_frame_verifies a xs" for xs
    unfolding frame_verifies_run using csum_okD(1) [OF assms, of xs] by (simp add: ludlc_csum_on_def ludlc_csum_rx_ok_def)
  then show ?thesis
    by (simp add: ludlc_csum_verifies_def csum_test_frames_def)
qed

section \<open>Properties\<close>


text \<open>A descriptor at address 1, registered by module 7.\<close>

definition sample_mem :: "16 word csum_mem" where
  "sample_mem = (\<lambda>_. \<lparr>desc_computes = True, desc_csum = ludlc_crc16_ccitt_pr0\<rparr>)"

definition sample_env :: crc_env where
  "sample_env = \<lparr>ludlc_crcs = [], env_streq = (=), env_going = \<lambda>_. False\<rparr>"

definition sample_offered :: crc_registry where
  "sample_offered = \<lparr>ludlc_crc_nodes = [\<lparr>node_crc = 1, node_owner = 7, node_refs = 1, node_registered = True\<rparr>], module_pins = \<lambda>_. 0\<rparr>"

definition sample_used :: crc_registry where
  "sample_used = \<lparr>ludlc_crc_nodes = [\<lparr>node_crc = 1, node_owner = 7, node_refs = 2, node_registered = True\<rparr>],
     module_pins = (\<lambda>_. 0)(7 := 1)\<rparr>"

lemma sample_check: "ludlc_csum_check (sample_mem p) = 0" "ludlc_csum_verifies ludlc_crc16_ccitt_pr0"
  "\<not> csum_octets_bad ludlc_crc16_ccitt_pr0" "csum_name_of sample_mem p \<noteq> []"
  using verifies_ok [OF crc16_residual]
  by (simp_all add: sample_mem_def ludlc_csum_check_def csum_octets_bad_def ludlc_crc16_ccitt_pr0_def csum_name_of_def)

lemma sample_register:
  "ludlc_lookup_csum env sample_mem reg (csum_name_of sample_mem 1) = None \<Longrightarrow>
   ludlc_crc_register env sample_mem True (Some 1) 7 reg =
     (0, reg\<lparr>ludlc_crc_nodes := ludlc_crc_nodes reg @ [\<lparr>node_crc = 1, node_owner = 7, node_refs = 1, node_registered = True\<rparr>]\<rparr>)"
  using sample_check by (simp add: ludlc_crc_register_def sample_mem_def Let_def)


text \<open>C32: A link gets the checksum it asks for, checked and held, or nothing: when
  ludlc_link_csum_set returns 0 the slot holds the descriptor with a reference taken, and
  the descriptor passed the check; when the descriptor is refused the error tells why, the
  slot is as it was or empty, and the registry is as it was, references included.\<close>

theorem link_csum_all_or_nothing:
  assumes "registry_ok env mem (reg, held)"
  shows "case ludlc_link_csum_set env' mem True cur (Some p) reg of (ret, cur', reg') \<Rightarrow>
     (ret = 0 \<and> cur' = Some p \<and> ludlc_csum_check (mem p) = 0 \<and> registry_ok env mem (reg', held(p := held p + 1))) \<or>
     (ret = ludlc_csum_check (mem p) \<and> ret \<noteq> 0 \<and> cur' = None \<and> reg' = reg) \<or>
     (ret = - ENODEV \<and> cur' = cur \<and> reg' = reg \<and>
       (\<exists>n \<in> set (ludlc_crc_nodes reg). node_crc n = p \<and> env_going env' (node_owner n)))"
proof -
  obtain got reg1 where h: "ludlc_csum_hold env' p reg = (got, reg1)"
    by (metis surj_pair)
  show ?thesis
  proof (cases got)
    case False
    then have "reg1 = reg \<and> (\<exists>n \<in> set (ludlc_crc_nodes reg). node_crc n = p \<and> env_going env' (node_owner n))"
      using h by (auto simp: ludlc_csum_hold_def Let_def dest!: node_of_split split: option.splits if_splits)
    then show ?thesis
      using False h by (simp add: ludlc_link_csum_set_def ludlc_csum_get_def)
  next
    case True
    have ok: "registry_ok env mem (reg1, held(p := held p + 1))"
      using hold_ok [OF assms h] True by simp
    have undone: "ludlc_csum_put (Some p) reg1 = reg"
      using hold_put [OF assms] h True by simp
    show ?thesis
      using True h ok undone
      by (auto simp: ludlc_link_csum_set_def ludlc_csum_get_def ludlc_link_csum_drop_def Let_def)
  qed
qed


theorem link_csum_all_or_nothing_witness:
  "ludlc_link_csum_set sample_env sample_mem True None (Some 1) sample_offered = (0, Some 1, sample_used)"
proof -
  have "registry_ok sample_env sample_mem (sample_offered, \<lambda>_. 0)"
    using sample_check(1) by (simp add: registry_ok_def sample_offered_def node_ok_def names_apart_def fun_eq_iff)
  from link_csum_all_or_nothing [OF this, where env' = sample_env and cur = None and p = 1] show ?thesis
    using sample_check(1)
    by (auto simp: sample_env_def sample_offered_def sample_used_def ludlc_link_csum_set_def ludlc_csum_get_def ludlc_csum_hold_def
        Let_def)
qed

text \<open>C33: The check of a descriptor refuses none that keeps the contract the framings rest on: one that
  computes, is as wide as its register at most and leaves the residual it declares over
  every packet is accepted, whatever its width, seed and transform; and what is refused is
  refused for the reason returned.\<close>

theorem csum_check_complete:
  fixes d :: "('c::len) word csum_desc"
  shows "(desc_computes d \<and> csum_ok (Some (desc_csum d)) \<and> unat (csum_octets (desc_csum d)) \<le> LENGTH('c) div 8 \<longrightarrow>
       ludlc_csum_check d = 0) \<and>
    (ludlc_csum_check d = - EOPNOTSUPP \<longleftrightarrow> desc_computes d \<and>
       \<not> (0 < unat (csum_octets (desc_csum d)) \<and> unat (csum_octets (desc_csum d)) \<le> LENGTH('c) div 8)) \<and>
    (ludlc_csum_check d = 0 \<longrightarrow> (\<forall>xs \<in> set csum_test_frames.
       ludlc_csum_rx_ok (Some (desc_csum d)) (csum_run (Some (desc_csum d)) (ludlc_csum_rx_init (Some (desc_csum d)))
         (frame_of (Some (desc_csum d)) xs))))"
proof -
  have on: "ludlc_csum_on (Some (desc_csum d))"
    by (simp add: ludlc_csum_on_def)
  show ?thesis
    using verifies_ok [of "desc_csum d"] csum_okD(2) [OF _ on]
    by (auto simp: ludlc_csum_check_def csum_octets_bad_def ludlc_csum_verifies_def list_all_iff frame_verifies_run
        ludlc_csum_octets_def ludlc_csum_rx_ok_def unat_eq_zero unat_gt_0)
qed

theorem csum_check_complete_witness: "ludlc_csum_check (sample_mem 1) = 0"
  using csum_check_complete [of "sample_mem 1"] crc16_residual
  by (simp add: sample_mem_def ludlc_crc16_ccitt_pr0_def)

section \<open>What the counting rests on\<close>

text \<open>
  A descriptor registered again while a link still uses it gets a second node, and taking
  the registration back finds the first: the second stays on offer.
\<close>

lemma reregistered_stays:
  assumes "ludlc_crc_register sample_env sample_mem True (Some 1) 7 (ludlc_crc_unregister 1 sample_used) = (ret, reg)"
  shows "ret = 0 \<and> fst (ludlc_crc_find sample_env sample_mem (Some (csum_name_of sample_mem 1)) (ludlc_crc_unregister 1 reg)) = Some 1"
proof -
  have u: "ludlc_crc_unregister 1 sample_used =
      \<lparr>ludlc_crc_nodes = [\<lparr>node_crc = 1, node_owner = 7, node_refs = 1, node_registered = False\<rparr>], module_pins = (\<lambda>_. 0)(7 := 1)\<rparr>"
    by (simp add: ludlc_crc_unregister_def sample_used_def crc_node_drop_def Let_def)
  have "ludlc_lookup_csum sample_env sample_mem (ludlc_crc_unregister 1 sample_used) (csum_name_of sample_mem 1) = None"
    unfolding u by (simp add: ludlc_lookup_csum_def sample_env_def)
  from assms [unfolded sample_register [OF this], unfolded u] show ?thesis
    by (auto simp: ludlc_crc_unregister_def crc_node_drop_def ludlc_crc_find_def ludlc_lookup_csum_def sample_env_def
        ludlc_csum_hold_def Let_def)
qed

text \<open>
  A descriptor a link took before it was registered has no node to count the reference: the
  link gives back the registration's own, and a pin nobody took.
\<close>

lemma put_of_unregistered_hold:
  "ludlc_csum_get sample_env (Some 1) (fst registry_empty) = (Some 1, fst registry_empty)"
  "ludlc_csum_put (Some 1) sample_offered = \<lparr>ludlc_crc_nodes = [], module_pins = (\<lambda>_. 0)(7 := - 1)\<rparr>"
  by (simp_all add: ludlc_csum_get_def ludlc_csum_hold_def registry_empty_def ludlc_csum_put_def sample_offered_def
      crc_node_drop_def Let_def)

end
