(* ===== verification/Ludlc_Bus.thy ===== *)
theory Ludlc_Bus
  imports Ludlc_Channel
begin

text \<open>
  The bus a link of the Linux port is (\<open>src/src/lib/platform/linux/ludlc_bus.c\<close>): the devices
  on its channels, how they come and go with the link, which driver a packet reaches, and
  what a suspend holds back. Devices are known by their addresses. Of the kernel, the driver
  that matches a device, what its \<open>probe\<close> returned and whether it has the optional callbacks,
  and what an allocation or \<open>device_add\<close> returned are arguments; the driver core's calls to
  the bus's \<open>probe\<close> and \<open>remove\<close> are written where it makes them. The device locks make every
  operation a step.
\<close>

section \<open>State\<close>

abbreviation (input) EBUSY :: int where "EBUSY \<equiv> 16"
abbreviation (input) ENODEV :: int where "ENODEV \<equiv> 19"
abbreviation (input) ENODATA :: int where "ENODATA \<equiv> 61"

type_synonym dev_ref = nat
type_synonym driver_ref = nat

text \<open>
  \<open>dev_driver\<close> is the driver the kernel has bound, \<open>dev_drv\<close> the one packets go to, and
  \<open>dev_added\<close> tells that the device has become visible.
\<close>

record ludlc_device =
  dev_chans :: "ludlc_channel_t list"
  dev_enumerated :: bool
  dev_suspended :: bool
  dev_removed :: bool
  dev_drv :: "driver_ref option"
  dev_session :: nat
  dev_driver :: "driver_ref option"
  dev_wakeup :: bool
  dev_added :: bool

record ludlc_bus =
  bus_devs :: "dev_ref \<Rightarrow> ludlc_device option"
  bus_channels :: "ludlc_channel_t \<Rightarrow> dev_ref option"
  bus_hold :: bool
  bus_session_lost :: bool
  bus_populated :: bool
  bus_session :: nat
  bus_peer_caps :: "octet list option"
  bus_work_queued :: bool

record bus_env =
  env_match :: "dev_ref \<Rightarrow> driver_ref option"
  env_probe :: "driver_ref \<Rightarrow> dev_ref \<Rightarrow> int"
  env_wakeup :: "dev_ref \<Rightarrow> bool"
  env_name :: "dev_ref \<Rightarrow> int"
  env_insert :: "ludlc_channel_t \<Rightarrow> int"
  env_add :: "dev_ref \<Rightarrow> int"
  env_receives :: "driver_ref \<Rightarrow> bool"
  env_confirms :: "driver_ref \<Rightarrow> bool"

definition bus_update :: "dev_ref \<Rightarrow> (ludlc_device \<Rightarrow> ludlc_device) \<Rightarrow> ludlc_bus \<Rightarrow> ludlc_bus" where
  "bus_update r f b = b\<lparr>bus_devs := (bus_devs b)(r := map_option f (bus_devs b r))\<rparr>"

section \<open>Making a device\<close>

definition ludlc_channels_ok :: "config \<Rightarrow> ludlc_connection \<Rightarrow> ludlc_channel_t list \<Rightarrow> bool" where
  "ludlc_channels_ok cf conn chans =
     (let id_max = ludlc_conn_chan_id_mask cf conn;
          n = length chans
      in if n = 0 \<or> n > unat id_max then False
         else list_all (\<lambda>i. chans ! i \<le> id_max \<and> chans ! i \<noteq> CONFIG_LUDLC_CONTROL_CHANNEL cf \<and>
                list_all (\<lambda>j. chans ! j \<noteq> chans ! i) [0..<i]) [0..<n])"

definition ludlc_device_alloc ::
    "config \<Rightarrow> ludlc_connection \<Rightarrow> bool \<Rightarrow> ludlc_channel_t list \<Rightarrow> int + ludlc_device" where
  "ludlc_device_alloc cf conn alloc chans =
     (if \<not> ludlc_channels_ok cf conn chans then Inl (- EINVAL)
      else if \<not> alloc then Inl (- ENOMEM)
      else Inr \<lparr>dev_chans = chans, dev_enumerated = False, dev_suspended = False, dev_removed = False,
                dev_drv = None, dev_session = 0, dev_driver = None, dev_wakeup = False, dev_added = False\<rparr>)"

text \<open>
  A node firmware has below the link: the channels its \<open>reg\<close> names, each 32 bits wide, or the
  address its \<open>_ADR\<close> gives where there is none; whether it is available; and what the
  allocations made for it and the reading of it return.
\<close>

record fw_node =
  node_dev :: dev_ref
  node_regs :: "uint32 list"
  node_adr :: "64 word option"
  node_available :: bool
  node_arrays :: bool
  node_read :: int
  node_alloc :: bool

definition LUDLC_CHANNEL_MAX :: uint32 where
  "LUDLC_CHANNEL_MAX = ucast (NOT 0 :: ludlc_channel_t)"

definition ludlc_acpi_channel :: "fw_node \<Rightarrow> uint32 option" where
  "ludlc_acpi_channel nd =
     (case node_adr nd of
        None \<Rightarrow> None
      | Some adr \<Rightarrow> if adr > ucast LUDLC_CHANNEL_MAX then None else Some (ucast adr))"

definition ludlc_fwnode_device_alloc :: "config \<Rightarrow> ludlc_connection \<Rightarrow> fw_node \<Rightarrow> int + ludlc_device" where
  "ludlc_fwnode_device_alloc cf conn nd =
     (if node_regs nd = [] then
        (case ludlc_acpi_channel nd of
           None \<Rightarrow> Inl (- EINVAL)
         | Some adr \<Rightarrow> ludlc_device_alloc cf conn (node_alloc nd) [ucast adr])
      else if \<not> node_arrays nd then Inl (- ENOMEM)
      else if node_read nd \<noteq> 0 then Inl (node_read nd)
      else if \<not> list_all (\<lambda>r. r \<le> LUDLC_CHANNEL_MAX) (node_regs nd) then Inl (- EINVAL)
      else ludlc_device_alloc cf conn (node_alloc nd) (map ucast (node_regs nd)))"

section \<open>Drivers\<close>

text \<open>
  A driver's \<open>probe\<close> may take long: \<open>begun\<close> sessions begin while it runs.
\<close>

definition ludlc_bus_probe :: "bus_env \<Rightarrow> nat \<Rightarrow> bool \<Rightarrow> driver_ref \<Rightarrow> dev_ref \<Rightarrow> ludlc_bus \<Rightarrow> int \<times> ludlc_bus" where
  "ludlc_bus_probe env begun up ldrv r b =
     (case bus_devs b r of
        None \<Rightarrow> (- ENODEV, b)
      | Some d \<Rightarrow>
          let session = bus_session b in
          if dev_removed d then (- ENODEV, b)
          else
            let b = bus_update r (\<lambda>d. d\<lparr>dev_wakeup := env_wakeup env r\<rparr>) b;
                ret = env_probe env ldrv r;
                b = b\<lparr>bus_session := bus_session b + begun\<rparr>
            in if ret \<noteq> 0 then (ret, bus_update r (\<lambda>d. d\<lparr>dev_drv := None, dev_wakeup := False\<rparr>) b)
               else
                 let session = (if \<not> up then bus_session b else session)
                 in (0, bus_update r (\<lambda>d. d\<lparr>dev_drv := Some ldrv, dev_session := session\<rparr>) b))"

definition ludlc_bus_remove :: "dev_ref \<Rightarrow> ludlc_bus \<Rightarrow> ludlc_bus" where
  "ludlc_bus_remove r b = bus_update r (\<lambda>d. d\<lparr>dev_drv := None, dev_wakeup := False\<rparr>) b"

text \<open>The driver core: binding the driver that matches, and releasing the one that is bound.\<close>

definition device_attach :: "bus_env \<Rightarrow> nat \<Rightarrow> bool \<Rightarrow> dev_ref \<Rightarrow> ludlc_bus \<Rightarrow> ludlc_bus" where
  "device_attach env begun up r b =
     (case bus_devs b r of
        None \<Rightarrow> b
      | Some d \<Rightarrow>
          if dev_driver d \<noteq> None then b
          else
            case env_match env r of
              None \<Rightarrow> b
            | Some ldrv \<Rightarrow>
                let (ret, b) = ludlc_bus_probe env begun up ldrv r b
                in if ret = 0 then bus_update r (\<lambda>d. d\<lparr>dev_driver := Some ldrv\<rparr>) b else b)"

definition device_release_driver :: "dev_ref \<Rightarrow> ludlc_bus \<Rightarrow> ludlc_bus" where
  "device_release_driver r b =
     (case bus_devs b r of
        None \<Rightarrow> b
      | Some d \<Rightarrow>
          if dev_driver d = None then b
          else bus_update r (\<lambda>d. d\<lparr>dev_driver := None\<rparr>) (ludlc_bus_remove r b))"

definition ludlc_device_listen :: "dev_ref \<Rightarrow> ludlc_bus \<Rightarrow> ludlc_bus" where
  "ludlc_device_listen r b = bus_update r (\<lambda>d. d\<lparr>dev_drv := dev_driver d\<rparr>) b"

definition ludlc_device_unlisten :: "dev_ref \<Rightarrow> ludlc_bus \<Rightarrow> ludlc_bus" where
  "ludlc_device_unlisten r b = bus_update r (\<lambda>d. d\<lparr>dev_drv := None\<rparr>) b"

section \<open>On and off the bus\<close>

text \<open>Claiming channels one after another; \<open>got\<close> are those claimed so far.\<close>

fun xa_claim ::
    "bus_env \<Rightarrow> dev_ref \<Rightarrow> ludlc_channel_t list \<Rightarrow> ludlc_channel_t list \<Rightarrow>
     (ludlc_channel_t \<Rightarrow> dev_ref option) \<Rightarrow> int \<times> ludlc_channel_t list \<times> (ludlc_channel_t \<Rightarrow> dev_ref option)" where
  "xa_claim env r [] got xa = (0, got, xa)"
| "xa_claim env r (c # cs) got xa =
     (if xa c \<noteq> None then (- EBUSY, got, xa)
      else if env_insert env c \<noteq> 0 then (env_insert env c, got, xa)
      else xa_claim env r cs (got @ [c]) (xa(c \<mapsto> r)))"

definition xa_erase_all :: "ludlc_channel_t list \<Rightarrow> (ludlc_channel_t \<Rightarrow> dev_ref option) \<Rightarrow> (ludlc_channel_t \<Rightarrow> dev_ref option)" where
  "xa_erase_all cs xa = foldr (\<lambda>c xa. xa(c := None)) cs xa"

definition ludlc_device_add :: "bus_env \<Rightarrow> nat \<Rightarrow> bool \<Rightarrow> dev_ref \<Rightarrow> ludlc_bus \<Rightarrow> int \<times> ludlc_bus" where
  "ludlc_device_add env begun up r b =
     (case bus_devs b r of
        None \<Rightarrow> (- EINVAL, b)
      | Some d \<Rightarrow>
          if env_name env r \<noteq> 0 then (env_name env r, b)
          else
            let (ret, got, xa) = xa_claim env r (dev_chans d) [] (bus_channels b) in
            if ret \<noteq> 0 then (ret, b\<lparr>bus_channels := xa_erase_all got xa\<rparr>)
            else if env_add env r \<noteq> 0 then (env_add env r, b\<lparr>bus_channels := xa_erase_all got xa\<rparr>)
            else
              let b = bus_update r (\<lambda>d. d\<lparr>dev_added := True\<rparr>) (b\<lparr>bus_channels := xa\<rparr>)
              in (0, device_attach env begun up r b))"

definition ludlc_device_unregister :: "dev_ref \<Rightarrow> ludlc_bus \<Rightarrow> ludlc_bus" where
  "ludlc_device_unregister r b =
     (case bus_devs b r of
        None \<Rightarrow> b
      | Some d \<Rightarrow>
          if dev_removed d then b
          else
            let b = bus_update r (\<lambda>d. d\<lparr>dev_removed := True\<rparr>) b;
                b = device_release_driver r b
            in b\<lparr>bus_channels := xa_erase_all (dev_chans d) (bus_channels b)\<rparr>)"

text \<open>Dropping the reference of a device that never became visible frees it.\<close>

definition ludlc_device_put :: "dev_ref \<Rightarrow> ludlc_bus \<Rightarrow> ludlc_bus" where
  "ludlc_device_put r b = b\<lparr>bus_devs := (bus_devs b)(r := None)\<rparr>"

definition ludlc_device_find_by_channel :: "config \<Rightarrow> ludlc_connection \<Rightarrow> ludlc_channel_t \<Rightarrow> ludlc_bus \<Rightarrow> dev_ref option" where
  "ludlc_device_find_by_channel cf conn chan b = bus_channels b (ludlc_chan_id cf (Some conn) chan)"

section \<open>Following the link\<close>

definition bus_populate_one ::
    "config \<Rightarrow> ludlc_connection \<Rightarrow> bus_env \<Rightarrow> nat \<Rightarrow> bool \<Rightarrow> fw_node \<Rightarrow> ludlc_bus \<Rightarrow> ludlc_bus" where
  "bus_populate_one cf conn env begun up nd b =
     (if \<not> node_available nd then b
      else
        case ludlc_fwnode_device_alloc cf conn nd of
          Inl e \<Rightarrow> b
        | Inr d \<Rightarrow>
            let r = node_dev nd;
                b = b\<lparr>bus_devs := (bus_devs b)(r \<mapsto> d\<lparr>dev_enumerated := True\<rparr>)\<rparr>;
                (ret, b) = ludlc_device_add env begun up r b
            in if ret \<noteq> 0 then ludlc_device_put r b else b)"

definition ludlc_bus_populate ::
    "config \<Rightarrow> ludlc_connection \<Rightarrow> bus_env \<Rightarrow> nat \<Rightarrow> bool \<Rightarrow> fw_node list \<Rightarrow> ludlc_bus \<Rightarrow> ludlc_bus" where
  "ludlc_bus_populate cf conn env begun up kids b = fold (bus_populate_one cf conn env begun up) kids b"

definition all_channels :: "ludlc_channel_t list" where
  "all_channels = map of_nat [0..<256]"

definition bus_sweep_one :: "config \<Rightarrow> ludlc_connection \<Rightarrow> bool \<Rightarrow> ludlc_channel_t \<Rightarrow> ludlc_bus \<Rightarrow> ludlc_bus" where
  "bus_sweep_one cf conn enumerated_only chan b =
     (if bus_channels b chan = None then b
      else
        case ludlc_device_find_by_channel cf conn chan b of
          None \<Rightarrow> b
        | Some r \<Rightarrow>
            if \<not> enumerated_only \<or> (case bus_devs b r of Some d \<Rightarrow> dev_enumerated d | None \<Rightarrow> False)
            then ludlc_device_unregister r b else b)"

definition ludlc_bus_sweep :: "config \<Rightarrow> ludlc_connection \<Rightarrow> bool \<Rightarrow> ludlc_bus \<Rightarrow> ludlc_bus" where
  "ludlc_bus_sweep cf conn enumerated_only b = fold (bus_sweep_one cf conn enumerated_only) all_channels b"

definition bus_reprobe_one ::
    "config \<Rightarrow> ludlc_connection \<Rightarrow> bus_env \<Rightarrow> nat \<Rightarrow> bool \<Rightarrow> nat \<Rightarrow> ludlc_channel_t \<Rightarrow> ludlc_bus \<Rightarrow> ludlc_bus" where
  "bus_reprobe_one cf conn env begun up session chan b =
     (if bus_channels b chan = None then b
      else
        case ludlc_device_find_by_channel cf conn chan b of
          None \<Rightarrow> b
        | Some r \<Rightarrow>
            case bus_devs b r of
              None \<Rightarrow> b
            | Some d \<Rightarrow>
                if chan \<noteq> hd (dev_chans d) \<or> dev_enumerated d then b
                else if dev_driver d \<noteq> None \<and> dev_session d = session then b
                else device_attach env begun up r (device_release_driver r b))"

definition ludlc_bus_reprobe :: "config \<Rightarrow> ludlc_connection \<Rightarrow> bus_env \<Rightarrow> nat \<Rightarrow> bool \<Rightarrow> ludlc_bus \<Rightarrow> ludlc_bus" where
  "ludlc_bus_reprobe cf conn env begun up b =
     (let session = bus_session b in fold (bus_reprobe_one cf conn env begun up session) all_channels b)"

definition ludlc_bus_link_workfn ::
    "config \<Rightarrow> ludlc_connection \<Rightarrow> bus_env \<Rightarrow> nat \<Rightarrow> fw_node list \<Rightarrow> ludlc_bus \<Rightarrow> ludlc_bus" where
  "ludlc_bus_link_workfn cf conn env begun kids b =
     (let up = conn_state conn = LUDLC_STATE_CONNECTED in
      if bus_hold b then b
      else
        let lost = bus_session_lost b;
            b = b\<lparr>bus_session_lost := False\<rparr>;
            b = (if lost then
                   if bus_populated b then ludlc_bus_sweep cf conn True (b\<lparr>bus_populated := False\<rparr>) else b
                 else b)
        in if up = bus_populated b then b
           else
             let b = b\<lparr>bus_populated := up\<rparr>
             in if up then ludlc_bus_reprobe cf conn env begun up (ludlc_bus_populate cf conn env begun up kids b)
                else ludlc_bus_sweep cf conn True b)"

section \<open>The bus of a connection\<close>

text \<open>\<open>session\<close> is not set: the counter goes on from what the memory of the connection held.\<close>

definition ludlc_bus_conn_init :: "ludlc_bus \<Rightarrow> ludlc_bus" where
  "ludlc_bus_conn_init b =
     b\<lparr>bus_channels := Map.empty, bus_hold := False, bus_session_lost := False, bus_populated := False,
       bus_peer_caps := None, bus_work_queued := False\<rparr>"

definition ludlc_bus_conn_destroy :: "config \<Rightarrow> ludlc_connection \<Rightarrow> ludlc_bus \<Rightarrow> ludlc_bus" where
  "ludlc_bus_conn_destroy cf conn b =
     (let b = ludlc_bus_sweep cf conn False (b\<lparr>bus_work_queued := False\<rparr>)
      in b\<lparr>bus_channels := Map.empty\<rparr>)"

text \<open>The width of the tag a node asks for, taken over when a link can run it.\<close>

definition ludlc_fw_chan_tag_bits :: "config \<Rightarrow> uint32 option \<Rightarrow> uint8 \<Rightarrow> uint8" where
  "ludlc_fw_chan_tag_bits cf bits cur =
     (case bits of
        None \<Rightarrow> cur
      | Some n \<Rightarrow> if \<not> ludlc_chan_tag_bits_ok cf (unat n) then cur else ucast n)"

section \<open>The callbacks of the link\<close>

definition ludlc_bus_on_caps :: "octet list \<Rightarrow> ludlc_bus \<Rightarrow> ludlc_bus" where
  "ludlc_bus_on_caps data b = b\<lparr>bus_peer_caps := Some data\<rparr>"

text \<open>What a driver learns of them: a length, or that nothing was announced, and as much as fits.\<close>

definition ludlc_device_peer_caps :: "nat \<Rightarrow> ludlc_bus \<Rightarrow> int \<times> octet list" where
  "ludlc_device_peer_caps len b =
     (case bus_peer_caps b of None \<Rightarrow> (- ENODATA, []) | Some cs \<Rightarrow> (int (length cs), take len cs))"

definition ludlc_bus_on_connect :: "ludlc_bus \<Rightarrow> ludlc_bus" where
  "ludlc_bus_on_connect b = b\<lparr>bus_session := bus_session b + 1, bus_work_queued := True\<rparr>"

definition ludlc_bus_on_disconnect :: "ludlc_bus \<Rightarrow> ludlc_bus" where
  "ludlc_bus_on_disconnect b = b\<lparr>bus_session_lost := True, bus_work_queued := True\<rparr>"

definition ludlc_dev_listening :: "ludlc_device \<Rightarrow> bool" where
  "ludlc_dev_listening d = (if dev_drv d = None then False else \<not> dev_suspended d \<or> dev_wakeup d)"

text \<open>The driver a packet goes to, with the device.\<close>

definition ludlc_bus_on_recv :: "config \<Rightarrow> ludlc_connection \<Rightarrow> bus_env \<Rightarrow> ludlc_channel_t \<Rightarrow> ludlc_bus \<Rightarrow> (driver_ref \<times> dev_ref) option" where
  "ludlc_bus_on_recv cf conn env chan b =
     (case ludlc_device_find_by_channel cf conn chan b of
        None \<Rightarrow> None
      | Some r \<Rightarrow>
          case bus_devs b r of
            None \<Rightarrow> None
          | Some d \<Rightarrow> if ludlc_dev_listening d \<and> env_receives env (the (dev_drv d)) then Some (the (dev_drv d), r) else None)"

definition ludlc_bus_on_confirm :: "config \<Rightarrow> ludlc_connection \<Rightarrow> bus_env \<Rightarrow> ludlc_channel_t \<Rightarrow> ludlc_bus \<Rightarrow> (driver_ref \<times> dev_ref) option" where
  "ludlc_bus_on_confirm cf conn env chan b =
     (case ludlc_device_find_by_channel cf conn chan b of
        None \<Rightarrow> None
      | Some r \<Rightarrow>
          case bus_devs b r of
            None \<Rightarrow> None
          | Some d \<Rightarrow> if dev_drv d \<noteq> None \<and> env_confirms env (the (dev_drv d)) then Some (the (dev_drv d), r) else None)"

section \<open>Power management\<close>

definition ludlc_bus_pm_gate :: "dev_ref \<Rightarrow> bool \<Rightarrow> ludlc_bus \<Rightarrow> ludlc_bus" where
  "ludlc_bus_pm_gate r suspended b = bus_update r (\<lambda>d. d\<lparr>dev_suspended := suspended\<rparr>) b"

text \<open>\<open>ret\<close> is what the driver's own operation returned.\<close>

definition ludlc_bus_pm_down :: "dev_ref \<Rightarrow> int \<Rightarrow> ludlc_bus \<Rightarrow> int \<times> ludlc_bus" where
  "ludlc_bus_pm_down r ret b =
     (let b = ludlc_bus_pm_gate r True b in (ret, if ret \<noteq> 0 then ludlc_bus_pm_gate r False b else b))"

definition ludlc_bus_pm_up :: "dev_ref \<Rightarrow> int \<Rightarrow> ludlc_bus \<Rightarrow> int \<times> ludlc_bus" where
  "ludlc_bus_pm_up r ret b = (ret, if ret = 0 then ludlc_bus_pm_gate r False b else b)"

text \<open>Holding the bus for a transition, and whether that waits for a run of the work under way.\<close>

definition ludlc_conn_prepare :: "ludlc_bus \<Rightarrow> bool \<times> ludlc_bus" where
  "ludlc_conn_prepare b = (bus_hold b, b\<lparr>bus_hold := True, bus_work_queued := bus_work_queued b \<and> \<not> bus_hold b\<rparr>)"

definition ludlc_conn_complete :: "ludlc_bus \<Rightarrow> ludlc_bus" where
  "ludlc_conn_complete b = b\<lparr>bus_hold := False, bus_work_queued := bus_work_queued b \<or> bus_hold b\<rparr>"

end
