(* ===== verification/Ludlc_Bus_Inv.thy ===== *)
theory Ludlc_Bus_Inv
  imports Ludlc_Bus
begin

text \<open>
  What the operations of the bus keep: the channels lead to the devices on it, each of which owns
  all of its own; and what adding, removing, sweeping, populating and binding again make of a bus
  in order.
\<close>

section \<open>What a bus keeps\<close>

definition on_bus :: "ludlc_device \<Rightarrow> bool" where
  "on_bus d \<longleftrightarrow> dev_added d \<and> \<not> dev_removed d"

text \<open>
  A device owns channels below the tag of the link, none twice and never the control channel,
  and packets go to the driver that is bound, which only a device on the bus has.
\<close>

definition device_ok :: "config \<Rightarrow> ludlc_channel_t \<Rightarrow> ludlc_device \<Rightarrow> bool" where
  "device_ok cf m d \<longleftrightarrow>
     dev_chans d \<noteq> [] \<and> distinct (dev_chans d) \<and>
     list_all (\<lambda>c. c \<le> m \<and> c \<noteq> CONFIG_LUDLC_CONTROL_CHANNEL cf) (dev_chans d) \<and>
     (dev_drv d \<noteq> None \<longrightarrow> dev_drv d = dev_driver d) \<and> (dev_driver d \<noteq> None \<longrightarrow> on_bus d)"

text \<open>The channels lead to the devices on the bus, and each of those owns all of its own.\<close>

definition bus_core :: "config \<Rightarrow> ludlc_channel_t \<Rightarrow> ludlc_bus \<Rightarrow> bool" where
  "bus_core cf m b \<longleftrightarrow>
     (\<forall>c r. bus_channels b c = Some r \<longrightarrow> (\<exists>d. bus_devs b r = Some d \<and> on_bus d \<and> c \<in> set (dev_chans d))) \<and>
     (\<forall>r d. bus_devs b r = Some d \<longrightarrow> device_ok cf m d \<and>
        (on_bus d \<longrightarrow> (\<forall>c\<in>set (dev_chans d). bus_channels b c = Some r)))"

definition enumerated_clear :: "ludlc_bus \<Rightarrow> bool" where
  "enumerated_clear b \<longleftrightarrow> (\<forall>r d. bus_devs b r = Some d \<longrightarrow> on_bus d \<longrightarrow> \<not> dev_enumerated d)"

definition bus_ok :: "config \<Rightarrow> ludlc_channel_t \<Rightarrow> ludlc_bus \<Rightarrow> bool" where
  "bus_ok cf m b \<longleftrightarrow> bus_core cf m b \<and> (\<not> bus_populated b \<longrightarrow> enumerated_clear b)"

lemma bus_core_entry:
  assumes "bus_core cf m b" "bus_channels b c = Some r"
  obtains d where "bus_devs b r = Some d" "on_bus d" "c \<in> set (dev_chans d)" "device_ok cf m d"
  using assms unfolding bus_core_def by metis

lemma bus_core_dev:
  assumes "bus_core cf m b" "bus_devs b r = Some d"
  shows "device_ok cf m d" "on_bus d \<Longrightarrow> c \<in> set (dev_chans d) \<Longrightarrow> bus_channels b c = Some r"
  using assms unfolding bus_core_def by metis+

lemma bus_update_sel [simp]:
  "bus_channels (bus_update r f b) = bus_channels b" "bus_session (bus_update r f b) = bus_session b"
  "bus_populated (bus_update r f b) = bus_populated b" "bus_session_lost (bus_update r f b) = bus_session_lost b"
  "bus_hold (bus_update r f b) = bus_hold b"
  "bus_devs (bus_update r f b) = (bus_devs b)(r := map_option f (bus_devs b r))"
  by (simp_all add: bus_update_def)

text \<open>Replacing one device by one with the same place on the bus.\<close>

lemma bus_core_replace:
  assumes "bus_core cf m b" "bus_devs b r = Some d" "device_ok cf m d'" "on_bus d' = on_bus d"
    "dev_chans d' = dev_chans d" "bus_devs b' = (bus_devs b)(r \<mapsto> d')" "bus_channels b' = bus_channels b"
  shows "bus_core cf m b'"
  unfolding bus_core_def assms(6,7)
proof (intro conjI allI impI)
  fix c r' assume "bus_channels b c = Some r'"
  then show "\<exists>d. ((bus_devs b)(r \<mapsto> d')) r' = Some d \<and> on_bus d \<and> c \<in> set (dev_chans d)"
    using assms(2,4,5) by (elim bus_core_entry [OF assms(1)]) auto
next
  fix r' d2 assume "((bus_devs b)(r \<mapsto> d')) r' = Some d2"
  then show "device_ok cf m d2"
    using assms(3) bus_core_dev(1) [OF assms(1), of r'] by (auto split: if_splits)
next
  fix r' d2 assume "((bus_devs b)(r \<mapsto> d')) r' = Some d2" "on_bus d2"
  then show "\<forall>c\<in>set (dev_chans d2). bus_channels b c = Some r'"
    using assms(2,4,5) bus_core_dev(2) [OF assms(1), of r'] by (auto split: if_splits)
qed

lemma bus_core_same:
  "bus_core cf m b \<Longrightarrow> bus_devs b' = bus_devs b \<Longrightarrow> bus_channels b' = bus_channels b \<Longrightarrow> bus_core cf m b'"
  by (simp add: bus_core_def)

section \<open>Binding and releasing\<close>

text \<open>What binding a driver makes of a device: as it was, or heard by the driver it has.\<close>

definition bound_anew :: "nat \<Rightarrow> nat \<Rightarrow> ludlc_device \<Rightarrow> ludlc_device \<Rightarrow> bool" where
  "bound_anew begun s d d' \<longleftrightarrow>
     dev_chans d' = dev_chans d \<and> dev_enumerated d' = dev_enumerated d \<and> dev_added d' = dev_added d \<and>
     dev_removed d' = dev_removed d \<and>
     (d' = d \<or> \<not> dev_removed d \<and> dev_driver d = None \<and> dev_drv d' = dev_driver d' \<and>
       (begun = 0 \<longrightarrow> dev_driver d' \<noteq> None \<longrightarrow> dev_session d' = s))"

lemma device_attach_form:
  assumes "bus_devs b r = Some d"
  obtains d' n where "device_attach env begun up r b = b\<lparr>bus_devs := (bus_devs b)(r \<mapsto> d'), bus_session := n\<rparr>"
    "bound_anew begun (bus_session b) d d'" "begun = 0 \<longrightarrow> n = bus_session b"
proof -
  have "\<exists>d' n. device_attach env begun up r b = b\<lparr>bus_devs := (bus_devs b)(r \<mapsto> d'), bus_session := n\<rparr> \<and>
      bound_anew begun (bus_session b) d d' \<and> (begun = 0 \<longrightarrow> n = bus_session b)"
  proof (cases "dev_driver d \<noteq> None \<or> env_match env r = None \<or> dev_removed d")
    case True
    then have "device_attach env begun up r b = b\<lparr>bus_devs := (bus_devs b)(r \<mapsto> d), bus_session := bus_session b\<rparr>"
      using assms
      by (auto simp: device_attach_def ludlc_bus_probe_def Let_def fun_upd_idem split: option.splits)
    then show ?thesis
      by (intro exI [of _ d] exI [of _ "bus_session b"]) (simp add: bound_anew_def)
  next
    case False
    then obtain l where l: "env_match env r = Some l" "dev_driver d = None" "\<not> dev_removed d" by auto
    show ?thesis
    proof (cases "env_probe env l r = 0")
      case True
      show ?thesis
        by (intro exI [of _ "d\<lparr>dev_wakeup := env_wakeup env r, dev_drv := Some l,
               dev_session := (if up then bus_session b else bus_session b + begun), dev_driver := Some l\<rparr>"]
            exI [of _ "bus_session b + begun"])
          (use assms l True in \<open>cases b; simp add: device_attach_def ludlc_bus_probe_def bus_update_def bound_anew_def\<close>)
    next
      case False
      show ?thesis
        by (intro exI [of _ "d\<lparr>dev_drv := None, dev_wakeup := False\<rparr>"] exI [of _ "bus_session b + begun"])
          (use assms l False in \<open>cases b; cases d; simp add: device_attach_def ludlc_bus_probe_def bus_update_def bound_anew_def\<close>)
    qed
  qed
  then show thesis using that by blast
qed

lemma bound_anew_ok:
  assumes "device_ok cf m d" "bound_anew begun s d d'" "dev_added d"
  shows "device_ok cf m d'" "on_bus d' = on_bus d"
  using assms by (auto simp: device_ok_def bound_anew_def on_bus_def)

lemma attach_core:
  assumes core: "bus_core cf m b" and d: "bus_devs b r = Some d" and a: "dev_added d"
  shows "bus_core cf m (device_attach env begun up r b)"
proof -
  obtain d' n where e: "device_attach env begun up r b = b\<lparr>bus_devs := (bus_devs b)(r \<mapsto> d'), bus_session := n\<rparr>"
    and n: "bound_anew begun (bus_session b) d d'"
    using device_attach_form [OF d] by blast
  show ?thesis
    by (rule bus_core_replace [OF core d bound_anew_ok [OF bus_core_dev(1) [OF core d] n a]])
      (use n in \<open>auto simp: e bound_anew_def\<close>)
qed

definition unbound :: "ludlc_device \<Rightarrow> ludlc_device" where
  "unbound d = d\<lparr>dev_drv := None, dev_driver := None, dev_wakeup := dev_wakeup d \<and> dev_driver d = None\<rparr>"

lemma unbound_sel [simp]:
  "dev_chans (unbound d) = dev_chans d" "dev_enumerated (unbound d) = dev_enumerated d"
  "dev_added (unbound d) = dev_added d" "dev_removed (unbound d) = dev_removed d"
  "dev_driver (unbound d) = None" "dev_drv (unbound d) = None" "on_bus (unbound d) = on_bus d"
  "device_ok cf m d \<Longrightarrow> device_ok cf m (unbound d)"
  by (auto simp: unbound_def on_bus_def device_ok_def)

lemma release_form:
  assumes d: "bus_devs b r = Some d" and k: "dev_driver d = None \<Longrightarrow> dev_drv d = None"
  shows "device_release_driver r b = b\<lparr>bus_devs := (bus_devs b)(r \<mapsto> unbound d)\<rparr>"
proof (cases "dev_driver d")
  case None
  then have "unbound d = d" using k by (simp add: unbound_def)
  then show ?thesis using None d by (simp add: device_release_driver_def fun_upd_idem)
next
  case (Some l)
  have "d\<lparr>dev_drv := None, dev_wakeup := False, dev_driver := None\<rparr> = unbound d"
    by (cases d) (use Some in \<open>simp add: unbound_def\<close>)
  then show ?thesis
    using Some by (simp add: d device_release_driver_def ludlc_bus_remove_def bus_update_def)
qed

lemma device_ok_heard: "device_ok cf m d \<Longrightarrow> dev_driver d = None \<Longrightarrow> dev_drv d = None"
  by (auto simp: device_ok_def)

lemma release_core:
  assumes core: "bus_core cf m b" and d: "bus_devs b r = Some d"
  shows "bus_core cf m (device_release_driver r b)"
  by (rule bus_core_replace [OF core d, of "unbound d"])
    (use bus_core_dev(1) [OF core d] in
      \<open>auto simp: release_form [OF d device_ok_heard [OF bus_core_dev(1) [OF core d]]]\<close>)

section \<open>Coming and going\<close>

text \<open>Channels are claimed for one device only, and all of them or none.\<close>

lemma xa_claim_takes:
  "xa_claim env r cs got xa = (ret, got', xa') \<Longrightarrow>
     \<exists>new. got' = got @ new \<and> (\<exists>rest. cs = new @ rest \<and> (ret = 0 \<longrightarrow> rest = [])) \<and>
       (\<forall>c\<in>set new. xa c = None) \<and> xa' = (\<lambda>c. if c \<in> set new then Some r else xa c)"
proof (induction cs arbitrary: got xa)
  case (Cons c cs)
  show ?case
  proof (cases "xa c \<noteq> None \<or> env_insert env c \<noteq> 0")
    case True
    then show ?thesis using Cons.prems by (auto split: if_splits)
  next
    case False
    then have "xa_claim env r cs (got @ [c]) (xa(c \<mapsto> r)) = (ret, got', xa')" using Cons.prems by simp
    from Cons.IH [OF this] obtain new where
      "got' = (got @ [c]) @ new" "\<exists>rest. cs = new @ rest \<and> (ret = 0 \<longrightarrow> rest = [])"
      "\<forall>x\<in>set new. (xa(c \<mapsto> r)) x = None"
      "xa' = (\<lambda>x. if x \<in> set new then Some r else (xa(c \<mapsto> r)) x)"
      by blast
    then show ?thesis using False by (intro exI [of _ "c # new"]) (auto split: if_splits)
  qed
qed auto

lemma xa_erase_all_eq: "xa_erase_all cs xa = (\<lambda>c. if c \<in> set cs then None else xa c)"
  unfolding xa_erase_all_def by (induction cs) auto

lemma xa_claim_undone:
  assumes "xa_claim env r cs [] xa = (ret, got, xa')"
  shows "xa_erase_all got xa' = xa"
  using xa_claim_takes [OF assms] by (auto simp: xa_erase_all_eq)

text \<open>Adding a device: everything as before, or its channels claimed and a driver looked for.\<close>

lemma device_add_cases:
  assumes d: "bus_devs b r = Some d"
  obtains (failed) ret where "ret \<noteq> 0" "ludlc_device_add env begun up r b = (ret, b)"
  | (added) "\<forall>c\<in>set (dev_chans d). bus_channels b c = None"
      "ludlc_device_add env begun up r b = (0, device_attach env begun up r
         (b\<lparr>bus_channels := (\<lambda>c. if c \<in> set (dev_chans d) then Some r else bus_channels b c),
            bus_devs := (bus_devs b)(r \<mapsto> d\<lparr>dev_added := True\<rparr>)\<rparr>))"
proof -
  obtain ret got xa where c: "xa_claim env r (dev_chans d) [] (bus_channels b) = (ret, got, xa)"
    by (metis prod_cases3)
  have undo: "b\<lparr>bus_channels := xa_erase_all got xa\<rparr> = b" by (simp add: xa_claim_undone [OF c])
  show thesis
  proof (cases "env_name env r \<noteq> 0 \<or> ret \<noteq> 0 \<or> env_add env r \<noteq> 0")
    case True
    then show thesis
      using failed [of "if env_name env r \<noteq> 0 then env_name env r else if ret \<noteq> 0 then ret else env_add env r"]
      by (auto simp: ludlc_device_add_def d c undo split: if_splits)
  next
    case False
    moreover from this have "(\<forall>x\<in>set (dev_chans d). bus_channels b x = None) \<and>
        xa = (\<lambda>x. if x \<in> set (dev_chans d) then Some r else bus_channels b x)"
      using xa_claim_takes [OF c] by auto
    ultimately show thesis
      by (intro added) (auto simp: ludlc_device_add_def d c bus_update_def)
  qed
qed

lemma device_add_core:
  assumes core: "bus_core cf m b" and d: "bus_devs b r = Some d" and n: "\<not> dev_added d" "\<not> dev_removed d"
  shows "bus_core cf m (snd (ludlc_device_add env begun up r b))"
  using d
proof (cases rule: device_add_cases [where env = env and begun = begun and up = up])
  case (failed ret)
  then show ?thesis using core by simp
next
  case added
  let ?b = "b\<lparr>bus_channels := (\<lambda>c. if c \<in> set (dev_chans d) then Some r else bus_channels b c),
            bus_devs := (bus_devs b)(r \<mapsto> d\<lparr>dev_added := True\<rparr>)\<rparr>"
  have none: "bus_channels b c \<noteq> Some r" for c
    using n d by (auto simp: on_bus_def elim!: bus_core_entry [OF core])
  have "bus_core cf m ?b"
    unfolding bus_core_def
  proof (intro conjI allI impI)
    fix c r' assume "bus_channels ?b c = Some r'"
    then show "\<exists>d. bus_devs ?b r' = Some d \<and> on_bus d \<and> c \<in> set (dev_chans d)"
      using n none d by (auto simp: on_bus_def split: if_splits elim!: bus_core_entry [OF core])
  next
    fix r' d' assume "bus_devs ?b r' = Some d'"
    then show "device_ok cf m d'"
      using bus_core_dev(1) [OF core, of r'] bus_core_dev(1) [OF core d] n
      by (auto simp: device_ok_def on_bus_def split: if_splits)
  next
    fix r' d' assume a: "bus_devs ?b r' = Some d'" "on_bus d'"
    show "\<forall>c\<in>set (dev_chans d'). bus_channels ?b c = Some r'"
    proof (cases "r' = r")
      case False
      then show ?thesis
        using a bus_core_dev(2) [OF core, of r'] added(1) by (auto split: if_splits)
    qed (use a in auto)
  qed
  then show ?thesis by (simp add: added(2) attach_core)
qed

lemma unregister_form:
  assumes "bus_devs b r = Some d" "\<not> dev_removed d" "dev_driver d = None \<Longrightarrow> dev_drv d = None"
  shows "ludlc_device_unregister r b =
    b\<lparr>bus_devs := (bus_devs b)(r \<mapsto> unbound (d\<lparr>dev_removed := True\<rparr>)),
      bus_channels := (\<lambda>c. if c \<in> set (dev_chans d) then None else bus_channels b c)\<rparr>"
proof -
  let ?b = "bus_update r (\<lambda>d. d\<lparr>dev_removed := True\<rparr>) b"
  have e: "?b\<lparr>bus_devs := (bus_devs ?b)(r \<mapsto> unbound (d\<lparr>dev_removed := True\<rparr>))\<rparr>
      = b\<lparr>bus_devs := (bus_devs b)(r \<mapsto> unbound (d\<lparr>dev_removed := True\<rparr>))\<rparr>"
    by (simp add: bus_update_def)
  have "device_release_driver r ?b = ?b\<lparr>bus_devs := (bus_devs ?b)(r \<mapsto> unbound (d\<lparr>dev_removed := True\<rparr>))\<rparr>"
    by (rule release_form) (use assms in auto)
  note rel = this [unfolded e]
  show ?thesis
    unfolding ludlc_device_unregister_def Let_def rel using assms(1,2) by (simp add: xa_erase_all_eq)
qed

lemma unregister_core:
  assumes core: "bus_core cf m b" and a: "\<And>d. bus_devs b r = Some d \<Longrightarrow> dev_added d"
  shows "bus_core cf m (ludlc_device_unregister r b)"
proof (cases "\<exists>d. bus_devs b r = Some d \<and> \<not> dev_removed d")
  case False
  then have "ludlc_device_unregister r b = b" by (auto simp: ludlc_device_unregister_def split: option.splits)
  then show ?thesis using core by simp
next
  case True
  then obtain d where d: "bus_devs b r = Some d" "\<not> dev_removed d" by auto
  have ok: "device_ok cf m d" by (rule bus_core_dev(1) [OF core d(1)])
  have ob: "on_bus d" using a [OF d(1)] d(2) by (simp add: on_bus_def)
  note f = unregister_form [OF d device_ok_heard [OF ok]]
  have mine: "bus_channels b c = Some r \<Longrightarrow> c \<in> set (dev_chans d)" for c
    using d(1) by (auto elim!: bus_core_entry [OF core])
  show ?thesis
    unfolding bus_core_def
  proof (intro conjI allI impI)
    fix c r' assume "bus_channels (ludlc_device_unregister r b) c = Some r'"
    then show "\<exists>d. bus_devs (ludlc_device_unregister r b) r' = Some d \<and> on_bus d \<and> c \<in> set (dev_chans d)"
      using mine d(1) by (auto simp: f split: if_splits elim!: bus_core_entry [OF core])
  next
    fix r' d' assume "bus_devs (ludlc_device_unregister r b) r' = Some d'"
    then show "device_ok cf m d'"
      using bus_core_dev(1) [OF core, of r'] ok by (auto simp: f device_ok_def split: if_splits)
  next
    fix r' d' assume q: "bus_devs (ludlc_device_unregister r b) r' = Some d'" "on_bus d'"
    show "\<forall>c\<in>set (dev_chans d'). bus_channels (ludlc_device_unregister r b) c = Some r'"
    proof (cases "r' = r")
      case True
      then show ?thesis using q by (auto simp: f on_bus_def)
    next
      case False
      then have "bus_devs b r' = Some d'" using q by (simp add: f)
      then show ?thesis
        using False q bus_core_dev(2) [OF core, of r' d'] bus_core_dev(2) [OF core d(1) ob]
        by (auto simp: f) (metis option.inject)
    qed
  qed
qed

section \<open>Walks over the channels\<close>

lemma all_channels_all [simp]: "c \<in> set all_channels"
proof -
  have "c = of_nat (unat c) \<and> unat c < 256" using unsigned_less [of c] by simp
  then show ?thesis unfolding all_channels_def by (metis atLeastLessThan_upt atLeastLessThan_iff image_eqI list.set_map zero_le)
qed

lemma fold_establishes:
  assumes "\<And>x b. I b \<Longrightarrow> I (f x b)" "\<And>x b. I b \<Longrightarrow> Q x (f x b)" "\<And>x y b. I b \<Longrightarrow> Q x b \<Longrightarrow> Q x (f y b)" "I b"
  shows "I (fold f xs b) \<and> (\<forall>x\<in>set xs. Q x (fold f xs b))"
  by (induction xs rule: rev_induct) (auto simp: assms)

lemma chan_id_own:
  assumes "c \<le> ludlc_conn_chan_id_mask cf conn"
  shows "ludlc_chan_id cf (Some conn) c = c"
proof -
  let ?k = "ludlc_conn_chan_tag_bits cf conn"
  have m: "LUDLC_CHAN_ID_MASK ?k = mask (8 - ?k)"
    by (rule bit_eqI) (auto simp: bit_chan_id_mask bit_mask_iff)
  have "unat c \<le> unat (take_bit (8 - ?k) (- 1 :: 8 word))"
    using assms by (simp add: ludlc_conn_chan_id_mask_def m word_le_nat_alt take_bit_minus_one_eq_mask)
  also have "\<dots> < 2 ^ (8 - ?k)" by (simp only: unsigned_take_bit_eq take_bit_nat_less_exp)
  finally have "unat (take_bit (8 - ?k) c) = unat c" by (simp only: unsigned_take_bit_eq take_bit_nat_eq_self)
  then have "take_bit (8 - ?k) c = c"
    by (simp only: word_unat_eq_iff)
  then show ?thesis by (simp add: ludlc_chan_id_def link_tag_bits_def m take_bit_eq_mask)
qed

lemma find_owner:
  assumes "bus_core cf m b" "ludlc_conn_chan_id_mask cf conn = m" "bus_channels b c = Some r"
  shows "ludlc_device_find_by_channel cf conn c b = Some r"
proof -
  obtain d where "c \<in> set (dev_chans d)" "device_ok cf m d" by (rule bus_core_entry [OF assms(1,3)])
  then have "c \<le> ludlc_conn_chan_id_mask cf conn" by (simp add: device_ok_def list_all_iff assms(2))
  then show ?thesis by (simp add: ludlc_device_find_by_channel_def chan_id_own assms(3))
qed

subsection \<open>Sweeping\<close>

lemma unregister_sel:
  "bus_session (ludlc_device_unregister r b) = bus_session b" "bus_populated (ludlc_device_unregister r b) = bus_populated b"
  "bus_hold (ludlc_device_unregister r b) = bus_hold b" "bus_session_lost (ludlc_device_unregister r b) = bus_session_lost b"
  by (simp_all add: ludlc_device_unregister_def device_release_driver_def ludlc_bus_remove_def Let_def split: option.splits)

text \<open>What a sweep that started at \<open>b0\<close> keeps: devices stay as they were or leave the bus.\<close>

definition swept :: "config \<Rightarrow> ludlc_channel_t \<Rightarrow> bool \<Rightarrow> ludlc_bus \<Rightarrow> ludlc_bus \<Rightarrow> bool" where
  "swept cf m en b0 b \<longleftrightarrow>
     bus_core cf m b \<and> bus_session b = bus_session b0 \<and> bus_populated b = bus_populated b0 \<and>
     bus_hold b = bus_hold b0 \<and> bus_session_lost b = bus_session_lost b0 \<and>
     (\<forall>r. bus_devs b0 r = None \<longrightarrow> bus_devs b r = None) \<and>
     (\<forall>r d. bus_devs b r = Some d \<longrightarrow> on_bus d \<longrightarrow> bus_devs b0 r = Some d) \<and>
     (\<forall>r d. bus_devs b0 r = Some d \<longrightarrow> on_bus d \<longrightarrow> en \<and> \<not> dev_enumerated d \<longrightarrow> bus_devs b r = Some d)"

definition channel_swept :: "bool \<Rightarrow> ludlc_channel_t \<Rightarrow> ludlc_bus \<Rightarrow> bool" where
  "channel_swept en c b \<longleftrightarrow>
     (\<forall>r d. bus_devs b r = Some d \<longrightarrow> on_bus d \<longrightarrow> c \<in> set (dev_chans d) \<longrightarrow> en \<and> \<not> dev_enumerated d)"

lemma sweep_one_cases:
  assumes core: "bus_core cf m b" and m: "ludlc_conn_chan_id_mask cf conn = m"
  obtains (unclaimed) "bus_channels b c = None" "bus_sweep_one cf conn en c b = b"
  | (kept) r d where "bus_channels b c = Some r" "bus_devs b r = Some d" "en" "\<not> dev_enumerated d"
      "bus_sweep_one cf conn en c b = b"
  | (taken) r d where "bus_channels b c = Some r" "bus_devs b r = Some d" "on_bus d" "\<not> en \<or> dev_enumerated d"
      "bus_sweep_one cf conn en c b =
        b\<lparr>bus_devs := (bus_devs b)(r \<mapsto> unbound (d\<lparr>dev_removed := True\<rparr>)),
          bus_channels := (\<lambda>c. if c \<in> set (dev_chans d) then None else bus_channels b c)\<rparr>"
      "bus_sweep_one cf conn en c b = ludlc_device_unregister r b"
proof (cases "bus_channels b c")
  case None
  then show thesis by (intro unclaimed) (simp_all add: bus_sweep_one_def)
next
  case (Some r)
  then obtain d where d: "bus_devs b r = Some d" "on_bus d" "device_ok cf m d" by (rule bus_core_entry [OF core])
  show thesis
  proof (cases "\<not> en \<or> dev_enumerated d")
    case True
    then have "bus_sweep_one cf conn en c b = ludlc_device_unregister r b"
      using Some d by (simp add: bus_sweep_one_def find_owner [OF core m Some])
    moreover have "\<not> dev_removed d" using d(2) by (simp add: on_bus_def)
    ultimately show thesis
      using taken [OF Some d(1,2) True] unregister_form [OF d(1) _ device_ok_heard [OF d(3)]] by simp
  next
    case False
    then show thesis
      using Some d by (intro kept) (auto simp: bus_sweep_one_def find_owner [OF core m Some])
  qed
qed

lemma sweep_one_swept:
  assumes w: "swept cf m en b0 b" and m: "ludlc_conn_chan_id_mask cf conn = m"
  shows "swept cf m en b0 (bus_sweep_one cf conn en c b)"
proof -
  have core: "bus_core cf m b" using w by (simp add: swept_def)
  from core m show ?thesis
  proof (cases rule: sweep_one_cases [where c = c and en = en])
    case (taken r d)
    have k: "bus_core cf m (bus_sweep_one cf conn en c b)"
      unfolding taken(6) by (rule unregister_core [OF core]) (use taken in \<open>auto simp: on_bus_def\<close>)
    have w1: "bus_devs b r' = Some d' \<Longrightarrow> on_bus d' \<Longrightarrow> bus_devs b0 r' = Some d'"
      and w2: "bus_devs b0 r' = Some d' \<Longrightarrow> on_bus d' \<Longrightarrow> en \<and> \<not> dev_enumerated d' \<Longrightarrow> bus_devs b r' = Some d'"
      and w3: "bus_devs b0 r' = None \<Longrightarrow> bus_devs b r' = None"
      for r' d' using w unfolding swept_def by blast+
    have w4: "bus_session b = bus_session b0 \<and> bus_populated b = bus_populated b0 \<and>
        bus_hold b = bus_hold b0 \<and> bus_session_lost b = bus_session_lost b0"
      using w unfolding swept_def by blast
    have d0: "bus_devs b0 r = Some d" by (rule w1 [OF taken(2,3)])
    have off: "\<not> on_bus (d\<lparr>dev_removed := True\<rparr>)" by (simp add: on_bus_def)
    show ?thesis
      unfolding swept_def
    proof (intro conjI allI impI)
      fix r' d' assume a: "bus_devs (bus_sweep_one cf conn en c b) r' = Some d'" "on_bus d'"
      then have "r' \<noteq> r" using off by (auto simp: taken(5))
      then show "bus_devs b0 r' = Some d'" using a by (intro w1) (simp_all add: taken(5))
    next
      fix r' d' assume a: "bus_devs b0 r' = Some d'" "on_bus d'" "en \<and> \<not> dev_enumerated d'"
      then have "r' \<noteq> r" using d0 taken(4) by auto
      then show "bus_devs (bus_sweep_one cf conn en c b) r' = Some d'" using w2 [OF a] by (simp add: taken(5))
    next
      fix r' assume a: "bus_devs b0 r' = None"
      then have "r' \<noteq> r" using d0 by auto
      then show "bus_devs (bus_sweep_one cf conn en c b) r' = None" using w3 [OF a] by (simp add: taken(5))
    qed (rule k, use w4 in \<open>simp_all add: taken(5)\<close>)
  qed (use w in simp_all)
qed

lemma sweep_one_channel:
  assumes core: "bus_core cf m b" and m: "ludlc_conn_chan_id_mask cf conn = m"
  shows "channel_swept en c (bus_sweep_one cf conn en c b)"
  using core m
proof (cases rule: sweep_one_cases [where c = c and en = en])
  case unclaimed
  then show ?thesis using bus_core_dev(2) [OF core] by (fastforce simp: channel_swept_def)
next
  case (kept r d)
  then show ?thesis
    using bus_core_dev(2) [OF core] unfolding channel_swept_def kept(5) by (metis option.inject)
next
  case (taken r d)
  have "bus_channels b c = Some r'" if "bus_devs b r' = Some d'" "on_bus d'" "c \<in> set (dev_chans d')" for r' d'
    by (rule bus_core_dev(2) [OF core that])
  then show ?thesis using taken(1) by (auto simp: channel_swept_def taken(5) on_bus_def split: if_splits)
qed

lemma sweep_one_keeps_channel:
  assumes core: "bus_core cf m b" and m: "ludlc_conn_chan_id_mask cf conn = m" and q: "channel_swept en c b"
  shows "channel_swept en c (bus_sweep_one cf conn en c' b)"
  using core m
proof (cases rule: sweep_one_cases [where c = c' and en = en])
  case (taken r d)
  then show ?thesis using q by (auto simp: channel_swept_def on_bus_def)
qed (use q in simp_all)

lemma sweep_swept:
  assumes core: "bus_core cf m b" and m: "ludlc_conn_chan_id_mask cf conn = m"
  shows "swept cf m en b (ludlc_bus_sweep cf conn en b)"
    and "bus_devs (ludlc_bus_sweep cf conn en b) r = Some d \<Longrightarrow> on_bus d \<Longrightarrow> en \<and> \<not> dev_enumerated d"
proof -
  have i: "swept cf m en b b" using core by (simp add: swept_def)
  have k: "swept cf m en b x \<Longrightarrow> bus_core cf m x" for x by (simp add: swept_def)
  have f: "swept cf m en b (ludlc_bus_sweep cf conn en b) \<and>
      (\<forall>c\<in>set all_channels. channel_swept en c (ludlc_bus_sweep cf conn en b))"
    unfolding ludlc_bus_sweep_def
    by (rule fold_establishes [where I = "swept cf m en b" and Q = "channel_swept en"])
      (use m i k in \<open>auto intro: sweep_one_swept sweep_one_channel sweep_one_keeps_channel\<close>)
  then show "swept cf m en b (ludlc_bus_sweep cf conn en b)" by blast
  assume d: "bus_devs (ludlc_bus_sweep cf conn en b) r = Some d" "on_bus d"
  have "dev_chans d \<noteq> []" using f d(1) bus_core_dev(1) [OF k] by (auto simp: device_ok_def)
  then obtain c where c: "c \<in> set (dev_chans d)" by (metis list.set_intros(1) neq_Nil_conv)
  have "channel_swept en c (ludlc_bus_sweep cf conn en b)" using f by simp
  then show "en \<and> \<not> dev_enumerated d" using c d unfolding channel_swept_def by blast
qed

subsection \<open>Populating\<close>

lemma device_alloc_ok:
  assumes "ludlc_device_alloc cf conn a cs = Inr d" "ludlc_conn_chan_id_mask cf conn = m"
  shows "device_ok cf m d" "\<not> dev_added d" "\<not> dev_removed d" "dev_drv d = None" "dev_driver d = None"
    "\<not> dev_enumerated d"
proof -
  have ok: "ludlc_channels_ok cf conn cs"
    and d: "dev_chans d = cs" "\<not> dev_added d" "\<not> dev_removed d" "dev_drv d = None" "dev_driver d = None" "\<not> dev_enumerated d"
    using assms(1) by (auto simp: ludlc_device_alloc_def split: if_splits)
  have dis: "distinct cs"
    unfolding distinct_conv_nth
  proof (intro allI impI)
    fix i j assume ij: "i < length cs" "j < length cs" "i \<noteq> j"
    have "x < length cs \<Longrightarrow> y < x \<Longrightarrow> cs ! y \<noteq> cs ! x" for x y
      using ok by (auto simp: ludlc_channels_ok_def Let_def list_all_iff split: if_splits)
    then show "cs ! i \<noteq> cs ! j" using ij by (metis linorder_neqE_nat)
  qed
  have "list_all (\<lambda>c. c \<le> m \<and> c \<noteq> CONFIG_LUDLC_CONTROL_CHANNEL cf) cs"
    using ok assms(2) by (auto simp: ludlc_channels_ok_def Let_def list_all_length list_all_iff split: if_splits)
  moreover have "cs \<noteq> []" using ok by (auto simp: ludlc_channels_ok_def Let_def)
  ultimately show "device_ok cf m d" using dis d by (simp add: device_ok_def)
qed (use assms(1) in \<open>auto simp: ludlc_device_alloc_def split: if_splits\<close>)

lemma fwnode_alloc_ok:
  assumes "ludlc_fwnode_device_alloc cf conn nd = Inr d" "ludlc_conn_chan_id_mask cf conn = m"
  shows "device_ok cf m d" "\<not> dev_added d" "\<not> dev_removed d" "dev_drv d = None" "dev_driver d = None"
  using assms(1) device_alloc_ok [OF _ assms(2)]
  by (auto simp: ludlc_fwnode_device_alloc_def split: if_splits option.splits)

text \<open>A new device, not on the bus yet.\<close>

lemma bus_core_new:
  assumes core: "bus_core cf m b" and n: "bus_devs b r = None" and d: "device_ok cf m d" "\<not> dev_added d"
    and b': "bus_devs b' = (bus_devs b)(r \<mapsto> d)" "bus_channels b' = bus_channels b"
  shows "bus_core cf m b'"
  unfolding bus_core_def b'
proof (intro conjI allI impI)
  fix c r' assume "bus_channels b c = Some r'"
  then show "\<exists>d'. ((bus_devs b)(r \<mapsto> d)) r' = Some d' \<and> on_bus d' \<and> c \<in> set (dev_chans d')"
    using n by (auto elim!: bus_core_entry [OF core])
next
  fix r' d' assume "((bus_devs b)(r \<mapsto> d)) r' = Some d'"
  then show "device_ok cf m d'"
    using bus_core_dev(1) [OF core] d by (auto split: if_splits)
next
  fix r' d' assume "((bus_devs b)(r \<mapsto> d)) r' = Some d'" "on_bus d'"
  then show "\<forall>c\<in>set (dev_chans d'). bus_channels b c = Some r'"
    using bus_core_dev(2) [OF core] d(2) by (auto simp: on_bus_def split: if_splits)
qed

lemma attach_sel:
  "bus_populated (device_attach env begun up r b) = bus_populated b"
  "bus_hold (device_attach env begun up r b) = bus_hold b"
  "bus_session_lost (device_attach env begun up r b) = bus_session_lost b"
  "bus_channels (device_attach env begun up r b) = bus_channels b"
  by (simp_all add: device_attach_def ludlc_bus_probe_def Let_def split: option.splits)

text \<open>What populating keeps: devices of other nodes as they were, its own new in this session.\<close>

definition populated_from :: "config \<Rightarrow> ludlc_channel_t \<Rightarrow> nat \<Rightarrow> dev_ref set \<Rightarrow> ludlc_bus \<Rightarrow> ludlc_bus \<Rightarrow> bool" where
  "populated_from cf m begun R b0 b \<longleftrightarrow>
     bus_core cf m b \<and> bus_populated b = bus_populated b0 \<and> bus_hold b = bus_hold b0 \<and>
     bus_session_lost b = bus_session_lost b0 \<and> (begun = 0 \<longrightarrow> bus_session b = bus_session b0) \<and>
     (\<forall>r. r \<notin> R \<longrightarrow> bus_devs b r = bus_devs b0 r) \<and>
     (\<forall>r\<in>R. \<forall>d. bus_devs b r = Some d \<longrightarrow> dev_enumerated d \<and>
        (begun = 0 \<longrightarrow> dev_driver d \<noteq> None \<longrightarrow> dev_session d = bus_session b0))"

lemma populate_one_from:
  assumes core: "bus_core cf m b" and m: "ludlc_conn_chan_id_mask cf conn = m" and n: "bus_devs b (node_dev nd) = None"
  shows "populated_from cf m begun {node_dev nd} b (bus_populate_one cf conn env begun up nd b)"
proof (cases "node_available nd \<and> (\<exists>d. ludlc_fwnode_device_alloc cf conn nd = Inr d)")
  case False
  then have "bus_populate_one cf conn env begun up nd b = b"
    by (cases "ludlc_fwnode_device_alloc cf conn nd") (auto simp: bus_populate_one_def)
  then show ?thesis using core n by (simp add: populated_from_def)
next
  case True
  then obtain d where d: "ludlc_fwnode_device_alloc cf conn nd = Inr d" by blast
  let ?r = "node_dev nd" and ?d = "d\<lparr>dev_enumerated := True\<rparr>"
  let ?b = "b\<lparr>bus_devs := (bus_devs b)(?r \<mapsto> ?d)\<rparr>"
  note dd = fwnode_alloc_ok [OF d m]
  have ok: "device_ok cf m ?d" using dd(1) by (simp add: device_ok_def on_bus_def)
  have core2: "bus_core cf m ?b" by (rule bus_core_new [OF core n ok]) (use dd in simp_all)
  have at: "bus_devs ?b ?r = Some ?d" by simp
  have e: "bus_populate_one cf conn env begun up nd b =
      (case ludlc_device_add env begun up ?r ?b of (ret, b) \<Rightarrow> if ret \<noteq> 0 then ludlc_device_put ?r b else b)"
    using True d by (simp add: bus_populate_one_def Let_def)
  have addcore: "bus_core cf m (snd (ludlc_device_add env begun up ?r ?b))"
    by (rule device_add_core [OF core2 at]) (use dd in simp_all)
  from at show ?thesis
  proof (cases rule: device_add_cases [where env = env and begun = begun and up = up])
    case (failed ret)
    have "bus_populate_one cf conn env begun up nd b = b"
      using n by (simp add: e failed ludlc_device_put_def fun_upd_idem)
    then show ?thesis using core n by (simp add: populated_from_def)
  next
    case added
    define b2 where "b2 = ?b\<lparr>bus_channels := (\<lambda>c. if c \<in> set (dev_chans ?d) then Some ?r else bus_channels ?b c),
            bus_devs := (bus_devs ?b)(?r \<mapsto> ?d\<lparr>dev_added := True\<rparr>)\<rparr>"
    have s2: "bus_devs b2 = (bus_devs b)(?r \<mapsto> ?d\<lparr>dev_added := True\<rparr>)" "bus_session b2 = bus_session b"
      "bus_populated b2 = bus_populated b" "bus_hold b2 = bus_hold b" "bus_session_lost b2 = bus_session_lost b"
      by (simp_all add: b2_def)
    note add2 = added(2) [folded b2_def]
    have p: "bus_populate_one cf conn env begun up nd b = device_attach env begun up ?r b2"
      by (simp only: e add2 split: prod.split) simp
    have "bus_devs b2 ?r = Some (?d\<lparr>dev_added := True\<rparr>)" by (simp add: s2)
    then obtain d' n where
      f: "device_attach env begun up ?r b2 = b2\<lparr>bus_devs := (bus_devs b2)(?r \<mapsto> d'), bus_session := n\<rparr>"
      and g: "bound_anew begun (bus_session b2) (?d\<lparr>dev_added := True\<rparr>) d'" "begun = 0 \<longrightarrow> n = bus_session b2"
      by (rule device_attach_form)
    have c: "bus_core cf m (device_attach env begun up ?r b2)" using addcore by (simp only: add2 snd_conv)
    have "dev_enumerated d' \<and> (begun = 0 \<longrightarrow> dev_driver d' \<noteq> None \<longrightarrow> dev_session d' = bus_session b)"
      using g(1) dd(5) s2(2) by (auto simp: bound_anew_def)
    then show ?thesis
      using c g(2) unfolding populated_from_def p f by (simp add: s2)
  qed
qed

lemma populated_from_trans:
  assumes i: "populated_from cf m begun R b0 b" and j: "populated_from cf m begun S b b'"
  shows "populated_from cf m begun (R \<union> S) b0 b'"
  unfolding populated_from_def
proof (intro conjI ballI allI impI)
  fix r d assume r: "r \<in> R \<union> S" and d: "bus_devs b' r = Some d"
  have "dev_enumerated d \<and> (begun = 0 \<longrightarrow> dev_driver d \<noteq> None \<longrightarrow> dev_session d = bus_session b0)"
  proof (cases "r \<in> S")
    case True
    have "begun = 0 \<longrightarrow> bus_session b = bus_session b0" using i by (simp add: populated_from_def)
    then show ?thesis using j True d unfolding populated_from_def by metis
  next
    case False
    then have "bus_devs b r = Some d" using j d by (simp add: populated_from_def)
    then show ?thesis using i r False unfolding populated_from_def by blast
  qed
  then show "dev_enumerated d" "begun = 0 \<Longrightarrow> dev_driver d \<noteq> None \<Longrightarrow> dev_session d = bus_session b0" by blast+
qed (use i j in \<open>simp_all add: populated_from_def\<close>)

lemma populate_from:
  assumes "ludlc_conn_chan_id_mask cf conn = m" "distinct (map node_dev kids)" "\<forall>nd\<in>set kids. bus_devs b (node_dev nd) = None"
    "bus_core cf m b"
  shows "populated_from cf m begun (node_dev ` set kids) b (ludlc_bus_populate cf conn env begun up kids b)"
  unfolding ludlc_bus_populate_def
  using assms(2-4)
proof (induction kids rule: rev_induct)
  case Nil
  then show ?case by (simp add: populated_from_def)
next
  case (snoc nd kids)
  let ?b = "fold (bus_populate_one cf conn env begun up) kids b"
  have i: "populated_from cf m begun (node_dev ` set kids) b ?b" using snoc by simp
  have core: "bus_core cf m ?b" and n: "bus_devs ?b (node_dev nd) = None"
    using i snoc.prems unfolding populated_from_def by auto
  have j: "populated_from cf m begun {node_dev nd} ?b (bus_populate_one cf conn env begun up nd ?b)"
    by (rule populate_one_from [OF core assms(1) n])
  show ?case using populated_from_trans [OF i j] by simp
qed

subsection \<open>Binding again\<close>

definition same_place :: "ludlc_device \<Rightarrow> ludlc_device \<Rightarrow> bool" where
  "same_place d d' \<longleftrightarrow>
     dev_chans d' = dev_chans d \<and> dev_enumerated d' = dev_enumerated d \<and> dev_added d' = dev_added d \<and>
     dev_removed d' = dev_removed d \<and> (dev_enumerated d \<longrightarrow> d' = d)"

lemma same_place_trans: "same_place d d' \<Longrightarrow> same_place d' d'' \<Longrightarrow> same_place d d''"
  by (auto simp: same_place_def)

definition reprobed_from :: "config \<Rightarrow> ludlc_channel_t \<Rightarrow> nat \<Rightarrow> ludlc_bus \<Rightarrow> ludlc_bus \<Rightarrow> bool" where
  "reprobed_from cf m begun b0 b \<longleftrightarrow>
     bus_core cf m b \<and> bus_populated b = bus_populated b0 \<and> bus_hold b = bus_hold b0 \<and>
     bus_session_lost b = bus_session_lost b0 \<and> (begun = 0 \<longrightarrow> bus_session b = bus_session b0) \<and>
     (\<forall>r. rel_option same_place (bus_devs b0 r) (bus_devs b r))"

lemma reprobed_from_trans:
  assumes "reprobed_from cf m begun b0 b" "reprobed_from cf m begun b b'"
  shows "reprobed_from cf m begun b0 b'"
proof -
  have "rel_option same_place (bus_devs b0 r) (bus_devs b' r)" for r
  proof -
    have "rel_option same_place (bus_devs b0 r) (bus_devs b r)" "rel_option same_place (bus_devs b r) (bus_devs b' r)"
      using assms by (simp_all add: reprobed_from_def)
    then show ?thesis
      by (cases "bus_devs b0 r"; cases "bus_devs b r"; cases "bus_devs b' r") (auto intro: same_place_trans)
  qed
  then show ?thesis using assms by (simp add: reprobed_from_def)
qed

lemma same_place_refl: "rel_option same_place x x"
  by (cases x) (auto simp: same_place_def)

text \<open>The driver of a device the link did not enumerate, filed under its first channel, is of this session.\<close>

definition channel_fresh :: "nat \<Rightarrow> nat \<Rightarrow> ludlc_channel_t \<Rightarrow> ludlc_bus \<Rightarrow> bool" where
  "channel_fresh begun s c b \<longleftrightarrow>
     (begun = 0 \<longrightarrow> (\<forall>r d. bus_devs b r = Some d \<longrightarrow> \<not> dev_enumerated d \<longrightarrow> hd (dev_chans d) = c \<longrightarrow>
        dev_driver d \<noteq> None \<longrightarrow> dev_session d = s))"

lemma reprobe_one_cases:
  assumes core: "bus_core cf m b" and m: "ludlc_conn_chan_id_mask cf conn = m"
  obtains (unclaimed) "bus_channels b c = None" "bus_reprobe_one cf conn env begun up s c b = b"
  | (kept) r d where "bus_channels b c = Some r" "bus_devs b r = Some d"
      "c \<noteq> hd (dev_chans d) \<or> dev_enumerated d \<or> dev_driver d \<noteq> None \<and> dev_session d = s"
      "bus_reprobe_one cf conn env begun up s c b = b"
  | (again) r d d' n where "bus_channels b c = Some r" "bus_devs b r = Some d" "\<not> dev_enumerated d" "on_bus d"
      "bus_reprobe_one cf conn env begun up s c b = b\<lparr>bus_devs := (bus_devs b)(r \<mapsto> d'), bus_session := n\<rparr>"
      "bound_anew begun (bus_session b) (unbound d) d'" "begun = 0 \<longrightarrow> n = bus_session b"
proof (cases "bus_channels b c")
  case None
  then show thesis by (intro unclaimed) (simp_all add: bus_reprobe_one_def)
next
  case (Some r)
  then obtain d where d: "bus_devs b r = Some d" "on_bus d" "device_ok cf m d" by (rule bus_core_entry [OF core])
  show thesis
  proof (cases "c \<noteq> hd (dev_chans d) \<or> dev_enumerated d \<or> dev_driver d \<noteq> None \<and> dev_session d = s")
    case True
    then show thesis
      using Some d by (intro kept) (auto simp: bus_reprobe_one_def find_owner [OF core m Some])
  next
    case False
    define b2 where "b2 = b\<lparr>bus_devs := (bus_devs b)(r \<mapsto> unbound d)\<rparr>"
    have rel: "device_release_driver r b = b2"
      unfolding b2_def by (rule release_form [OF d(1) device_ok_heard [OF d(3)]])
    have one: "bus_reprobe_one cf conn env begun up s c b = device_attach env begun up r b2"
      unfolding bus_reprobe_one_def find_owner [OF core m Some] using Some d(1) False by (auto simp: rel)
    have "bus_devs b2 r = Some (unbound d)" by (simp add: b2_def)
    then obtain d' n where
      f: "device_attach env begun up r b2 = b2\<lparr>bus_devs := (bus_devs b2)(r \<mapsto> d'), bus_session := n\<rparr>"
      "bound_anew begun (bus_session b2) (unbound d) d'" "begun = 0 \<longrightarrow> n = bus_session b2"
      by (rule device_attach_form)
    have "bus_reprobe_one cf conn env begun up s c b = b\<lparr>bus_devs := (bus_devs b)(r \<mapsto> d'), bus_session := n\<rparr>"
      unfolding one f(1) by (simp add: b2_def)
    moreover have "bus_session b2 = bus_session b" by (simp add: b2_def)
    ultimately show thesis
      using False f(2,3) by (intro again [OF Some d(1) _ d(2), where d' = d' and n = n]) auto
  qed
qed

lemma reprobe_one_from:
  assumes core: "bus_core cf m b" and m: "ludlc_conn_chan_id_mask cf conn = m"
  shows "reprobed_from cf m begun b (bus_reprobe_one cf conn env begun up s c b)"
  using core m
proof (cases rule: reprobe_one_cases [where c = c and s = s and env = env and begun = begun and up = up])
  case (again r d d' n)
  have ok: "device_ok cf m d" by (rule bus_core_dev(1) [OF core again(2)])
  have a: "dev_added (unbound d)" using again(4) by (simp add: on_bus_def)
  have "device_ok cf m d'" "on_bus d' = on_bus d"
    using bound_anew_ok [OF unbound_sel(8) [OF ok] again(6) a] by simp_all
  then have "bus_core cf m (bus_reprobe_one cf conn env begun up s c b)"
    by (rule bus_core_replace [OF core again(2)]) (use again(6) in \<open>simp_all add: again(5) bound_anew_def\<close>)
  moreover have "same_place d d'" using again(3,6) by (auto simp: same_place_def bound_anew_def)
  ultimately show ?thesis
    using again(2,7) by (simp add: reprobed_from_def again(5) same_place_refl)
qed (use core in \<open>simp_all add: reprobed_from_def same_place_refl\<close>)

lemma reprobe_one_channel:
  assumes core: "bus_core cf m b" and m: "ludlc_conn_chan_id_mask cf conn = m" and s: "begun = 0 \<longrightarrow> bus_session b = s"
  shows "channel_fresh begun s c (bus_reprobe_one cf conn env begun up s c b)"
proof -
  have owner: "bus_channels b c = Some r"
    if "bus_devs b r = Some d" "hd (dev_chans d) = c" "dev_driver d \<noteq> None" for r d
  proof (rule bus_core_dev(2) [OF core that(1)])
    have ok: "device_ok cf m d" by (rule bus_core_dev(1) [OF core that(1)])
    show "on_bus d" using ok that(3) by (simp add: device_ok_def)
    have "dev_chans d \<noteq> []" using ok by (simp add: device_ok_def)
    then show "c \<in> set (dev_chans d)" using hd_in_set that(2) by blast
  qed
  from core m show ?thesis
  proof (cases rule: reprobe_one_cases [where c = c and s = s and env = env and begun = begun and up = up])
    case unclaimed
    then show ?thesis using owner by (force simp: channel_fresh_def)
  next
    case (kept r d)
    then show ?thesis using owner unfolding channel_fresh_def kept(4) by (metis option.inject)
  next
    case (again r d d' n)
    have "dev_session d' = s" if "begun = 0" "dev_driver d' \<noteq> None"
      using that again(6) s by (auto simp: bound_anew_def)
    moreover have "r' = r" if "r' \<noteq> r" "bus_devs b r' = Some e" "hd (dev_chans e) = c" "dev_driver e \<noteq> None" for r' e
      using owner [OF that(2,3,4)] again(1) by simp
    ultimately show ?thesis
      unfolding channel_fresh_def again(5) by (auto split: if_splits)
  qed
qed

lemma reprobe_one_keeps_channel:
  assumes core: "bus_core cf m b" and m: "ludlc_conn_chan_id_mask cf conn = m" and s: "begun = 0 \<longrightarrow> bus_session b = s"
    and q: "channel_fresh begun s c b"
  shows "channel_fresh begun s c (bus_reprobe_one cf conn env begun up s c' b)"
  using core m
proof (cases rule: reprobe_one_cases [where c = c' and s = s and env = env and begun = begun and up = up])
  case (again r d d' n)
  have "dev_session d' = s" if "begun = 0" "dev_driver d' \<noteq> None"
    using that again(6) s by (auto simp: bound_anew_def)
  then show ?thesis using q unfolding channel_fresh_def again(5) by (auto split: if_splits)
qed (use q in simp_all)

lemma reprobe_from:
  assumes core: "bus_core cf m b" and m: "ludlc_conn_chan_id_mask cf conn = m"
  shows "reprobed_from cf m begun b (ludlc_bus_reprobe cf conn env begun up b)"
    and "channel_fresh begun (bus_session b) c (ludlc_bus_reprobe cf conn env begun up b)"
proof -
  have i: "reprobed_from cf m begun b b" using core by (simp add: reprobed_from_def same_place_refl)
  have k: "bus_core cf m x" "begun = 0 \<longrightarrow> bus_session x = bus_session b" if "reprobed_from cf m begun b x" for x
    using that by (simp_all add: reprobed_from_def)
  have "reprobed_from cf m begun b (ludlc_bus_reprobe cf conn env begun up b) \<and>
      (\<forall>c\<in>set all_channels. channel_fresh begun (bus_session b) c (ludlc_bus_reprobe cf conn env begun up b))"
    unfolding ludlc_bus_reprobe_def Let_def
  proof (rule fold_establishes [where I = "reprobed_from cf m begun b" and Q = "channel_fresh begun (bus_session b)"])
    fix x y z
    assume r: "reprobed_from cf m begun b z"
    show "reprobed_from cf m begun b (bus_reprobe_one cf conn env begun up (bus_session b) x z)"
      by (rule reprobed_from_trans [OF r reprobe_one_from [OF k(1) [OF r] m]])
    show "channel_fresh begun (bus_session b) x (bus_reprobe_one cf conn env begun up (bus_session b) x z)"
      by (rule reprobe_one_channel [OF k(1) [OF r] m k(2) [OF r]])
    assume "channel_fresh begun (bus_session b) x z"
    then show "channel_fresh begun (bus_session b) x (bus_reprobe_one cf conn env begun up (bus_session b) y z)"
      by (rule reprobe_one_keeps_channel [OF k(1) [OF r] m k(2) [OF r]])
  qed (rule i)
  then show "reprobed_from cf m begun b (ludlc_bus_reprobe cf conn env begun up b)"
    "channel_fresh begun (bus_session b) c (ludlc_bus_reprobe cf conn env begun up b)" by simp_all
qed

end
