(* ===== verification/Ludlc_Bus_Link.thy ===== *)
theory Ludlc_Bus_Link
  imports Ludlc_Bus_Inv
begin

text \<open>
  The bus against its link: what a run of the work that follows the link does, the operations of
  the bus in any order, and what taking a bus down leaves.
\<close>

section \<open>Following the link\<close>




lemma bus_core_sel [simp]:
  "bus_core cf m (b\<lparr>bus_populated := x\<rparr>) = bus_core cf m b" "bus_core cf m (b\<lparr>bus_session_lost := x\<rparr>) = bus_core cf m b"
  "enumerated_clear (b\<lparr>bus_populated := x\<rparr>) = enumerated_clear b"
  "enumerated_clear (b\<lparr>bus_session_lost := x\<rparr>) = enumerated_clear b"
  by (simp_all add: bus_core_def enumerated_clear_def)





section \<open>Runs of a bus\<close>

text \<open>
  The operations in any order: devices made, added, removed and dropped by whoever owns them,
  drivers bound and released by the core or from user space, the phases of a suspend, the
  callbacks of the link and the work they queue. \<open>m\<close> is what the tag of the link leaves of the
  channel field.
\<close>

inductive bus_reach :: "config \<Rightarrow> ludlc_channel_t \<Rightarrow> ludlc_bus \<Rightarrow> bool" for cf :: config and m :: ludlc_channel_t where
  start: "bus_devs b = Map.empty \<Longrightarrow> bus_reach cf m (ludlc_bus_conn_init b)"
| alloc: "bus_reach cf m b \<Longrightarrow> bus_devs b r = None \<Longrightarrow> ludlc_conn_chan_id_mask cf conn = m \<Longrightarrow>
    ludlc_device_alloc cf conn a chans = Inr d \<Longrightarrow> bus_reach cf m (b\<lparr>bus_devs := (bus_devs b)(r \<mapsto> d)\<rparr>)"
| add: "bus_reach cf m b \<Longrightarrow> bus_devs b r = Some d \<Longrightarrow> \<not> dev_added d \<Longrightarrow> \<not> dev_removed d \<Longrightarrow> \<not> dev_enumerated d \<Longrightarrow>
    bus_reach cf m (snd (ludlc_device_add env begun up r b))"
| unregister: "bus_reach cf m b \<Longrightarrow> bus_devs b r = Some d \<Longrightarrow> dev_added d \<Longrightarrow>
    bus_reach cf m (ludlc_device_unregister r b)"
| put: "bus_reach cf m b \<Longrightarrow> bus_devs b r = Some d \<Longrightarrow> \<not> on_bus d \<Longrightarrow> bus_reach cf m (ludlc_device_put r b)"
| attach: "bus_reach cf m b \<Longrightarrow> bus_devs b r = Some d \<Longrightarrow> dev_added d \<Longrightarrow>
    bus_reach cf m (device_attach env begun up r b)"
| release: "bus_reach cf m b \<Longrightarrow> bus_devs b r = Some d \<Longrightarrow> bus_reach cf m (device_release_driver r b)"
| listen: "bus_reach cf m b \<Longrightarrow> bus_devs b r = Some d \<Longrightarrow> bus_reach cf m (ludlc_device_listen r b)"
| unlisten: "bus_reach cf m b \<Longrightarrow> bus_devs b r = Some d \<Longrightarrow> bus_reach cf m (ludlc_device_unlisten r b)"
| pm_down: "bus_reach cf m b \<Longrightarrow> bus_devs b r = Some d \<Longrightarrow> bus_reach cf m (snd (ludlc_bus_pm_down r ret b))"
| pm_up: "bus_reach cf m b \<Longrightarrow> bus_devs b r = Some d \<Longrightarrow> bus_reach cf m (snd (ludlc_bus_pm_up r ret b))"
| prepare: "bus_reach cf m b \<Longrightarrow> bus_reach cf m (snd (ludlc_conn_prepare b))"
| finish: "bus_reach cf m b \<Longrightarrow> bus_reach cf m (ludlc_conn_complete b)"
| caps: "bus_reach cf m b \<Longrightarrow> bus_reach cf m (ludlc_bus_on_caps data b)"
| connect: "bus_reach cf m b \<Longrightarrow> bus_reach cf m (ludlc_bus_on_connect b)"
| disconnect: "bus_reach cf m b \<Longrightarrow> bus_reach cf m (ludlc_bus_on_disconnect b)"
| work: "bus_reach cf m b \<Longrightarrow> ludlc_conn_chan_id_mask cf conn = m \<Longrightarrow> distinct (map node_dev kids) \<Longrightarrow>
    \<forall>nd\<in>set kids. bus_devs b (node_dev nd) = None \<Longrightarrow>
    bus_reach cf m (ludlc_bus_link_workfn cf conn env begun kids (b\<lparr>bus_work_queued := False\<rparr>))"
















section \<open>A bus in use\<close>














section \<open>Taking a bus down, and holding one\<close>

text \<open>With the connection gone no device is on its bus.\<close>

lemma conn_destroy_empties:
  assumes "bus_ok cf m b" "ludlc_conn_chan_id_mask cf conn = m" "bus_devs (ludlc_bus_conn_destroy cf conn b) r = Some d"
  shows "\<not> on_bus d"
proof -
  have "bus_core cf m (b\<lparr>bus_work_queued := False\<rparr>)"
    by (rule bus_core_same [of cf m b]) (use assms(1) in \<open>simp_all add: bus_ok_def\<close>)
  from sweep_swept(2) [OF this assms(2), of False r d] assms(3) show ?thesis
    by (auto simp: ludlc_bus_conn_destroy_def Let_def)
qed

text \<open>
  The first call to hold a bus waits for nothing and cancels nothing: the test of
  \<open>ludlc_conn_prepare\<close> is the wrong way round, and only a call that finds the bus held already
  waits for the work.
\<close>

lemma prepare_does_not_wait:
  "\<not> bus_hold b \<Longrightarrow> \<not> fst (ludlc_conn_prepare b) \<and> bus_work_queued (snd (ludlc_conn_prepare b)) = bus_work_queued b"
  by (simp add: ludlc_conn_prepare_def)

end
