(* ===== verification/Spec2Isabelle.thy ===== *)
theory Spec2Isabelle
  imports Ludlc_Delivery Ludlc_Peers Ludlc_Channel Ludlc_Framings Ludlc_Kfifo_Threads Ludlc_Serial_Life Ludlc_Posix Ludlc_Spi_Link Ludlc_Csum_Registry Ludlc_Bus_Link
begin

text \<open>
  LuDLC, a lightweight data link control protocol: packets with seven-bit sequence numbers and
  piggy-backed acknowledgments over a lossy octet stream, for Linux, POSIX and Zephyr. The sources
  are below \<open>src/src\<close>; this development models the core, the framings, the POSIX port and the
  parts of the Linux and Zephyr ports that carry protocol logic, and proves what makes them correct.

  The program. An application hands packets to a connection (\<open>ludlc.c\<close>), which keeps a window of
  them, and is told of each what became of it. A transport takes frames from the connection, runs
  them through a framing (\<open>ludlc_hdlc.c\<close>, \<open>ludlc_cobs.c\<close> or \<open>ludlc_raw.c\<close>, chosen through
  \<open>ludlc_framing.c\<close>) and puts the octets on a UART or an SPI bus; what arrives goes the other way.
  Timers of the platform make an end ping its peer and notice that it is gone. On Linux every link
  is a bus of devices whose drivers are the applications (\<open>ludlc_bus.c\<close>), and the checksums a link
  may run come from a registry (\<open>ludlc_csum.c\<close>).

  Conventions. A structure is a record with the fields of the source, an integer a word of its
  width, a fallible operation returns its error number negated as the code does, a loop whose end is
  not evident is a \<open>partial_function\<close> whose result is an option, and that it returns is a theorem.
  No loop runs on fuel. A callback, a request to the transport and a timer are effects: an operation
  returns the list of \<open>ludlc_event\<close>s it causes, in order, or the timer it set in its record. A
  section under the lock of a connection is one step; operations of other threads fall between steps.
  Build parameters (\<open>CONFIG_LUDLC_*\<close>) are the record \<open>config\<close>, an argument of what depends on
  them, with the checks of the preprocessor as \<open>config_ok\<close>; the octets the framings reserve are
  \<open>framing_config\<close>. What a system call, an allocator or the kernel returned is an argument.

  Groundwork.
    Ludlc_Prelude: types, error numbers, arithmetic of identifiers modulo 128, hint collections.
    Ludlc_Platform: the atomic bit operations (\<open>posix/ludlc_platform.h\<close>, \<open>ludlc_platform_api.h\<close>).
    Ludlc_Config: \<open>ludlc_proto.h\<close>, \<open>ludlc_packet.h\<close>: parameters, checks, sizes, masks.
    Ludlc_Csum: checksum descriptors, the helpers the framings use, the CRC-16 of the POSIX port.
    Ludlc_Conn: \<open>ludlc_private.h\<close>: the connection, its settings, small changes of state, events.

  The core, \<open>ludlc.c\<close>.
    Ludlc_Core: enqueueing, urgent data, connecting, disconnecting, the sweep, reporting.
    Ludlc_Receive: handshake, acknowledgments, negative ones, expiry, gaps, \<open>ludlc_receive\<close>.
    Ludlc_Transmit: the next frame, its acknowledgment, timers, initialisation and cleanup.
    Ludlc_Channel: the channel field (C23).
    Ludlc_Window, Ludlc_Loops: the window read as a list, and the loops as functions on it; the
      reporting loop returns on every well-formed connection.
    Ludlc_Inv: \<open>base_inv\<close> and \<open>conn_inv\<close>, the invariants with the lock free and between calls.
    Ludlc_Ops, Ludlc_Disc, Ludlc_Nak, Ludlc_Rx, Ludlc_Steps: each operation keeps the invariant and
      what it does to the outstanding packets (\<open>op_effect\<close>).
    Ludlc_Api, Ludlc_Ledger, Ludlc_Session: calls in any order. The locale \<open>ledger\<close> states the
      contract towards an application - accepted packets are, in order, the reported ones and those
      outstanding - and is interpreted on the calls of the core (C2).
    Ludlc_Guarantees, Ludlc_Delivery: single operations: invariant, acknowledgments, disconnect,
      reporting, refusals, delivery (C3 to C8).
    Ludlc_Peer, Ludlc_Peers: two ends joined by wires that keep order and lose frames, with any
      interleaving of calls, arrivals and losses (C1). A session lasts while the link stays up and no
      packet runs out of its time to live, which the protocol asks of the settings of both ends; a
      window of at most 64 identifiers of 128 is what the checks of the build admit.

  The framings.
    Ludlc_Framing: the contract as locales: \<open>encoder\<close> (filling a buffer in chunks writes the rest of
      a frame), \<open>decoder\<close> (feeding chunks is feeding their concatenation), \<open>framing\<close> with both.
    Ludlc_Hdlc, Ludlc_Hdlc_Link: the escaping framing (C15 to C18).
    Ludlc_Cobs, Ludlc_Cobs_Enc, Ludlc_Cobs_Link, Ludlc_Cobs_Props: the stuffing framing, against a
      reference stuffing (C10 to C14).
    Ludlc_Raw, Ludlc_Raw_Link: the framing that changes nothing (C19, C20).
    Ludlc_Pool: the static objects of a framing and the allocator behind them (C21).
    Ludlc_Framings: table, lookup, wrappers; any framing carries any packet (C9, C22).
    The locales are interpreted on each framing, and the encoder on the wrappers.

  The POSIX port.
    Ludlc_Kfifo: \<open>kfifo.h\<close> as a bounded queue (C24), by the locales \<open>octet_queue\<close> and \<open>whole_queue\<close>.
    Ludlc_Kfifo_Threads: its producer and consumer interleaved access by access (C36).
    Ludlc_Serial, Ludlc_Serial_Tx, Ludlc_Serial_Rx, Ludlc_Serial_Life: \<open>ludlc_posix_serial.c\<close>: the
      two threads of a link (C25, C26), opening and closing one (C34, C35).
    Ludlc_Posix: \<open>ludlc_posix_platform.c\<close>: timers with expiries in flight (C37), the request to
      transmit against the thread that sleeps on its pipe (C38).

  SPI.
    Ludlc_Spi_Proto: \<open>ludlc_spi_proto.h\<close>: the announcement that opens an exchange (C29, C30).
    Ludlc_Spi, Ludlc_Spi_Link: the controller of the Linux port (\<open>ludlc_spi_master_drv.c\<close>) and the
      peripheral of the Zephyr port (\<open>ludlc_zephyr_spi_slave.c\<close>), run against each other with the raw
      framing (C27), and with the stuffing framing, whose decoder the loop of both never leaves (C28).

  The Linux port.
    Ludlc_Csum_Registry: \<open>ludlc_csum.c\<close>: descriptors offered, held, checked and dropped (C31 to C33).
    Ludlc_Bus, Ludlc_Bus_Inv, Ludlc_Bus_Link: \<open>ludlc_bus.c\<close>: the devices on the channels of a link,
      their drivers, the work that brings the bus in line with the link, and what a suspend holds
      back (C39, C40).

  Shortcomings of the code the models show are lemmas next to the properties they limit:
  \<open>cobs_delimiter_clash\<close>, \<open>hdlc_marks_clash\<close>, \<open>cobs_wire_len_not_exact\<close>,
  \<open>hdlc_encoded_max_too_small\<close>, \<open>cobs_dec_init_keeps_group\<close>, \<open>timeout_swallowed\<close>, \<open>tx_wait_idle\<close>,
  \<open>terminated_cleanup\<close>, \<open>periodic_stop_undone\<close>, \<open>shared_mark_cleared\<close>, \<open>init_leaves_pipes\<close>,
  \<open>cobs_completes_again\<close>, \<open>reregistered_stays\<close>, \<open>put_of_unregistered_hold\<close>,
  \<open>prepare_does_not_wait\<close>, \<open>watchdog_wraps\<close>.

  Not modelled, and why.
    Memory ordering: atomic operations are steps, and the accesses of the FIFO are as strong as its
      acquire loads and release stores make them.
    Null pointers passed for a connection, which the entry points refuse, and logging.
    The build with one fixed checksum, whose descriptor is the function it calls.
    Terminal settings, the default arguments and the static connections of the serial transport.
    The link's own suspend and resume, kernel timers, sysfs, uevents and matching in \<open>ludlc_bus.c\<close>:
      calls of the kernel, whose results are arguments. A device known by its address is not used again
      while a reference to it lasts, which the kernel's counts give.
    The serdev driver, the configfs ports and the Zephyr UART: glue between interfaces of their
      kernels, with the protocol left to the parts above.
    The samples and the tests.
\<close>

end
